(* ===== verification/Prelude.thy ===== *)
theory Prelude
  imports Main "HOL-Library.Word" "HOL-Library.Signed_Division" "HOL-Library.Multiset"
begin

text \<open>
  What every component of the queue collection shares: the results a C operation can have, the
  C arithmetic the code relies on (32-bit \<^verbatim>\<open>int\<close>, truncating remainder), checked
  array accesses, and generic lemmas about words, lists and slots of a ring.

  An operation of the code is a function into \<open>outcome\<close>: it returns a value, it runs into
  behaviour C leaves undefined (a fault: an index outside its array, a signed overflow, a division
  by zero, a dangling pointer), or it never returns (a spin loop on memory nobody else changes).
\<close>

section \<open>Outcomes of C operations\<close>

datatype fault =
    BadIndex
  | SignedOverflow
  | DivByZero
  | NullPointer
  | BadPointer
  | UseAfterFree
  | DoubleFree
  | Uninitialised

datatype 'a outcome = Ret 'a | Fault fault | Hang

primrec bindO :: "'a outcome \<Rightarrow> ('a \<Rightarrow> 'b outcome) \<Rightarrow> 'b outcome" where
  "bindO (Ret x) f = f x"
| "bindO (Fault e) f = Fault e"
| "bindO Hang f = Hang"

named_theorems c_simps \<open>evaluation of the shared C operations\<close>
named_theorems ring_defs \<open>definitions of the ring micro-operations\<close>

lemma bindO_Ret_iff:
  "bindO r f = Ret y \<longleftrightarrow> (\<exists>x. r = Ret x \<and> f x = Ret y)"
  by (cases r) auto

lemma bindO_assoc: "bindO (bindO r f) g = bindO r (\<lambda>x. bindO (f x) g)"
  by (cases r) auto

text \<open>The state an operation leaves, without its return value.\<close>

definition run_state :: "('a \<times> 's) outcome \<Rightarrow> 's outcome" where
  "run_state r = bindO r (\<lambda>(_, s). Ret s)"

lemma run_state_simps [simp]:
  "run_state (Ret (x, s)) = Ret s" "run_state (Fault e) = Fault e" "run_state Hang = Hang"
  by (simp_all add: run_state_def)

section \<open>C integers\<close>

type_synonym c_int = "32 word"
type_synonym atom = "32 word"

abbreviation INT_MAX :: int where
  "INT_MAX \<equiv> 2147483647"

abbreviation INT_MIN :: int where
  "INT_MIN \<equiv> - 2147483648"

text \<open>
  \<^verbatim>\<open>++x\<close> on a plain \<^verbatim>\<open>int\<close> is undefined at \<open>INT_MAX\<close>; the
  \<^verbatim>\<open>__sync_add_and_fetch\<close> builtins wrap around, as word addition does.
\<close>

definition c_incr :: "c_int \<Rightarrow> c_int outcome" where
  "c_incr x = (if sint x = INT_MAX then Fault SignedOverflow else Ret (x + 1))"

text \<open>\<^verbatim>\<open>a - b\<close> on plain \<^verbatim>\<open>int\<close>s, undefined when the difference does not fit.\<close>

definition c_sub :: "int \<Rightarrow> int \<Rightarrow> int outcome" where
  "c_sub a b = (if INT_MIN \<le> a - b \<and> a - b \<le> INT_MAX then Ret (a - b) else Fault SignedOverflow)"

text \<open>\<^verbatim>\<open>a % b\<close>: the remainder has the sign of \<open>a\<close>; \<^verbatim>\<open>b = 0\<close> is undefined.\<close>

definition c_mod :: "int \<Rightarrow> int \<Rightarrow> int outcome" where
  "c_mod a b = (if b = 0 then Fault DivByZero else Ret (a smod b))"

lemma smod_nonneg: "0 \<le> (a::int) \<Longrightarrow> 0 < b \<Longrightarrow> a smod b = a mod b"
  by (simp add: smod_int_alt_def sgn_if)

lemma smod_neg: "(a::int) < 0 \<Longrightarrow> 0 < b \<Longrightarrow> a smod b = - ((- a) mod b)"
  by (simp add: smod_int_alt_def sgn_if)

lemma c_mod_nonneg [c_simps]: "0 \<le> a \<Longrightarrow> 0 < b \<Longrightarrow> c_mod a b = Ret (a mod b)"
  by (simp add: c_mod_def smod_nonneg)

lemma sint_range: "INT_MIN \<le> sint (x :: c_int) \<and> sint x \<le> INT_MAX"
  using sint_greater_eq [of x] sint_less [of x] by simp

lemma sint_of_int: "INT_MIN \<le> a \<Longrightarrow> a \<le> INT_MAX \<Longrightarrow> sint (word_of_int a :: c_int) = a"
  by (simp add: signed_of_int signed_take_bit_int_eq_self)

lemma sint_incr: "sint x < INT_MAX \<Longrightarrow> sint (x + 1 :: c_int) = sint x + 1"
proof -
  assume a: "sint x < INT_MAX"
  have "x + 1 = word_of_int (sint x + 1)"
    by simp
  then show ?thesis
    using a sint_range [of x] sint_of_int [of "sint x + 1"] by simp
qed

lemma sint_wrap: "sint x = INT_MAX \<Longrightarrow> sint (x + 1 :: c_int) = INT_MIN"
proof -
  assume a: "sint x = INT_MAX"
  have "x + 1 = word_of_int (sint x + 1)"
    by simp
  also have "\<dots> = (word_of_int INT_MIN :: c_int)"
    unfolding a by simp
  finally have "sint (x + 1) = sint (word_of_int INT_MIN :: c_int)"
    by (rule arg_cong)
  also have "\<dots> = INT_MIN"
    by (rule sint_of_int) simp_all
  finally show ?thesis .
qed

lemma c_incr_ok: "sint x < INT_MAX \<Longrightarrow> c_incr x = Ret (x + 1)"
  by (simp add: c_incr_def)

lemma sint_inject: "sint (x :: c_int) = sint y \<Longrightarrow> x = y"
  by (rule signed_word_eqI)

section \<open>Arrays\<close>

text \<open>An array is a list; an access outside it is a fault.\<close>

definition arr_read :: "'a list \<Rightarrow> int \<Rightarrow> 'a outcome" where
  "arr_read d i = (if 0 \<le> i \<and> nat i < length d then Ret (d ! nat i) else Fault BadIndex)"

definition arr_write :: "'a list \<Rightarrow> int \<Rightarrow> 'a \<Rightarrow> 'a list outcome" where
  "arr_write d i x = (if 0 \<le> i \<and> nat i < length d then Ret (d[nat i := x]) else Fault BadIndex)"

lemma arr_read_ok [c_simps]: "i < length d \<Longrightarrow> arr_read d (int i) = Ret (d ! i)"
  by (simp add: arr_read_def)

lemma arr_write_ok [c_simps]: "i < length d \<Longrightarrow> arr_write d (int i) x = Ret (d[i := x])"
  by (simp add: arr_write_def)

text \<open>\<^verbatim>\<open>for (int i=0;i<n;i++) a[i] = v;\<close>\<close>

primrec fill :: "nat \<Rightarrow> 'a \<Rightarrow> 'a list \<Rightarrow> 'a list outcome" where
  "fill 0 v d = Ret d"
| "fill (Suc n) v d = bindO (fill n v d) (\<lambda>d'. arr_write d' (int n) v)"

lemma fill_partial: "n \<le> length d \<Longrightarrow> fill n v d = Ret (replicate n v @ drop n d)"
proof (induction n)
  case 0
  then show ?case by simp
next
  case (Suc n)
  then have "drop n d = d ! n # drop (Suc n) d"
    by (simp add: Cons_nth_drop_Suc)
  then show ?case
    using Suc by (simp add: arr_write_def list_update_append replicate_append_same [symmetric])
qed

lemma fill_all [simp]: "length d = n \<Longrightarrow> fill n v d = Ret (replicate n v)"
  by (simp add: fill_partial)

section \<open>Sums over threads\<close>

text \<open>A sum in which one term changes.\<close>

lemma sum_change:
  assumes "i < (n :: nat)" and "\<And>j. j < n \<Longrightarrow> j \<noteq> i \<Longrightarrow> g j = (f j :: nat)"
  shows "sum g {..<n} + f i = sum f {..<n} + g i"
proof -
  have "sum g ({..<n} - {i}) = sum f ({..<n} - {i})"
    using assms(2) by (intro sum.cong) auto
  then show ?thesis
    using assms(1) sum.remove [of "{..<n}" i g] sum.remove [of "{..<n}" i f] by simp
qed

lemma sum_upd:
  fixes f :: "'b \<Rightarrow> 'c :: comm_monoid_add"
  assumes "i < (n::nat)"
  shows "(\<Sum>j<n. f (if j = i then y else g j)) + f (g i) = (\<Sum>j<n. f (g j)) + f y"
proof -
  have i: "i \<in> {..<n}"
    using assms by simp
  have "(\<Sum>j<n. f (if j = i then y else g j)) = f y + (\<Sum>j\<in>{..<n} - {i}. f (if j = i then y else g j))"
    using sum.remove [OF finite_lessThan i, of "\<lambda>j. f (if j = i then y else g j)"] by simp
  also have "(\<Sum>j\<in>{..<n} - {i}. f (if j = i then y else g j)) = (\<Sum>j\<in>{..<n} - {i}. f (g j))"
    by (rule sum.cong) auto
  finally show ?thesis
    using sum.remove [OF finite_lessThan i, of "\<lambda>j. f (g j)"] by (simp add: ac_simps)
qed

lemma sum_upd_same:
  fixes f :: "'b \<Rightarrow> 'c :: comm_monoid_add"
  assumes "f y = f (g i)"
  shows "(\<Sum>j<n. f (if j = i then y else g j)) = (\<Sum>j<(n::nat). f (g j))"
  using assms by (intro sum.cong) auto

section \<open>Slots of a ring\<close>

lemma mod_slot_inj:
  assumes "a mod m = b mod m" and "a \<le> b" and "b < a + m"
  shows "a = (b::nat)"
proof -
  have "m dvd b - a"
    using assms(1,2) by (metis mod_eq_dvd_iff_nat)
  moreover have "b - a < m"
    using assms(2,3) by simp
  ultimately have "b - a = 0"
    using nat_dvd_not_less by blast
  then show ?thesis
    using assms(2) by simp
qed

text \<open>The slots that hold the tickets from \<open>h\<close> up to \<open>t\<close>, and the window of their values.\<close>

definition live :: "nat \<Rightarrow> nat \<Rightarrow> nat \<Rightarrow> nat set" where
  "live m h t = (\<lambda>k. k mod m) ` {h..<t}"

definition window :: "nat \<Rightarrow> 'a list \<Rightarrow> nat \<Rightarrow> nat \<Rightarrow> 'a list" where
  "window m d h t = map (\<lambda>k. d ! (k mod m)) [h..<t]"

lemma window_empty [simp]: "window m d h h = []"
  by (simp add: window_def)

lemma length_window [simp]: "length (window m d h t) = t - h"
  by (simp add: window_def)

lemma live_empty [simp]: "live m h h = {}"
  by (simp add: live_def)

lemma live_Suc: "h \<le> t \<Longrightarrow> live m h (Suc t) = insert (t mod m) (live m h t)"
  by (simp add: live_def atLeastLessThanSuc)

lemma slot_fresh: "h \<le> t \<Longrightarrow> t < h + m \<Longrightarrow> t mod m \<notin> live m h t"
  by (auto simp: live_def dest: mod_slot_inj [OF sym])

lemma live_pop:
  assumes "h < t" and "t \<le> h + m"
  shows "live m (Suc h) t = live m h t - {h mod m}"
proof -
  have "{h..<t} = insert h {Suc h..<t}"
    using assms(1) by auto
  then have "live m h t = insert (h mod m) (live m (Suc h) t)"
    by (simp add: live_def)
  moreover have "h mod m \<notin> live m (Suc h) t"
  proof
    assume "h mod m \<in> live m (Suc h) t"
    then obtain k where "h mod m = k mod m" and "Suc h \<le> k" and "k < t"
      by (auto simp: live_def)
    then show False
      using mod_slot_inj [of h m k] assms(2) by simp
  qed
  ultimately show ?thesis
    by auto
qed

lemma window_update:
  assumes "i \<notin> live m h t"
  shows "window m (d[i := x]) h t = window m d h t"
  unfolding window_def
proof (rule map_cong [OF refl])
  fix k assume "k \<in> set [h..<t]"
  then have "k mod m \<in> live m h t"
    by (simp add: live_def)
  with assms show "d[i := x] ! (k mod m) = d ! (k mod m)"
    by (metis nth_list_update_neq)
qed

lemma window_snoc:
  assumes "0 < m" and "length d = m" and "h \<le> t" and "t < h + m"
  shows "window m (d[t mod m := x]) h (Suc t) = window m d h t @ [x]"
proof -
  have "window m (d[t mod m := x]) h (Suc t)
      = window m (d[t mod m := x]) h t @ [d[t mod m := x] ! (t mod m)]"
    using assms(3) by (simp add: window_def)
  also have "\<dots> = window m d h t @ [x]"
    using assms by (simp add: window_update slot_fresh)
  finally show ?thesis .
qed

lemma window_Cons: "h < t \<Longrightarrow> window m d h t = d ! (h mod m) # window m d (Suc h) t"
  by (simp add: window_def upt_conv_Cons)

lemma window_pop:
  assumes "h < t" and "t \<le> h + m"
  shows "window m (d[h mod m := x]) (Suc h) t = tl (window m d h t)"
  using assms by (simp add: window_Cons window_update live_pop)

end
