(* ===== verification/Queue_Contract.thy ===== *)
theory Queue_Contract
  imports Prelude
begin

text \<open>
  The interface the benchmark programs use: every queue of the collection is driven through one
  enqueue and one dequeue operation. The locale \<open>fifo_queue\<close> states what a queue promises
  to one caller, over an abstraction of its state to the list of elements it holds;
  \<open>bounded_fifo\<close> adds when an enqueue is allowed (a capacity, and a budget of ticket
  increments before the 32-bit counters run out). The clients are the loops of the single-threaded
  tests and arbitrary sequences of calls; their lemmas are proved once here and reach each queue by
  interpretation.
\<close>

section \<open>Client programs\<close>

text \<open>\<^verbatim>\<open>for (i=0;i<n;i++) enqueue(xs[i])\<close> and
  \<^verbatim>\<open>for (i=0;i<n;i++) out[i] = dequeue()\<close>.\<close>

fun enq_all :: "('a \<Rightarrow> 's \<Rightarrow> 's outcome) \<Rightarrow> 'a list \<Rightarrow> 's \<Rightarrow> 's outcome" where
  "enq_all enq [] s = Ret s"
| "enq_all enq (x # xs) s = bindO (enq x s) (enq_all enq xs)"

fun deq_n :: "('s \<Rightarrow> ('a \<times> 's) outcome) \<Rightarrow> nat \<Rightarrow> 's \<Rightarrow> ('a list \<times> 's) outcome" where
  "deq_n deq 0 s = Ret ([], s)"
| "deq_n deq (Suc n) s =
     bindO (deq s) (\<lambda>(x, s'). bindO (deq_n deq n s') (\<lambda>(xs, s''). Ret (x # xs, s'')))"

lemma deq_n_snoc:
  "deq_n deq (Suc n) s =
     bindO (deq_n deq n s) (\<lambda>(xs, s'). bindO (deq s') (\<lambda>(x, s''). Ret (xs @ [x], s'')))"
proof (induction n arbitrary: s)
  case 0
  then show ?case by (cases "deq s") auto
next
  case (Suc n)
  show ?case
  proof (cases "deq s")
    case (Ret p)
    obtain x s1 where p: "p = (x, s1)"
      by (cases p)
    show ?thesis
      using Suc [of s1] Ret p
      by (simp add: bindO_assoc case_prod_beta del: deq_n.simps(2) add: deq_n.simps(2) [of deq "Suc n" s]
          deq_n.simps(2) [of deq n s])
  qed simp_all
qed

text \<open>An arbitrary sequence of calls, and what a bounded FIFO list answers to it.\<close>

datatype 'a qcall = Put 'a | Take

fun impl_run :: "('a \<Rightarrow> 's \<Rightarrow> 's outcome) \<Rightarrow> ('s \<Rightarrow> ('a \<times> 's) outcome) \<Rightarrow> 'a qcall list \<Rightarrow> 's
    \<Rightarrow> ('a list \<times> 's) outcome" where
  "impl_run enq deq [] s = Ret ([], s)"
| "impl_run enq deq (Put x # cs) s = bindO (enq x s) (impl_run enq deq cs)"
| "impl_run enq deq (Take # cs) s =
     bindO (deq s) (\<lambda>(x, s'). bindO (impl_run enq deq cs s') (\<lambda>(xs, s''). Ret (x # xs, s'')))"

fun spec_run :: "nat \<Rightarrow> 'a qcall list \<Rightarrow> 'a list \<Rightarrow> ('a list \<times> 'a list) option" where
  "spec_run c [] q = Some ([], q)"
| "spec_run c (Put x # cs) q = (if length q < c then spec_run c cs (q @ [x]) else None)"
| "spec_run c (Take # cs) q =
     (case q of [] \<Rightarrow> None
      | x # q' \<Rightarrow> map_option (\<lambda>(xs, q''). (x # xs, q'')) (spec_run c cs q'))"

fun puts :: "'a qcall list \<Rightarrow> 'a list" where
  "puts [] = []"
| "puts (Put x # cs) = x # puts cs"
| "puts (Take # cs) = puts cs"

section \<open>The contract of a queue\<close>

locale fifo_queue =
  fixes inv :: "'s \<Rightarrow> bool"
    and abs :: "'s \<Rightarrow> 'a list"
    and ready :: "'a \<Rightarrow> 's \<Rightarrow> bool"
    and enq :: "'a \<Rightarrow> 's \<Rightarrow> 's outcome"
    and deq :: "'s \<Rightarrow> ('a \<times> 's) outcome"
  assumes enq_law: "inv s \<Longrightarrow> ready x s \<Longrightarrow> \<exists>s'. enq x s = Ret s' \<and> inv s' \<and> abs s' = abs s @ [x]"
    and deq_law: "inv s \<Longrightarrow> abs s = x # xs \<Longrightarrow> \<exists>s'. deq s = Ret (x, s') \<and> inv s' \<and> abs s' = xs"
begin

lemma deq_some: "inv s \<Longrightarrow> n \<le> length (abs s) \<Longrightarrow>
  \<exists>s'. deq_n deq n s = Ret (take n (abs s), s') \<and> inv s' \<and> abs s' = drop n (abs s)"
proof (induction n arbitrary: s)
  case 0
  then show ?case by simp
next
  case (Suc n)
  then obtain x xs where q: "abs s = x # xs"
    by (cases "abs s") auto
  with Suc.prems obtain s' where s': "deq s = Ret (x, s')" "inv s'" "abs s' = xs"
    using deq_law by blast
  with Suc.IH [of s'] Suc.prems q show ?case
    by (auto simp: s')
qed

end

locale bounded_fifo = fifo_queue inv abs ready enq deq
  for inv :: "'s \<Rightarrow> bool" and abs :: "'s \<Rightarrow> 'a list" and ready enq deq +
  fixes item :: "'a \<Rightarrow> bool"
    and cap :: nat
    and budget :: "'s \<Rightarrow> nat"
  assumes ready_law: "inv s \<Longrightarrow> length (abs s) < cap \<Longrightarrow> 0 < budget s \<Longrightarrow> item x \<Longrightarrow> ready x s"
    and budget_enq: "inv s \<Longrightarrow> ready x s \<Longrightarrow> enq x s = Ret s' \<Longrightarrow> budget s \<le> Suc (budget s')"
    and budget_deq: "inv s \<Longrightarrow> abs s = x # xs \<Longrightarrow> deq s = Ret (x, s') \<Longrightarrow> budget s \<le> budget s'"
begin

lemma enq_room:
  assumes "inv s" and "length (abs s) < cap" and "0 < budget s" and "item x"
  shows "\<exists>s'. enq x s = Ret s' \<and> inv s' \<and> abs s' = abs s @ [x] \<and> budget s \<le> Suc (budget s')"
  using enq_law [OF assms(1) ready_law [OF assms]] budget_enq [OF assms(1) ready_law [OF assms]]
  by blast

text \<open>A sequence of calls the bounded list accepts is answered alike by the implementation.\<close>

lemma run_refines:
  "inv s \<Longrightarrow> spec_run cap cs (abs s) = Some (outs, q') \<Longrightarrow> length (puts cs) \<le> budget s
   \<Longrightarrow> list_all item (puts cs)
   \<Longrightarrow> \<exists>s'. impl_run enq deq cs s = Ret (outs, s') \<and> inv s' \<and> abs s' = q'"
proof (induction cs arbitrary: s outs)
  case Nil
  then show ?case by simp
next
  case (Cons c cs)
  show ?case
  proof (cases c)
    case (Put x)
    with Cons.prems obtain s' where s': "enq x s = Ret s'" "inv s'" "abs s' = abs s @ [x]"
        "budget s \<le> Suc (budget s')"
      using enq_room [of s x] by (auto split: if_splits)
    moreover have "spec_run cap cs (abs s') = Some (outs, q')"
      using Cons.prems(2) Put s'(3) by (simp split: if_splits)
    ultimately show ?thesis
      using Cons.IH [of s' outs] Cons.prems(3,4) Put by simp
  next
    case Take
    with Cons.prems(2) obtain x xs where q: "abs s = x # xs"
      by (cases "abs s") auto
    with Cons.prems(1) obtain s' where s': "deq s = Ret (x, s')" "inv s'" "abs s' = xs"
      using deq_law by blast
    from Cons.prems(2) Take q obtain outs' where o: "outs = x # outs'"
        "spec_run cap cs (abs s') = Some (outs', q')"
      using s'(3) by auto
    have "budget s \<le> budget s'"
      using budget_deq [OF Cons.prems(1) q s'(1)] .
    with Cons.IH [of s' outs'] Cons.prems(3,4) Take s' o show ?thesis
      by auto
  qed
qed

lemma enq_all_budget:
  "inv s \<Longrightarrow> length (abs s) + length xs \<le> cap \<Longrightarrow> length xs \<le> budget s \<Longrightarrow> list_all item xs
   \<Longrightarrow> \<exists>s'. enq_all enq xs s = Ret s' \<and> inv s' \<and> abs s' = abs s @ xs \<and> budget s \<le> length xs + budget s'"
proof (induction xs arbitrary: s)
  case Nil
  then show ?case by simp
next
  case (Cons x xs)
  then obtain s' where s': "enq x s = Ret s'" "inv s'" "abs s' = abs s @ [x]"
      "budget s \<le> Suc (budget s')"
    using enq_room [of s x] by auto
  with Cons.IH [of s'] Cons.prems show ?case
    by force
qed

lemma enq_all_ok:
  "inv s \<Longrightarrow> length (abs s) + length xs \<le> cap \<Longrightarrow> length xs \<le> budget s \<Longrightarrow> list_all item xs
   \<Longrightarrow> \<exists>s'. enq_all enq xs s = Ret s' \<and> inv s' \<and> abs s' = abs s @ xs"
  using enq_all_budget by blast

text \<open>The shape of every single-threaded test: \<open>n\<close> enqueues, then \<open>n\<close> dequeues.\<close>

lemma fill_drain:
  assumes "inv s" and "abs s = []" and "length xs \<le> cap" and "length xs \<le> budget s"
    and "list_all item xs"
  shows "\<exists>s'. bindO (enq_all enq xs s) (deq_n deq (length xs)) = Ret (xs, s') \<and> inv s' \<and> abs s' = []"
proof -
  obtain s1 where "enq_all enq xs s = Ret s1" "inv s1" "abs s1 = xs"
    using enq_all_ok [of s xs] assms by auto
  with deq_some [of s1 "length xs"] show ?thesis
    by auto
qed

end

text \<open>A queue whose dequeue answers -1 when it is empty, as the draining loops expect.\<close>

locale polled_queue = fifo_queue inv abs ready enq deq
  for inv :: "'s \<Rightarrow> bool" and abs :: "'s \<Rightarrow> atom list" and ready enq deq +
  assumes empty_law: "inv s \<Longrightarrow> abs s = [] \<Longrightarrow> deq s = Ret (- 1, s)"
begin

lemma drained: "inv s \<Longrightarrow> \<exists>s'. deq_n deq (Suc (length (abs s))) s = Ret (abs s @ [- 1], s') \<and> inv s' \<and> abs s' = []"
proof (induction "abs s" arbitrary: s)
  case Nil
  then show ?case
    using empty_law [of s] by simp
next
  case (Cons x xs)
  then obtain s' where s': "deq s = Ret (x, s')" "inv s'" "abs s' = xs"
    using deq_law by metis
  then obtain s'' where "deq_n deq (Suc (length xs)) s' = Ret (xs @ [- 1], s'')" "inv s''" "abs s'' = []"
    using Cons(1) [of s'] by auto
  with s' show ?case
    unfolding Cons(2) [symmetric] by simp
qed

end

end
