(* ===== verification/Ring_Ops.thy ===== *)
theory Ring_Ops
  imports Queue_Contract
begin

text \<open>
  The ring all array queues of the collection share: two ever increasing 32-bit counters (the
  tickets) and an array indexed by \<^verbatim>\<open>ticket % size\<close>, where the value 0 marks an empty
  slot. This theory holds the record, the micro-operations the C functions are made of (one per
  atomic memory access), the abstraction of a ring to the list of its elements, the invariant of
  sequential use, and the facts about whole enqueues and dequeues that the components share.
  The array size is the parameter \<open>m\<close> (\<^verbatim>\<open>MAX_SIZE\<close> or \<^verbatim>\<open>QUEUE_SIZE\<close> in the code).
\<close>

section \<open>State and micro-operations\<close>

record ringbuf =
  head :: c_int
  tail :: c_int
  data :: "atom list"

text \<open>\<^verbatim>\<open>__sync_add_and_fetch(&q->tail,1)\<close> and the same on \<^verbatim>\<open>head\<close>: the new value, and the
  state with it; both wrap around.\<close>

definition fetch_tail :: "ringbuf \<Rightarrow> c_int \<times> ringbuf" where
  "fetch_tail q = (tail q + 1, q\<lparr>tail := tail q + 1\<rparr>)"

definition fetch_head :: "ringbuf \<Rightarrow> c_int \<times> ringbuf" where
  "fetch_head q = (head q + 1, q\<lparr>head := head q + 1\<rparr>)"

text \<open>\<^verbatim>\<open>data[cur % m] = x\<close>, \<^verbatim>\<open>data[cur % m]\<close> and
  \<^verbatim>\<open>__sync_fetch_and_and(&data[cur % m], 0)\<close>.\<close>

definition store_slot :: "nat \<Rightarrow> c_int \<Rightarrow> atom \<Rightarrow> ringbuf \<Rightarrow> ringbuf outcome" where
  "store_slot m cur x q =
     bindO (c_mod (sint cur) (int m)) (\<lambda>i.
     bindO (arr_write (data q) i x) (\<lambda>d. Ret (q\<lparr>data := d\<rparr>)))"

definition load_slot :: "nat \<Rightarrow> c_int \<Rightarrow> ringbuf \<Rightarrow> atom outcome" where
  "load_slot m cur q = bindO (c_mod (sint cur) (int m)) (arr_read (data q))"

definition and_slot :: "nat \<Rightarrow> c_int \<Rightarrow> atom \<Rightarrow> ringbuf \<Rightarrow> ringbuf outcome" where
  "and_slot m cur b q = bindO (load_slot m cur q) (\<lambda>v. store_slot m cur (and v b) q)"

text \<open>
  \<^verbatim>\<open>while (!*target) {}\<close> as one caller alone sees it: nobody else writes the slot, so the
  loop rereads the same memory. It may not return, hence the option.
\<close>

partial_function (option) spin_slot :: "nat \<Rightarrow> c_int \<Rightarrow> ringbuf \<Rightarrow> unit outcome option" where
  "spin_slot m cur q =
     (case load_slot m cur q of
        Ret v \<Rightarrow> if v = 0 then spin_slot m cur q else Some (Ret ())
      | Fault e \<Rightarrow> Some (Fault e)
      | Hang \<Rightarrow> Some Hang)"

definition await_slot :: "nat \<Rightarrow> c_int \<Rightarrow> ringbuf \<Rightarrow> unit outcome" where
  "await_slot m cur q = (case spin_slot m cur q of None \<Rightarrow> Hang | Some r \<Rightarrow> r)"

lemmas ring_ops = fetch_tail_def fetch_head_def store_slot_def load_slot_def and_slot_def

lemma spin_slot_diverges:
  assumes "load_slot m cur q = Ret 0"
  shows "spin_slot m cur q = None"
proof (rule ccontr)
  assume "spin_slot m cur q \<noteq> None"
  then obtain r where r: "spin_slot m cur q = Some r"
    by blast
  have "load_slot m cur q \<noteq> Ret 0"
  proof (rule spin_slot.raw_induct [OF _ r])
    fix f and m' cur' q' r'
    assume IH: "\<And>m cur q r. f m cur q = Some r \<Longrightarrow> load_slot m cur q \<noteq> Ret 0"
      and eq: "(case load_slot m' cur' q' of Ret v \<Rightarrow> if v = 0 then f m' cur' q' else Some (Ret ())
                | Fault e \<Rightarrow> Some (Fault e) | Hang \<Rightarrow> Some Hang) = Some r'"
    show "load_slot m' cur' q' \<noteq> Ret 0"
      using IH eq by (auto split: outcome.splits if_splits)
  qed
  with assms show False
    by blast
qed

text \<open>Executable form: the spin loop returns exactly when the slot is not empty.\<close>

lemma await_slot_eq [code]:
  "await_slot m cur q =
     (case load_slot m cur q of Ret v \<Rightarrow> if v = 0 then Hang else Ret ()
      | Fault e \<Rightarrow> Fault e | Hang \<Rightarrow> Hang)"
proof (cases "load_slot m cur q")
  case (Ret v)
  show ?thesis
  proof (cases "v = 0")
    case True
    with Ret show ?thesis
      by (simp add: await_slot_def spin_slot_diverges)
  next
    case False
    with Ret show ?thesis
      by (simp add: await_slot_def spin_slot.simps)
  qed
qed (simp_all add: await_slot_def spin_slot.simps)

section \<open>Abstraction and invariant of sequential use\<close>

text \<open>Tickets count from 0: \<open>tickets_out\<close> were handed to dequeuers, \<open>tickets_in\<close> to enqueuers.\<close>

definition tickets_out :: "ringbuf \<Rightarrow> nat" where
  "tickets_out q = nat (sint (head q) + 1)"

definition tickets_in :: "ringbuf \<Rightarrow> nat" where
  "tickets_in q = nat (sint (tail q) + 1)"

definition ring_list :: "nat \<Rightarrow> ringbuf \<Rightarrow> atom list" where
  "ring_list m q = window m (data q) (tickets_out q) (tickets_in q)"

definition ring_inv :: "nat \<Rightarrow> ringbuf \<Rightarrow> bool" where
  "ring_inv m q \<longleftrightarrow>
     0 < m \<and> length (data q) = m
     \<and> - 1 \<le> sint (head q) \<and> sint (head q) \<le> sint (tail q) \<and> sint (tail q) - sint (head q) \<le> int m
     \<and> (\<forall>i < m. (data q ! i = 0) \<longleftrightarrow> i \<notin> live m (tickets_out q) (tickets_in q))"

text \<open>How many more enqueues the 32-bit tail counter can number.\<close>

definition ring_budget :: "ringbuf \<Rightarrow> nat" where
  "ring_budget q = nat (INT_MAX - sint (tail q))"

definition ring_ready :: "nat \<Rightarrow> atom \<Rightarrow> ringbuf \<Rightarrow> bool" where
  "ring_ready m x q \<longleftrightarrow> x \<noteq> 0 \<and> length (ring_list m q) < m \<and> 0 < ring_budget q"

lemma ring_invD:
  assumes "ring_inv m q"
  shows "0 < m" "length (data q) = m" "sint (head q) = int (tickets_out q) - 1"
    "sint (tail q) = int (tickets_in q) - 1" "tickets_out q \<le> tickets_in q"
    "tickets_in q \<le> tickets_out q + m"
    "i < m \<Longrightarrow> (data q ! i = 0) = (i \<notin> live m (tickets_out q) (tickets_in q))"
  using assms by (auto simp: ring_inv_def tickets_out_def tickets_in_def)

lemma length_ring_list: "length (ring_list m q) = tickets_in q - tickets_out q"
  by (simp add: ring_list_def)

lemma ring_list_nonzero:
  assumes "ring_inv m q"
  shows "0 \<notin> set (ring_list m q)"
proof
  assume "0 \<in> set (ring_list m q)"
  then obtain k where k: "tickets_out q \<le> k" "k < tickets_in q" "data q ! (k mod m) = 0"
    by (auto simp: ring_list_def window_def)
  then have "k mod m \<in> live m (tickets_out q) (tickets_in q)"
    by (simp add: live_def)
  with k(3) ring_invD(7) [OF assms, of "k mod m"] ring_invD(1) [OF assms] show False
    by simp
qed

text \<open>The slot of a ticket that fits an \<^verbatim>\<open>int\<close>.\<close>

lemma slot_of_ticket:
  "0 < m \<Longrightarrow> sint cur = int k \<Longrightarrow> c_mod (sint cur) (int m) = Ret (int (k mod m))"
  by (simp add: c_mod_nonneg zmod_int)

lemma load_ticket:
  "0 < m \<Longrightarrow> length (data q) = m \<Longrightarrow> sint cur = int k \<Longrightarrow> load_slot m cur q = Ret (data q ! (k mod m))"
  using slot_of_ticket [of m cur k] by (simp add: load_slot_def arr_read_ok)

lemma store_ticket:
  "0 < m \<Longrightarrow> length (data q) = m \<Longrightarrow> sint cur = int k
   \<Longrightarrow> store_slot m cur x q = Ret (q\<lparr>data := (data q)[k mod m := x]\<rparr>)"
  using slot_of_ticket [of m cur k] by (simp add: store_slot_def arr_write_ok)

lemma clear_ticket:
  "0 < m \<Longrightarrow> length (data q) = m \<Longrightarrow> sint cur = int k
   \<Longrightarrow> and_slot m cur 0 q = Ret (q\<lparr>data := (data q)[k mod m := 0]\<rparr>)"
  by (simp add: and_slot_def load_ticket store_ticket)

text \<open>A negative ticket (a counter that has wrapped around) indexes before the array.\<close>

lemma store_negative_ticket:
  assumes "0 < m" and "sint cur < 0" and "\<not> int m dvd sint cur"
  shows "store_slot m cur x q = Fault BadIndex"
proof -
  have "c_mod (sint cur) (int m) = Ret (- ((- sint cur) mod int m))"
    using assms by (simp add: c_mod_def smod_neg)
  moreover have "0 < (- sint cur) mod int m"
    using assms by (metis dvd_eq_mod_eq_0 dvd_minus_iff le_neq_trans of_nat_0_less_iff
        pos_mod_sign)
  ultimately show ?thesis
    by (simp add: store_slot_def arr_write_def)
qed

section \<open>One enqueue and one dequeue, sequentially\<close>

text \<open>The bodies the array queues share after their own guards.\<close>

definition put_ticket :: "nat \<Rightarrow> atom \<Rightarrow> ringbuf \<Rightarrow> ringbuf outcome" where
  "put_ticket m x q = (let (cur_tail, q1) = fetch_tail q in store_slot m cur_tail x q1)"

definition take_ticket :: "nat \<Rightarrow> ringbuf \<Rightarrow> (atom \<times> ringbuf) outcome" where
  "take_ticket m q =
     (let (cur_head, q1) = fetch_head q
      in bindO (await_slot m cur_head q1) (\<lambda>_.
         bindO (load_slot m cur_head q1) (\<lambda>elem.
         bindO (and_slot m cur_head 0 q1) (\<lambda>q2. Ret (elem, q2)))))"

lemma put_ticket_ok:
  assumes inv: "ring_inv m q" and rdy: "ring_ready m x q"
  shows "\<exists>q'. put_ticket m x q = Ret q' \<and> ring_inv m q' \<and> ring_list m q' = ring_list m q @ [x]
    \<and> head q' = head q \<and> sint (tail q') = sint (tail q) + 1"
proof -
  note D = ring_invD [OF inv]
  let ?t = "tickets_in q" and ?h = "tickets_out q"
  have room: "?t < ?h + m" and x: "x \<noteq> 0" and lt: "sint (tail q) < INT_MAX"
    using rdy D(5) by (auto simp: ring_ready_def length_ring_list ring_budget_def)
  have cur: "sint (tail q + 1) = int ?t"
    using lt D(4) by (simp add: sint_incr)
  let ?q' = "q\<lparr>tail := tail q + 1, data := (data q)[?t mod m := x]\<rparr>"
  have eq: "put_ticket m x q = Ret ?q'"
    using D(1,2) cur by (simp add: put_ticket_def fetch_tail_def store_ticket)
  have tk: "tickets_in ?q' = Suc ?t" "tickets_out ?q' = ?h"
    by (simp_all add: tickets_in_def [of ?q'] cur tickets_out_def)
  have "ring_list m ?q' = ring_list m q @ [x]"
    using window_snoc [OF D(1,2) D(5) room] tk by (simp add: ring_list_def)
  moreover have "ring_inv m ?q'"
  proof -
    have "?t mod m < m"
      using D(1) by simp
    then have "\<forall>i<m. (data ?q' ! i = 0) = (i \<notin> live m ?h (Suc ?t))"
      using D(2,7) x by (auto simp: live_Suc [OF D(5)] nth_list_update)
    then show ?thesis
      using D(1,2,3) D(5) room cur by (simp add: ring_inv_def tk)
  qed
  ultimately show ?thesis
    using eq cur D(4) by simp
qed

lemma take_ticket_ok:
  assumes inv: "ring_inv m q" and ne: "ring_list m q = x # xs"
  shows "\<exists>q'. take_ticket m q = Ret (x, q') \<and> ring_inv m q' \<and> ring_list m q' = xs
    \<and> tail q' = tail q \<and> sint (head q') = sint (head q) + 1"
proof -
  note D = ring_invD [OF inv]
  let ?t = "tickets_in q" and ?h = "tickets_out q"
  have lt: "?h < ?t"
    using ne length_ring_list [of m q] by simp
  have x: "data q ! (?h mod m) = x"
    using ne by (simp add: ring_list_def window_Cons [OF lt])
  have nz: "x \<noteq> 0"
    using ring_list_nonzero [OF inv] ne by auto
  have "sint (tail q) \<le> INT_MAX"
    using sint_range [of "tail q"] by simp
  then have "sint (head q) < INT_MAX"
    using D(3,4) lt by linarith
  then have cur: "sint (head q + 1) = int ?h"
    using D(3) by (simp add: sint_incr)
  let ?q' = "q\<lparr>head := head q + 1, data := (data q)[?h mod m := 0]\<rparr>"
  have eq: "take_ticket m q = Ret (x, ?q')"
    using D(1,2) cur x nz
    by (simp add: take_ticket_def fetch_head_def await_slot_eq load_ticket clear_ticket)
  have tk: "tickets_in ?q' = ?t" "tickets_out ?q' = Suc ?h"
    by (simp_all add: tickets_out_def [of ?q'] cur tickets_in_def)
  have "ring_list m ?q' = xs"
    using window_pop [OF lt D(6), of "data q" 0] tk ne by (simp add: ring_list_def)
  moreover have "ring_inv m ?q'"
  proof -
    have "?h mod m < m"
      using D(1) by simp
    then have "\<forall>i<m. (data ?q' ! i = 0) = (i \<notin> live m (Suc ?h) ?t)"
      using D(2,7) by (auto simp: live_pop [OF lt D(6)] nth_list_update)
    then show ?thesis
      using D(1,2,4,6) lt cur by (simp add: ring_inv_def tk)
  qed
  ultimately show ?thesis
    using eq cur D(3) by simp
qed

text \<open>On an empty ring the slot of the next ticket is empty, and the dequeuer spins for ever.\<close>

lemma take_ticket_empty:
  assumes inv: "ring_inv m q" and e: "ring_list m q = []" and lt: "sint (head q) < INT_MAX"
  shows "take_ticket m q = Hang"
proof -
  note D = ring_invD [OF inv]
  let ?h = "tickets_out q"
  have "tickets_in q \<le> ?h"
    using e length_ring_list [of m q] by simp
  then have "live m ?h (tickets_in q) = {}"
    by (simp add: live_def)
  then have "data q ! (?h mod m) = 0"
    using D(1) D(7) [of "?h mod m"] by simp
  moreover have "sint (head q + 1) = int ?h"
    using lt D(3) by (simp add: sint_incr)
  ultimately show ?thesis
    using D(1,2) by (simp add: take_ticket_def fetch_head_def await_slot_eq load_ticket)
qed

text \<open>The two tests of the code, for counters in range.\<close>

lemma counters_equal_iff:
  "ring_inv m q \<Longrightarrow> head q = tail q \<longleftrightarrow> ring_list m q = []"
proof -
  assume inv: "ring_inv m q"
  have "head q = tail q \<longleftrightarrow> sint (head q) = sint (tail q)"
    by (auto intro: sint_inject)
  also have "\<dots> \<longleftrightarrow> tickets_out q = tickets_in q"
    using ring_invD(3,4) [OF inv] by simp
  also have "\<dots> \<longleftrightarrow> ring_list m q = []"
    using ring_invD(5) [OF inv] length_ring_list [of m q] by (auto simp flip: length_0_conv)
  finally show ?thesis .
qed

text \<open>
  Any queue whose enqueue is \<open>put_ticket\<close> and whose dequeue is \<open>take_ticket\<close> on a non-empty
  ring keeps the contract of a bounded FIFO queue of capacity \<open>m\<close> for non-zero elements.
\<close>

lemma ring_bounded_fifo:
  assumes enq: "\<And>x q. enq x q = put_ticket m x q"
    and deq: "\<And>q. ring_inv m q \<Longrightarrow> ring_list m q \<noteq> [] \<Longrightarrow> deq q = take_ticket m q"
  shows "bounded_fifo (ring_inv m) (ring_list m) (ring_ready m) enq deq (\<lambda>x. x \<noteq> 0) m ring_budget"
proof
  fix q x assume "ring_inv m q" "ring_ready m x q"
  from put_ticket_ok [OF this]
  show "\<exists>q'. enq x q = Ret q' \<and> ring_inv m q' \<and> ring_list m q' = ring_list m q @ [x]"
    by (auto simp: enq)
  fix q' assume "enq x q = Ret q'"
  with put_ticket_ok [OF \<open>ring_inv m q\<close> \<open>ring_ready m x q\<close>]
  show "ring_budget q \<le> Suc (ring_budget q')"
    by (auto simp: enq ring_budget_def)
next
  fix q x xs assume q: "ring_inv m q" "ring_list m q = x # xs"
  from take_ticket_ok [OF this]
  show "\<exists>q'. deq q = Ret (x, q') \<and> ring_inv m q' \<and> ring_list m q' = xs"
    using deq [OF q(1)] q(2) by auto
  fix q' assume "deq q = Ret (x, q')"
  with take_ticket_ok [OF q]
  show "ring_budget q \<le> ring_budget q'"
    using deq [OF q(1)] q(2) by (auto simp: ring_budget_def)
next
  fix q and x :: atom
  assume "length (ring_list m q) < m" "0 < ring_budget q" "x \<noteq> 0"
  then show "ring_ready m x q"
    by (simp add: ring_ready_def)
qed

lemma empty_ring:
  "0 < m \<Longrightarrow> ring_inv m \<lparr>head = - 1, tail = - 1, data = replicate m 0\<rparr>
     \<and> ring_list m \<lparr>head = - 1, tail = - 1, data = replicate m 0\<rparr> = []
     \<and> ring_budget \<lparr>head = - 1, tail = - 1, data = replicate m 0\<rparr> = 2147483648"
  by (simp add: ring_inv_def ring_list_def tickets_in_def tickets_out_def ring_budget_def)

end
