(* ===== verification/SQueue_Ring.thy ===== *)
theory SQueue_Ring
  imports Ring_Ops
begin

text \<open>
  \<^verbatim>\<open>SQueue/squeue.c\<close>: one global ring of \<^verbatim>\<open>MAX_SIZE\<close> ints with ticket counters
  \<^verbatim>\<open>head\<close> and \<^verbatim>\<open>tail\<close>. \<^verbatim>\<open>Enqueue\<close> never looks at the head, \<^verbatim>\<open>Dequeue\<close> never looks
  at the tail: it takes a ticket and spins until the slot is filled. The macro \<^verbatim>\<open>MAX_SIZE\<close>
  is the parameter \<open>m\<close>; \<open>MAX_SIZE_sq\<close> is its value in \<^verbatim>\<open>squeue.h\<close>.
\<close>

section \<open>The operations\<close>

definition MAX_SIZE_sq :: nat where
  "MAX_SIZE_sq = 32 * 1024 * 1024"

definition InitQueue_sq :: "nat \<Rightarrow> ringbuf \<Rightarrow> ringbuf outcome" where
  "InitQueue_sq m q =
     (let q1 = q\<lparr>tail := - 1, head := - 1\<rparr>
      in bindO (fill m 0 (data q1)) (\<lambda>d. Ret (q1\<lparr>data := d\<rparr>)))"

definition ClearQueue_sq :: "nat \<Rightarrow> ringbuf \<Rightarrow> ringbuf outcome" where
  "ClearQueue_sq m q =
     (let q1 = q\<lparr>tail := - 1, head := - 1\<rparr>
      in bindO (fill m 0 (data q1)) (\<lambda>d. Ret (q1\<lparr>data := d\<rparr>)))"

text \<open>The lines \<^verbatim>\<open>PrintQueue\<close> prints: index and value of every slot that is not 0.\<close>

fun PrintQueue_sq :: "nat \<Rightarrow> ringbuf \<Rightarrow> (nat \<times> atom) list outcome" where
  "PrintQueue_sq 0 q = Ret []"
| "PrintQueue_sq (Suc i) q =
     bindO (PrintQueue_sq i q) (\<lambda>out.
     bindO (arr_read (data q) (int i)) (\<lambda>v. Ret (if v \<noteq> 0 then out @ [(i, v)] else out)))"

definition Enqueue_sq :: "nat \<Rightarrow> atom \<Rightarrow> ringbuf \<Rightarrow> (c_int \<times> ringbuf) outcome" where
  "Enqueue_sq m elem q =
     (let (cur_tail, q1) = fetch_tail q
      in bindO (store_slot m cur_tail elem q1) (\<lambda>q2. Ret (1, q2)))"

definition Dequeue_sq :: "nat \<Rightarrow> ringbuf \<Rightarrow> (atom \<times> ringbuf) outcome" where
  "Dequeue_sq m q =
     (let (cur_head, q1) = fetch_head q
      in bindO (await_slot m cur_head q1) (\<lambda>_.
         bindO (load_slot m cur_head q1) (\<lambda>elem.
         bindO (and_slot m cur_head 0 q1) (\<lambda>q2. Ret (elem, q2)))))"

definition isEmpty_sq :: "ringbuf \<Rightarrow> bool" where
  "isEmpty_sq q \<longleftrightarrow> head q = tail q"

definition isFull_sq :: "nat \<Rightarrow> ringbuf \<Rightarrow> bool outcome" where
  "isFull_sq m q = bindO (c_sub (sint (tail q)) (int m)) (\<lambda>d. Ret (sint (head q) \<le> d))"

section \<open>The contract\<close>

lemma Enqueue_sq_put: "run_state (Enqueue_sq m x q) = put_ticket m x q"
  by (cases "store_slot m (tail q + 1) x (q\<lparr>tail := tail q + 1\<rparr>)")
    (simp_all add: Enqueue_sq_def put_ticket_def fetch_tail_def run_state_def)

lemma Dequeue_sq_take: "Dequeue_sq m q = take_ticket m q"
  by (simp add: Dequeue_sq_def take_ticket_def)

interpretation sq: bounded_fifo "ring_inv m" "ring_list m" "ring_ready m"
  "\<lambda>x q. run_state (Enqueue_sq m x q)" "Dequeue_sq m" "\<lambda>x. x \<noteq> 0" m ring_budget for m
  by (rule ring_bounded_fifo) (simp_all add: Enqueue_sq_put Dequeue_sq_take)

lemma InitQueue_sq_eq:
  "length (data q) = m \<Longrightarrow> InitQueue_sq m q = Ret (q\<lparr>head := - 1, tail := - 1, data := replicate m 0\<rparr>)"
  by (simp add: InitQueue_sq_def)

lemma init_ring:
  "0 < m \<Longrightarrow> length (data q) = m \<Longrightarrow> InitQueue_sq m q = Ret s
   \<Longrightarrow> ring_inv m s \<and> ring_list m s = [] \<and> ring_budget s = 2147483648"
  using empty_ring [of m] by (cases q) (auto simp: InitQueue_sq_eq)

section \<open>Dequeues without enqueues\<close>

text \<open>The filled slots: every dequeue that returns empties one of them.\<close>

definition filled :: "ringbuf \<Rightarrow> nat" where
  "filled q = length (filter (\<lambda>v. v \<noteq> 0) (data q))"

lemma filter_update:
  "i < length d \<Longrightarrow> d ! i \<noteq> z \<Longrightarrow>
   Suc (length (filter (\<lambda>v. v \<noteq> z) (d[i := z]))) = length (filter (\<lambda>v. v \<noteq> z) d)"
proof (induction d arbitrary: i)
  case Nil
  then show ?case by simp
next
  case (Cons v d)
  then show ?case by (cases i) auto
qed

lemma clear_filled:
  assumes "load_slot m cur q = Ret v" and "v \<noteq> 0" and "and_slot m cur 0 q = Ret q'"
  shows "filled q = Suc (filled q')"
proof -
  obtain i where i: "c_mod (sint cur) (int m) = Ret i" "0 \<le> i" "nat i < length (data q)"
      "data q ! nat i = v"
    using assms(1) by (auto simp: load_slot_def arr_read_def bindO_Ret_iff split: if_splits)
  then have "q' = q\<lparr>data := (data q)[nat i := 0]\<rparr>"
    using assms(3) by (auto simp: and_slot_def store_slot_def load_slot_def arr_read_def arr_write_def)
  with filter_update [of "nat i" "data q" 0] i(3,4) assms(2) show ?thesis
    by (simp add: filled_def)
qed

lemma Dequeue_sq_filled:
  assumes "Dequeue_sq m q = Ret (x, q')"
  shows "filled q = Suc (filled q')"
proof -
  let ?c = "head q + 1" and ?q = "q\<lparr>head := head q + 1\<rparr>"
  obtain v where "await_slot m ?c ?q = Ret v" "load_slot m ?c ?q = Ret x" "and_slot m ?c 0 ?q = Ret q'"
    using assms by (auto simp: Dequeue_sq_def fetch_head_def bindO_Ret_iff)
  moreover from this(1,2) have "x \<noteq> 0"
    by (auto simp: await_slot_eq split: if_splits)
  ultimately have "filled ?q = Suc (filled q')"
    by (metis clear_filled)
  then show ?thesis
    by (simp add: filled_def)
qed

lemma deq_n_filled: "deq_n (Dequeue_sq m) n q = Ret (xs, q') \<Longrightarrow> n + filled q' = filled q"
proof (induction n arbitrary: q xs)
  case 0
  then show ?case by simp
next
  case (Suc n)
  then obtain x q1 ys where "Dequeue_sq m q = Ret (x, q1)" "deq_n (Dequeue_sq m) n q1 = Ret (ys, q')"
    by (auto simp: bindO_Ret_iff)
  with Suc.IH Dequeue_sq_filled show ?case
    by fastforce
qed

lemma filled_le: "filled q \<le> length (data q)"
  by (simp add: filled_def)

lemma Enqueue_sq_length: "Enqueue_sq m x q = Ret (r, q') \<Longrightarrow> length (data q') = length (data q)"
  by (auto simp: Enqueue_sq_def fetch_tail_def store_slot_def arr_write_def bindO_Ret_iff
      split: if_splits)

lemma enq_all_sq_length:
  "enq_all (\<lambda>x q. run_state (Enqueue_sq m x q)) xs q = Ret q' \<Longrightarrow> length (data q') = length (data q)"
  by (induction xs arbitrary: q)
    (auto simp: bindO_Ret_iff run_state_def dest: Enqueue_sq_length)

section \<open>The counters wrap around\<close>

text \<open>Enqueue and dequeue in turn, one pair for each element.\<close>

definition call_pairs :: "atom list \<Rightarrow> atom qcall list" where
  "call_pairs xs = concat (map (\<lambda>x. [Put x, Take]) xs)"

abbreviation sq_run :: "nat \<Rightarrow> atom qcall list \<Rightarrow> ringbuf \<Rightarrow> (atom list \<times> ringbuf) outcome" where
  "sq_run m \<equiv> impl_run (\<lambda>x q. run_state (Enqueue_sq m x q)) (Dequeue_sq m)"

lemma impl_run_append:
  "impl_run enq deq (cs @ ds) s =
     bindO (impl_run enq deq cs s) (\<lambda>(xs, s1). bindO (impl_run enq deq ds s1) (\<lambda>(ys, s2). Ret (xs @ ys, s2)))"
proof (induction cs arbitrary: s)
  case Nil
  then show ?case
    by (cases "impl_run enq deq ds s") auto
next
  case (Cons c cs)
  show ?case
  proof (cases c)
    case (Put x)
    then show ?thesis
      by (cases "enq x s") (simp_all add: Cons.IH)
  next
    case Take
    show ?thesis
    proof (cases "deq s")
      case (Ret p)
      then show ?thesis
        by (cases "impl_run enq deq cs (snd p)") (auto simp: Take Cons.IH bindO_assoc split_beta)
    qed (simp_all add: Take)
  qed
qed

lemma sq_pair:
  assumes "ring_inv m q" and "ring_list m q = []" and "sint (tail q) < INT_MAX" and "x \<noteq> 0"
  shows "\<exists>q'. sq_run m [Put x, Take] q = Ret ([x], q') \<and> ring_inv m q' \<and> ring_list m q' = [] \<and> sint (tail q') = sint (tail q) + 1"
proof -
  have "0 < m"
    using assms(1) by (rule ring_invD)
  then have "ring_ready m x q"
    using assms(2-4) by (simp add: ring_ready_def ring_budget_def)
  from put_ticket_ok [OF assms(1) this] obtain q1 where q1: "put_ticket m x q = Ret q1" "ring_inv m q1" "ring_list m q1 = [x]"
      "sint (tail q1) = sint (tail q) + 1"
    using assms(2) by auto
  from take_ticket_ok [OF q1(2,3)] obtain q2 where "take_ticket m q1 = Ret (x, q2)" "ring_inv m q2" "ring_list m q2 = []" "tail q2 = tail q1"
    by blast
  then show ?thesis
    using q1 by (simp add: Enqueue_sq_put Dequeue_sq_take)
qed

lemma sq_pairs:
  assumes "ring_inv m q" and "ring_list m q = []" and "sint (tail q) + int (length xs) \<le> INT_MAX" and "list_all (\<lambda>x. x \<noteq> 0) xs"
  shows "\<exists>q'. sq_run m (call_pairs xs) q = Ret (xs, q') \<and> ring_inv m q' \<and> ring_list m q' = []
    \<and> sint (tail q') = sint (tail q) + int (length xs)"
  using assms
proof (induction xs arbitrary: q)
  case Nil
  then show ?case
    by (simp add: call_pairs_def)
next
  case (Cons x xs)
  obtain q1 where q1: "sq_run m [Put x, Take] q = Ret ([x], q1)" "ring_inv m q1" "ring_list m q1 = []" "sint (tail q1) = sint (tail q) + 1"
    using sq_pair [OF Cons.prems(1,2), of x] Cons.prems(3,4) by auto
  obtain q2 where q2: "sq_run m (call_pairs xs) q1 = Ret (xs, q2)" "ring_inv m q2" "ring_list m q2 = []"
      "sint (tail q2) = sint (tail q1) + int (length xs)"
    using Cons.IH [OF q1(2,3)] q1(4) Cons.prems(3,4) by auto
  have pairs: "call_pairs (x # xs) = [Put x, Take] @ call_pairs xs"
    by (simp add: call_pairs_def)
  have "sq_run m (call_pairs (x # xs)) q = Ret (x # xs, q2)"
    unfolding pairs impl_run_append q1(1) by (simp add: q2(1))
  then show ?case
    using q1(4) q2(2-4) by simp
qed

text \<open>The ticket after \<open>INT_MAX\<close> is \<open>INT_MIN\<close>; its slot is the first one if the size divides it.\<close>

lemma last_ticket:
  assumes "ring_inv m q" and "ring_list m q = []" and "sint (tail q) = INT_MAX"
  shows "tail q = 0x7FFFFFFF" and "head q = 0x7FFFFFFF"
proof -
  have "sint (0x7FFFFFFF :: c_int) = INT_MAX"
    by simp
  then show "tail q = 0x7FFFFFFF"
    using assms(3) by (intro sint_inject) simp
  then show "head q = 0x7FFFFFFF"
    using counters_equal_iff [OF assms(1)] assms(2) by simp
qed

lemma sq_pair_wraps:
  assumes "0 < m" and "length (data q) = m" and "tail q = 0x7FFFFFFF" "head q = 0x7FFFFFFF" and "m dvd 2147483648" and "x \<noteq> 0"
  shows "\<exists>q'. sq_run m [Put x, Take] q = Ret ([x], q') \<and> tail q' = 0x80000000"
proof -
  have "int m dvd 2147483648"
    using assms(5) by (metis of_nat_dvd_iff of_nat_numeral)
  then have slot: "c_mod (sint (0x80000000 :: c_int)) (int m) = Ret 0"
    using assms(1) by (simp add: c_mod_def smod_nonneg dvd_eq_mod_eq_0)
  have ne: "data q \<noteq> []"
    using assms(1,2) by auto
  have sums: "0x7FFFFFFF + 1 = (0x80000000 :: c_int)"
    by simp
  let ?q = "q\<lparr>tail := 0x80000000, data := (data q)[0 := x]\<rparr>"
  have e: "run_state (Enqueue_sq m x q) = Ret ?q"
    using assms(1-3) ne slot by (simp add: Enqueue_sq_put put_ticket_def fetch_tail_def sums store_slot_def arr_write_def)
  have "Dequeue_sq m ?q = Ret (x, ?q\<lparr>head := 0x80000000, data := (data ?q)[0 := 0]\<rparr>)"
    using assms(1,2,4,6) ne slot
    by (simp add: Dequeue_sq_take take_ticket_def fetch_head_def sums await_slot_eq and_slot_def load_slot_def store_slot_def
        arr_read_def arr_write_def)
  then show ?thesis
    by (simp add: e)
qed

lemma negative_index:
  assumes "0 < m" and "a < 0" and "\<not> int m dvd a"
  shows "\<exists>i. c_mod a (int m) = Ret i \<and> i < 0"
proof -
  have "0 < (- a) mod int m"
    using assms by (metis dvd_eq_mod_eq_0 dvd_minus_iff le_neq_trans of_nat_0_less_iff pos_mod_sign)
  then show ?thesis
    using assms by (simp add: c_mod_def smod_neg)
qed

section \<open>Properties\<close>

text \<open>C23: After \<^verbatim>\<open>InitQueue\<close>, any sequence of calls that a list of at most \<^verbatim>\<open>MAX_SIZE\<close> non-zero
  elements accepts, with at most \<open>2 ^ 31\<close> enqueues, is answered by the array queue exactly as by the list:
  every dequeue returns the oldest element, and no call faults or spins for ever.\<close>

theorem squeue_refines:
  assumes "0 < m" and "length (data q) = m" and "InitQueue_sq m q = Ret s"
    and "spec_run m cs [] = Some (outs, rest)" and "length (puts cs) \<le> 2147483648"
    and "list_all (\<lambda>x. x \<noteq> 0) (puts cs)"
  shows "\<exists>s'. impl_run (\<lambda>x q. run_state (Enqueue_sq m x q)) (Dequeue_sq m) cs s = Ret (outs, s')
    \<and> ring_list m s' = rest"
proof -
  have "ring_inv m s" "ring_list m s = []" "ring_budget s = 2147483648"
    using init_ring [OF assms(1-3)] by simp_all
  then show ?thesis
    using sq.run_refines [of m s cs outs rest] assms(4-6) by auto
qed

theorem squeue_refines_witness:
  "\<exists>s s'. InitQueue_sq 2 \<lparr>head = 3, tail = 9, data = [4, 4]\<rparr> = Ret s
    \<and> impl_run (\<lambda>x q. run_state (Enqueue_sq 2 x q)) (Dequeue_sq 2) [Put 5, Put 7, Take, Put 8] s = Ret ([5], s')
    \<and> ring_list 2 s' = [7, 8]"
proof -
  let ?q = "\<lparr>head = 3, tail = 9, data = [4, 4]\<rparr> :: ringbuf"
  have i: "InitQueue_sq 2 ?q = Ret (?q\<lparr>head := - 1, tail := - 1, data := replicate 2 0\<rparr>)"
    by (rule InitQueue_sq_eq) simp
  from squeue_refines [OF _ _ i, of "[Put 5, Put 7, Take, Put 8]" "[5]" "[7, 8]"] i show ?thesis
    by auto
qed

text \<open>In every state of sequential use \<^verbatim>\<open>isEmpty\<close> answers whether the queue holds nothing and
  \<^verbatim>\<open>isFull\<close> whether it holds \<^verbatim>\<open>MAX_SIZE\<close> elements.\<close>

theorem squeue_empty_full:
  assumes "ring_inv m q" and "m \<le> 2147483647"
  shows "isEmpty_sq q = (ring_list m q = []) \<and> isFull_sq m q = Ret (length (ring_list m q) = m)"
proof -
  note D = ring_invD [OF assms(1)]
  have "c_sub (sint (tail q)) (int m) = Ret (sint (tail q) - int m)"
    using assms sint_range [of "tail q"] by (auto simp: c_sub_def ring_inv_def)
  then have "isFull_sq m q = Ret (sint (head q) \<le> sint (tail q) - int m)"
    by (simp add: isFull_sq_def)
  moreover have "sint (head q) \<le> sint (tail q) - int m \<longleftrightarrow> tickets_in q = tickets_out q + m"
    using D(3-6) by linarith
  moreover have "tickets_in q = tickets_out q + m \<longleftrightarrow> length (ring_list m q) = m"
    using D(1,5) by (auto simp: length_ring_list)
  ultimately show ?thesis
    using counters_equal_iff [OF assms(1)] by (simp add: isEmpty_sq_def)
qed

lemma full_ring_demo:
  "ring_inv 2 \<lparr>head = - 1, tail = 1, data = [6, 7]\<rparr>" "ring_list 2 \<lparr>head = - 1, tail = 1, data = [6, 7]\<rparr> = [6, 7]"
proof -
  have l: "live 2 0 2 = {0, 1}"
    by (auto simp: live_def numeral_2_eq_2 less_Suc_eq image_iff)
  have "[0..<2] = [0, 1 :: nat]"
    by (simp add: upt_rec)
  then show "ring_inv 2 \<lparr>head = - 1, tail = 1, data = [6, 7]\<rparr>"
    "ring_list 2 \<lparr>head = - 1, tail = 1, data = [6, 7]\<rparr> = [6, 7]"
    using l by (auto simp: ring_inv_def ring_list_def tickets_in_def tickets_out_def window_def less_2_cases_iff)
qed

theorem squeue_empty_full_witness:
  "\<not> isEmpty_sq \<lparr>head = - 1, tail = 1, data = [6, 7]\<rparr> \<and> isFull_sq 2 \<lparr>head = - 1, tail = 1, data = [6, 7]\<rparr> = Ret True"
  using squeue_empty_full [OF full_ring_demo(1)] by (simp add: full_ring_demo(2))

text \<open>\<^verbatim>\<open>Enqueue\<close> does not check for room: on a full queue it reports success and overwrites the oldest
  element, so that the next \<^verbatim>\<open>Dequeue\<close> returns the element just enqueued instead.\<close>

theorem squeue_overwrites:
  assumes "ring_inv m q" and "length (ring_list m q) = m" and "sint (tail q) < INT_MAX" and "x \<noteq> 0"
  shows "\<exists>q' q''. Enqueue_sq m x q = Ret (1, q') \<and> Dequeue_sq m q' = Ret (x, q'')"
proof -
  note D = ring_invD [OF assms(1)]
  have full: "tickets_in q = tickets_out q + m"
    using assms(2) D(1,5) by (simp add: length_ring_list)
  have cur: "sint (tail q + 1) = int (tickets_in q)"
    using assms(3) D(4) by (simp add: sint_incr)
  let ?q1 = "q\<lparr>tail := tail q + 1, data := (data q)[tickets_in q mod m := x]\<rparr>"
  have e: "Enqueue_sq m x q = Ret (1, ?q1)"
    using store_ticket [OF D(1) _ cur, of "q\<lparr>tail := tail q + 1\<rparr>" x] D(2)
    by (simp add: Enqueue_sq_def fetch_tail_def)
  have hd: "sint (head q + 1) = int (tickets_out q)"
    using D(3,4) full D(1) assms(3) by (simp add: sint_incr)
  have "tickets_in q mod m = tickets_out q mod m" "tickets_out q mod m < m"
    using full D(1) by simp_all
  then have "load_slot m (head q + 1) (?q1\<lparr>head := head q + 1\<rparr>) = Ret x"
    using load_ticket [OF D(1) _ hd, of "?q1\<lparr>head := head q + 1\<rparr>"] D(2) by simp
  moreover have "\<exists>r. and_slot m (head q + 1) 0 (?q1\<lparr>head := head q + 1\<rparr>) = Ret r"
    using clear_ticket [OF D(1) _ hd, of "?q1\<lparr>head := head q + 1\<rparr>"] D(2) by simp
  ultimately have "\<exists>q''. Dequeue_sq m ?q1 = Ret (x, q'')"
    using assms(4) by (auto simp: Dequeue_sq_def fetch_head_def await_slot_eq)
  with e show ?thesis
    by blast
qed

theorem squeue_overwrites_witness:
  "\<exists>q' q''. Enqueue_sq 2 9 \<lparr>head = - 1, tail = 1, data = [6, 7]\<rparr> = Ret (1, q') \<and> Dequeue_sq 2 q' = Ret (9, q'')"
  using squeue_overwrites [OF full_ring_demo(1), of 9] by (simp add: full_ring_demo(2))

text \<open>C39: The counters wrap around. After \<^verbatim>\<open>InitQueue\<close>, \<open>2 ^ 31\<close> pairs of an enqueue and a dequeue
  return their elements in order; the next ticket is \<^verbatim>\<open>INT_MIN\<close>. If \<^verbatim>\<open>MAX_SIZE\<close> divides it, as the 32M of \<^verbatim>\<open>squeue.h\<close> do, one more pair
  goes through the first slot. The enqueue that follows computes a negative index from its ticket, and its store is before the beginning of the array.\<close>

theorem squeue_negative_ticket:
  assumes "2 \<le> m" and "length (data q) = m" and "InitQueue_sq m q = Ret s"
    and "length xs = (if m dvd 2 ^ 31 then 2 ^ 31 + 1 else 2 ^ 31)" and "list_all (\<lambda>x. x \<noteq> 0) xs"
  shows "\<exists>s' i. sq_run m (call_pairs xs) s = Ret (xs, s') \<and> c_mod (sint (tail s' + 1)) (int m) = Ret i \<and> i < 0
    \<and> Enqueue_sq m x s' = Fault BadIndex"
proof -
  have m: "0 < m"
    using assms(1) by simp
  have s: "ring_inv m s" "ring_list m s = []" "sint (tail s) = - 1"
    using init_ring [OF m assms(2,3)] assms(2,3) by (auto simp: InitQueue_sq_eq)
  have pow: "(2::nat) ^ 31 = 2147483648"
    by simp
  have fault: "\<exists>i. c_mod (sint (tail s' + 1)) (int m) = Ret i \<and> i < 0 \<and> Enqueue_sq m x s' = Fault BadIndex"
    if "sint (tail s' + 1) < 0" "\<not> int m dvd sint (tail s' + 1)" for s'
    using negative_index [OF m that] store_negative_ticket [OF m that] by (auto simp: Enqueue_sq_def fetch_tail_def)
  show ?thesis
  proof (cases "m dvd 2 ^ 31")
    case False
    then have len: "int (length xs) = 2147483648"
      using assms(4) by simp
    obtain s' where s': "sq_run m (call_pairs xs) s = Ret (xs, s')" "ring_inv m s'" "ring_list m s' = []" "sint (tail s') = INT_MAX"
      using sq_pairs [OF s(1,2) _ assms(5)] s(3) unfolding len by auto
    have t: "sint (tail s' + 1) = - 2147483648"
      unfolding last_ticket(1) [OF s'(2-4)] by simp
    have "\<not> int m dvd - 2147483648"
      using False unfolding pow by (metis dvd_minus_iff of_nat_dvd_iff of_nat_numeral)
    then have "sint (tail s' + 1) < 0" "\<not> int m dvd sint (tail s' + 1)"
      unfolding t by simp_all
    then show ?thesis
      using fault [of s'] s'(1) by blast
  next
    case True
    then have "length xs = Suc 2147483648"
      using assms(4) by simp
    then obtain ys z where xs: "xs = ys @ [z]" "length ys = 2147483648"
      by (cases xs rule: rev_cases) simp_all
    then have nz: "list_all (\<lambda>x. x \<noteq> 0) ys" "z \<noteq> 0"
      using assms(5) by simp_all
    have len: "int (length ys) = 2147483648"
      by (simp add: xs(2))
    obtain s1 where s1: "sq_run m (call_pairs ys) s = Ret (ys, s1)" "ring_inv m s1" "ring_list m s1 = []" "sint (tail s1) = INT_MAX"
      using sq_pairs [OF s(1,2) _ nz(1)] s(3) unfolding len by auto
    obtain s' where s': "sq_run m [Put z, Take] s1 = Ret ([z], s')" "tail s' = 0x80000000"
      using sq_pair_wraps [OF m ring_invD(2) [OF s1(2)] last_ticket [OF s1(2-4)] True [unfolded pow] nz(2)] by blast
    have pairs: "call_pairs xs = call_pairs ys @ [Put z, Take]"
      by (simp add: call_pairs_def xs(1))
    have run: "sq_run m (call_pairs xs) s = Ret (xs, s')"
      unfolding pairs impl_run_append s1(1) by (simp only: s'(1) bindO.simps prod.case xs(1))
    have t: "sint (tail s' + 1) = - 2147483647"
      unfolding s'(2) by simp
    have "\<not> int m dvd - 2147483647"
    proof
      assume "int m dvd - 2147483647"
      then have "int m dvd 2147483648 - 2147483647"
        using True unfolding pow by (metis dvd_diff dvd_minus_iff of_nat_dvd_iff of_nat_numeral)
      then show False
        using assms(1) by simp
    qed
    then have "sint (tail s' + 1) < 0" "\<not> int m dvd sint (tail s' + 1)"
      unfolding t by simp_all
    then show ?thesis
      using fault [of s'] run by blast
  qed
qed

theorem squeue_negative_ticket_witness:
  "\<exists>s s' i. InitQueue_sq MAX_SIZE_sq \<lparr>head = 5, tail = 7, data = replicate MAX_SIZE_sq 3\<rparr> = Ret s
    \<and> sq_run MAX_SIZE_sq (call_pairs (replicate (2 ^ 31 + 1) 6)) s = Ret (replicate (2 ^ 31 + 1) 6, s')
    \<and> c_mod (sint (tail s' + 1)) (int MAX_SIZE_sq) = Ret i \<and> i < 0 \<and> Enqueue_sq MAX_SIZE_sq 9 s' = Fault BadIndex"
proof -
  let ?q = "\<lparr>head = 5, tail = 7, data = replicate MAX_SIZE_sq 3\<rparr> :: ringbuf"
  have i: "InitQueue_sq MAX_SIZE_sq ?q = Ret (?q\<lparr>head := - 1, tail := - 1, data := replicate MAX_SIZE_sq 0\<rparr>)"
    by (rule InitQueue_sq_eq) simp
  have "(2::nat) ^ 31 = MAX_SIZE_sq * 64"
    by (simp add: MAX_SIZE_sq_def)
  then have "MAX_SIZE_sq dvd 2 ^ 31"
    by (metis dvd_triv_left)
  then have len: "length (replicate (2 ^ 31 + 1) (6 :: atom)) = (if MAX_SIZE_sq dvd 2 ^ 31 then 2 ^ 31 + 1 else 2 ^ 31)"
    by (simp only: length_replicate if_True)
  have nz: "list_all (\<lambda>x. x \<noteq> 0) (replicate (2 ^ 31 + 1) (6 :: atom))"
    by (simp only: list_all_iff) (simp add: in_set_replicate)
  have m: "2 \<le> MAX_SIZE_sq"
    by (simp add: MAX_SIZE_sq_def)
  show ?thesis
    using squeue_negative_ticket [OF m _ i len nz, of 9] i by (metis length_replicate ringbuf.select_convs(3))
qed

end
