(* ===== verification/Bench_Loops.thy ===== *)
theory Bench_Loops
  imports Queue_Contract Complex_Main
begin

text \<open>
  The loops of the thread functions of \<^verbatim>\<open>QueueBenchmarks/sqmain.c\<close>, in both builds: with \<^verbatim>\<open>LATENCY\<close> a
  thread makes a fixed number of calls, times each and appends its samples to a global array under
  the mutex; with \<^verbatim>\<open>THROUGHPUT\<close> it calls until a clock says that three seconds are over.
  The time stamp counter and the clock are streams of readings (\<open>clk\<close>), read in order. The queue
  operation is passed in, as the code names it. Thread pinning and printing are not modelled;
  the \<^verbatim>\<open>double\<close> accumulators are reals.
\<close>

section \<open>Globals\<close>

type_synonym ticks = "64 word"

record bench =
  enqueuetimestamp :: "ticks list"
  dequeuetimestamp :: "ticks list"
  dequeue_ticks :: ticks
  enqueue_ticks :: ticks
  numEnqueue :: nat
  numDequeue :: nat
  ENQUEUE_SAMPLES :: nat
  DEQUEUE_SAMPLES :: nat
  numEnqueueThreadsCreated :: nat
  numDequeueThreadsCreated :: nat
  enqueuethroughput :: real
  dequeuethroughput :: real
  failed_ck_dequeues :: nat

definition ResetCounters :: "bench \<Rightarrow> bench" where
  "ResetCounters b = b\<lparr>numEnqueue := 0, numDequeue := 0, numEnqueueThreadsCreated := 0,
     numDequeueThreadsCreated := 0, dequeuethroughput := 0, enqueuethroughput := 0,
     DEQUEUE_SAMPLES := 0, ENQUEUE_SAMPLES := 0, dequeue_ticks := 0, enqueue_ticks := 0,
     failed_ck_dequeues := 0\<rparr>"

text \<open>\<^verbatim>\<open>memcpy(arr + n, ts, length ts)\<close>, which must stay inside the array.\<close>

definition copy_at :: "nat \<Rightarrow> 'a list \<Rightarrow> 'a list \<Rightarrow> 'a list outcome" where
  "copy_at n ts arr =
     (if n + length ts \<le> length arr then Ret (take n arr @ ts @ drop (n + length ts) arr)
      else Fault BadIndex)"

definition merge_enqueue :: "ticks list \<Rightarrow> bench \<Rightarrow> bench outcome" where
  "merge_enqueue ts b =
     bindO (copy_at (numEnqueue b) ts (enqueuetimestamp b)) (\<lambda>arr.
       Ret (b\<lparr>enqueuetimestamp := arr, numEnqueue := numEnqueue b + length ts\<rparr>))"

definition merge_dequeue :: "ticks list \<Rightarrow> bench \<Rightarrow> bench outcome" where
  "merge_dequeue ts b =
     bindO (copy_at (numDequeue b) ts (dequeuetimestamp b)) (\<lambda>arr.
       Ret (b\<lparr>dequeuetimestamp := arr, numDequeue := numDequeue b + length ts\<rparr>))"

definition add_enqueue_samples :: "nat \<Rightarrow> real \<Rightarrow> bench \<Rightarrow> bench" where
  "add_enqueue_samples n elapsed b =
     b\<lparr>enqueuethroughput := enqueuethroughput b + real n / elapsed,
       ENQUEUE_SAMPLES := ENQUEUE_SAMPLES b + n\<rparr>"

definition add_dequeue_samples :: "nat \<Rightarrow> real \<Rightarrow> bench \<Rightarrow> bench" where
  "add_dequeue_samples n elapsed b =
     b\<lparr>dequeuethroughput := dequeuethroughput b + real n / elapsed,
       DEQUEUE_SAMPLES := DEQUEUE_SAMPLES b + n\<rparr>"

text \<open>The samples of \<open>n\<close> timed calls.\<close>

definition deltas :: "(nat \<Rightarrow> ticks) \<Rightarrow> nat \<Rightarrow> ticks list" where
  "deltas clk n = map (\<lambda>i. clk (2 * i + 1) - clk (2 * i)) [0..<n]"

section \<open>The LATENCY loop\<close>

text \<open>
  \<^verbatim>\<open>for (i=0;i<n;i++) { start=getticks(); op(i); end=getticks(); timestamp[i]=end-start; }\<close>
  The counter is read twice per round; \<open>c\<close> is the number of readings so far.
\<close>

primrec latency_loop :: "(nat \<Rightarrow> 's \<Rightarrow> 's outcome) \<Rightarrow> (nat \<Rightarrow> ticks) \<Rightarrow> nat \<Rightarrow> 's \<Rightarrow> nat
    \<Rightarrow> ('s \<times> nat \<times> ticks list) outcome" where
  "latency_loop op clk 0 s c = Ret (s, c, [])"
| "latency_loop op clk (Suc n) s c =
     bindO (latency_loop op clk n s c) (\<lambda>(s1, c1, ts).
       let start_tick = clk c1 in
       bindO (op n s1) (\<lambda>s2.
         let end_tick = clk (Suc c1) in Ret (s2, Suc (Suc c1), ts @ [end_tick - start_tick])))"

primrec repeat_op :: "(nat \<Rightarrow> 's \<Rightarrow> 's outcome) \<Rightarrow> nat \<Rightarrow> 's \<Rightarrow> 's outcome" where
  "repeat_op op 0 s = Ret s"
| "repeat_op op (Suc n) s = bindO (repeat_op op n s) (op n)"

lemma latency_loop_eq:
  "latency_loop op clk n s c =
     bindO (repeat_op op n s) (\<lambda>s'. Ret (s', c + 2 * n,
       map (\<lambda>i. clk (c + 2 * i + 1) - clk (c + 2 * i)) [0..<n]))"
proof (induction n)
  case 0
  then show ?case by simp
next
  case (Suc n)
  show ?case
  proof (cases "repeat_op op n s")
    case (Ret s')
    then show ?thesis
      by (cases "op n s'") (simp_all add: Suc Let_def)
  qed (simp_all add: Suc)
qed

text \<open>A run of enqueues is the list client of the contract.\<close>

lemma repeat_enq:
  "repeat_op (\<lambda>i. enq (f i)) n s = enq_all enq (map f [0..<n]) s"
proof -
  have app: "enq_all enq (xs @ [y]) s = bindO (enq_all enq xs s) (enq y)" for xs y
  proof (induction xs arbitrary: s)
    case Nil
    then show ?case by (cases "enq y s") auto
  next
    case (Cons x xs)
    then show ?case by (cases "enq x s") auto
  qed
  show ?thesis
    by (induction n) (simp_all add: app)
qed

text \<open>The elements the loops enqueue: \<^verbatim>\<open>(atom)(i+1)\<close>.\<close>

definition sample :: "nat \<Rightarrow> atom" where
  "sample i = of_nat (i + 1)"

lemma sample_nonzero: "i < 2147483648 \<Longrightarrow> sample i \<noteq> 0"
  by (simp only: sample_def word_unat_eq_iff unat_of_nat) simp

lemma samples_nonzero: "n \<le> 2147483648 \<Longrightarrow> list_all (\<lambda>x. x \<noteq> 0) (map sample [0..<n])"
  using sample_nonzero by (simp add: list_all_iff)

lemma run_state_bind: "run_state (bindO r f) = bindO r (\<lambda>x. run_state (f x))"
  by (simp add: run_state_def bindO_assoc)

lemma repeat_deq_front:
  "repeat_op (\<lambda>i. op) (Suc n) s = bindO (op s) (repeat_op (\<lambda>i. op) n)"
proof (induction n)
  case 0
  then show ?case by (cases "op s") auto
next
  case (Suc n)
  have "repeat_op (\<lambda>i. op) (Suc (Suc n)) s = bindO (repeat_op (\<lambda>i. op) (Suc n) s) op"
    by simp
  also have "\<dots> = bindO (bindO (op s) (repeat_op (\<lambda>i. op) n)) op"
    by (simp only: Suc)
  also have "\<dots> = bindO (op s) (repeat_op (\<lambda>i. op) (Suc n))"
    by (cases "op s") simp_all
  finally show ?case .
qed

lemma repeat_deq:
  "repeat_op (\<lambda>i s. run_state (deq s)) n s = run_state (deq_n deq n s)"
proof (induction n arbitrary: s)
  case 0
  then show ?case by simp
next
  case (Suc n)
  show ?case
    unfolding repeat_deq_front
  proof (cases "deq s")
    case (Ret p)
    then show "bindO (run_state (deq s)) (repeat_op (\<lambda>i s. run_state (deq s)) n) = run_state (deq_n deq (Suc n) s)"
      by (cases p; cases "deq_n deq n (snd p)") (auto simp: Suc)
  qed simp_all
qed

text \<open>\<^verbatim>\<open>NUM_SAMPLES / CUR_NUM_THREADS\<close>, a division by zero without threads.\<close>

definition per_thread :: "nat \<Rightarrow> nat \<Rightarrow> nat outcome" where
  "per_thread num_samples cur_num_threads =
     (if cur_num_threads = 0 then Fault DivByZero else Ret (num_samples div cur_num_threads))"

definition timed_enqueues :: "(nat \<Rightarrow> 's \<Rightarrow> 's outcome) \<Rightarrow> (nat \<Rightarrow> ticks) \<Rightarrow> nat \<Rightarrow> 's \<times> bench \<Rightarrow> ('s \<times> bench) outcome" where
  "timed_enqueues op clk n sb =
     bindO (latency_loop op clk n (fst sb) 0) (\<lambda>(s, c, ts).
     bindO (merge_enqueue ts (snd sb)) (\<lambda>b. Ret (s, b)))"

definition timed_dequeues :: "(nat \<Rightarrow> 's \<Rightarrow> 's outcome) \<Rightarrow> (nat \<Rightarrow> ticks) \<Rightarrow> nat \<Rightarrow> 's \<times> bench \<Rightarrow> ('s \<times> bench) outcome" where
  "timed_dequeues op clk n sb =
     bindO (latency_loop op clk n (fst sb) 0) (\<lambda>(s, c, ts).
     bindO (merge_dequeue ts (snd sb)) (\<lambda>b. Ret (s, b)))"

lemma timed_enqueues_ok:
  assumes "repeat_op op n s = Ret s'" and "numEnqueue b + n \<le> length (enqueuetimestamp b)"
  shows "\<exists>b'. timed_enqueues op clk n (s, b) = Ret (s', b') \<and> numEnqueue b' = numEnqueue b + n
    \<and> length (enqueuetimestamp b') = length (enqueuetimestamp b)
    \<and> take (numEnqueue b') (enqueuetimestamp b')
      = take (numEnqueue b) (enqueuetimestamp b) @ map (\<lambda>i. clk (2 * i + 1) - clk (2 * i)) [0..<n]"
  using assms by (simp add: timed_enqueues_def latency_loop_eq merge_enqueue_def copy_at_def)

lemma timed_dequeues_ok:
  assumes "repeat_op op n s = Ret s'" and "numDequeue b + n \<le> length (dequeuetimestamp b)"
  shows "\<exists>b'. timed_dequeues op clk n (s, b) = Ret (s', b') \<and> numDequeue b' = numDequeue b + n
    \<and> length (dequeuetimestamp b') = length (dequeuetimestamp b)
    \<and> take (numDequeue b') (dequeuetimestamp b')
      = take (numDequeue b) (dequeuetimestamp b) @ map (\<lambda>i. clk (2 * i + 1) - clk (2 * i)) [0..<n]"
  using assms by (simp add: timed_dequeues_def latency_loop_eq merge_dequeue_def copy_at_def)

section \<open>The THROUGHPUT loops\<close>

text \<open>
  \<^verbatim>\<open>clock_gettime\<close> gives seconds and nanoseconds. Readings 0 and 1 are \<^verbatim>\<open>looptime\<close> and
  \<^verbatim>\<open>tstart\<close>; \<open>c\<close> counts the readings. \<^verbatim>\<open>diff\<close> is a difference of whole seconds, so it is
  kept as an integer. The loops end only when the clock says so, hence the option.
\<close>

record env =
  tsc :: "nat \<Rightarrow> ticks"
  monotonic :: "nat \<Rightarrow> int \<times> int"
  stack_ret :: c_int

definition elapsed :: "int \<times> int \<Rightarrow> int \<times> int \<Rightarrow> real" where
  "elapsed t0 t1 = real_of_int (fst t1 - fst t0) + real_of_int (snd t1 - snd t0) / 10 ^ 9"

partial_function (option) tp_enqueue :: "(nat \<Rightarrow> 's \<Rightarrow> 's outcome) \<Rightarrow> (nat \<Rightarrow> int \<times> int) \<Rightarrow> 's
    \<Rightarrow> nat \<Rightarrow> nat \<Rightarrow> int \<Rightarrow> nat \<Rightarrow> ('s \<times> nat \<times> nat) outcome option" where
  "tp_enqueue op clk s i num diff c =
     (if diff \<le> 3
      then (case op i s of
              Ret s' \<Rightarrow>
                (if Suc i mod 10000 = 0
                 then tp_enqueue op clk s' 1 (num + Suc i) (fst (clk c) - fst (clk 0)) (Suc c)
                 else tp_enqueue op clk s' (Suc i) num diff c)
            | Fault e \<Rightarrow> Some (Fault e)
            | Hang \<Rightarrow> Some Hang)
      else Some (Ret (s, num, c)))"

partial_function (option) tp_dequeue :: "('s \<Rightarrow> (c_int \<times> 's) outcome) \<Rightarrow> (nat \<Rightarrow> int \<times> int) \<Rightarrow> 's
    \<Rightarrow> c_int \<Rightarrow> nat \<Rightarrow> nat \<Rightarrow> int \<Rightarrow> nat \<Rightarrow> ('s \<times> nat \<times> nat) outcome option" where
  "tp_dequeue deq clk s ret cnt num diff c =
     (if diff \<le> 3 \<and> ret \<noteq> - 1
      then (case deq s of
              Ret (ret', s') \<Rightarrow>
                (if Suc cnt mod 10000 = 0 \<or> ret' = - 1
                 then tp_dequeue deq clk s' ret' 1 (num + Suc cnt) (fst (clk c) - fst (clk 0)) (Suc c)
                 else tp_dequeue deq clk s' ret' (Suc cnt) num diff c)
            | Fault e \<Rightarrow> Some (Fault e)
            | Hang \<Rightarrow> Some Hang)
      else Some (Ret (s, num, c)))"

text \<open>The loop and what follows it: \<^verbatim>\<open>tend\<close> is the next reading. \<^verbatim>\<open>int ret;\<close> starts with
  whatever the stack holds.\<close>

definition throughput_enqueues :: "(nat \<Rightarrow> 's \<Rightarrow> 's outcome) \<Rightarrow> env \<Rightarrow> 's \<times> bench \<Rightarrow> ('s \<times> bench) outcome" where
  "throughput_enqueues op e sb =
     (case tp_enqueue op (monotonic e) (fst sb) 1 0 0 2 of
        None \<Rightarrow> Hang
      | Some r \<Rightarrow> bindO r (\<lambda>(s, num, c).
          Ret (s, add_enqueue_samples num (elapsed (monotonic e 1) (monotonic e c)) (snd sb))))"

definition throughput_dequeues :: "('s \<Rightarrow> (c_int \<times> 's) outcome) \<Rightarrow> env \<Rightarrow> 's \<times> bench \<Rightarrow> ('s \<times> bench) outcome" where
  "throughput_dequeues deq e sb =
     (case tp_dequeue deq (monotonic e) (fst sb) (stack_ret e) 1 0 0 2 of
        None \<Rightarrow> Hang
      | Some r \<Rightarrow> bindO r (\<lambda>(s, num, c).
          Ret (s, add_dequeue_samples num (elapsed (monotonic e 1) (monotonic e c)) (snd sb))))"

text \<open>The handlers of the library queues repeat \<^verbatim>\<open>NUM_SAMPLES\<close> calls between two readings.\<close>

definition counted_enqueues :: "(nat \<Rightarrow> 's \<Rightarrow> 's outcome) \<Rightarrow> env \<Rightarrow> nat \<Rightarrow> 's \<times> bench \<Rightarrow> ('s \<times> bench) outcome" where
  "counted_enqueues op e n sb =
     bindO (repeat_op op n (fst sb)) (\<lambda>s.
       Ret (s, add_enqueue_samples n (elapsed (monotonic e 0) (monotonic e 1)) (snd sb)))"

definition counted_dequeues :: "(nat \<Rightarrow> 's \<Rightarrow> 's outcome) \<Rightarrow> env \<Rightarrow> nat \<Rightarrow> 's \<times> bench \<Rightarrow> ('s \<times> bench) outcome" where
  "counted_dequeues op e n sb =
     bindO (repeat_op op n (fst sb)) (\<lambda>s.
       Ret (s, add_dequeue_samples n (elapsed (monotonic e 0) (monotonic e 1)) (snd sb)))"

section \<open>What the THROUGHPUT loops count\<close>

text \<open>
  An enqueue loop counts its batch from \<open>i = 1\<close>, so a batch that reports 10000 samples makes 9999 calls.
  The loop stops after the first batch whose clock reading is past three seconds.
\<close>

lemma tp_enqueue_batch:
  assumes "i < 10000" and "diff \<le> 3"
  shows "tp_enqueue op clk s i num diff c =
    (case enq_all op [i..<10000] s of
       Ret s' \<Rightarrow> tp_enqueue op clk s' 1 (num + 10000) (fst (clk c) - fst (clk 0)) (Suc c)
     | Fault e \<Rightarrow> Some (Fault e) | Hang \<Rightarrow> Some Hang)"
  using assms(1)
proof (induction "9999 - i" arbitrary: i s)
  case 0
  then have "i = 9999"
    by simp
  then show ?case
    using assms(2) by (subst tp_enqueue.simps) (simp split: outcome.split)
next
  case (Suc d)
  then have i: "i < 9999" "Suc i mod 10000 = Suc i" "[i..<10000] = i # [Suc i..<10000]"
    by (simp_all add: upt_conv_Cons)
  show ?case
    using Suc.hyps(1) [of "Suc i"] Suc.hyps(2) i assms(2)
    by (subst tp_enqueue.simps) (simp split: outcome.split)
qed

definition batches :: "nat \<Rightarrow> nat list" where
  "batches k = concat (replicate k [1..<10000])"

lemma length_batches [simp]: "length (batches k) = 9999 * k"
  by (simp add: batches_def length_concat sum_list_replicate)

lemma enq_all_append: "enq_all op (xs @ ys) s = bindO (enq_all op xs s) (enq_all op ys)"
proof (induction xs arbitrary: s)
  case (Cons x xs)
  then show ?case by (cases "op x s") simp_all
qed simp

lemma tp_enqueue_batches:
  assumes "\<And>j. j < k \<Longrightarrow> fst (clk (c + j)) - fst (clk 0) \<le> 3"
    and "3 < fst (clk (c + k)) - fst (clk 0)" and "diff \<le> 3"
    and "enq_all op (batches (Suc k)) s = Ret s'"
  shows "tp_enqueue op clk s 1 num diff c = Some (Ret (s', num + 10000 * Suc k, c + Suc k))"
  using assms
proof (induction k arbitrary: c diff s num)
  case 0
  then have "enq_all op [1..<10000] s = Ret s'"
    by (simp add: batches_def)
  moreover have "tp_enqueue op clk s' 1 (num + 10000) (fst (clk c) - fst (clk 0)) (Suc c)
      = Some (Ret (s', num + 10000, Suc c))"
    using 0(2) by (subst tp_enqueue.simps) simp
  ultimately show ?case
    using 0(3) by (subst tp_enqueue_batch) simp_all
next
  case (Suc k)
  have "batches (Suc (Suc k)) = [1..<10000] @ batches (Suc k)"
    by (simp add: batches_def)
  then have "bindO (enq_all op [1..<10000] s) (enq_all op (batches (Suc k))) = Ret s'"
    using Suc.prems(4) by (simp only: enq_all_append)
  then obtain s1 where s1: "enq_all op [1..<10000] s = Ret s1" "enq_all op (batches (Suc k)) s1 = Ret s'"
    unfolding bindO_Ret_iff by blast
  have "tp_enqueue op clk s1 1 (num + 10000) (fst (clk c) - fst (clk 0)) (Suc c)
      = Some (Ret (s', (num + 10000) + 10000 * Suc k, Suc c + Suc k))"
  proof (rule Suc.IH)
    show "fst (clk (Suc c + j)) - fst (clk 0) \<le> 3" if "j < k" for j
      using Suc.prems(1) [of "Suc j"] that by simp
    show "3 < fst (clk (Suc c + k)) - fst (clk 0)"
      using Suc.prems(2) by simp
    show "fst (clk c) - fst (clk 0) \<le> 3"
      using Suc.prems(1) [of 0] by simp
  qed (rule s1(2))
  then show ?case
    using Suc.prems(3) s1(1) by (subst tp_enqueue_batch) (simp_all add: algebra_simps)
qed

text \<open>
  A dequeue loop on a queue that answers -1 when it is drained makes one call more than there were
  elements, and reports one sample more than calls for every batch it starts.
\<close>

definition reported :: "nat \<Rightarrow> nat" where
  "reported calls = calls + (calls + 9998) div 9999"

lemma reported_batch: "reported (9999 + k) = 10000 + reported k"
  by (simp add: reported_def)

lemma reported_first: "1 \<le> k \<Longrightarrow> k \<le> 9999 \<Longrightarrow> reported k = Suc k"
  by (simp add: reported_def div_nat_eqI)

context polled_queue begin

lemma tp_dequeue_drains:
  assumes "\<And>j. fst (clk j) - fst (clk 0) \<le> 3"
  shows "inv s \<Longrightarrow> - 1 \<notin> set (abs s) \<Longrightarrow> ret \<noteq> - 1 \<Longrightarrow> 1 \<le> cnt \<Longrightarrow> cnt \<le> 9999 \<Longrightarrow> diff \<le> 3
    \<Longrightarrow> \<exists>s' c'. tp_dequeue deq clk s ret cnt num diff c
          = Some (Ret (s', num + reported (cnt + length (abs s)), c')) \<and> inv s' \<and> abs s' = []"
proof (induction "abs s" arbitrary: s ret cnt num diff c)
  case Nil
  have "tp_dequeue deq clk s ret cnt num diff c = Some (Ret (s, num + Suc cnt, Suc c))"
    using empty_law [of s] Nil
    by (subst tp_dequeue.simps) (subst tp_dequeue.simps, simp)
  with Nil show ?case
    by (simp add: reported_first)
next
  case (Cons x xs)
  then obtain s' where s': "deq s = Ret (x, s')" "inv s'" "abs s' = xs"
    using deq_law by metis
  have x: "x \<noteq> - 1" "- 1 \<notin> set (abs s')"
    using Cons.hyps(2) Cons.prems(2) s'(3) by (auto simp flip: Cons.hyps(2))
  show ?case
  proof (cases "cnt = 9999")
    case True
    obtain s'' c' where *: "tp_dequeue deq clk s' x 1 (num + 10000) (fst (clk c) - fst (clk 0)) (Suc c)
        = Some (Ret (s'', num + 10000 + reported (1 + length (abs s')), c'))" "inv s''" "abs s'' = []"
      using Cons.hyps(1) [of s' x 1 "fst (clk c) - fst (clk 0)"] s' x assms by fastforce
    have "cnt + length (abs s) = 9999 + (1 + length (abs s'))"
      using True s'(3) by (simp flip: Cons.hyps(2))
    then have "reported (cnt + length (abs s)) = 10000 + reported (1 + length (abs s'))"
      by (simp only: reported_batch)
    with * True Cons.prems(3,6) s'(1) show ?thesis
      by (subst tp_dequeue.simps) simp
  next
    case False
    obtain s'' c' where *: "tp_dequeue deq clk s' x (Suc cnt) num diff c
        = Some (Ret (s'', num + reported (Suc cnt + length (abs s')), c'))" "inv s''" "abs s'' = []"
      using Cons.hyps(1) [of s' x "Suc cnt" diff num c] Cons.prems False s' x by fastforce
    have "cnt + length (abs s) = Suc cnt + length (abs s')" "Suc cnt mod 10000 = Suc cnt"
      using s'(3) Cons.prems(5) False by (simp_all flip: Cons.hyps(2))
    with * x Cons.prems(3,6) s'(1) show ?thesis
      by (subst tp_dequeue.simps) simp
  qed
qed

lemma throughput_drains:
  assumes "\<And>j. fst (monotonic e j) - fst (monotonic e 0) \<le> 3" and "stack_ret e \<noteq> - 1"
    and "inv s" and "- 1 \<notin> set (abs s)"
  shows "\<exists>s' b'. throughput_dequeues deq e (s, b) = Ret (s', b') \<and> inv s' \<and> abs s' = []
    \<and> DEQUEUE_SAMPLES b' = DEQUEUE_SAMPLES b + reported (Suc (length (abs s)))"
proof -
  obtain s' c' where "tp_dequeue deq (monotonic e) s (stack_ret e) 1 0 0 2
      = Some (Ret (s', 0 + reported (1 + length (abs s)), c'))" "inv s'" "abs s' = []"
    using tp_dequeue_drains [of "monotonic e" s "stack_ret e" 1 0 0 2] assms by auto
  then show ?thesis
    by (simp add: throughput_dequeues_def add_dequeue_samples_def)
qed

end

lemma throughput_enqueues_ok:
  assumes "\<And>j. j < k \<Longrightarrow> fst (monotonic e (2 + j)) - fst (monotonic e 0) \<le> 3"
    and "3 < fst (monotonic e (2 + k)) - fst (monotonic e 0)"
    and "enq_all op (batches (Suc k)) s = Ret s'"
  shows "\<exists>b'. throughput_enqueues op e (s, b) = Ret (s', b')
    \<and> ENQUEUE_SAMPLES b' = ENQUEUE_SAMPLES b + 10000 * Suc k"
  using tp_enqueue_batches [where c = 2 and num = 0 and diff = 0, OF assms(1,2) _ assms(3)]
  by (simp add: throughput_enqueues_def add_enqueue_samples_def)

end
