(* ===== verification/Bench_Ring.thy ===== *)
theory Bench_Ring
  imports SQueue_Ring Bench_Loops
begin

text \<open>
  \<^verbatim>\<open>QueueBenchmarks/squeue.c\<close>: the ring of the throughput and latency benchmarks. It differs
  from \<^verbatim>\<open>SQueue/squeue.c\<close> in \<^verbatim>\<open>isEmpty\<close>, which also asks that the tail has passed
  \<^verbatim>\<open>MAX_SIZE\<close>, and in \<^verbatim>\<open>Dequeue\<close>, which returns -1 when \<^verbatim>\<open>isEmpty\<close> holds.
\<close>

section \<open>The operations\<close>

definition NUM_SAMPLES_qb :: nat where
  "NUM_SAMPLES_qb = 262144"

definition MAX_SIZE_qb :: nat where
  "MAX_SIZE_qb = NUM_SAMPLES_qb"

definition InitQueue_qb :: "nat \<Rightarrow> ringbuf \<Rightarrow> ringbuf outcome" where
  "InitQueue_qb m q =
     (let q1 = q\<lparr>tail := - 1, head := - 1\<rparr>
      in bindO (fill m 0 (data q1)) (\<lambda>d. Ret (q1\<lparr>data := d\<rparr>)))"

definition ClearQueue_qb :: "nat \<Rightarrow> ringbuf \<Rightarrow> ringbuf outcome" where
  "ClearQueue_qb m q =
     (let q1 = q\<lparr>tail := - 1, head := - 1\<rparr>
      in bindO (fill m 0 (data q1)) (\<lambda>d. Ret (q1\<lparr>data := d\<rparr>)))"

fun PrintQueue_qb :: "nat \<Rightarrow> ringbuf \<Rightarrow> (nat \<times> atom) list outcome" where
  "PrintQueue_qb 0 q = Ret []"
| "PrintQueue_qb (Suc i) q =
     bindO (PrintQueue_qb i q) (\<lambda>out.
     bindO (arr_read (data q) (int i)) (\<lambda>v. Ret (if v \<noteq> 0 then out @ [(i, v)] else out)))"

definition Enqueue_qb :: "nat \<Rightarrow> atom \<Rightarrow> ringbuf \<Rightarrow> (c_int \<times> ringbuf) outcome" where
  "Enqueue_qb m elem q =
     (let (cur_tail, q1) = fetch_tail q
      in bindO (store_slot m cur_tail elem q1) (\<lambda>q2. Ret (1, q2)))"

definition isEmpty_qb :: "nat \<Rightarrow> ringbuf \<Rightarrow> bool outcome" where
  "isEmpty_qb m q =
     bindO (c_sub (sint (tail q)) (int m)) (\<lambda>d. Ret (0 < d \<and> head q = tail q))"

definition isFull_qb :: "nat \<Rightarrow> ringbuf \<Rightarrow> bool outcome" where
  "isFull_qb m q = bindO (c_sub (sint (tail q)) (int m)) (\<lambda>d. Ret (sint (head q) \<le> d))"

definition Dequeue_qb :: "nat \<Rightarrow> ringbuf \<Rightarrow> (atom \<times> ringbuf) outcome" where
  "Dequeue_qb m q =
     bindO (isEmpty_qb m q) (\<lambda>empty.
       if empty then Ret (- 1, q)
       else (let (cur_head, q1) = fetch_head q
             in bindO (await_slot m cur_head q1) (\<lambda>_.
                bindO (load_slot m cur_head q1) (\<lambda>elem.
                bindO (and_slot m cur_head 0 q1) (\<lambda>q2. Ret (elem, q2))))))"

section \<open>The contract\<close>

text \<open>The subtraction of the size never overflows while the counters are in range.\<close>

lemma tail_minus_size:
  "ring_inv m q \<Longrightarrow> m \<le> 2147483647 \<Longrightarrow> c_sub (sint (tail q)) (int m) = Ret (sint (tail q) - int m)"
  using sint_range [of "tail q"] by (auto simp: c_sub_def ring_inv_def)

lemma Enqueue_qb_put: "run_state (Enqueue_qb m x q) = put_ticket m x q"
  by (cases "store_slot m (tail q + 1) x (q\<lparr>tail := tail q + 1\<rparr>)")
    (simp_all add: Enqueue_qb_def put_ticket_def fetch_tail_def run_state_def)

lemma isEmpty_qb_eq:
  assumes "ring_inv m q" and "m \<le> 2147483647"
  shows "isEmpty_qb m q = Ret (int m < sint (tail q) \<and> ring_list m q = [])"
  using counters_equal_iff [OF assms(1)] by (simp add: isEmpty_qb_def tail_minus_size [OF assms])

lemma Dequeue_qb_eq:
  assumes "ring_inv m q" and "m \<le> 2147483647"
  shows "Dequeue_qb m q =
    (if int m < sint (tail q) \<and> ring_list m q = [] then Ret (- 1, q) else take_ticket m q)"
  by (simp add: Dequeue_qb_def isEmpty_qb_eq [OF assms] take_ticket_def)

text \<open>A size that fits an \<^verbatim>\<open>int\<close>, as a size in the type.\<close>

lemma qb_contract:
  assumes "m \<le> 2147483647"
  shows "bounded_fifo (ring_inv m) (ring_list m) (ring_ready m)
    (\<lambda>x q. run_state (Enqueue_qb m x q)) (Dequeue_qb m) (\<lambda>x. x \<noteq> 0) m ring_budget"
  by (rule ring_bounded_fifo) (simp_all add: Enqueue_qb_put Dequeue_qb_eq assms)

interpretation qb: bounded_fifo "ring_inv MAX_SIZE_qb" "ring_list MAX_SIZE_qb" "ring_ready MAX_SIZE_qb"
  "\<lambda>x q. run_state (Enqueue_qb MAX_SIZE_qb x q)" "Dequeue_qb MAX_SIZE_qb" "\<lambda>x. x \<noteq> 0"
  MAX_SIZE_qb ring_budget
  by (rule qb_contract) (simp add: MAX_SIZE_qb_def NUM_SAMPLES_qb_def)

lemma InitQueue_qb_eq:
  "length (data q) = m \<Longrightarrow> InitQueue_qb m q = Ret (q\<lparr>head := - 1, tail := - 1, data := replicate m 0\<rparr>)"
  by (simp add: InitQueue_qb_def)

lemma init_ring_qb:
  "0 < m \<Longrightarrow> length (data q) = m \<Longrightarrow> InitQueue_qb m q = Ret s
   \<Longrightarrow> ring_inv m s \<and> ring_list m s = [] \<and> ring_budget s = 2147483648"
  using empty_ring [of m] by (cases q) (auto simp: InitQueue_qb_eq)

text \<open>Once the tail has passed \<^verbatim>\<open>MAX_SIZE\<close>, an empty ring answers -1.\<close>

definition ring_polled :: "nat \<Rightarrow> ringbuf \<Rightarrow> bool" where
  "ring_polled m q \<longleftrightarrow> ring_inv m q \<and> int m < sint (tail q)"

interpretation qp: polled_queue "ring_polled MAX_SIZE_qb" "ring_list MAX_SIZE_qb"
  "ring_ready MAX_SIZE_qb" "\<lambda>x q. run_state (Enqueue_qb MAX_SIZE_qb x q)" "Dequeue_qb MAX_SIZE_qb"
proof
  have small: "MAX_SIZE_qb \<le> 2147483647"
    by (simp add: MAX_SIZE_qb_def NUM_SAMPLES_qb_def)
  fix s
  show "ring_polled MAX_SIZE_qb s \<Longrightarrow> ring_ready MAX_SIZE_qb x s \<Longrightarrow>
      \<exists>s'. run_state (Enqueue_qb MAX_SIZE_qb x s) = Ret s' \<and> ring_polled MAX_SIZE_qb s'
        \<and> ring_list MAX_SIZE_qb s' = ring_list MAX_SIZE_qb s @ [x]" for x
    using put_ticket_ok [of MAX_SIZE_qb s x] by (auto simp: Enqueue_qb_put ring_polled_def)
  show "ring_polled MAX_SIZE_qb s \<Longrightarrow> ring_list MAX_SIZE_qb s = x # xs \<Longrightarrow>
      \<exists>s'. Dequeue_qb MAX_SIZE_qb s = Ret (x, s') \<and> ring_polled MAX_SIZE_qb s'
        \<and> ring_list MAX_SIZE_qb s' = xs" for x xs
    using take_ticket_ok [of MAX_SIZE_qb s x xs] small
    by (auto simp: Dequeue_qb_eq ring_polled_def)
  show "ring_polled MAX_SIZE_qb s \<Longrightarrow> ring_list MAX_SIZE_qb s = [] \<Longrightarrow>
      Dequeue_qb MAX_SIZE_qb s = Ret (- 1, s)"
    using small by (simp add: Dequeue_qb_eq ring_polled_def)
qed

section \<open>Properties\<close>

text \<open>The benchmark's array queue, too, answers every sequence of calls that a list of at most
  \<^verbatim>\<open>MAX_SIZE = 262144\<close> non-zero elements accepts (and at most \<open>2 ^ 31\<close> enqueues) as the list does.\<close>

theorem bench_queue_refines:
  assumes "length (data q) = MAX_SIZE_qb" and "InitQueue_qb MAX_SIZE_qb q = Ret s"
    and "spec_run MAX_SIZE_qb cs [] = Some (outs, rest)" and "length (puts cs) \<le> 2147483648"
    and "list_all (\<lambda>x. x \<noteq> 0) (puts cs)"
  shows "\<exists>s'. impl_run (\<lambda>x q. run_state (Enqueue_qb MAX_SIZE_qb x q)) (Dequeue_qb MAX_SIZE_qb) cs s = Ret (outs, s')
    \<and> ring_list MAX_SIZE_qb s' = rest"
proof -
  have "0 < MAX_SIZE_qb"
    by (simp add: MAX_SIZE_qb_def NUM_SAMPLES_qb_def)
  from init_ring_qb [OF this assms(1,2)] show ?thesis
    using qb.run_refines [of s cs outs rest] assms(3-5) by auto
qed

theorem bench_queue_refines_witness:
  "\<exists>s s'. InitQueue_qb MAX_SIZE_qb \<lparr>head = 1, tail = 2, data = replicate MAX_SIZE_qb 7\<rparr> = Ret s
    \<and> impl_run (\<lambda>x q. run_state (Enqueue_qb MAX_SIZE_qb x q)) (Dequeue_qb MAX_SIZE_qb) [Put 5, Put 6, Take] s = Ret ([5], s')
    \<and> ring_list MAX_SIZE_qb s' = [6]"
proof -
  let ?q = "\<lparr>head = 1, tail = 2, data = replicate MAX_SIZE_qb 7\<rparr> :: ringbuf"
  have i: "InitQueue_qb MAX_SIZE_qb ?q = Ret (?q\<lparr>head := - 1, tail := - 1, data := replicate MAX_SIZE_qb 0\<rparr>)"
    by (rule InitQueue_qb_eq) simp
  have "1 < MAX_SIZE_qb"
    by (simp add: MAX_SIZE_qb_def NUM_SAMPLES_qb_def)
  then have "spec_run MAX_SIZE_qb [Put 5, Put 6, Take] [] = Some ([5], [6 :: atom])"
    by simp
  from bench_queue_refines [OF _ i this] i show ?thesis
    by auto
qed

text \<open>On an empty queue \<^verbatim>\<open>Dequeue\<close> returns -1 only once the tail has passed \<^verbatim>\<open>MAX_SIZE\<close>; before that
  it takes a ticket and, with nobody else enqueueing, spins for ever.\<close>

theorem bench_dequeue_empty:
  assumes "ring_inv m q" and "m \<le> 2147483647" and "ring_list m q = []" and "sint (head q) < INT_MAX"
  shows "Dequeue_qb m q = (if int m < sint (tail q) then Ret (- 1, q) else Hang)"
  using Dequeue_qb_eq [OF assms(1,2)] take_ticket_empty [OF assms(1,3,4)] assms(3) by simp

theorem bench_dequeue_empty_witness:
  "Dequeue_qb 2 \<lparr>head = - 1, tail = - 1, data = replicate 2 0\<rparr> = Hang"
  using bench_dequeue_empty [of 2 "\<lparr>head = - 1, tail = - 1, data = replicate 2 0\<rparr>"] empty_ring [of 2] by simp

end
