(* ===== verification/XTask_Ring.thy ===== *)
theory XTask_Ring
  imports Bench_Ring
begin

text \<open>
  \<^verbatim>\<open>xtaskqueue.c\<close>, the ring behind a pointer to \<^verbatim>\<open>struct queue\<close>, in its two versions:
  \<^verbatim>\<open>QueueBenchmarks\<close> (suffix \<open>qb\<close>), whose dequeue spins on an empty ring, and
  \<^verbatim>\<open>mpi_queue\<close> (suffix \<open>mpi\<close>), whose dequeue returns -1 there. \<^verbatim>\<open>malloc\<close> gives the
  array its arbitrary content \<open>mem\<close> of \<open>m\<close> atoms.
\<close>

section \<open>QueueBenchmarks/xtaskqueue.c\<close>

definition InitXTaskQueue_qb :: "nat \<Rightarrow> atom list \<Rightarrow> ringbuf \<Rightarrow> ringbuf outcome" where
  "InitXTaskQueue_qb m mem q =
     (let q1 = q\<lparr>head := - 1, tail := - 1, data := mem\<rparr>
      in bindO (fill m 0 (data q1)) (\<lambda>d. Ret (q1\<lparr>data := d\<rparr>)))"

definition ClearXTaskQueue_qb :: "nat \<Rightarrow> ringbuf \<Rightarrow> ringbuf outcome" where
  "ClearXTaskQueue_qb m q =
     (let q1 = q\<lparr>tail := - 1, head := - 1\<rparr>
      in bindO (fill m 0 (data q1)) (\<lambda>d. Ret (q1\<lparr>data := d\<rparr>)))"

fun PrintXTaskQueue_qb :: "nat \<Rightarrow> ringbuf \<Rightarrow> (nat \<times> atom) list outcome" where
  "PrintXTaskQueue_qb 0 q = Ret []"
| "PrintXTaskQueue_qb (Suc i) q =
     bindO (PrintXTaskQueue_qb i q) (\<lambda>out.
     bindO (arr_read (data q) (int i)) (\<lambda>v. Ret (if v \<noteq> 0 then out @ [(i, v)] else out)))"

definition EnqueueToQ_qb :: "nat \<Rightarrow> atom \<Rightarrow> ringbuf \<Rightarrow> (c_int \<times> ringbuf) outcome" where
  "EnqueueToQ_qb m elem q =
     (let (cur_tail, q1) = fetch_tail q
      in bindO (store_slot m cur_tail elem q1) (\<lambda>q2. Ret (1, q2)))"

definition DequeueFromQ_qb :: "nat \<Rightarrow> ringbuf \<Rightarrow> (atom \<times> ringbuf) outcome" where
  "DequeueFromQ_qb m q =
     (let (cur_head, q1) = fetch_head q
      in bindO (await_slot m cur_head q1) (\<lambda>_.
         bindO (load_slot m cur_head q1) (\<lambda>elem.
         bindO (and_slot m cur_head 0 q1) (\<lambda>q2. Ret (elem, q2)))))"

definition isQueueEmpty_qb :: "ringbuf \<Rightarrow> bool" where
  "isQueueEmpty_qb q \<longleftrightarrow> head q = tail q"

definition isQueueFull_qb :: "nat \<Rightarrow> ringbuf \<Rightarrow> bool outcome" where
  "isQueueFull_qb m q = bindO (c_sub (sint (tail q)) (int m)) (\<lambda>d. Ret (sint (head q) \<le> d))"

lemma EnqueueToQ_qb_put: "run_state (EnqueueToQ_qb m x q) = put_ticket m x q"
  by (cases "store_slot m (tail q + 1) x (q\<lparr>tail := tail q + 1\<rparr>)")
    (simp_all add: EnqueueToQ_qb_def put_ticket_def fetch_tail_def run_state_def)

lemma DequeueFromQ_qb_take: "DequeueFromQ_qb m q = take_ticket m q"
  by (simp add: DequeueFromQ_qb_def take_ticket_def)

interpretation xq: bounded_fifo "ring_inv m" "ring_list m" "ring_ready m"
  "\<lambda>x q. run_state (EnqueueToQ_qb m x q)" "DequeueFromQ_qb m" "\<lambda>x. x \<noteq> 0" m ring_budget for m
  by (rule ring_bounded_fifo) (simp_all add: EnqueueToQ_qb_put DequeueFromQ_qb_take)

section \<open>mpi\_queue/xtaskqueue.c\<close>

definition InitXTaskQueue_mpi :: "nat \<Rightarrow> atom list \<Rightarrow> ringbuf \<Rightarrow> ringbuf outcome" where
  "InitXTaskQueue_mpi m mem q =
     (let q1 = q\<lparr>head := - 1, tail := - 1, data := mem\<rparr>
      in bindO (fill m 0 (data q1)) (\<lambda>d. Ret (q1\<lparr>data := d\<rparr>)))"

definition ClearXTaskQueue_mpi :: "nat \<Rightarrow> ringbuf \<Rightarrow> ringbuf outcome" where
  "ClearXTaskQueue_mpi m q =
     (let q1 = q\<lparr>tail := - 1, head := - 1\<rparr>
      in bindO (fill m 0 (data q1)) (\<lambda>d. Ret (q1\<lparr>data := d\<rparr>)))"

fun PrintXTaskQueue_mpi :: "nat \<Rightarrow> ringbuf \<Rightarrow> (nat \<times> atom) list outcome" where
  "PrintXTaskQueue_mpi 0 q = Ret []"
| "PrintXTaskQueue_mpi (Suc i) q =
     bindO (PrintXTaskQueue_mpi i q) (\<lambda>out.
     bindO (arr_read (data q) (int i)) (\<lambda>v. Ret (if v \<noteq> 0 then out @ [(i, v)] else out)))"

definition EnqueueToQ_mpi :: "nat \<Rightarrow> atom \<Rightarrow> ringbuf \<Rightarrow> (c_int \<times> ringbuf) outcome" where
  "EnqueueToQ_mpi m elem q =
     (let (cur_tail, q1) = fetch_tail q
      in bindO (store_slot m cur_tail elem q1) (\<lambda>q2. Ret (1, q2)))"

definition isQueueEmpty_mpi :: "ringbuf \<Rightarrow> bool" where
  "isQueueEmpty_mpi q \<longleftrightarrow> head q = tail q"

definition isQueueFull_mpi :: "nat \<Rightarrow> ringbuf \<Rightarrow> bool outcome" where
  "isQueueFull_mpi m q = bindO (c_sub (sint (tail q)) (int m)) (\<lambda>d. Ret (sint (head q) \<le> d))"

definition DequeueFromQ_mpi :: "nat \<Rightarrow> ringbuf \<Rightarrow> (atom \<times> ringbuf) outcome" where
  "DequeueFromQ_mpi m q =
     (if isQueueEmpty_mpi q then Ret (- 1, q)
      else (let (cur_head, q1) = fetch_head q
            in bindO (await_slot m cur_head q1) (\<lambda>_.
               bindO (load_slot m cur_head q1) (\<lambda>elem.
               bindO (and_slot m cur_head 0 q1) (\<lambda>q2. Ret (elem, q2))))))"

lemma EnqueueToQ_mpi_put: "run_state (EnqueueToQ_mpi m x q) = put_ticket m x q"
  by (cases "store_slot m (tail q + 1) x (q\<lparr>tail := tail q + 1\<rparr>)")
    (simp_all add: EnqueueToQ_mpi_def put_ticket_def fetch_tail_def run_state_def)

lemma DequeueFromQ_mpi_eq:
  "ring_inv m q \<Longrightarrow>
   DequeueFromQ_mpi m q = (if ring_list m q = [] then Ret (- 1, q) else take_ticket m q)"
  by (simp add: DequeueFromQ_mpi_def isQueueEmpty_mpi_def counters_equal_iff take_ticket_def)

interpretation xm: bounded_fifo "ring_inv m" "ring_list m" "ring_ready m"
  "\<lambda>x q. run_state (EnqueueToQ_mpi m x q)" "DequeueFromQ_mpi m" "\<lambda>x. x \<noteq> 0" m ring_budget for m
  by (rule ring_bounded_fifo) (simp_all add: EnqueueToQ_mpi_put DequeueFromQ_mpi_eq)

interpretation xp: polled_queue "ring_inv m" "ring_list m" "ring_ready m"
  "\<lambda>x q. run_state (EnqueueToQ_mpi m x q)" "DequeueFromQ_mpi m" for m
  by unfold_locales (simp add: DequeueFromQ_mpi_eq)

lemma init_xtask:
  "0 < m \<Longrightarrow> length mem = m \<Longrightarrow> InitXTaskQueue_mpi m mem q = Ret s
   \<Longrightarrow> ring_inv m s \<and> ring_list m s = [] \<and> ring_budget s = 2147483648"
  using empty_ring [of m] by (cases q) (auto simp: InitXTaskQueue_mpi_def)

lemma init_xtask_qb:
  "0 < m \<Longrightarrow> length mem = m \<Longrightarrow> InitXTaskQueue_qb m mem q = Ret s
   \<Longrightarrow> ring_inv m s \<and> ring_list m s = [] \<and> ring_budget s = 2147483648"
  using empty_ring [of m] by (cases q) (auto simp: InitXTaskQueue_qb_def)

section \<open>Properties\<close>

text \<open>The queue of \<^verbatim>\<open>mpi_queue\<close>, freshly initialised, answers every sequence of calls that the bounded
  list accepts as the list does; emptying it afterwards returns what is left in order and then -1, without
  taking a ticket, so that the queue is empty and usable again.\<close>

theorem mpi_queue_refines:
  assumes "0 < m" and "length mem = m" and "InitXTaskQueue_mpi m mem q = Ret s"
    and "spec_run m cs [] = Some (outs, rest)" and "length (puts cs) \<le> 2147483648"
    and "list_all (\<lambda>x. x \<noteq> 0) (puts cs)"
  shows "\<exists>s1 s2. impl_run (\<lambda>x q. run_state (EnqueueToQ_mpi m x q)) (DequeueFromQ_mpi m) cs s = Ret (outs, s1)
    \<and> deq_n (DequeueFromQ_mpi m) (Suc (length rest)) s1 = Ret (rest @ [- 1], s2)
    \<and> ring_inv m s2 \<and> ring_list m s2 = []"
proof -
  from init_xtask [OF assms(1-3)] obtain s1 where s1:
      "impl_run (\<lambda>x q. run_state (EnqueueToQ_mpi m x q)) (DequeueFromQ_mpi m) cs s = Ret (outs, s1)"
      "ring_inv m s1" "ring_list m s1 = rest"
    using xm.run_refines [of m s cs outs rest] assms(4-6) by auto
  then show ?thesis
    using xp.drained [of m s1] by auto
qed

theorem mpi_queue_refines_witness:
  "\<exists>s1 s2. impl_run (\<lambda>x q. run_state (EnqueueToQ_mpi 3 x q)) (DequeueFromQ_mpi 3) [Put 4, Put 5, Take, Put 6]
      \<lparr>head = - 1, tail = - 1, data = [0, 0, 0]\<rparr> = Ret ([4], s1)
    \<and> deq_n (DequeueFromQ_mpi 3) 3 s1 = Ret ([5, 6, - 1], s2) \<and> ring_list 3 s2 = []"
proof -
  have "InitXTaskQueue_mpi 3 [8, 8, 8] \<lparr>head = 0, tail = 0, data = []\<rparr>
      = Ret \<lparr>head = - 1, tail = - 1, data = [0, 0, 0]\<rparr>"
    by (simp add: InitXTaskQueue_mpi_def numeral_3_eq_3 arr_write_def)
  from mpi_queue_refines [OF _ _ this, of "[Put 4, Put 5, Take, Put 6]" "[4]" "[5, 6]"] show ?thesis
    by (auto simp: numeral_3_eq_3 simp del: deq_n.simps)
qed

end
