(* ===== verification/SQueue_Main.thy ===== *)
theory SQueue_Main
  imports SQueue_Ring Bench_Loops
begin

text \<open>
  \<^verbatim>\<open>SQueue/sqmain.c\<close>: the program around the array queue. Its thread functions count on
  \<^verbatim>\<open>NUM_SAMPLES/CUR_NUM_THREADS\<close> calls each and add the ticks they took to a global. The rounds of
  \<^verbatim>\<open>main\<close> are modelled for one thread per side, where nothing runs in parallel: in the first loop
  of \<^verbatim>\<open>main\<close> the enqueues are over before the worker starts, in the second the enqueuing
  threads are joined first.
\<close>

definition NUM_SAMPLES_sq :: nat where
  "NUM_SAMPLES_sq = 128000000"

record sq_main =
  ring :: ringbuf
  dequeue_ticks_sq :: ticks
  enqueue_ticks_sq :: ticks

section \<open>Thread functions\<close>

definition worker_handler_sq :: "nat \<Rightarrow> nat \<Rightarrow> nat \<Rightarrow> (nat \<Rightarrow> ticks) \<Rightarrow> sq_main \<Rightarrow> sq_main outcome" where
  "worker_handler_sq m num_samples cur_num_threads clk s =
     bindO (per_thread num_samples cur_num_threads) (\<lambda>n.
       let start_tick = clk 0 in
       bindO (repeat_op (\<lambda>i q. run_state (Dequeue_sq m q)) n (ring s)) (\<lambda>q.
         let end_tick = clk 1
         in Ret (s\<lparr>ring := q, dequeue_ticks_sq := dequeue_ticks_sq s + (end_tick - start_tick)\<rparr>)))"

definition enqueue_handler_sq :: "nat \<Rightarrow> nat \<Rightarrow> nat \<Rightarrow> (nat \<Rightarrow> ticks) \<Rightarrow> sq_main \<Rightarrow> sq_main outcome" where
  "enqueue_handler_sq m num_samples cur_num_threads clk s =
     bindO (per_thread num_samples cur_num_threads) (\<lambda>n.
       let start_tick = clk 0 in
       bindO (repeat_op (\<lambda>i q. run_state (Enqueue_sq m (sample i) q)) n (ring s)) (\<lambda>q.
         let end_tick = clk 1
         in Ret (s\<lparr>ring := q, enqueue_ticks_sq := enqueue_ticks_sq s + (end_tick - start_tick)\<rparr>)))"

section \<open>Rounds of main with one thread per side\<close>

text \<open>``Single Enqueue Concurrent Dequeue'', \<open>k = 1\<close>: the main thread enqueues all samples itself.\<close>

definition single_round :: "nat \<Rightarrow> nat \<Rightarrow> (nat \<Rightarrow> ticks) \<Rightarrow> sq_main \<Rightarrow> sq_main outcome" where
  "single_round m num_samples clk s =
     bindO (repeat_op (\<lambda>i q. run_state (Enqueue_sq m (sample i) q)) num_samples (ring s)) (\<lambda>q.
       worker_handler_sq m num_samples 1 clk (s\<lparr>ring := q\<rparr>))"

text \<open>``Concurrent Enqueue Concurrent Dequeue'', \<open>k = 1\<close>: one enqueuer, joined, then one worker.\<close>

definition concurrent_round :: "nat \<Rightarrow> nat \<Rightarrow> (nat \<Rightarrow> ticks) \<Rightarrow> (nat \<Rightarrow> ticks) \<Rightarrow> sq_main \<Rightarrow> sq_main outcome" where
  "concurrent_round m num_samples clk1 clk2 s =
     bindO (enqueue_handler_sq m num_samples 1 clk1 s) (worker_handler_sq m num_samples 1 clk2)"

section \<open>What a round does\<close>

lemma enqueue_samples:
  "repeat_op (\<lambda>i q. run_state (Enqueue_sq m (sample i) q)) n q
     = enq_all (\<lambda>x q. run_state (Enqueue_sq m x q)) (map sample [0..<n]) q"
  by (rule repeat_enq)

text \<open>A worker that dequeues as many elements as the queue holds leaves it empty.\<close>

lemma worker_drains:
  assumes "ring_inv m (ring s)" and "length (ring_list m (ring s)) = n"
  shows "\<exists>s'. worker_handler_sq m n 1 clk s = Ret s' \<and> ring_inv m (ring s') \<and> ring_list m (ring s') = []
    \<and> dequeue_ticks_sq s' = dequeue_ticks_sq s + (clk 1 - clk 0) \<and> enqueue_ticks_sq s' = enqueue_ticks_sq s"
proof -
  obtain q' where "deq_n (Dequeue_sq m) n (ring s) = Ret (take n (ring_list m (ring s)), q')"
      "ring_inv m q'" "ring_list m q' = []"
    using sq.deq_some [of m "ring s" n] assms by auto
  then show ?thesis
    by (simp add: worker_handler_sq_def per_thread_def repeat_deq)
qed

lemma enqueue_round_ok:
  assumes "ring_inv m q" and "ring_list m q = []" and "n \<le> m" and "n \<le> ring_budget q"
  shows "\<exists>q'. repeat_op (\<lambda>i q. run_state (Enqueue_sq m (sample i) q)) n q = Ret q'
    \<and> ring_inv m q' \<and> length (ring_list m q') = n"
proof -
  have "n \<le> 2147483648"
    using assms(4) ring_invD(4) [OF assms(1)] by (simp add: ring_budget_def)
  then show ?thesis
    using sq.enq_all_ok [of m q "map sample [0..<n]"] assms samples_nonzero [of n]
    by (auto simp: enqueue_samples)
qed

lemma single_round_ok:
  assumes "ring_inv m (ring s)" and "ring_list m (ring s) = []" and "n \<le> m" and "n \<le> ring_budget (ring s)"
  shows "\<exists>s'. single_round m n clk s = Ret s' \<and> ring_inv m (ring s') \<and> ring_list m (ring s') = []
    \<and> dequeue_ticks_sq s' = dequeue_ticks_sq s + (clk 1 - clk 0)"
proof -
  obtain q' where "repeat_op (\<lambda>i q. run_state (Enqueue_sq m (sample i) q)) n (ring s) = Ret q'"
      "ring_inv m q'" "length (ring_list m q') = n"
    using enqueue_round_ok [OF assms] by blast
  then show ?thesis
    using worker_drains [of m "s\<lparr>ring := q'\<rparr>" n clk] by (auto simp: single_round_def)
qed

lemma concurrent_round_ok:
  assumes "ring_inv m (ring s)" and "ring_list m (ring s) = []" and "n \<le> m" and "n \<le> ring_budget (ring s)"
  shows "\<exists>s'. concurrent_round m n clk1 clk2 s = Ret s' \<and> ring_inv m (ring s') \<and> ring_list m (ring s') = []
    \<and> dequeue_ticks_sq s' = dequeue_ticks_sq s + (clk2 1 - clk2 0)
    \<and> enqueue_ticks_sq s' = enqueue_ticks_sq s + (clk1 1 - clk1 0)"
proof -
  obtain q' where q': "repeat_op (\<lambda>i q. run_state (Enqueue_sq m (sample i) q)) n (ring s) = Ret q'"
      "ring_inv m q'" "length (ring_list m q') = n"
    using enqueue_round_ok [OF assms] by blast
  let ?s = "s\<lparr>ring := q', enqueue_ticks_sq := enqueue_ticks_sq s + (clk1 1 - clk1 0)\<rparr>"
  have "enqueue_handler_sq m n 1 clk1 s = Ret ?s"
    using q'(1) by (simp add: enqueue_handler_sq_def per_thread_def)
  moreover obtain s' where "worker_handler_sq m n 1 clk2 ?s = Ret s'" "ring_inv m (ring s')"
      "ring_list m (ring s') = []" "dequeue_ticks_sq s' = dequeue_ticks_sq s + (clk2 1 - clk2 0)"
      "enqueue_ticks_sq s' = enqueue_ticks_sq ?s"
    using worker_drains [of m ?s n clk2] q'(2,3) by auto
  ultimately show ?thesis
    by (simp add: concurrent_round_def)
qed

text \<open>With more samples than slots the round does not return.\<close>

lemma single_round_stuck:
  assumes "length (data (ring s)) = m" and "m < n"
  shows "single_round m n clk s \<noteq> Ret s'"
proof
  assume "single_round m n clk s = Ret s'"
  then obtain q q' where q: "enq_all (\<lambda>x q. run_state (Enqueue_sq m x q)) (map sample [0..<n]) (ring s) = Ret q"
      and "run_state (deq_n (Dequeue_sq m) n q) = Ret q'"
    by (auto simp: single_round_def enqueue_samples worker_handler_sq_def per_thread_def repeat_deq
        bindO_Ret_iff Let_def)
  then obtain xs where "deq_n (Dequeue_sq m) n q = Ret (xs, q')"
    by (auto simp: run_state_def bindO_Ret_iff)
  then have "n + filled q' = filled q"
    by (rule deq_n_filled)
  moreover have "filled q \<le> m"
    using filled_le [of q] enq_all_sq_length [OF q] assms(1) by simp
  ultimately show False
    using assms(2) by simp
qed

section \<open>Properties\<close>

text \<open>The program as it stands does not finish its first round: 128000000 elements go into a ring of
  33554432 slots, so at most that many can come out again, and the worker's loop of 128000000 dequeues
  never ends normally, whatever the ring held before.\<close>

theorem sqmain_stuck:
  assumes "length (data (ring s)) = MAX_SIZE_sq"
  shows "single_round MAX_SIZE_sq NUM_SAMPLES_sq clk s \<noteq> Ret s'"
  using assms by (rule single_round_stuck) (simp add: MAX_SIZE_sq_def NUM_SAMPLES_sq_def)

theorem sqmain_stuck_witness:
  "single_round MAX_SIZE_sq NUM_SAMPLES_sq (\<lambda>k. of_nat k)
     \<lparr>ring = \<lparr>head = - 1, tail = - 1, data = replicate MAX_SIZE_sq 0\<rparr>, dequeue_ticks_sq = 0, enqueue_ticks_sq = 0\<rparr>
   \<noteq> Ret \<lparr>ring = \<lparr>head = - 1, tail = - 1, data = []\<rparr>, dequeue_ticks_sq = 0, enqueue_ticks_sq = 0\<rparr>"
  by (rule sqmain_stuck) simp

text \<open>With a sample count that fits the ring both kinds of round run to their end on an empty queue,
  leave it empty for the next round, and charge the workers' time to \<^verbatim>\<open>dequeue_ticks\<close> and the
  enqueuers' to \<^verbatim>\<open>enqueue_ticks\<close>.\<close>

theorem sqmain_rounds:
  assumes "ring_inv m (ring s)" and "ring_list m (ring s) = []" and "n \<le> m" and "n \<le> ring_budget (ring s)"
  shows "(\<exists>s'. single_round m n clk2 s = Ret s' \<and> ring_inv m (ring s') \<and> ring_list m (ring s') = []
      \<and> dequeue_ticks_sq s' = dequeue_ticks_sq s + (clk2 1 - clk2 0))
    \<and> (\<exists>s'. concurrent_round m n clk1 clk2 s = Ret s' \<and> ring_inv m (ring s') \<and> ring_list m (ring s') = []
      \<and> dequeue_ticks_sq s' = dequeue_ticks_sq s + (clk2 1 - clk2 0)
      \<and> enqueue_ticks_sq s' = enqueue_ticks_sq s + (clk1 1 - clk1 0))"
  using single_round_ok [OF assms] concurrent_round_ok [OF assms] by blast

theorem sqmain_rounds_witness:
  "\<exists>s'. concurrent_round 4 3 (\<lambda>k. 10 * of_nat k) (\<lambda>k. 20 * of_nat k)
      \<lparr>ring = \<lparr>head = - 1, tail = - 1, data = replicate 4 0\<rparr>, dequeue_ticks_sq = 5, enqueue_ticks_sq = 6\<rparr> = Ret s'
    \<and> ring_list 4 (ring s') = [] \<and> dequeue_ticks_sq s' = 25 \<and> enqueue_ticks_sq s' = 16"
  using sqmain_rounds [of 4 "\<lparr>ring = \<lparr>head = - 1, tail = - 1, data = replicate 4 0\<rparr>, dequeue_ticks_sq = 5,
      enqueue_ticks_sq = 6\<rparr>" 3 "\<lambda>k. 20 * of_nat k" "\<lambda>k. 10 * of_nat k"] empty_ring [of 4]
  by auto

end
