(* ===== verification/Ring_Conc.thy ===== *)
theory Ring_Conc
  imports Bench_Ring Bench_Loops
begin

text \<open>
  The ring under concurrency. Any number of threads run the \<^verbatim>\<open>Enqueue\<close> and \<^verbatim>\<open>Dequeue\<close> of
  \<^verbatim>\<open>squeue.c\<close>, one shared-memory access per step and in any order: the model is sequentially
  consistent interleaving of the micro-operations of \<open>Ring_Ops\<close>. Every step of a thread is one
  line of the C function; a poll of the spin loop that finds an empty slot leaves the state unchanged.

  Two history variables, which no step reads, record what happened: \<open>enq_log\<close> lists the elements
  in the order the tail tickets were taken, \<open>deq_log\<close> the dequeues that returned, with their tickets.
\<close>

section \<open>Threads and steps\<close>

text \<open>\<open>NoCheck\<close> is \<^verbatim>\<open>SQueue/squeue.c\<close>, \<open>SizeCheck\<close> is \<^verbatim>\<open>QueueBenchmarks/squeue.c\<close>.\<close>

datatype variant = NoCheck | SizeCheck

text \<open>
  Where a thread is: a producer with the elements still to enqueue (\<open>Storing\<close>: it holds a ticket
  and has not written its element yet), or a consumer with the number of dequeues still to do.
\<close>

datatype thread =
    Producer "atom list"
  | Storing c_int atom "atom list"
  | Consumer nat
  | Checking nat
  | Comparing c_int nat
  | Entering nat
  | Spinning c_int nat
  | Reading c_int nat
  | Clearing c_int atom nat
  | Crashed

record system =
  shared :: ringbuf
  threads :: "nat \<Rightarrow> thread"
  enq_log :: "atom list"
  deq_log :: "(nat \<times> atom) list"

inductive conc_step :: "variant \<Rightarrow> nat \<Rightarrow> nat \<Rightarrow> system \<Rightarrow> system \<Rightarrow> bool" for v m n where
  enq_ticket: "i < n \<Longrightarrow> threads s i = Producer (x # xs) \<Longrightarrow> fetch_tail (shared s) = (cur, r) \<Longrightarrow>
    conc_step v m n s (s\<lparr>shared := r, threads := (threads s)(i := Storing cur x xs), enq_log := enq_log s @ [x]\<rparr>)"
| enq_store: "i < n \<Longrightarrow> threads s i = Storing cur x xs \<Longrightarrow> store_slot m cur x (shared s) = Ret r \<Longrightarrow>
    conc_step v m n s (s\<lparr>shared := r, threads := (threads s)(i := Producer xs)\<rparr>)"
| enq_fault: "i < n \<Longrightarrow> threads s i = Storing cur x xs \<Longrightarrow> store_slot m cur x (shared s) = Fault e \<Longrightarrow>
    conc_step v m n s (s\<lparr>threads := (threads s)(i := Crashed)\<rparr>)"
| deq_start: "i < n \<Longrightarrow> threads s i = Consumer (Suc k) \<Longrightarrow> v = NoCheck \<Longrightarrow>
    conc_step v m n s (s\<lparr>threads := (threads s)(i := Entering k)\<rparr>)"
| deq_check: "i < n \<Longrightarrow> threads s i = Consumer (Suc k) \<Longrightarrow> v = SizeCheck \<Longrightarrow>
    c_sub (sint (tail (shared s))) (int m) = Ret d \<Longrightarrow>
    conc_step v m n s (s\<lparr>threads := (threads s)(i := if 0 < d then Checking k else Entering k)\<rparr>)"
| deq_check_fault: "i < n \<Longrightarrow> threads s i = Consumer (Suc k) \<Longrightarrow> v = SizeCheck \<Longrightarrow>
    c_sub (sint (tail (shared s))) (int m) = Fault e \<Longrightarrow>
    conc_step v m n s (s\<lparr>threads := (threads s)(i := Crashed)\<rparr>)"
| deq_load_head: "i < n \<Longrightarrow> threads s i = Checking k \<Longrightarrow>
    conc_step v m n s (s\<lparr>threads := (threads s)(i := Comparing (head (shared s)) k)\<rparr>)"
| deq_empty: "i < n \<Longrightarrow> threads s i = Comparing h k \<Longrightarrow> h = tail (shared s) \<Longrightarrow>
    conc_step v m n s (s\<lparr>threads := (threads s)(i := Consumer k)\<rparr>)"
| deq_nonempty: "i < n \<Longrightarrow> threads s i = Comparing h k \<Longrightarrow> h \<noteq> tail (shared s) \<Longrightarrow>
    conc_step v m n s (s\<lparr>threads := (threads s)(i := Entering k)\<rparr>)"
| deq_ticket: "i < n \<Longrightarrow> threads s i = Entering k \<Longrightarrow> fetch_head (shared s) = (cur, r) \<Longrightarrow>
    conc_step v m n s (s\<lparr>shared := r, threads := (threads s)(i := Spinning cur k)\<rparr>)"
| deq_spin: "i < n \<Longrightarrow> threads s i = Spinning cur k \<Longrightarrow> load_slot m cur (shared s) = Ret 0 \<Longrightarrow>
    conc_step v m n s s"
| deq_found: "i < n \<Longrightarrow> threads s i = Spinning cur k \<Longrightarrow> load_slot m cur (shared s) = Ret w \<Longrightarrow> w \<noteq> 0 \<Longrightarrow>
    conc_step v m n s (s\<lparr>threads := (threads s)(i := Reading cur k)\<rparr>)"
| deq_read: "i < n \<Longrightarrow> threads s i = Reading cur k \<Longrightarrow> load_slot m cur (shared s) = Ret w \<Longrightarrow>
    conc_step v m n s (s\<lparr>threads := (threads s)(i := Clearing cur w k)\<rparr>)"
| deq_load_fault: "i < n \<Longrightarrow> threads s i = Spinning cur k \<or> threads s i = Reading cur k \<Longrightarrow>
    load_slot m cur (shared s) = Fault e \<Longrightarrow>
    conc_step v m n s (s\<lparr>threads := (threads s)(i := Crashed)\<rparr>)"
| deq_clear: "i < n \<Longrightarrow> threads s i = Clearing cur w k \<Longrightarrow> and_slot m cur 0 (shared s) = Ret r \<Longrightarrow>
    conc_step v m n s (s\<lparr>shared := r, threads := (threads s)(i := Consumer k),
      deq_log := deq_log s @ [(nat (sint cur), w)]\<rparr>)"
| deq_clear_fault: "i < n \<Longrightarrow> threads s i = Clearing cur w k \<Longrightarrow> and_slot m cur 0 (shared s) = Fault e \<Longrightarrow>
    conc_step v m n s (s\<lparr>threads := (threads s)(i := Crashed)\<rparr>)"

section \<open>What threads hold and still have to do\<close>

fun storing :: "thread \<Rightarrow> nat option" where
  "storing (Storing cur x xs) = Some (nat (sint cur))"
| "storing _ = None"

fun holding :: "thread \<Rightarrow> nat option" where
  "holding (Spinning cur k) = Some (nat (sint cur))"
| "holding (Reading cur k) = Some (nat (sint cur))"
| "holding (Clearing cur w k) = Some (nat (sint cur))"
| "holding _ = None"

fun todo :: "thread \<Rightarrow> atom list" where
  "todo (Producer xs) = xs"
| "todo (Storing cur x xs) = xs"
| "todo _ = []"

fun calls :: "thread \<Rightarrow> nat" where
  "calls (Consumer k) = k"
| "calls (Checking k) = Suc k"
| "calls (Comparing h k) = Suc k"
| "calls (Entering k) = Suc k"
| "calls (Spinning cur k) = k"
| "calls (Reading cur k) = k"
| "calls (Clearing cur w k) = k"
| "calls _ = 0"

fun finished :: "thread \<Rightarrow> bool" where
  "finished (Producer []) = True"
| "finished (Consumer 0) = True"
| "finished _ = False"

text \<open>Elements left to enqueue and calls left to make, over all threads.\<close>

definition all_todo :: "nat \<Rightarrow> system \<Rightarrow> atom multiset" where
  "all_todo n s = (\<Sum>i<n. mset (todo (threads s i)))"

definition all_calls :: "nat \<Rightarrow> system \<Rightarrow> nat" where
  "all_calls n s = (\<Sum>i<n. calls (threads s i))"

section \<open>The invariant\<close>

definition cleared :: "system \<Rightarrow> nat set" where
  "cleared s = fst ` set (deq_log s)"

definition counters_ok :: "nat \<Rightarrow> system \<Rightarrow> bool" where
  "counters_ok m s \<longleftrightarrow>
     0 < m \<and> m \<le> 2147483647 \<and> length (data (shared s)) = m
     \<and> sint (tail (shared s)) = int (length (enq_log s)) - 1
     \<and> sint (head (shared s)) = int (tickets_out (shared s)) - 1"

text \<open>The work: \<open>V\<close> are the elements to be enqueued in all, \<open>D\<close> the dequeues to be made in all.\<close>

definition work_ok :: "atom multiset \<Rightarrow> nat \<Rightarrow> nat \<Rightarrow> nat \<Rightarrow> system \<Rightarrow> bool" where
  "work_ok V D m n s \<longleftrightarrow>
     size V \<le> m \<and> D \<le> m \<and> 0 \<notin># V
     \<and> mset (enq_log s) + all_todo n s = V \<and> tickets_out (shared s) + all_calls n s = D"

fun thread_ok :: "system \<Rightarrow> thread \<Rightarrow> bool" where
  "thread_ok s (Storing cur x xs) \<longleftrightarrow>
     0 \<le> sint cur \<and> nat (sint cur) < length (enq_log s) \<and> enq_log s ! nat (sint cur) = x"
| "thread_ok s (Spinning cur k) \<longleftrightarrow> 0 \<le> sint cur \<and> nat (sint cur) < tickets_out (shared s)"
| "thread_ok s (Reading cur k) \<longleftrightarrow> 0 \<le> sint cur \<and> nat (sint cur) < tickets_out (shared s)
     \<and> data (shared s) ! nat (sint cur) \<noteq> 0"
| "thread_ok s (Clearing cur w k) \<longleftrightarrow> 0 \<le> sint cur \<and> nat (sint cur) < tickets_out (shared s)
     \<and> data (shared s) ! nat (sint cur) = w \<and> w \<noteq> 0"
| "thread_ok s (Checking k) \<longleftrightarrow> False"
| "thread_ok s (Comparing h k) \<longleftrightarrow> False"
| "thread_ok s Crashed \<longleftrightarrow> False"
| "thread_ok s (Producer xs) \<longleftrightarrow> True"
| "thread_ok s (Consumer k) \<longleftrightarrow> True"
| "thread_ok s (Entering k) \<longleftrightarrow> True"

definition threads_ok :: "nat \<Rightarrow> system \<Rightarrow> bool" where
  "threads_ok n s \<longleftrightarrow> (\<forall>i<n. thread_ok s (threads s i))"

text \<open>
  Ownership of tickets: \<open>owns f n g t\<close> says that one of the threads holds ticket \<open>t\<close> (\<open>f\<close> is
  \<open>storing\<close> or \<open>holding\<close>), \<open>sole f n g\<close> that no two of them hold the same.
\<close>

definition owns :: "(thread \<Rightarrow> nat option) \<Rightarrow> nat \<Rightarrow> (nat \<Rightarrow> thread) \<Rightarrow> nat \<Rightarrow> bool" where
  "owns f n g t \<longleftrightarrow> (\<exists>i<n. f (g i) = Some t)"

definition sole :: "(thread \<Rightarrow> nat option) \<Rightarrow> nat \<Rightarrow> (nat \<Rightarrow> thread) \<Rightarrow> bool" where
  "sole f n g \<longleftrightarrow> (\<forall>i<n. \<forall>j<n. \<forall>t. f (g i) = Some t \<longrightarrow> f (g j) = Some t \<longrightarrow> i = j)"

lemma ownsI: "i < n \<Longrightarrow> f (g i) = Some t \<Longrightarrow> owns f n g t"
  by (auto simp: owns_def)

lemma same_view: "f y = f (g i) \<Longrightarrow> f ((g(i := y)) j) = f (g j)"
  by simp

lemma owns_keep: "f y = f (g i) \<Longrightarrow> owns f n (g(i := y)) t = owns f n g t"
  unfolding owns_def by (simp only: same_view)

lemma sole_keep: "f y = f (g i) \<Longrightarrow> sole f n (g(i := y)) = sole f n g"
  unfolding sole_def by (simp only: same_view)

lemma owns_update: "i < n \<Longrightarrow>
  owns f n (g(i := y)) t \<longleftrightarrow> f y = Some t \<or> (\<exists>j<n. j \<noteq> i \<and> f (g j) = Some t)"
  unfolding owns_def by (metis fun_upd_other fun_upd_same)

lemma owns_acquire: "i < n \<Longrightarrow> f (g i) = None \<Longrightarrow> f y = Some u \<Longrightarrow>
  owns f n (g(i := y)) t \<longleftrightarrow> t = u \<or> owns f n g t"
  by (subst owns_update) (auto simp: owns_def)

lemma owns_release:
  assumes "sole f n g" and i: "i < n" and u: "f (g i) = Some u" and y: "f y = None"
  shows "owns f n (g(i := y)) t \<longleftrightarrow> t \<noteq> u \<and> owns f n g t"
proof -
  have "f (g j) \<noteq> Some u" if "j < n" "j \<noteq> i" for j
    using assms(1) i u that unfolding sole_def by blast
  then have "(\<exists>j<n. j \<noteq> i \<and> f (g j) = Some t) \<longleftrightarrow> t \<noteq> u \<and> (\<exists>j<n. f (g j) = Some t)"
    using i u by (metis option.inject)
  then show ?thesis
    using y by (simp only: owns_update [OF i]) (simp add: owns_def)
qed

lemma sole_acquire: "sole f n g \<Longrightarrow> f y = Some u \<Longrightarrow> \<not> owns f n g u \<Longrightarrow> sole f n (g(i := y))"
  by (auto simp: sole_def owns_def)

lemma sole_release: "sole f n g \<Longrightarrow> f y = None \<Longrightarrow> sole f n (g(i := y))"
  by (auto simp: sole_def)

lemmas owner_keep = owns_keep sole_keep

text \<open>A ticket belongs to one producer and one consumer at most, and is not reused.\<close>

definition owners_ok :: "nat \<Rightarrow> system \<Rightarrow> bool" where
  "owners_ok n s \<longleftrightarrow>
     sole storing n (threads s) \<and> sole holding n (threads s)
     \<and> (\<forall>t. owns storing n (threads s) t \<longrightarrow> t \<notin> cleared s)
     \<and> (\<forall>t. owns holding n (threads s) t \<longrightarrow> t \<notin> cleared s)
     \<and> (\<forall>t<tickets_out (shared s). t \<in> cleared s \<or> owns holding n (threads s) t)"

text \<open>A slot holds the element of its ticket from the producer's write to the consumer's clear.\<close>

definition slots_ok :: "nat \<Rightarrow> nat \<Rightarrow> system \<Rightarrow> bool" where
  "slots_ok m n s \<longleftrightarrow> (\<forall>t<m. data (shared s) ! t =
     (if t < length (enq_log s) \<and> \<not> owns storing n (threads s) t \<and> t \<notin> cleared s
      then enq_log s ! t else 0))"

definition log_ok :: "system \<Rightarrow> bool" where
  "log_ok s \<longleftrightarrow> distinct (map fst (deq_log s))
     \<and> (\<forall>(t, w) \<in> set (deq_log s). t < tickets_out (shared s) \<and> t < length (enq_log s) \<and> w = enq_log s ! t)"

definition conc_inv :: "atom multiset \<Rightarrow> nat \<Rightarrow> nat \<Rightarrow> nat \<Rightarrow> system \<Rightarrow> bool" where
  "conc_inv V D m n s \<longleftrightarrow> counters_ok m s \<and> work_ok V D m n s \<and> threads_ok n s \<and> owners_ok n s
     \<and> slots_ok m n s \<and> log_ok s"

lemma enq_log_nonzero: "work_ok V D m n s \<Longrightarrow> 0 \<notin> set (enq_log s)"
  unfolding work_ok_def by (metis in_multiset_in_set union_iff)

text \<open>The bounds on tickets while work is left.\<close>

lemma ticket_room:
  assumes "work_ok V D m n s" and "i < n" and "todo (threads s i) = x # xs"
  shows "length (enq_log s) < m"
proof -
  have "mset (todo (threads s i)) \<subseteq># all_todo n s"
    unfolding all_todo_def using assms(2) by (simp add: sum.remove [of _ i])
  then have "0 < size (all_todo n s)"
    using assms(3) by (metis mset_subset_eq_single nonempty_has_size size_empty mset.simps(2)
        subset_mset.le_zero_eq union_single_eq_diff add_mset_not_empty)
  moreover have "length (enq_log s) + size (all_todo n s) = size V"
    using assms(1) by (metis size_mset size_union work_ok_def)
  ultimately show ?thesis
    using assms(1) by (simp add: work_ok_def)
qed

lemma deq_room:
  assumes "work_ok V D m n s" and "i < n" and "0 < calls (threads s i)"
  shows "tickets_out (shared s) < m"
proof -
  have "calls (threads s i) \<le> all_calls n s"
    unfolding all_calls_def using assms(2) by (intro member_le_sum) auto
  then show ?thesis
    using assms(1,3) by (simp add: work_ok_def)
qed

section \<open>Every step keeps the invariant\<close>

lemma sint_ticket:
  "0 \<le> sint (cur :: c_int) \<Longrightarrow> nat (sint cur) < m \<Longrightarrow> sint cur = int (nat (sint cur)) \<and> nat (sint cur) mod m = nat (sint cur)"
  by simp

lemma load_own:
  assumes "counters_ok m s" and "0 \<le> sint cur" and "nat (sint cur) < m"
  shows "load_slot m cur (shared s) = Ret (data (shared s) ! nat (sint cur))"
  using assms load_ticket [of m "shared s" cur "nat (sint cur)"] by (simp add: counters_ok_def)

lemma store_own:
  assumes "counters_ok m s" and "0 \<le> sint cur" and "nat (sint cur) < m"
  shows "store_slot m cur x (shared s) = Ret ((shared s)\<lparr>data := (data (shared s))[nat (sint cur) := x]\<rparr>)"
  using assms store_ticket [of m "shared s" cur "nat (sint cur)"] by (simp add: counters_ok_def)

lemma clear_own:
  assumes "counters_ok m s" and "0 \<le> sint cur" and "nat (sint cur) < m"
  shows "and_slot m cur 0 (shared s) = Ret ((shared s)\<lparr>data := (data (shared s))[nat (sint cur) := 0]\<rparr>)"
  using assms clear_ticket [of m "shared s" cur "nat (sint cur)"] by (simp add: counters_ok_def)

text \<open>Tickets in use are below the size of the ring.\<close>

lemma tickets_bounded:
  assumes "work_ok V D m n s"
  shows "length (enq_log s) \<le> m" "tickets_out (shared s) \<le> m"
proof -
  have "length (enq_log s) \<le> size V"
    using assms by (metis le_add1 size_mset size_union work_ok_def)
  then show "length (enq_log s) \<le> m" "tickets_out (shared s) \<le> m"
    using assms by (auto simp: work_ok_def)
qed

text \<open>A step that only moves thread \<open>i\<close>, keeping its ticket and its work.\<close>

lemma move_inv:
  assumes inv: "conc_inv V D m n s" and i: "i < n"
    and st: "storing th = storing (threads s i)" and ho: "holding th = holding (threads s i)"
    and td: "todo th = todo (threads s i)" and ca: "calls th = calls (threads s i)"
    and ok: "thread_ok s th"
  shows "conc_inv V D m n (s\<lparr>threads := (threads s)(i := th)\<rparr>)"
proof -
  let ?s = "s\<lparr>threads := (threads s)(i := th)\<rparr>"
  have tok: "thread_ok ?s t = thread_ok s t" for t
    by (cases t) simp_all
  have "all_todo n ?s = all_todo n s" "all_calls n ?s = all_calls n s"
    using td ca by (simp_all add: all_todo_def all_calls_def sum_upd_same [of "\<lambda>t. mset (todo t)"]
        sum_upd_same [of calls])
  then have "work_ok V D m n ?s"
    using inv by (simp add: conc_inv_def work_ok_def)
  moreover have "threads_ok n ?s"
    using inv ok by (auto simp: conc_inv_def threads_ok_def tok)
  moreover have "owners_ok n ?s" "slots_ok m n ?s"
    using inv by (simp_all add: conc_inv_def owners_ok_def slots_ok_def cleared_def
        owns_keep [where f = storing and g = "threads s" and i = i, OF st]
        owns_keep [where f = holding and g = "threads s" and i = i, OF ho]
        sole_keep [where f = storing and g = "threads s" and i = i, OF st]
        sole_keep [where f = holding and g = "threads s" and i = i, OF ho])
  ultimately show ?thesis
    using inv by (simp add: conc_inv_def counters_ok_def log_ok_def)
qed

lemma storing_bound:
  "threads_ok n s \<Longrightarrow> owns storing n (threads s) t \<Longrightarrow> t < length (enq_log s)"
proof -
  assume ok: "threads_ok n s" and "owns storing n (threads s) t"
  then obtain i where "i < n" "storing (threads s i) = Some t"
    by (auto simp: owns_def)
  with ok show ?thesis
    by (cases "threads s i") (auto simp: threads_ok_def dest: spec [of _ i])
qed

lemma holding_bound:
  "threads_ok n s \<Longrightarrow> owns holding n (threads s) t \<Longrightarrow> t < tickets_out (shared s)"
proof -
  assume ok: "threads_ok n s" and "owns holding n (threads s) t"
  then obtain i where "i < n" "holding (threads s i) = Some t"
    by (auto simp: owns_def)
  with ok show ?thesis
    by (cases "threads s i") (auto simp: threads_ok_def dest: spec [of _ i])
qed

lemma enq_ticket_inv:
  assumes inv: "conc_inv V D m n s" and i: "i < n" and th: "threads s i = Producer (x # xs)"
    and f: "fetch_tail (shared s) = (cur, r)"
  shows "conc_inv V D m n
    (s\<lparr>shared := r, threads := (threads s)(i := Storing cur x xs), enq_log := enq_log s @ [x]\<rparr>)"
    (is "conc_inv V D m n ?s")
proof -
  note I = inv [unfolded conc_inv_def]
  let ?T = "length (enq_log s)"
  have room: "?T < m"
    using ticket_room [of V D m n s i x xs] I i th by simp
  have r: "cur = tail (shared s) + 1" "r = (shared s)\<lparr>tail := tail (shared s) + 1\<rparr>"
    using f by (auto simp: fetch_tail_def)
  have cur: "sint cur = int ?T"
    using I room by (simp add: r counters_ok_def sint_incr)
  have out: "tickets_out r = tickets_out (shared s)"
    by (simp add: r tickets_out_def)
  have nth: "(enq_log s @ [x]) ! t = enq_log s ! t" if "t < ?T" for t
    using that by (simp add: nth_append)
  have fresh: "\<not> owns storing n (threads s) ?T" "?T \<notin> cleared s"
    using storing_bound [of n s ?T] I by (auto simp: log_ok_def cleared_def)
  have ow: "owns storing n (threads ?s) t \<longleftrightarrow> t = ?T \<or> owns storing n (threads s) t" for t
    using owns_acquire [OF i, of storing "threads s" "Storing cur x xs" ?T t] th cur by simp
  have oh: "owns holding n (threads ?s) t = owns holding n (threads s) t" for t
    using th by (simp add: owner_keep)
  have cl: "cleared ?s = cleared s"
    by (simp add: cleared_def)
  have "counters_ok m ?s"
    using I cur out by (simp add: counters_ok_def r)
  moreover have "work_ok V D m n ?s"
  proof -
    have "all_todo n ?s + mset (x # xs) = all_todo n s + mset xs"
      using sum_upd [OF i, where f = "\<lambda>t. mset (todo t)" and g = "threads s" and y = "Storing cur x xs"] th
      by (simp add: all_todo_def)
    moreover have "all_calls n ?s = all_calls n s"
      using th by (simp add: all_calls_def sum_upd_same [of calls])
    ultimately show ?thesis
      using I out by (auto simp: work_ok_def)
  qed
  moreover have "threads_ok n ?s"
    unfolding threads_ok_def
  proof (intro allI impI)
    fix j assume j: "j < n"
    then have "thread_ok s (threads s j)"
      using I by (simp add: threads_ok_def)
    then show "thread_ok ?s (threads ?s j)"
      using cur out by (cases "threads s j") (auto simp: nth r)
  qed
  moreover have "owners_ok n ?s"
    unfolding owners_ok_def ow oh cl
    using I fresh out th cur by (auto simp: owners_ok_def owner_keep sole_acquire)
  moreover have "slots_ok m n ?s"
    unfolding slots_ok_def ow cl using I fresh by (auto simp: slots_ok_def r nth less_Suc_eq)
  moreover have "log_ok ?s"
    using I by (auto simp: log_ok_def out nth)
  ultimately show ?thesis
    by (simp add: conc_inv_def)
qed


lemma enq_store_inv:
  assumes inv: "conc_inv V D m n s" and i: "i < n" and th: "threads s i = Storing cur x xs"
    and f: "store_slot m cur x (shared s) = Ret r"
  shows "conc_inv V D m n (s\<lparr>shared := r, threads := (threads s)(i := Producer xs)\<rparr>)"
    (is "conc_inv V D m n ?s")
proof -
  note I = inv [unfolded conc_inv_def]
  let ?t = "nat (sint cur)"
  have own: "0 \<le> sint cur" "?t < length (enq_log s)" "enq_log s ! ?t = x"
    using I i th by (force simp: threads_ok_def dest: spec [of _ i])+
  have lt: "?t < m"
    using own(2) tickets_bounded(1) [of V D m n s] I by simp
  have r: "r = (shared s)\<lparr>data := (data (shared s))[?t := x]\<rparr>"
    using f store_own [of m s cur x] I own(1) lt by simp
  have out: "tickets_out r = tickets_out (shared s)"
    by (simp add: r tickets_out_def)
  have len: "length (data (shared s)) = m"
    using I by (simp add: counters_ok_def)
  have mine: "owns storing n (threads s) ?t"
    using ownsI [of i n storing "threads s"] i th by simp
  have zero: "data (shared s) ! ?t = 0"
    using I lt mine by (simp add: slots_ok_def)
  have keep: "(data (shared s))[?t := x] ! k = data (shared s) ! k" if "data (shared s) ! k \<noteq> 0" for k
    using that zero by (cases "k = ?t") auto
  have ow: "owns storing n (threads ?s) t \<longleftrightarrow> t \<noteq> ?t \<and> owns storing n (threads s) t" for t
    using owns_release [of storing n "threads s" i ?t "Producer xs" t] th i I by (simp add: owners_ok_def)
  have oh: "owns holding n (threads ?s) t = owns holding n (threads s) t" for t
    using th by (simp add: owner_keep)
  have cl: "cleared ?s = cleared s"
    by (simp add: cleared_def)
  have "counters_ok m ?s"
    using I out by (simp add: counters_ok_def r)
  moreover have "work_ok V D m n ?s"
    using I th out by (simp add: work_ok_def all_todo_def all_calls_def
        sum_upd_same [of "\<lambda>t. mset (todo t)"] sum_upd_same [of calls])
  moreover have "threads_ok n ?s"
    unfolding threads_ok_def
  proof (intro allI impI)
    fix j assume j: "j < n"
    then have "thread_ok s (threads s j)"
      using I by (simp add: threads_ok_def)
    then show "thread_ok ?s (threads ?s j)"
      using out by (cases "threads s j") (auto simp: r keep)
  qed
  moreover have "owners_ok n ?s"
    unfolding owners_ok_def ow oh cl
    using I out th by (auto simp: owners_ok_def owner_keep sole_release)
  moreover have "slots_ok m n ?s"
    unfolding slots_ok_def ow cl
    using I own len lt mine by (auto simp: slots_ok_def r owners_ok_def nth_list_update)
  moreover have "log_ok ?s"
    using I by (auto simp: log_ok_def out)
  ultimately show ?thesis
    by (simp add: conc_inv_def)
qed

lemma deq_ticket_inv:
  assumes inv: "conc_inv V D m n s" and i: "i < n" and th: "threads s i = Entering k"
    and f: "fetch_head (shared s) = (cur, r)"
  shows "conc_inv V D m n (s\<lparr>shared := r, threads := (threads s)(i := Spinning cur k)\<rparr>)"
    (is "conc_inv V D m n ?s")
proof -
  note I = inv [unfolded conc_inv_def]
  let ?H = "tickets_out (shared s)"
  have room: "?H < m"
    using deq_room [of V D m n s i] I i th by simp
  have r: "cur = head (shared s) + 1" "r = (shared s)\<lparr>head := head (shared s) + 1\<rparr>"
    using f by (auto simp: fetch_head_def)
  have cur: "sint cur = int ?H"
    using I room by (simp add: r counters_ok_def sint_incr)
  have "sint (head r) = int ?H"
    using cur r by simp
  then have out: "tickets_out r = Suc ?H"
    unfolding tickets_out_def [of r] by simp
  have fresh: "\<not> owns holding n (threads s) ?H" "?H \<notin> cleared s"
    using holding_bound [of n s ?H] I by (auto simp: log_ok_def cleared_def)
  have oh: "owns holding n (threads ?s) t \<longleftrightarrow> t = ?H \<or> owns holding n (threads s) t" for t
    using owns_acquire [OF i, of holding "threads s" "Spinning cur k" ?H t] th cur by simp
  have ow: "owns storing n (threads ?s) t = owns storing n (threads s) t" for t
    using th by (simp add: owner_keep)
  have cl: "cleared ?s = cleared s"
    by (simp add: cleared_def)
  have "counters_ok m ?s"
    using I cur out by (simp add: counters_ok_def r)
  moreover have "work_ok V D m n ?s"
  proof -
    have "all_todo n ?s = all_todo n s"
      using th by (simp add: all_todo_def sum_upd_same [of "\<lambda>t. mset (todo t)"])
    moreover have "all_calls n ?s + Suc k = all_calls n s + k"
      using sum_upd [OF i, where f = calls and g = "threads s" and y = "Spinning cur k"] th by (simp add: all_calls_def)
    ultimately show ?thesis
      using I out by (auto simp: work_ok_def)
  qed
  moreover have "threads_ok n ?s"
    unfolding threads_ok_def
  proof (intro allI impI)
    fix j assume j: "j < n"
    then have "thread_ok s (threads s j)"
      using I by (simp add: threads_ok_def)
    then show "thread_ok ?s (threads ?s j)"
      using cur out by (cases "threads s j") (auto simp: r)
  qed
  moreover have "owners_ok n ?s"
    unfolding owners_ok_def ow oh cl
    using I fresh out th cur by (auto simp: owners_ok_def owner_keep sole_acquire less_Suc_eq)
  moreover have "slots_ok m n ?s"
    unfolding slots_ok_def ow cl using I by (simp add: slots_ok_def r)
  moreover have "log_ok ?s"
    using I by (auto simp: log_ok_def out)
  ultimately show ?thesis
    by (simp add: conc_inv_def)
qed

lemma deq_clear_inv:
  assumes inv: "conc_inv V D m n s" and i: "i < n" and th: "threads s i = Clearing cur w k"
    and f: "and_slot m cur 0 (shared s) = Ret r"
  shows "conc_inv V D m n (s\<lparr>shared := r, threads := (threads s)(i := Consumer k),
      deq_log := deq_log s @ [(nat (sint cur), w)]\<rparr>)"
    (is "conc_inv V D m n ?s")
proof -
  note I = inv [unfolded conc_inv_def]
  let ?t = "nat (sint cur)"
  have own: "0 \<le> sint cur" "?t < tickets_out (shared s)" "data (shared s) ! ?t = w" "w \<noteq> 0"
    using I i th by (force simp: threads_ok_def dest: spec [of _ i])+
  have lt: "?t < m"
    using own(2) tickets_bounded(2) [of V D m n s] I by simp
  have r: "r = (shared s)\<lparr>data := (data (shared s))[?t := 0]\<rparr>"
    using f clear_own [of m s cur] I own(1) lt by simp
  have out: "tickets_out r = tickets_out (shared s)"
    by (simp add: r tickets_out_def)
  have len: "length (data (shared s)) = m"
    using I by (simp add: counters_ok_def)
  have mine: "owns holding n (threads s) ?t"
    using ownsI [of i n holding "threads s"] i th by simp
  have full: "?t < length (enq_log s)" "\<not> owns storing n (threads s) ?t" "?t \<notin> cleared s"
      "enq_log s ! ?t = w"
    using I lt own(3,4) by (auto simp: slots_ok_def split: if_splits)
  have oh: "owns holding n (threads ?s) t \<longleftrightarrow> t \<noteq> ?t \<and> owns holding n (threads s) t" for t
    using owns_release [of holding n "threads s" i ?t "Consumer k" t] th i I by (simp add: owners_ok_def)
  have ow: "owns storing n (threads ?s) t = owns storing n (threads s) t" for t
    using th by (simp add: owner_keep)
  have cl: "cleared ?s = insert ?t (cleared s)"
    by (auto simp: cleared_def)
  have alone: "holding (threads s j) \<noteq> Some ?t" if "j < n" "j \<noteq> i" for j
    using I i th that unfolding owners_ok_def sole_def by (metis holding.simps(3))
  have "counters_ok m ?s"
    using I out by (simp add: counters_ok_def r)
  moreover have "work_ok V D m n ?s"
    using I th out by (simp add: work_ok_def all_todo_def all_calls_def
        sum_upd_same [of "\<lambda>t. mset (todo t)"] sum_upd_same [of calls])
  moreover have "threads_ok n ?s"
    unfolding threads_ok_def
  proof (intro allI impI)
    fix j assume j: "j < n"
    then have "thread_ok s (threads s j)"
      using I by (simp add: threads_ok_def)
    then show "thread_ok ?s (threads ?s j)"
      using out alone [OF j] by (cases "j = i"; cases "threads s j") (auto simp: r)
  qed
  moreover have "owners_ok n ?s"
    unfolding owners_ok_def ow oh cl
    using I out th full by (auto simp: owners_ok_def owner_keep sole_release)
  moreover have "slots_ok m n ?s"
    unfolding slots_ok_def ow cl
    using I len lt by (auto simp: slots_ok_def r nth_list_update)
  moreover have "log_ok ?s"
    using I own(2) full by (auto simp: log_ok_def out cleared_def)
  ultimately show ?thesis
    by (simp add: conc_inv_def)
qed

lemma conc_inv_thread: "conc_inv V D m n s \<Longrightarrow> i < n \<Longrightarrow> thread_ok s (threads s i)"
  by (simp add: conc_inv_def threads_ok_def)

lemma conc_inv_room:
  "conc_inv V D m n s \<Longrightarrow> length (enq_log s) \<le> m \<and> tickets_out (shared s) \<le> m"
  using tickets_bounded [of V D m n s] by (simp add: conc_inv_def)

text \<open>No access faults, and the emptiness test never asks for the counters.\<close>

lemma no_fault:
  assumes inv: "conc_inv V D m n s" and i: "i < n"
  shows "threads s i = Storing cur x xs \<Longrightarrow> store_slot m cur x (shared s) \<noteq> Fault e"
    and "threads s i = Spinning cur k \<or> threads s i = Reading cur k \<Longrightarrow> load_slot m cur (shared s) \<noteq> Fault e"
    and "threads s i = Clearing cur w k \<Longrightarrow> and_slot m cur 0 (shared s) \<noteq> Fault e"
  using conc_inv_thread [OF inv i] conc_inv_room [OF inv] inv
    store_own [of m s cur x] load_own [of m s cur] clear_own [of m s cur]
  by (auto simp: conc_inv_def)

lemma check_skipped:
  assumes inv: "conc_inv V D m n s"
  shows "c_sub (sint (tail (shared s))) (int m) = Ret (int (length (enq_log s)) - 1 - int m)"
    and "int (length (enq_log s)) - 1 - int m < 0"
  using inv conc_inv_room [OF inv] by (auto simp: conc_inv_def counters_ok_def c_sub_def)

lemma conc_step_inv: "conc_step v m n s s' \<Longrightarrow> conc_inv V D m n s \<Longrightarrow> conc_inv V D m n s'"
proof (induction rule: conc_step.induct)
  case (enq_ticket i s x xs cur r)
  then show ?case by (blast intro: enq_ticket_inv)
next
  case (enq_store i s cur x xs r)
  then show ?case by (blast intro: enq_store_inv)
next
  case (enq_fault i s cur x xs e)
  then show ?case using no_fault(1) by blast
next
  case (deq_start i s k)
  then show ?case by (intro move_inv) simp_all
next
  case (deq_check i s k d)
  then have "\<not> 0 < d"
    using check_skipped [of V D m n s] by simp
  with deq_check show ?case by (intro move_inv) simp_all
next
  case (deq_check_fault i s k e)
  then show ?case using check_skipped(1) [of V D m n s] by simp
next
  case (deq_load_head i s k)
  then show ?case using conc_inv_thread [of V D m n s i] by simp
next
  case (deq_empty i s h k)
  then show ?case using conc_inv_thread [of V D m n s i] by simp
next
  case (deq_nonempty i s h k)
  then show ?case using conc_inv_thread [of V D m n s i] by simp
next
  case (deq_ticket i s k cur r)
  then show ?case by (blast intro: deq_ticket_inv)
next
  case (deq_spin i s cur k)
  then show ?case by simp
next
  case (deq_found i s cur k w)
  have "thread_ok s (Reading cur k)"
    using conc_inv_thread [of V D m n s i] conc_inv_room [of V D m n s] deq_found load_own [of m s cur]
    by (auto simp: conc_inv_def)
  with deq_found show ?case by (intro move_inv) simp_all
next
  case (deq_read i s cur k w)
  have "thread_ok s (Clearing cur w k)"
    using conc_inv_thread [of V D m n s i] conc_inv_room [of V D m n s] deq_read load_own [of m s cur]
    by (auto simp: conc_inv_def)
  with deq_read show ?case by (intro move_inv) simp_all
next
  case (deq_load_fault i s cur k e)
  then show ?case using no_fault(2) by blast
next
  case (deq_clear i s cur w k r)
  then show ?case by (blast intro: deq_clear_inv)
next
  case (deq_clear_fault i s cur w k e)
  then show ?case using no_fault(3) by blast
qed

section \<open>Runs\<close>

text \<open>A start: an initialised ring, and threads that have not taken any ticket yet.\<close>

definition conc_start :: "nat \<Rightarrow> nat \<Rightarrow> system \<Rightarrow> bool" where
  "conc_start m n s \<longleftrightarrow>
     0 < m \<and> m \<le> 2147483647 \<and> shared s = \<lparr>head = - 1, tail = - 1, data = replicate m 0\<rparr>
     \<and> enq_log s = [] \<and> deq_log s = []
     \<and> (\<forall>i<n. \<exists>xs k. threads s i = Producer xs \<or> threads s i = Consumer k)"

definition conc_runs :: "variant \<Rightarrow> nat \<Rightarrow> nat \<Rightarrow> system \<Rightarrow> system \<Rightarrow> bool" where
  "conc_runs v m n = (conc_step v m n)\<^sup>*\<^sup>*"

lemma start_inv:
  assumes st: "conc_start m n s" and V: "size (all_todo n s) \<le> m" "0 \<notin># all_todo n s"
    and D: "all_calls n s \<le> m"
  shows "conc_inv (all_todo n s) (all_calls n s) m n s"
proof -
  have idle: "thread_ok s (threads s i) \<and> storing (threads s i) = None \<and> holding (threads s i) = None"
    if "i < n" for i
    using st that by (force simp: conc_start_def)
  have "\<not> owns storing n (threads s) t" "\<not> owns holding n (threads s) t" for t
    using idle by (auto simp: owns_def)
  moreover have "sole storing n (threads s)" "sole holding n (threads s)"
    using idle by (auto simp: sole_def)
  ultimately show ?thesis
    using st V D idle
    by (simp add: conc_inv_def conc_start_def counters_ok_def work_ok_def threads_ok_def owners_ok_def
        slots_ok_def log_ok_def cleared_def tickets_out_def)
qed

lemma runs_inv: "conc_runs v m n s s' \<Longrightarrow> conc_inv V D m n s \<Longrightarrow> conc_inv V D m n s'"
  unfolding conc_runs_def by (induction rule: rtranclp_induct) (auto intro: conc_step_inv)


lemma finished_iff: "finished th \<longleftrightarrow> th = Producer [] \<or> th = Consumer 0"
  by (cases th rule: finished.cases) simp_all

text \<open>Work left, as a number: every step but a failed poll reduces it.\<close>

fun effort :: "thread \<Rightarrow> nat" where
  "effort (Producer xs) = 2 * length xs"
| "effort (Storing cur x xs) = 2 * length xs + 1"
| "effort (Consumer k) = 7 * k"
| "effort (Checking k) = 7 * k + 6"
| "effort (Comparing h k) = 7 * k + 5"
| "effort (Entering k) = 7 * k + 4"
| "effort (Spinning cur k) = 7 * k + 3"
| "effort (Reading cur k) = 7 * k + 2"
| "effort (Clearing cur w k) = 7 * k + 1"
| "effort Crashed = 0"

definition all_effort :: "nat \<Rightarrow> system \<Rightarrow> nat" where
  "all_effort n s = (\<Sum>i<n. effort (threads s i))"

lemma effort_move:
  assumes "i < n" and "threads s' = (threads s)(i := th)" and "effort th < effort (threads s i)"
  shows "all_effort n s' < all_effort n s"
  using sum_upd [OF assms(1), where f = effort and g = "threads s" and y = th] assms(2,3)
  by (simp add: all_effort_def)

lemma conc_step_effort: "conc_step v m n s s' \<Longrightarrow> s' = s \<or> all_effort n s' < all_effort n s"
  by (induction rule: conc_step.induct) (auto intro: effort_move)

lemma stepI: "conc_step v m n s s' \<Longrightarrow> threads s' j \<noteq> threads s j \<Longrightarrow> \<exists>s'. conc_step v m n s s' \<and> s' \<noteq> s"
  by auto

text \<open>A thread that has not finished and does not poll can step.\<close>

lemma conc_move:
  assumes inv: "conc_inv V D m n s" and j: "j < n" "\<not> finished (threads s j)"
    and nospin: "\<nexists>cur k. threads s j = Spinning cur k"
  shows "\<exists>s'. conc_step v m n s s' \<and> s' \<noteq> s"
proof -
  note I = inv [unfolded conc_inv_def]
  note ok = conc_inv_thread [OF inv j(1)] and room = conc_inv_room [OF inv]
  show ?thesis
  proof (cases "threads s j")
    case (Producer xs)
    with j obtain x ys where xs: "threads s j = Producer (x # ys)"
      by (cases xs) auto
    show ?thesis
      by (rule stepI [OF conc_step.enq_ticket [OF j(1) xs prod.collapse [symmetric]], where j = j])
        (simp add: xs)
  next
    case (Storing cur x xs)
    have "store_slot m cur x (shared s) = Ret ((shared s)\<lparr>data := (data (shared s))[nat (sint cur) := x]\<rparr>)"
      using ok room I Storing by (intro store_own) auto
    from conc_step.enq_store [OF j(1) Storing this] show ?thesis
      by (rule stepI [where j = j]) (simp add: Storing)
  next
    case (Consumer k)
    with j obtain k' where k: "threads s j = Consumer (Suc k')"
      by (cases k) auto
    show ?thesis
    proof (cases v)
      case NoCheck
      from conc_step.deq_start [OF j(1) k NoCheck] show ?thesis
        by (rule stepI [where j = j]) (simp add: k)
    next
      case SizeCheck
      from conc_step.deq_check [OF j(1) k SizeCheck check_skipped(1) [OF inv]] show ?thesis
        by (rule stepI [where j = j]) (simp add: k)
    qed
  next
    case (Entering k)
    from conc_step.deq_ticket [OF j(1) Entering prod.collapse [symmetric]] show ?thesis
      by (rule stepI [where j = j]) (simp add: Entering)
  next
    case (Reading cur k)
    have "load_slot m cur (shared s) = Ret (data (shared s) ! nat (sint cur))"
      using ok room I Reading by (intro load_own) auto
    from conc_step.deq_read [OF j(1) Reading this] show ?thesis
      by (rule stepI [where j = j]) (simp add: Reading)
  next
    case (Clearing cur w k)
    have "and_slot m cur 0 (shared s) = Ret ((shared s)\<lparr>data := (data (shared s))[nat (sint cur) := 0]\<rparr>)"
      using ok room I Clearing by (intro clear_own) auto
    from conc_step.deq_clear [OF j(1) Clearing this] show ?thesis
      by (rule stepI [where j = j]) (simp add: Clearing)
  qed (use ok nospin in auto)
qed

text \<open>When all the others have finished or poll, the element a polling thread waits for is there.\<close>

lemma conc_spin_ends:
  assumes inv: "conc_inv V D m n s" and D: "D \<le> size V"
    and fin: "\<And>j. j < n \<Longrightarrow> finished (threads s j) \<or> (\<exists>cur k. threads s j = Spinning cur k)"
    and i: "i < n" and th: "threads s i = Spinning cur k"
  shows "\<exists>s'. conc_step v m n s s' \<and> s' \<noteq> s"
proof -
  note I = inv [unfolded conc_inv_def]
  let ?t = "nat (sint cur)"
  have own: "0 \<le> sint cur" "?t < tickets_out (shared s)"
    using conc_inv_thread [OF inv i] th by simp_all
  have "todo (threads s j) = []" if "j < n" for j
    using fin [OF that] by (auto simp: finished_iff)
  then have "all_todo n s = {#}"
    by (simp add: all_todo_def)
  then have "mset (enq_log s) = V"
    using I by (simp add: work_ok_def)
  then have T: "length (enq_log s) = size V"
    by auto
  have "storing (threads s j) = None" if "j < n" for j
    using fin [OF that] by (cases "threads s j") auto
  then have "\<not> owns storing n (threads s) ?t"
    by (auto simp: owns_def)
  moreover have "?t \<notin> cleared s"
    using ownsI [of i n holding "threads s" ?t] i th I by (auto simp: owners_ok_def)
  moreover have lt: "?t < size V" "?t < m"
    using own(2) I D by (auto simp: work_ok_def)
  ultimately have "data (shared s) ! ?t = enq_log s ! ?t"
    using I T by (simp add: slots_ok_def)
  moreover have "enq_log s ! ?t \<noteq> 0"
    using enq_log_nonzero [of V D m n s] I lt(1) T by (metis nth_mem)
  ultimately have w: "data (shared s) ! ?t \<noteq> 0"
    by simp
  have "load_slot m cur (shared s) = Ret (data (shared s) ! ?t)"
    using own lt(2) I by (intro load_own) auto
  from conc_step.deq_found [OF i th this w] show ?thesis
    by (rule stepI [where j = i]) (simp add: th)
qed

text \<open>
  Progress: with enough elements for the dequeues, some thread that has not finished can always take
  a step that is not a failed poll.
\<close>

lemma conc_progress:
  assumes inv: "conc_inv V D m n s" and D: "D \<le> size V"
    and un: "i < n" "\<not> finished (threads s i)"
  shows "\<exists>s'. conc_step v m n s s' \<and> s' \<noteq> s"
proof (cases "\<exists>j<n. \<not> finished (threads s j) \<and> (\<nexists>cur k. threads s j = Spinning cur k)")
  case True
  with conc_move [OF inv] show ?thesis
    by blast
next
  case False
  then have fin: "finished (threads s j) \<or> (\<exists>cur k. threads s j = Spinning cur k)" if "j < n" for j
    using that by blast
  from fin [OF un(1)] un(2) obtain cur k where "threads s i = Spinning cur k"
    by blast
  from conc_spin_ends [OF inv D fin un(1) this] show ?thesis
    by blast
qed

text \<open>So a run can always be continued until every thread has finished.\<close>

lemma conc_reaches_end:
  assumes "conc_inv V D m n s" and "D \<le> size V"
  shows "\<exists>s'. conc_runs v m n s s' \<and> (\<forall>i<n. finished (threads s' i))"
  using assms(1)
proof (induction "all_effort n s" arbitrary: s rule: less_induct)
  case less
  show ?case
  proof (cases "\<forall>i<n. finished (threads s i)")
    case True
    then show ?thesis
      by (auto simp: conc_runs_def)
  next
    case False
    then obtain s1 where s1: "conc_step v m n s s1" "s1 \<noteq> s"
      using conc_progress [OF less.prems assms(2)] by blast
    then have "all_effort n s1 < all_effort n s"
      using conc_step_effort by blast
    with less.hyps [of s1] conc_step_inv [OF s1(1) less.prems] obtain s' where
        "conc_runs v m n s1 s'" "\<forall>i<n. finished (threads s' i)"
      by blast
    with s1(1) show ?thesis
      by (auto simp: conc_runs_def intro: converse_rtranclp_into_rtranclp)
  qed
qed

text \<open>What was dequeued, in every state of a run and at its end.\<close>

lemma log_submultiset:
  assumes "log_ok s"
  shows "image_mset snd (mset (deq_log s)) \<subseteq># mset (enq_log s)"
proof -
  let ?ts = "map fst (deq_log s)"
  have d: "distinct ?ts" and w: "\<And>t w. (t, w) \<in> set (deq_log s) \<Longrightarrow> t < length (enq_log s) \<and> w = enq_log s ! t"
    using assms by (auto simp: log_ok_def)
  have "map snd (deq_log s) = map (\<lambda>t. enq_log s ! t) ?ts"
    using w by (auto simp: case_prod_beta)
  then have "image_mset snd (mset (deq_log s)) = image_mset (\<lambda>t. enq_log s ! t) (mset ?ts)"
    by (metis mset_map)
  also have "\<dots> \<subseteq># image_mset (\<lambda>t. enq_log s ! t) (mset [0..<length (enq_log s)])"
  proof (rule image_mset_subseteq_mono)
    have "set ?ts \<subseteq> set [0..<length (enq_log s)]"
      using w by fastforce
    then show "mset ?ts \<subseteq># mset [0..<length (enq_log s)]"
      using d by (metis distinct_upt mset_set_set finite_set msubset_mset_set_iff)
  qed
  also have "\<dots> = mset (enq_log s)"
    by (metis map_nth mset_map)
  finally show ?thesis .
qed

lemma finished_log:
  assumes inv: "conc_inv V D m n s" and D: "D = size V" and fin: "\<forall>i<n. finished (threads s i)"
  shows "image_mset snd (mset (deq_log s)) = V" and "length (deq_log s) = size V"
proof -
  note I = inv [unfolded conc_inv_def]
  have z: "todo (threads s j) = [] \<and> calls (threads s j) = 0 \<and> holding (threads s j) = None" if "j < n" for j
    using fin that by (auto simp: finished_iff)
  then have "all_todo n s = {#}" "all_calls n s = 0" and nh: "\<not> owns holding n (threads s) t" for t
    by (auto simp: all_todo_def all_calls_def owns_def)
  then have E: "mset (enq_log s) = V" and H: "tickets_out (shared s) = size V"
    using I D by (auto simp: work_ok_def)
  have "cleared s = {..<size V}"
    using I nh H by (auto simp: owners_ok_def log_ok_def cleared_def)
  then have "card (set (map fst (deq_log s))) = size V"
    by (simp add: cleared_def)
  then show len: "length (deq_log s) = size V"
    using I distinct_card [of "map fst (deq_log s)"] by (simp add: log_ok_def)
  have "image_mset snd (mset (deq_log s)) \<subseteq># V"
    using log_submultiset [of s] I E by simp
  then show "image_mset snd (mset (deq_log s)) = V"
    using len by (metis size_image_mset size_mset mset_subset_size subset_mset.le_less less_irrefl)
qed

lemma finished_cleared:
  assumes inv: "conc_inv V D m n s" and D: "D = size V" and fin: "\<forall>i<n. finished (threads s i)"
  shows "data (shared s) = replicate m 0"
proof (rule nth_equalityI)
  note I = inv [unfolded conc_inv_def]
  have z: "todo (threads s j) = [] \<and> calls (threads s j) = 0 \<and> holding (threads s j) = None" if "j < n" for j
    using fin that by (auto simp: finished_iff)
  then have "all_todo n s = {#}" "all_calls n s = 0" and nh: "\<not> owns holding n (threads s) t" for t
    by (auto simp: all_todo_def all_calls_def owns_def)
  then have E: "length (enq_log s) = size V" and H: "tickets_out (shared s) = size V"
    using I D by (auto simp: work_ok_def simp flip: size_mset)
  have cl: "t \<in> cleared s" if "t < size V" for t
    using I nh H that by (auto simp: owners_ok_def)
  show len: "length (data (shared s)) = length (replicate m 0)"
    using I by (simp add: counters_ok_def)
  fix t assume "t < length (data (shared s))"
  then show "data (shared s) ! t = replicate m 0 ! t"
    using I E cl len by (auto simp: slots_ok_def)
qed

section \<open>The threads of the benchmark\<close>

text \<open>
  \<^verbatim>\<open>main\<close> (case 1, \<^verbatim>\<open>LATENCY\<close>) creates \<open>c\<close> producers, each enqueueing \<open>1, \<dots>, n\<close>, and \<open>c\<close> consumers
  of \<open>n\<close> dequeues each; \<open>c\<close> is \<^verbatim>\<open>CUR_NUM_THREADS\<close> and \<open>n\<close> is \<^verbatim>\<open>NUM_SAMPLES/CUR_NUM_THREADS\<close>.
\<close>

definition bench_system :: "nat \<Rightarrow> nat \<Rightarrow> nat \<Rightarrow> system" where
  "bench_system m c n =
     \<lparr>shared = \<lparr>head = - 1, tail = - 1, data = replicate m 0\<rparr>,
      threads = (\<lambda>i. if i < c then Producer (map sample [0..<n]) else Consumer n),
      enq_log = [], deq_log = []\<rparr>"

lemma sum_split: "(\<Sum>i<c + c. if i < c then a else (0 :: 'b :: comm_monoid_add)) = (\<Sum>i<(c::nat). a)"
proof -
  have "(\<Sum>i<c + c. if i < c then a else 0) = (\<Sum>i\<in>{..<c + c} \<inter> {i. i < c}. a)"
    by (simp add: sum.inter_restrict)
  moreover have "{..<c + c} \<inter> {i. i < c} = {..<c}"
    by auto
  ultimately show ?thesis
    by simp
qed

lemma sum_split': "(\<Sum>i<c + c. if i < c then 0 else (a :: nat)) = c * a"
proof -
  have "(\<Sum>i<c + c. (if i < c then 0 else a) + (if i < c then a else 0)) = (\<Sum>i<c + c. a)"
    by (rule sum.cong) auto
  then show ?thesis
    by (simp add: sum.distrib sum_split algebra_simps)
qed

lemma sum_repeat: "(\<Sum>i<(c::nat). M) = repeat_mset c M"
  by (induction c) simp_all

lemma in_repeat: "x \<in># repeat_mset c M \<Longrightarrow> x \<in># M"
  by (simp flip: count_greater_zero_iff)

lemma bench_todo: "all_todo (c + c) (bench_system m c n) = repeat_mset c (mset (map sample [0..<n]))"
proof -
  have "all_todo (c + c) (bench_system m c n)
      = (\<Sum>i<c + c. if i < c then mset (map sample [0..<n]) else {#})"
    unfolding all_todo_def bench_system_def by (rule sum.cong) auto
  also have "\<dots> = (\<Sum>i<c. mset (map sample [0..<n]))"
    by (rule sum_split)
  finally show ?thesis
    by (simp only: sum_repeat)
qed

lemma bench_calls: "all_calls (c + c) (bench_system m c n) = c * n"
proof -
  have "all_calls (c + c) (bench_system m c n) = (\<Sum>i<c + c. if i < c then 0 else n)"
    unfolding all_calls_def bench_system_def by (rule sum.cong) auto
  then show ?thesis
    by (simp add: sum_split')
qed

lemma bench_inv:
  assumes "c * n \<le> m" and "0 < m" and "m \<le> 2147483647" and "n \<le> 2147483648"
  shows "conc_inv (repeat_mset c (mset (map sample [0..<n]))) (c * n) m (c + c) (bench_system m c n)"
proof -
  have "conc_start m (c + c) (bench_system m c n)"
    using assms(2,3) by (auto simp: conc_start_def bench_system_def)
  moreover have "0 \<notin># repeat_mset c (mset (map sample [0..<n]))"
    using samples_nonzero [OF assms(4)] by (auto simp: list_all_iff dest!: in_repeat)
  ultimately show ?thesis
    using start_inv [of m "c + c" "bench_system m c n"] assms(1)
    by (simp only: bench_todo bench_calls) simp
qed

section \<open>Properties\<close>

lemma runs_start_inv:
  assumes "conc_start m n s0" and "size (all_todo n s0) \<le> m" and "0 \<notin># all_todo n s0"
    and "all_calls n s0 \<le> m" and "conc_runs v m n s0 s"
  shows "conc_inv (all_todo n s0) (all_calls n s0) m n s"
  using runs_inv [OF assms(5) start_inv [OF assms(1-4)]] .

text \<open>C1: Whatever the interleaving of any number of producers and consumers of the array queue, as long
  as no more elements are enqueued and no more dequeues made than the ring has slots and no element is 0,
  no access leaves the array, every completed dequeue has a ticket of its own, and it returned the element
  that was enqueued under the same ticket: nothing is lost, invented or delivered twice, and the order is
  that of the tickets.\<close>

theorem conc_safety:
  assumes "conc_start m n s0" and "size (all_todo n s0) \<le> m" and "0 \<notin># all_todo n s0"
    and "all_calls n s0 \<le> m" and "conc_runs v m n s0 s"
  shows "(\<forall>i<n. threads s i \<noteq> Crashed) \<and> distinct (map fst (deq_log s))
    \<and> (\<forall>(t, w)\<in>set (deq_log s). t < length (enq_log s) \<and> w = enq_log s ! t)
    \<and> mset (enq_log s) \<subseteq># all_todo n s0"
proof -
  note inv = runs_start_inv [OF assms]
  have "threads s i \<noteq> Crashed" if "i < n" for i
    using conc_inv_thread [OF inv that] by auto
  moreover have "log_ok s" "mset (enq_log s) + all_todo n s = all_todo n s0"
    using inv by (simp_all add: conc_inv_def work_ok_def)
  ultimately show ?thesis
    unfolding log_ok_def by (metis (no_types, lifting) case_prodD case_prodI2 mset_subset_eq_add_left)
qed

text \<open>One producer and one consumer of one element; a state after the producer has taken its ticket.\<close>

definition demo_system :: system where
  "demo_system = bench_system 2 1 1"

lemma demo_start: "conc_start 2 2 demo_system" "all_todo 2 demo_system = {#1#}"
  "all_calls 2 demo_system = 1"
  using bench_todo [of 1 2 1] bench_calls [of 1 2 1]
  by (auto simp: demo_system_def conc_start_def bench_system_def sample_def numeral_2_eq_2)

lemma demo_step: "\<exists>s. conc_runs SizeCheck 2 2 demo_system s \<and> enq_log s = [1]"
proof -
  have "threads demo_system 0 = Producer (1 # [])"
    by (simp add: demo_system_def bench_system_def sample_def)
  from conc_step.enq_ticket [OF _ this, of 2 _ _ SizeCheck 2] show ?thesis
    unfolding conc_runs_def
    by (intro exI conjI r_into_rtranclp) (auto simp: fetch_tail_def demo_system_def bench_system_def)
qed

theorem conc_safety_witness:
  "\<exists>s. conc_runs SizeCheck 2 2 demo_system s \<and> enq_log s = [1] \<and> threads s 1 \<noteq> Crashed
    \<and> distinct (map fst (deq_log s)) \<and> mset (enq_log s) \<subseteq># {#1#}"
proof -
  obtain s where "conc_runs SizeCheck 2 2 demo_system s" "enq_log s = [1]"
    using demo_step by blast
  with conc_safety [OF demo_start(1) _ _ _ this(1)] show ?thesis
    by (intro exI [of _ s]) (simp add: demo_start(2,3))
qed

text \<open>C2: On a new ring, with no more elements to enqueue than it has slots, none of them 0, and as many dequeues to make as
  elements to enqueue: when every thread has finished, the dequeued elements are exactly the enqueued ones, each once,
  and every slot of the ring is empty again.\<close>

theorem conc_completion:
  assumes "conc_start m n s0" and "size (all_todo n s0) \<le> m" and "0 \<notin># all_todo n s0"
    and "all_calls n s0 = size (all_todo n s0)" and "conc_runs v m n s0 s"
    and "\<forall>i<n. finished (threads s i)"
  shows "image_mset snd (mset (deq_log s)) = all_todo n s0 \<and> data (shared s) = replicate m 0"
proof -
  have "conc_inv (all_todo n s0) (all_calls n s0) m n s"
    using assms(2,4) by (intro runs_start_inv [OF assms(1-3) _ assms(5)]) simp
  from finished_log(1) [OF this assms(4,6)] finished_cleared [OF this assms(4,6)] show ?thesis
    by simp
qed

theorem conc_completion_witness:
  "\<exists>s. conc_runs NoCheck 2 2 demo_system s \<and> image_mset snd (mset (deq_log s)) = {#1#}
    \<and> data (shared s) = replicate 2 0"
proof -
  have "conc_inv {#1#} 1 2 2 demo_system"
    using start_inv [OF demo_start(1)] by (simp add: demo_start(2,3))
  from conc_reaches_end [OF this, of NoCheck] obtain s where
      s: "conc_runs NoCheck 2 2 demo_system s" "\<forall>i<2. finished (threads s i)"
    by auto
  from conc_completion [OF demo_start(1) _ _ _ s] show ?thesis
    using s(1) by (intro exI [of _ s]) (simp add: demo_start(2,3))
qed

text \<open>C3: No deadlock on a new ring, with no more elements to enqueue than it has slots, none of them 0, and no more dequeues
  to make than elements: every reachable state in which some thread has not finished has a step that is not a
  failed poll, and from every reachable state some continuation brings all threads to their end. (With more elements
  than slots the program can poll for ever, see \<open>SQueue_Program\<close>.)\<close>

theorem conc_liveness:
  assumes "conc_start m n s0" and "size (all_todo n s0) \<le> m" and "0 \<notin># all_todo n s0"
    and "all_calls n s0 \<le> size (all_todo n s0)" and "conc_runs v m n s0 s"
  shows "((\<forall>i<n. finished (threads s i)) \<or> (\<exists>s'. conc_step v m n s s' \<and> s' \<noteq> s))
    \<and> (\<exists>s'. conc_runs v m n s s' \<and> (\<forall>i<n. finished (threads s' i)))"
proof -
  have inv: "conc_inv (all_todo n s0) (all_calls n s0) m n s"
    using assms(2,4) by (intro runs_start_inv [OF assms(1-3) _ assms(5)]) simp
  show ?thesis
    using conc_progress [OF inv assms(4)] conc_reaches_end [OF inv assms(4)] by blast
qed

theorem conc_liveness_witness:
  "\<exists>s s'. conc_runs SizeCheck 2 2 demo_system s \<and> enq_log s = [1]
    \<and> conc_runs SizeCheck 2 2 s s' \<and> (\<forall>i<2. finished (threads s' i))"
proof -
  obtain s where s: "conc_runs SizeCheck 2 2 demo_system s" "enq_log s = [1]"
    using demo_step by blast
  from conc_liveness [OF demo_start(1) _ _ _ s(1)] s show ?thesis
    by (auto simp: demo_start(2,3))
qed

text \<open>C4: Every infinite execution consists, from some point on, of failed polls of the spin loop alone:
  all other steps use up work.\<close>

theorem conc_only_polls_forever:
  assumes "\<And>k. conc_step v m n (f k) (f (Suc k))"
  shows "\<exists>K. \<forall>k\<ge>K. f (Suc k) = f k"
proof -
  obtain K where least: "all_effort n (f K) \<le> all_effort n (f k)" for k
    using ex_has_least_nat [of "\<lambda>_. True" 0 "\<lambda>k. all_effort n (f k)"] by blast
  have "f k = f K" if "K \<le> k" for k
    using that
  proof (induction k rule: dec_induct)
    case base
    then show ?case by simp
  next
    case (step k)
    then show ?case
      using conc_step_effort [OF assms [of k]] least [of "Suc k"] by auto
  qed
  then show ?thesis
    by (metis le_SucI)
qed

text \<open>A consumer polling an empty ring for ever.\<close>

definition stuck_system :: system where
  "stuck_system = \<lparr>shared = \<lparr>head = 0, tail = - 1, data = [0, 0]\<rparr>,
     threads = (\<lambda>_. Spinning 0 0), enq_log = [], deq_log = []\<rparr>"

theorem conc_only_polls_forever_witness:
  "\<exists>K. \<forall>k\<ge>K. (\<lambda>_. stuck_system) (Suc k) = (\<lambda>_. stuck_system) (k :: nat)"
proof (rule conc_only_polls_forever [where f = "\<lambda>_. stuck_system" and v = NoCheck and m = 2 and n = 1])
  fix k :: nat
  have "load_slot 2 0 (shared stuck_system) = Ret 0"
    using load_ticket [of 2 "shared stuck_system" 0 0] by (simp add: stuck_system_def)
  then show "conc_step NoCheck 2 1 stuck_system stuck_system"
    by (intro conc_step.deq_spin [of 0 _ _ 0 0]) (simp_all add: stuck_system_def)
qed

text \<open>A latency round of the array queue with \<open>2 * c\<close> threads, over a ring with room for the
  \<open>c * n\<close> samples: no thread ever crashes, every state of every run can still be completed, and in a completed
  run the consumers have received every sample of every producer exactly once and the ring is empty.\<close>

theorem bench_round_ok:
  assumes "0 < m" and "m \<le> 2147483647" and "c * n \<le> m" and "n \<le> 2147483648"
    and "conc_runs SizeCheck m (c + c) (bench_system m c n) s"
  shows "(\<forall>i<c + c. threads s i \<noteq> Crashed)
    \<and> (\<exists>s'. conc_runs SizeCheck m (c + c) s s' \<and> (\<forall>i<c + c. finished (threads s' i)))
    \<and> ((\<exists>i<c + c. \<not> finished (threads s i))
       \<or> (image_mset snd (mset (deq_log s)) = repeat_mset c (mset (map sample [0..<n]))
          \<and> data (shared s) = replicate m 0))"
proof -
  let ?V = "repeat_mset c (mset (map sample [0..<n]))"
  have inv: "conc_inv ?V (c * n) m (c + c) s"
    using runs_inv [OF assms(5) bench_inv [OF assms(3,1,2,4)]] .
  have sz: "c * n = size ?V"
    by simp
  have "threads s i \<noteq> Crashed" if "i < c + c" for i
    using conc_inv_thread [OF inv that] by auto
  moreover have "\<exists>s'. conc_runs SizeCheck m (c + c) s s' \<and> (\<forall>i<c + c. finished (threads s' i))"
    using conc_reaches_end [OF inv] by simp
  ultimately show ?thesis
    using finished_log(1) [OF inv sz] finished_cleared [OF inv sz] by blast
qed

theorem bench_round_ok_witness:
  "\<exists>s. conc_runs SizeCheck 8 4 (bench_system 8 2 3) s \<and> (\<forall>i<4. finished (threads s i))
    \<and> image_mset snd (mset (deq_log s)) = {#1, 2, 3, 1, 2, 3#}"
proof -
  have "conc_runs SizeCheck 8 (2 + 2) (bench_system 8 2 3) (bench_system 8 2 3)"
    by (simp add: conc_runs_def)
  from bench_round_ok [OF _ _ _ _ this] obtain s where
      s: "conc_runs SizeCheck 8 (2 + 2) (bench_system 8 2 3) s" "\<forall>i<2 + 2. finished (threads s i)"
    by auto
  from bench_round_ok [OF _ _ _ _ s(1)] s(2)
  have "image_mset snd (mset (deq_log s)) = repeat_mset 2 (mset (map sample [0..<3]))"
    by auto
  also have "\<dots> = {#1, 2, 3, 1, 2, 3#}"
    by (simp add: numeral_2_eq_2 numeral_3_eq_3 sample_def add_mset_commute)
  finally show ?thesis
    using s by (intro exI [of _ s]) simp
qed

end
