(* ===== verification/Basic_Queue.thy ===== *)
theory Basic_Queue
  imports Queue_Contract
begin

text \<open>
  \<^verbatim>\<open>basicqueue.c\<close>, in \<^verbatim>\<open>QueueBenchmarks\<close> (suffix \<open>qb\<close>) and in \<^verbatim>\<open>SimpleQueueImpl\<close>
  (suffix \<open>si\<close>): a linked queue of the C library's \<^verbatim>\<open>sys/queue.h\<close> behind one mutex.
  The \<^verbatim>\<open>CIRCLEQ\<close> is the list of the entries' elements from \<^verbatim>\<open>cqh_first\<close> to
  \<^verbatim>\<open>cqh_last\<close>; \<^verbatim>\<open>CIRCLEQ_FIRST\<close> of an empty queue is the address of the head itself, which is
  no entry, so removing it and reading its \<^verbatim>\<open>elem\<close> is a fault. \<open>allocs\<close> and \<open>frees\<close> count the
  entries; the code never frees one.
\<close>

record basicq =
  entries :: "c_int list"
  lock_held :: bool
  allocs :: nat
  frees :: nat

text \<open>\<^verbatim>\<open>pthread_mutex_lock\<close> on a mutex nobody will release does not return.\<close>

definition mutex_lock :: "basicq \<Rightarrow> basicq outcome" where
  "mutex_lock q = (if lock_held q then Hang else Ret (q\<lparr>lock_held := True\<rparr>))"

definition mutex_unlock :: "basicq \<Rightarrow> basicq" where
  "mutex_unlock q = q\<lparr>lock_held := False\<rparr>"

definition circleq_insert_tail :: "c_int \<Rightarrow> basicq \<Rightarrow> basicq" where
  "circleq_insert_tail x q = q\<lparr>entries := entries q @ [x]\<rparr>"

definition circleq_remove_first :: "basicq \<Rightarrow> (c_int \<times> basicq) outcome" where
  "circleq_remove_first q =
     (case entries q of [] \<Rightarrow> Fault BadPointer | x # xs \<Rightarrow> Ret (x, q\<lparr>entries := xs\<rparr>))"

section \<open>QueueBenchmarks/basicqueue.c\<close>

definition InitBasicQueue_qb :: "basicq \<Rightarrow> basicq" where
  "InitBasicQueue_qb q = q\<lparr>entries := [], lock_held := False\<rparr>"

definition BasicEnqueue_qb :: "c_int \<Rightarrow> basicq \<Rightarrow> basicq outcome" where
  "BasicEnqueue_qb i q =
     (let q1 = q\<lparr>allocs := Suc (allocs q)\<rparr>
      in bindO (mutex_lock q1) (\<lambda>q2. Ret (mutex_unlock (circleq_insert_tail i q2))))"

definition BasicDequeue_qb :: "basicq \<Rightarrow> (c_int \<times> basicq) outcome" where
  "BasicDequeue_qb q =
     bindO (mutex_lock q) (\<lambda>q1.
     bindO (circleq_remove_first q1) (\<lambda>(n, q2). Ret (n, mutex_unlock q2)))"

section \<open>SimpleQueueImpl/basicqueue.c\<close>

definition InitBasicQueue_si :: "basicq \<Rightarrow> basicq" where
  "InitBasicQueue_si q = q\<lparr>entries := [], lock_held := False\<rparr>"

definition BasicEnqueue_si :: "c_int \<Rightarrow> basicq \<Rightarrow> basicq outcome" where
  "BasicEnqueue_si i q =
     (let q1 = q\<lparr>allocs := Suc (allocs q)\<rparr>
      in bindO (mutex_lock q1) (\<lambda>q2. Ret (mutex_unlock (circleq_insert_tail i q2))))"

definition BasicDequeue_si :: "basicq \<Rightarrow> (c_int \<times> basicq) outcome" where
  "BasicDequeue_si q =
     bindO (mutex_lock q) (\<lambda>q1.
     bindO (circleq_remove_first q1) (\<lambda>(n, q2). Ret (n, mutex_unlock q2)))"

section \<open>The contract\<close>

lemmas basic_defs = mutex_lock_def mutex_unlock_def circleq_insert_tail_def circleq_remove_first_def
  BasicEnqueue_qb_def BasicDequeue_qb_def BasicEnqueue_si_def BasicDequeue_si_def

text \<open>The queue has no bound: the contract holds for every capacity and budget.\<close>

interpretation bq: bounded_fifo "\<lambda>q. \<not> lock_held q" entries "\<lambda>x q. True"
  BasicEnqueue_qb BasicDequeue_qb "\<lambda>x. True" K "\<lambda>q. B" for K B :: nat
  by unfold_locales (auto simp: basic_defs)

interpretation bs: bounded_fifo "\<lambda>q. \<not> lock_held q" entries "\<lambda>x q. True"
  BasicEnqueue_si BasicDequeue_si "\<lambda>x. True" K "\<lambda>q. B" for K B :: nat
  by unfold_locales (auto simp: basic_defs)

lemma BasicDequeue_qb_empty: "\<not> lock_held q \<Longrightarrow> entries q = [] \<Longrightarrow> BasicDequeue_qb q = Fault BadPointer"
  by (simp add: basic_defs)

lemma basic_allocs:
  "impl_run BasicEnqueue_qb BasicDequeue_qb cs q = Ret (outs, s)
   \<Longrightarrow> allocs s = allocs q + length (puts cs) \<and> frees s = frees q"
proof (induction cs arbitrary: q outs)
  case Nil
  then show ?case by simp
next
  case (Cons c cs)
  show ?case
  proof (cases c)
    case (Put x)
    then obtain q1 where q1: "BasicEnqueue_qb x q = Ret q1"
        "impl_run BasicEnqueue_qb BasicDequeue_qb cs q1 = Ret (outs, s)"
      using Cons.prems by (auto simp: bindO_Ret_iff)
    moreover from q1(1) have "allocs q1 = Suc (allocs q) \<and> frees q1 = frees q"
      by (auto simp: basic_defs bindO_Ret_iff split: if_splits)
    ultimately show ?thesis
      using Cons.IH [of q1 outs] Put by simp
  next
    case Take
    then obtain x q1 xs where "BasicDequeue_qb q = Ret (x, q1)"
        "impl_run BasicEnqueue_qb BasicDequeue_qb cs q1 = Ret (xs, s)"
      using Cons.prems by (auto simp: bindO_Ret_iff)
    moreover from this(1) have "allocs q1 = allocs q \<and> frees q1 = frees q"
      by (auto simp: basic_defs bindO_Ret_iff split: if_splits list.splits)
    ultimately show ?thesis
      using Cons.IH [of q1 xs] Take by simp
  qed
qed

section \<open>Properties\<close>

text \<open>The linked queue has no bound: whatever sequence of calls takes no element from an empty queue, both
  versions answer it as a list does, and the mutex is free again afterwards. No entry is ever freed: each
  enqueue leaves one more allocated.\<close>

theorem basic_queue_refines:
  assumes "spec_run (length cs) cs [] = Some (outs, rest)"
  shows "(\<exists>s. impl_run BasicEnqueue_qb BasicDequeue_qb cs (InitBasicQueue_qb q) = Ret (outs, s)
      \<and> entries s = rest \<and> \<not> lock_held s \<and> allocs s = allocs q + length (puts cs) \<and> frees s = frees q)
    \<and> (\<exists>s. impl_run BasicEnqueue_si BasicDequeue_si cs (InitBasicQueue_si q) = Ret (outs, s)
      \<and> entries s = rest \<and> \<not> lock_held s)"
proof -
  obtain s where s: "impl_run BasicEnqueue_qb BasicDequeue_qb cs (InitBasicQueue_qb q) = Ret (outs, s)"
      "\<not> lock_held s" "entries s = rest"
    using bq.run_refines [where K = "length cs" and B = "length (puts cs)" and s = "InitBasicQueue_qb q"
        and cs = cs and outs = outs and q' = rest] assms
    by (auto simp: InitBasicQueue_qb_def list_all_iff)
  moreover have "\<exists>s. impl_run BasicEnqueue_si BasicDequeue_si cs (InitBasicQueue_si q) = Ret (outs, s)
      \<and> \<not> lock_held s \<and> entries s = rest"
    using bs.run_refines [where K = "length cs" and B = "length (puts cs)" and s = "InitBasicQueue_si q"
        and cs = cs and outs = outs and q' = rest] assms
    by (auto simp: InitBasicQueue_si_def list_all_iff)
  moreover have "allocs s = allocs q + length (puts cs) \<and> frees s = frees q"
    using basic_allocs [OF s(1)] by (simp add: InitBasicQueue_qb_def)
  ultimately show ?thesis
    by blast
qed

theorem basic_queue_refines_witness:
  "\<exists>s. impl_run BasicEnqueue_qb BasicDequeue_qb [Put 3, Put 4, Take]
      (InitBasicQueue_qb \<lparr>entries = [], lock_held = False, allocs = 0, frees = 0\<rparr>) = Ret ([3], s)
    \<and> entries s = [4] \<and> allocs s = 2 \<and> frees s = 0"
  using basic_queue_refines [of "[Put 3, Put 4, Take]" "[3]" "[4]" "\<lparr>entries = [], lock_held = False, allocs = 0, frees = 0\<rparr>"]
  by auto

end
