(* ===== verification/Multi_Ring.thy ===== *)
theory Multi_Ring
  imports Bench_Ring
begin

text \<open>
  \<^verbatim>\<open>QueueBenchmarks/squeuemultiple.c\<close>: \<^verbatim>\<open>numQueues\<close> rings that share \<^verbatim>\<open>MAX_SIZE\<close> slots, each of
  \<^verbatim>\<open>QUEUE_SIZE = MAX_SIZE/numQueues\<close>. \<open>mem i\<close> is what \<^verbatim>\<open>malloc\<close> leaves in the array of ring \<open>i\<close>.
\<close>

section \<open>State and operations\<close>

record multi =
  QUEUE_SIZE :: nat
  queues :: "ringbuf list"

definition new_queue :: "nat \<Rightarrow> atom list \<Rightarrow> ringbuf outcome" where
  "new_queue sz mem =
     (let q = \<lparr>head = - 1, tail = - 1, data = mem\<rparr>
      in bindO (fill sz 0 (data q)) (\<lambda>d. Ret (q\<lparr>data := d\<rparr>)))"

fun new_queues :: "nat \<Rightarrow> (nat \<Rightarrow> atom list) \<Rightarrow> nat \<Rightarrow> ringbuf list outcome" where
  "new_queues sz mem 0 = Ret []"
| "new_queues sz mem (Suc i) =
     bindO (new_queues sz mem i) (\<lambda>qs. bindO (new_queue sz (mem i)) (\<lambda>q. Ret (qs @ [q])))"

definition InitQueues :: "nat \<Rightarrow> (nat \<Rightarrow> atom list) \<Rightarrow> nat \<Rightarrow> multi \<Rightarrow> multi outcome" where
  "InitQueues m mem numQueues s =
     (if numQueues = 0 then Fault DivByZero
      else (let s1 = s\<lparr>QUEUE_SIZE := m div numQueues\<rparr>
            in bindO (new_queues (QUEUE_SIZE s1) mem numQueues) (\<lambda>qs. Ret (s1\<lparr>queues := qs\<rparr>))))"

text \<open>\<^verbatim>\<open>free(queues)\<close>: the array of pointers goes, the rings and their arrays leak.\<close>

definition ClearQueues :: "multi \<Rightarrow> multi" where
  "ClearQueues s = s\<lparr>queues := []\<rparr>"

text \<open>The bodies of the two operations on one ring; \<open>sz\<close> is the global \<^verbatim>\<open>QUEUE_SIZE\<close>.\<close>

definition EnqueueMultiple :: "nat \<Rightarrow> atom \<Rightarrow> ringbuf \<Rightarrow> (c_int \<times> ringbuf) outcome" where
  "EnqueueMultiple sz elem q =
     (let (cur_tail, q1) = fetch_tail q
      in bindO (store_slot sz cur_tail elem q1) (\<lambda>q2. Ret (1, q2)))"

definition DequeueMultiple :: "nat \<Rightarrow> ringbuf \<Rightarrow> (atom \<times> ringbuf) outcome" where
  "DequeueMultiple sz q =
     bindO (c_sub (sint (tail q)) (int sz)) (\<lambda>d.
       if 0 < d \<and> head q = tail q then Ret (- 1, q)
       else (let (cur_head, q1) = fetch_head q
             in bindO (await_slot sz cur_head q1) (\<lambda>_.
                bindO (load_slot sz cur_head q1) (\<lambda>elem.
                bindO (and_slot sz cur_head 0 q1) (\<lambda>q2. Ret (elem, q2))))))"

text \<open>The calls of the handlers: \<^verbatim>\<open>EnqueueMultiple(x, queues[i], i)\<close> and
  \<^verbatim>\<open>DequeueMultiple(queues[i], i)\<close>.\<close>

definition put_multi :: "nat \<Rightarrow> atom \<Rightarrow> multi \<Rightarrow> multi outcome" where
  "put_multi i x s =
     bindO (arr_read (queues s) (int i)) (\<lambda>q.
     bindO (run_state (EnqueueMultiple (QUEUE_SIZE s) x q)) (\<lambda>q'.
       Ret (s\<lparr>queues := (queues s)[i := q']\<rparr>)))"

definition take_multi :: "nat \<Rightarrow> multi \<Rightarrow> (atom \<times> multi) outcome" where
  "take_multi i s =
     bindO (arr_read (queues s) (int i)) (\<lambda>q.
     bindO (DequeueMultiple (QUEUE_SIZE s) q) (\<lambda>(x, q').
       Ret (x, s\<lparr>queues := (queues s)[i := q']\<rparr>)))"

section \<open>The contract\<close>

lemma EnqueueMultiple_put: "run_state (EnqueueMultiple sz x q) = put_ticket sz x q"
  by (cases "store_slot sz (tail q + 1) x (q\<lparr>tail := tail q + 1\<rparr>)")
    (simp_all add: EnqueueMultiple_def put_ticket_def fetch_tail_def run_state_def)

lemma DequeueMultiple_eq:
  assumes "ring_inv sz q" and "sz \<le> 2147483647"
  shows "DequeueMultiple sz q =
    (if int sz < sint (tail q) \<and> ring_list sz q = [] then Ret (- 1, q) else take_ticket sz q)"
  using counters_equal_iff [OF assms(1)]
  by (simp add: DequeueMultiple_def tail_minus_size [OF assms] take_ticket_def)

definition multi_inv :: "nat \<Rightarrow> multi \<Rightarrow> bool" where
  "multi_inv n s \<longleftrightarrow>
     length (queues s) = n \<and> 0 < QUEUE_SIZE s \<and> QUEUE_SIZE s \<le> 2147483647
     \<and> list_all (ring_inv (QUEUE_SIZE s)) (queues s)"

definition multi_list :: "nat \<Rightarrow> multi \<Rightarrow> atom list" where
  "multi_list i s = ring_list (QUEUE_SIZE s) (queues s ! i)"

lemma new_queue_eq: "length mem = sz \<Longrightarrow>
  new_queue sz mem = Ret \<lparr>head = - 1, tail = - 1, data = replicate sz 0\<rparr>"
  by (simp add: new_queue_def)

lemma new_queues_eq: "(\<And>i. i < n \<Longrightarrow> length (mem i) = sz) \<Longrightarrow>
  new_queues sz mem n = Ret (replicate n \<lparr>head = - 1, tail = - 1, data = replicate sz 0\<rparr>)"
  by (induction n) (simp_all add: new_queue_eq replicate_append_same)

lemma multi_ring: "multi_inv n s \<Longrightarrow> i < n \<Longrightarrow> ring_inv (QUEUE_SIZE s) (queues s ! i)"
  by (simp add: multi_inv_def list_all_length)

lemma multi_update:
  assumes "multi_inv n s" and "i < n" and "ring_inv (QUEUE_SIZE s) q"
  shows "multi_inv n (s\<lparr>queues := (queues s)[i := q]\<rparr>)"
  using assms by (auto simp: multi_inv_def list_all_length nth_list_update)

lemma put_multi_ok:
  assumes inv: "multi_inv n s" and i: "i < n" and x: "x \<noteq> 0"
    and room: "length (multi_list i s) < QUEUE_SIZE s" and b: "0 < ring_budget (queues s ! i)"
  shows "\<exists>s'. put_multi i x s = Ret s' \<and> multi_inv n s' \<and> QUEUE_SIZE s' = QUEUE_SIZE s
    \<and> multi_list i s' = multi_list i s @ [x]
    \<and> sint (tail (queues s' ! i)) = sint (tail (queues s ! i)) + 1
    \<and> (\<forall>j. j \<noteq> i \<longrightarrow> queues s' ! j = queues s ! j)"
proof -
  have "ring_ready (QUEUE_SIZE s) x (queues s ! i)"
    using x room b by (simp add: ring_ready_def multi_list_def)
  then obtain q' where q': "put_ticket (QUEUE_SIZE s) x (queues s ! i) = Ret q'"
      "ring_inv (QUEUE_SIZE s) q'"
      "ring_list (QUEUE_SIZE s) q' = ring_list (QUEUE_SIZE s) (queues s ! i) @ [x]"
      "sint (tail q') = sint (tail (queues s ! i)) + 1"
    using put_ticket_ok [OF multi_ring [OF inv i]] by blast
  have len: "i < length (queues s)"
    using inv i by (simp add: multi_inv_def)
  show ?thesis
    using q' len multi_update [OF inv i q'(2)]
    by (auto simp: put_multi_def arr_read_ok EnqueueMultiple_put multi_list_def)
qed

lemma take_multi_ok:
  assumes inv: "multi_inv n s" and i: "i < n" and ne: "multi_list i s = x # xs"
  shows "\<exists>s'. take_multi i s = Ret (x, s') \<and> multi_inv n s' \<and> QUEUE_SIZE s' = QUEUE_SIZE s
    \<and> multi_list i s' = xs \<and> tail (queues s' ! i) = tail (queues s ! i) \<and> (\<forall>j. j \<noteq> i \<longrightarrow> queues s' ! j = queues s ! j)"
proof -
  have sz: "QUEUE_SIZE s \<le> 2147483647"
    using inv by (simp add: multi_inv_def)
  obtain q' where q': "take_ticket (QUEUE_SIZE s) (queues s ! i) = Ret (x, q')"
      "ring_inv (QUEUE_SIZE s) q'" "ring_list (QUEUE_SIZE s) q' = xs"
      "tail q' = tail (queues s ! i)"
    using take_ticket_ok [OF multi_ring [OF inv i]] ne by (auto simp: multi_list_def)
  have len: "i < length (queues s)"
    using inv i by (simp add: multi_inv_def)
  show ?thesis
    using q' len ne multi_update [OF inv i q'(2)]
    by (auto simp: take_multi_def arr_read_ok DequeueMultiple_eq [OF multi_ring [OF inv i] sz]
        multi_list_def)
qed

text \<open>Each ring of the collection, seen through its index, keeps the contract.\<close>

lemma multi_contract:
  assumes i: "i < n"
  shows "fifo_queue (multi_inv n) (multi_list i)
    (\<lambda>x s. x \<noteq> 0 \<and> length (multi_list i s) < QUEUE_SIZE s \<and> 0 < ring_budget (queues s ! i))
    (put_multi i) (take_multi i)"
proof
  fix s and x :: atom
  assume "multi_inv n s"
    and "x \<noteq> 0 \<and> length (multi_list i s) < QUEUE_SIZE s \<and> 0 < ring_budget (queues s ! i)"
  then show "\<exists>s'. put_multi i x s = Ret s' \<and> multi_inv n s' \<and> multi_list i s' = multi_list i s @ [x]"
    using put_multi_ok [of n s i x] i by blast
next
  fix s x xs
  assume "multi_inv n s" and "multi_list i s = x # xs"
  then show "\<exists>s'. take_multi i s = Ret (x, s') \<and> multi_inv n s' \<and> multi_list i s' = xs"
    using take_multi_ok [of n s i x xs] i by blast
qed

interpretation mq: fifo_queue "multi_inv (Suc i)" "multi_list i"
  "\<lambda>x s. x \<noteq> 0 \<and> length (multi_list i s) < QUEUE_SIZE s \<and> 0 < ring_budget (queues s ! i)"
  "put_multi i" "take_multi i" for i
  by (rule multi_contract) simp

text \<open>Once a tail has passed \<^verbatim>\<open>QUEUE_SIZE\<close>, its ring answers -1 when it is empty.\<close>

definition multi_polled :: "nat \<Rightarrow> nat \<Rightarrow> multi \<Rightarrow> bool" where
  "multi_polled n i s \<longleftrightarrow> multi_inv n s \<and> int (QUEUE_SIZE s) < sint (tail (queues s ! i))"

lemma take_multi_empty:
  assumes "multi_polled n i s" and "i < n" and "multi_list i s = []"
  shows "take_multi i s = Ret (- 1, s)"
proof -
  have inv: "multi_inv n s" and sz: "QUEUE_SIZE s \<le> 2147483647" and len: "i < length (queues s)"
    using assms by (auto simp: multi_polled_def multi_inv_def)
  show ?thesis
    using assms len DequeueMultiple_eq [OF multi_ring [OF inv assms(2)] sz]
    by (simp add: take_multi_def arr_read_ok multi_polled_def multi_list_def)
qed

interpretation mp: polled_queue "multi_polled (Suc i) i" "multi_list i"
  "\<lambda>x s. x \<noteq> 0 \<and> length (multi_list i s) < QUEUE_SIZE s \<and> 0 < ring_budget (queues s ! i)"
  "put_multi i" "take_multi i" for i
proof
  fix s and x :: atom
  assume "multi_polled (Suc i) i s"
    and "x \<noteq> 0 \<and> length (multi_list i s) < QUEUE_SIZE s \<and> 0 < ring_budget (queues s ! i)"
  then show "\<exists>s'. put_multi i x s = Ret s' \<and> multi_polled (Suc i) i s' \<and> multi_list i s' = multi_list i s @ [x]"
    using put_multi_ok [of "Suc i" s i x] by (auto simp: multi_polled_def)
next
  fix s x xs
  assume "multi_polled (Suc i) i s" and "multi_list i s = x # xs"
  then show "\<exists>s'. take_multi i s = Ret (x, s') \<and> multi_polled (Suc i) i s' \<and> multi_list i s' = xs"
    using take_multi_ok [of "Suc i" s i x xs] by (auto simp: multi_polled_def)
next
  fix s
  assume "multi_polled (Suc i) i s" and "multi_list i s = []"
  then show "take_multi i s = Ret (- 1, s)"
    using take_multi_empty [of "Suc i" i s] by simp
qed

section \<open>Properties\<close>

text \<open>The rings of \<^verbatim>\<open>squeuemultiple.c\<close> are independent: an enqueue to ring \<open>i\<close> with room appends
  to it and a dequeue from ring \<open>i\<close> takes its oldest element, every other ring staying as it was.\<close>

theorem multi_queue_frame:
  assumes "multi_inv n s" and "i < n" and "x \<noteq> 0" and "length (multi_list i s) < QUEUE_SIZE s"
    and "0 < ring_budget (queues s ! i)"
  shows "\<exists>s1 y s2. put_multi i x s = Ret s1 \<and> multi_inv n s1 \<and> multi_list i s1 = multi_list i s @ [x]
    \<and> take_multi i s1 = Ret (y, s2) \<and> multi_inv n s2 \<and> y # multi_list i s2 = multi_list i s @ [x]
    \<and> (\<forall>j. j = i \<or> (queues s1 ! j = queues s ! j \<and> queues s2 ! j = queues s ! j))"
proof -
  obtain s1 where s1: "put_multi i x s = Ret s1" "multi_inv n s1" "multi_list i s1 = multi_list i s @ [x]"
      "\<forall>j. j \<noteq> i \<longrightarrow> queues s1 ! j = queues s ! j"
    using put_multi_ok [OF assms] by blast
  have "multi_list i s1 \<noteq> []"
    using s1(3) by simp
  then obtain y ys where y: "multi_list i s1 = y # ys"
    by (cases "multi_list i s1") auto
  obtain s2 where "take_multi i s1 = Ret (y, s2)" "multi_inv n s2" "multi_list i s2 = ys"
      "\<forall>j. j \<noteq> i \<longrightarrow> queues s2 ! j = queues s1 ! j"
    using take_multi_ok [OF s1(2) assms(2) y] by blast
  with s1 y show ?thesis
    by metis
qed

theorem multi_queue_frame_witness:
  "\<exists>s1 y s2. put_multi 1 5 \<lparr>QUEUE_SIZE = 3, queues = replicate 2 \<lparr>head = - 1, tail = - 1, data = replicate 3 0\<rparr>\<rparr> = Ret s1
    \<and> take_multi 1 s1 = Ret (y, s2) \<and> y = 5"
proof -
  let ?s = "\<lparr>QUEUE_SIZE = 3, queues = replicate 2 \<lparr>head = - 1, tail = - 1, data = replicate 3 0\<rparr>\<rparr> :: multi"
  have "multi_inv 2 ?s" "multi_list 1 ?s = []" "ring_budget (queues ?s ! 1) = 2147483648"
    using empty_ring [of 3] by (simp_all add: multi_inv_def multi_list_def list_all_length)
  then show ?thesis
    using multi_queue_frame [of 2 ?s 1 5] by auto
qed

end
