(* ===== verification/Bench_Handlers.thy ===== *)
theory Bench_Handlers
  imports Bench_Loops Multi_Ring Basic_Queue
begin

text \<open>
  The thread functions of \<^verbatim>\<open>QueueBenchmarks/sqmain.c\<close>, one definition each, over the state of the
  queue they drive and the globals of the program (\<open>bench\<close>). \<open>build\<close> is the preprocessor switch
  the program is compiled with; \<open>N\<close> is \<^verbatim>\<open>NUM_SAMPLES\<close>, \<open>nt\<close> is \<^verbatim>\<open>CUR_NUM_THREADS\<close>, \<open>cpu\<close> the
  argument. The library queues (Concurrency Kit, liblfds, userspace RCU) are not part of the
  repository: their operations are parameters of the handlers that call them.
\<close>

datatype build = LATENCY | THROUGHPUT

section \<open>Array queue, type 1\<close>

definition worker_handler :: "build \<Rightarrow> nat \<Rightarrow> nat \<Rightarrow> nat \<Rightarrow> env \<Rightarrow> ringbuf \<times> bench \<Rightarrow> (ringbuf \<times> bench) outcome" where
  "worker_handler bd m N nt e sb =
     (case bd of
        LATENCY \<Rightarrow> bindO (per_thread N nt) (\<lambda>n.
          timed_dequeues (\<lambda>i q. run_state (Dequeue_qb m q)) (tsc e) n sb)
      | THROUGHPUT \<Rightarrow> throughput_dequeues (Dequeue_qb m) e sb)"

definition enqueue_handler :: "build \<Rightarrow> nat \<Rightarrow> nat \<Rightarrow> nat \<Rightarrow> env \<Rightarrow> ringbuf \<times> bench \<Rightarrow> (ringbuf \<times> bench) outcome" where
  "enqueue_handler bd m N nt e sb =
     (case bd of
        LATENCY \<Rightarrow> bindO (per_thread N nt) (\<lambda>n.
          timed_enqueues (\<lambda>i q. run_state (Enqueue_qb m (of_nat i + 1) q)) (tsc e) n sb)
      | THROUGHPUT \<Rightarrow> throughput_enqueues (\<lambda>i q. run_state (Enqueue_qb m (of_nat i + 1) q)) e sb)"

section \<open>Multiple array queues, types 4 and 8\<close>

definition workermultiple_handler :: "build \<Rightarrow> nat \<Rightarrow> nat \<Rightarrow> nat \<Rightarrow> env \<Rightarrow> multi \<times> bench \<Rightarrow> (multi \<times> bench) outcome" where
  "workermultiple_handler bd cpu N nt e sb =
     (case bd of
        LATENCY \<Rightarrow> bindO (per_thread N nt) (\<lambda>n.
          timed_dequeues (\<lambda>i s. run_state (take_multi cpu s)) (tsc e) n sb)
      | THROUGHPUT \<Rightarrow> throughput_dequeues (take_multi cpu) e sb)"

definition enqueuemultiple_handler :: "build \<Rightarrow> nat \<Rightarrow> nat \<Rightarrow> nat \<Rightarrow> env \<Rightarrow> multi \<times> bench \<Rightarrow> (multi \<times> bench) outcome" where
  "enqueuemultiple_handler bd cpu N nt e sb =
     (case bd of
        LATENCY \<Rightarrow> bindO (per_thread N nt) (\<lambda>n.
          timed_enqueues (\<lambda>i s. put_multi cpu (sample i) s) (tsc e) n sb)
      | THROUGHPUT \<Rightarrow> throughput_enqueues (\<lambda>i s. put_multi cpu (sample i) s) e sb)"

text \<open>The single producer deals its elements out over the queues in turn; \<^verbatim>\<open>i % 0\<close> is undefined.\<close>

definition deal_multi :: "nat \<Rightarrow> nat \<Rightarrow> multi \<Rightarrow> multi outcome" where
  "deal_multi num_queues i s =
     (if num_queues = 0 then Fault DivByZero else put_multi (i mod num_queues) (sample i) s)"

definition enqueuespmc_handler :: "build \<Rightarrow> nat \<Rightarrow> nat \<Rightarrow> env \<Rightarrow> multi \<times> bench \<Rightarrow> (multi \<times> bench) outcome" where
  "enqueuespmc_handler bd num_queues N e sb =
     (case bd of
        LATENCY \<Rightarrow> timed_enqueues (deal_multi num_queues) (tsc e) N sb
      | THROUGHPUT \<Rightarrow> throughput_enqueues (deal_multi num_queues) e sb)"

definition workerspmc_handler :: "build \<Rightarrow> nat \<Rightarrow> nat \<Rightarrow> nat \<Rightarrow> env \<Rightarrow> multi \<times> bench \<Rightarrow> (multi \<times> bench) outcome" where
  "workerspmc_handler bd cpu N nt e sb =
     (case bd of
        LATENCY \<Rightarrow> bindO (per_thread N nt) (\<lambda>n.
          timed_dequeues (\<lambda>i s. run_state (take_multi cpu s)) (tsc e) n sb)
      | THROUGHPUT \<Rightarrow> throughput_dequeues (take_multi cpu) e sb)"

section \<open>Linked queue, type 3\<close>

definition basicenqueue_handler :: "build \<Rightarrow> nat \<Rightarrow> nat \<Rightarrow> env \<Rightarrow> basicq \<times> bench \<Rightarrow> (basicq \<times> bench) outcome" where
  "basicenqueue_handler bd N nt e sb =
     bindO (per_thread N nt) (\<lambda>n. case bd of
        LATENCY \<Rightarrow> timed_enqueues (\<lambda>i. BasicEnqueue_qb (of_nat i + 1)) (tsc e) n sb
      | THROUGHPUT \<Rightarrow> counted_enqueues (\<lambda>i. BasicEnqueue_qb (of_nat i + 1)) e N sb)"

definition basicworker_handler :: "build \<Rightarrow> nat \<Rightarrow> nat \<Rightarrow> env \<Rightarrow> basicq \<times> bench \<Rightarrow> (basicq \<times> bench) outcome" where
  "basicworker_handler bd N nt e sb =
     bindO (per_thread N nt) (\<lambda>n. case bd of
        LATENCY \<Rightarrow> timed_dequeues (\<lambda>i q. run_state (BasicDequeue_qb q)) (tsc e) n sb
      | THROUGHPUT \<Rightarrow> counted_dequeues (\<lambda>i q. run_state (BasicDequeue_qb q)) e N sb)"

section \<open>Library queues, types 2 and 5\<close>

text \<open>
  Concurrency Kit: each successful dequeue stores its sample at once, a failed one only counts.
  \<open>ck_deq\<close> is \<^verbatim>\<open>ck_ring_dequeue_mpmc\<close> (its \<^verbatim>\<open>bool\<close> and the new state), \<open>ck_enq\<close> is
  \<^verbatim>\<open>ck_ring_enqueue_mpmc\<close> of the entry \<^verbatim>\<open>{0,0}\<close>, whose result the handler drops.
\<close>

primrec ck_dequeues :: "('s \<Rightarrow> (bool \<times> 's) outcome) \<Rightarrow> (nat \<Rightarrow> ticks) \<Rightarrow> nat \<Rightarrow> 's \<times> bench \<Rightarrow> ('s \<times> bench) outcome" where
  "ck_dequeues ck_deq clk 0 sb = Ret sb"
| "ck_dequeues ck_deq clk (Suc n) sb =
     bindO (ck_dequeues ck_deq clk n sb) (\<lambda>(s, b).
     bindO (ck_deq s) (\<lambda>(ret, s').
       if \<not> ret then Ret (s', b\<lparr>failed_ck_dequeues := Suc (failed_ck_dequeues b)\<rparr>)
       else bindO (arr_write (dequeuetimestamp b) (int (numDequeue b)) (clk (2 * n + 1) - clk (2 * n)))
         (\<lambda>arr. Ret (s', b\<lparr>dequeuetimestamp := arr, numDequeue := Suc (numDequeue b)\<rparr>))))"

primrec ck_enqueues :: "('s \<Rightarrow> 's outcome) \<Rightarrow> (nat \<Rightarrow> ticks) \<Rightarrow> nat \<Rightarrow> 's \<times> bench \<Rightarrow> ('s \<times> bench) outcome" where
  "ck_enqueues ck_enq clk 0 sb = Ret sb"
| "ck_enqueues ck_enq clk (Suc n) sb =
     bindO (ck_enqueues ck_enq clk n sb) (\<lambda>(s, b).
     bindO (ck_enq s) (\<lambda>s'.
     bindO (arr_write (enqueuetimestamp b) (int (numEnqueue b)) (clk (2 * n + 1) - clk (2 * n)))
       (\<lambda>arr. Ret (s', b\<lparr>enqueuetimestamp := arr, numEnqueue := Suc (numEnqueue b)\<rparr>))))"

definition ck_worker_handler :: "('s \<Rightarrow> (bool \<times> 's) outcome) \<Rightarrow> build \<Rightarrow> nat \<Rightarrow> nat \<Rightarrow> env \<Rightarrow> 's \<times> bench \<Rightarrow> ('s \<times> bench) outcome" where
  "ck_worker_handler ck_deq bd N nt e sb =
     bindO (per_thread N nt) (\<lambda>n. case bd of
        LATENCY \<Rightarrow> ck_dequeues ck_deq (tsc e) n sb
      | THROUGHPUT \<Rightarrow> counted_dequeues (\<lambda>i s. run_state (ck_deq s)) e N sb)"

definition ck_enqueue_handler :: "('s \<Rightarrow> 's outcome) \<Rightarrow> build \<Rightarrow> nat \<Rightarrow> nat \<Rightarrow> env \<Rightarrow> 's \<times> bench \<Rightarrow> ('s \<times> bench) outcome" where
  "ck_enqueue_handler ck_enq bd N nt e sb =
     bindO (per_thread N nt) (\<lambda>n. case bd of
        LATENCY \<Rightarrow> ck_enqueues ck_enq (tsc e) n sb
      | THROUGHPUT \<Rightarrow> counted_enqueues (\<lambda>i. ck_enq) e N sb)"

text \<open>
  Userspace RCU: a node is allocated and linked by \<open>lfq_enq\<close> (\<^verbatim>\<open>cds_lfq_enqueue_rcu\<close> inside a read
  section); a dequeued node, when there is one, is handed to \<^verbatim>\<open>call_rcu\<close>, which is \<open>retire\<close>.
\<close>

definition rcu_dequeue :: "('s \<Rightarrow> ('n option \<times> 's) outcome) \<Rightarrow> ('n \<Rightarrow> 's \<Rightarrow> 's outcome) \<Rightarrow> 's \<Rightarrow> 's outcome" where
  "rcu_dequeue lfq_deq retire s =
     bindO (lfq_deq s) (\<lambda>(qnode, s'). case qnode of None \<Rightarrow> Ret s' | Some n \<Rightarrow> retire n s')"

definition rculfenqueue_handler :: "(c_int \<Rightarrow> 's \<Rightarrow> 's outcome) \<Rightarrow> build \<Rightarrow> nat \<Rightarrow> nat \<Rightarrow> env \<Rightarrow> 's \<times> bench \<Rightarrow> ('s \<times> bench) outcome" where
  "rculfenqueue_handler lfq_enq bd N nt e sb =
     bindO (per_thread N nt) (\<lambda>n. case bd of
        LATENCY \<Rightarrow> timed_enqueues (\<lambda>i. lfq_enq (sample i)) (tsc e) n sb
      | THROUGHPUT \<Rightarrow> counted_enqueues (\<lambda>i. lfq_enq (sample i)) e N sb)"

definition rculfdequeue_handler :: "('s \<Rightarrow> ('n option \<times> 's) outcome) \<Rightarrow> ('n \<Rightarrow> 's \<Rightarrow> 's outcome)
    \<Rightarrow> build \<Rightarrow> nat \<Rightarrow> nat \<Rightarrow> env \<Rightarrow> 's \<times> bench \<Rightarrow> ('s \<times> bench) outcome" where
  "rculfdequeue_handler lfq_deq retire bd N nt e sb =
     bindO (per_thread N nt) (\<lambda>n. case bd of
        LATENCY \<Rightarrow> timed_dequeues (\<lambda>i. rcu_dequeue lfq_deq retire) (tsc e) n sb
      | THROUGHPUT \<Rightarrow> counted_dequeues (\<lambda>i. rcu_dequeue lfq_deq retire) e N sb)"

section \<open>One round of main\<close>

text \<open>
  Every round resets the counters, allocates zeroed sample arrays and creates
  \<^verbatim>\<open>threads[k]/2\<close> producers and as many consumers, which wait at a barrier for \<^verbatim>\<open>threads[k]\<close> arrivals.
\<close>

definition alloc_samples :: "nat \<Rightarrow> bench \<Rightarrow> bench" where
  "alloc_samples N b = (ResetCounters b)\<lparr>enqueuetimestamp := replicate N 0, dequeuetimestamp := replicate N 0\<rparr>"

definition cur_num_threads :: "nat \<Rightarrow> nat" where
  "cur_num_threads t = t div 2"

definition barrier_opens :: "nat \<Rightarrow> bool" where
  "barrier_opens t \<longleftrightarrow> t \<le> cur_num_threads t + cur_num_threads t"

text \<open>The critical sections at the end of the handlers, in the order the threads get the mutex.\<close>

datatype sample_side = EnqSide | DeqSide

primrec merge_all :: "(sample_side \<times> ticks list) list \<Rightarrow> bench \<Rightarrow> bench outcome" where
  "merge_all [] b = Ret b"
| "merge_all (x # xs) b =
     bindO (case fst x of EnqSide \<Rightarrow> merge_enqueue (snd x) b | DeqSide \<Rightarrow> merge_dequeue (snd x) b) (merge_all xs)"

definition samples_of :: "sample_side \<Rightarrow> (sample_side \<times> ticks list) list \<Rightarrow> ticks list" where
  "samples_of sd xs = concat (map snd (filter (\<lambda>x. fst x = sd) xs))"

lemma samples_of_simps [simp]:
  "samples_of sd [] = []"
  "samples_of sd (x # xs) = (if fst x = sd then snd x @ samples_of sd xs else samples_of sd xs)"
  by (simp_all add: samples_of_def)

lemma merge_all_ok:
  "numEnqueue b + length (samples_of EnqSide xs) \<le> length (enqueuetimestamp b)
   \<Longrightarrow> numDequeue b + length (samples_of DeqSide xs) \<le> length (dequeuetimestamp b)
   \<Longrightarrow> \<exists>b'. merge_all xs b = Ret b'
     \<and> take (numEnqueue b') (enqueuetimestamp b') = take (numEnqueue b) (enqueuetimestamp b) @ samples_of EnqSide xs
     \<and> take (numDequeue b') (dequeuetimestamp b') = take (numDequeue b) (dequeuetimestamp b) @ samples_of DeqSide xs
     \<and> numEnqueue b' = numEnqueue b + length (samples_of EnqSide xs)
     \<and> numDequeue b' = numDequeue b + length (samples_of DeqSide xs)"
proof (induction xs arbitrary: b)
  case Nil
  then show ?case by simp
next
  case (Cons x xs)
  show ?case
  proof (cases "fst x")
    case EnqSide
    then obtain b1 where b1: "merge_enqueue (snd x) b = Ret b1"
        "take (numEnqueue b1) (enqueuetimestamp b1) = take (numEnqueue b) (enqueuetimestamp b) @ snd x"
        "numEnqueue b1 = numEnqueue b + length (snd x)" "numDequeue b1 = numDequeue b"
        "dequeuetimestamp b1 = dequeuetimestamp b" "length (enqueuetimestamp b1) = length (enqueuetimestamp b)"
      using Cons.prems by (simp add: merge_enqueue_def copy_at_def)
    with EnqSide Cons.IH [of b1] Cons.prems show ?thesis
      by auto
  next
    case DeqSide
    then obtain b1 where b1: "merge_dequeue (snd x) b = Ret b1"
        "take (numDequeue b1) (dequeuetimestamp b1) = take (numDequeue b) (dequeuetimestamp b) @ snd x"
        "numDequeue b1 = numDequeue b + length (snd x)" "numEnqueue b1 = numEnqueue b"
        "enqueuetimestamp b1 = enqueuetimestamp b" "length (dequeuetimestamp b1) = length (dequeuetimestamp b)"
      using Cons.prems by (simp add: merge_dequeue_def copy_at_def)
    with DeqSide Cons.IH [of b1] Cons.prems show ?thesis
      by auto
  qed
qed

lemma length_samples_of:
  "list_all (\<lambda>x. length (snd x) = n) xs \<Longrightarrow>
   length (samples_of sd xs) = length (filter (\<lambda>x. fst x = sd) xs) * n"
  by (induction xs) auto

section \<open>The single producer deals evenly\<close>

lemma div_pred_add: "0 < n \<Longrightarrow> (q * n + (n - 1)) div n = (q::nat)"
  by (simp only: div_mult_self3) simp

text \<open>What queue \<open>j\<close> of \<open>n\<close> holds after \<open>k\<close> elements were dealt.\<close>

definition dealt :: "nat \<Rightarrow> nat \<Rightarrow> nat \<Rightarrow> atom list" where
  "dealt n k j = map (\<lambda>r. sample (r * n + j)) [0..<(k + n - 1 - j) div n]"

lemma dealt_0: "j < n \<Longrightarrow> dealt n 0 j = []"
  by (simp add: dealt_def)

lemma dealt_Suc:
  assumes "j < n"
  shows "dealt n (Suc k) j = (if k mod n = j then dealt n k j @ [sample k] else dealt n k j)"
proof -
  define a where "a = k + n - 1 - j"
  have Suc_a: "Suc k + n - 1 - j = Suc a" and a: "a + j + 1 = k + n"
    using assms by (auto simp: a_def)
  have eq: "Suc a mod n = 0 \<longleftrightarrow> k mod n = j"
  proof
    assume "Suc a mod n = 0"
    then obtain q where "Suc a = n * q"
      by (metis mod_0_imp_dvd dvdE)
    then have "k + n = n * q + j"
      using a by simp
    then have "(k + n) mod n = j mod n"
      by simp
    then show "k mod n = j"
      using assms by simp
  next
    assume "k mod n = j"
    then obtain q where "k = q * n + j"
      by (metis div_mult_mod_eq)
    then have "Suc a = (q + 1) * n"
      using a by simp
    then show "Suc a mod n = 0"
      by simp
  qed
  show ?thesis
  proof (cases "k mod n = j")
    case True
    then have k: "k = k div n * n + j"
      by (metis div_mult_mod_eq)
    then have "a + 1 = n + k div n * n"
      using a by simp
    then have "a = k div n * n + (n - 1)"
      using assms by simp
    then have "a div n = k div n"
      using assms div_pred_add [of n "k div n"] by simp
    moreover have "Suc a div n = Suc (a div n)"
      using True eq by (simp add: div_Suc)
    ultimately have len: "(k + n - 1 - j) div n = k div n" "(Suc k + n - 1 - j) div n = Suc (k div n)"
      by (simp_all only: Suc_a flip: a_def)
    have "k div n * n + j = k"
      using k by simp
    then show ?thesis
      using True unfolding dealt_def len
      by (simp only: upt_Suc_append [OF le0] map_append list.map refl if_True)
  next
    case False
    then have "Suc a div n = a div n"
      using eq by (simp add: div_Suc)
    then show ?thesis
      using False by (simp only: dealt_def Suc_a a_def if_False)
  qed
qed

lemma length_dealt: "length (dealt n k j) = (k + n - 1 - j) div n"
  by (simp add: dealt_def)

lemma length_dealt_next: "0 < n \<Longrightarrow> length (dealt n k (k mod n)) = k div n"
proof -
  assume n: "0 < n"
  have "k = k div n * n + k mod n"
    by simp
  then have "k + n - 1 - k mod n = k div n * n + (n - 1)"
    using n by linarith
  then show ?thesis
    using div_pred_add [OF n, of "k div n"] by (simp only: length_dealt)
qed

text \<open>The state after \<open>k\<close> elements: the rings hold what was dealt and have used as many tickets.\<close>

definition deal_inv :: "nat \<Rightarrow> nat \<Rightarrow> nat \<Rightarrow> multi \<Rightarrow> bool" where
  "deal_inv n sz k s \<longleftrightarrow> multi_inv n s \<and> QUEUE_SIZE s = sz
     \<and> (\<forall>j<n. multi_list j s = dealt n k j
         \<and> sint (tail (queues s ! j)) = int (length (multi_list j s)) - 1)"

lemma deal_step:
  assumes inv: "deal_inv n sz k s" and n: "0 < n" and k: "k < n * sz" and small: "n * sz < 2147483648"
  shows "\<exists>s'. deal_multi n k s = Ret s' \<and> deal_inv n sz (Suc k) s'"
proof -
  let ?j = "k mod n"
  have j: "?j < n" and m: "multi_inv n s" and sz: "QUEUE_SIZE s = sz"
    using inv n by (simp_all add: deal_inv_def)
  have l: "multi_list ?j s = dealt n k ?j" and t: "sint (tail (queues s ! ?j)) = int (k div n) - 1"
    using inv j length_dealt_next [OF n] by (simp_all add: deal_inv_def)
  have room: "k div n < sz"
    using k n by (simp add: div_less_iff_less_mult ac_simps)
  have "k div n < 2147483648"
    using div_le_dividend [of k n] k small by linarith
  then have "0 < ring_budget (queues s ! ?j)"
    using t by (simp add: ring_budget_def)
  moreover have "sample k \<noteq> 0"
    using k small by (intro sample_nonzero) simp
  ultimately obtain s' where s': "put_multi ?j (sample k) s = Ret s'" "multi_inv n s'"
      "QUEUE_SIZE s' = sz" "multi_list ?j s' = multi_list ?j s @ [sample k]"
      "sint (tail (queues s' ! ?j)) = sint (tail (queues s ! ?j)) + 1"
      "\<forall>i. i \<noteq> ?j \<longrightarrow> queues s' ! i = queues s ! i"
    using put_multi_ok [OF m j, of "sample k"] room l length_dealt_next [OF n, of k] sz by auto
  have "multi_list i s' = dealt n (Suc k) i
      \<and> sint (tail (queues s' ! i)) = int (length (multi_list i s')) - 1" if "i < n" for i
  proof (cases "i = ?j")
    case True
    with s'(4,5) l t length_dealt_next [OF n, of k] dealt_Suc [OF j, of k] show ?thesis
      by simp
  next
    case False
    with s'(3,6) sz have "multi_list i s' = multi_list i s" "tail (queues s' ! i) = tail (queues s ! i)"
      by (simp_all add: multi_list_def)
    with False inv that dealt_Suc [OF that, of k] show ?thesis
      by (simp add: deal_inv_def)
  qed
  with s'(1-3) n show ?thesis
    by (simp add: deal_multi_def deal_inv_def)
qed

lemma deal_all:
  assumes "deal_inv n sz 0 s" and "0 < n" and "N \<le> n * sz" and "n * sz < 2147483648"
  shows "\<exists>s'. repeat_op (deal_multi n) N s = Ret s' \<and> deal_inv n sz N s'"
  using assms(3)
proof (induction N)
  case 0
  then show ?case
    using assms(1) by simp
next
  case (Suc k)
  then obtain s1 where "repeat_op (deal_multi n) k s = Ret s1" "deal_inv n sz k s1"
    by auto
  moreover from this(2) obtain s2 where "deal_multi n k s1 = Ret s2" "deal_inv n sz (Suc k) s2"
    using deal_step [of n sz k s1] Suc.prems assms(2,4) by auto
  ultimately show ?case
    by simp
qed

lemma InitQueues_ok:
  assumes "0 < n" and "n \<le> m" and "m \<le> 2147483647" and "\<And>i. i < n \<Longrightarrow> length (mem i) = m div n"
  shows "\<exists>s'. InitQueues m mem n s = Ret s' \<and> deal_inv n (m div n) 0 s'"
proof -
  let ?sz = "m div n"
  have sz: "0 < ?sz" "?sz \<le> 2147483647"
    using assms(1-3) by (simp_all add: div_greater_zero_iff le_trans [OF div_le_dividend])
  let ?q = "\<lparr>head = - 1, tail = - 1, data = replicate ?sz 0\<rparr>"
  let ?s = "s\<lparr>QUEUE_SIZE := ?sz, queues := replicate n ?q\<rparr>"
  have "InitQueues m mem n s = Ret ?s"
    using assms(1) new_queues_eq [of n mem ?sz, OF assms(4)] by (simp add: InitQueues_def)
  moreover have "deal_inv n ?sz 0 ?s"
    using empty_ring [OF sz(1)] sz
    by (simp add: deal_inv_def multi_inv_def list_all_length multi_list_def dealt_0)
  ultimately show ?thesis
    by blast
qed

section \<open>The array queue under a throughput producer\<close>

text \<open>Without a check for room, \<^verbatim>\<open>Enqueue\<close> succeeds as long as the tail counter has not run out.\<close>

lemma put_ticket_total:
  assumes "0 < m" and "length (data q) = m" and "- 1 \<le> sint (tail q)" and "sint (tail q) < INT_MAX"
  shows "\<exists>d. put_ticket m x q = Ret (q\<lparr>tail := tail q + 1, data := d\<rparr>) \<and> length d = m"
proof -
  have "sint (tail q + 1) = int (nat (sint (tail q) + 1))"
    using assms(3,4) by (simp add: sint_incr)
  from store_ticket [OF assms(1) _ this, of "q\<lparr>tail := tail q + 1\<rparr>" x] show ?thesis
    using assms(2) by (auto simp: put_ticket_def fetch_tail_def)
qed

lemma put_tickets_total:
  assumes "0 < m"
  shows "length (data q) = m \<Longrightarrow> - 1 \<le> sint (tail q) \<Longrightarrow> sint (tail q) + int (length xs) \<le> INT_MAX
    \<Longrightarrow> \<exists>q'. enq_all (\<lambda>i. put_ticket m (f i)) xs q = Ret q' \<and> length (data q') = m
      \<and> sint (tail q') = sint (tail q) + int (length xs) \<and> head q' = head q"
proof (induction xs arbitrary: q)
  case Nil
  then show ?case by simp
next
  case (Cons x xs)
  then obtain d where d: "put_ticket m (f x) q = Ret (q\<lparr>tail := tail q + 1, data := d\<rparr>)" "length d = m"
    using put_ticket_total [OF assms, of q] by auto
  moreover have "sint (tail q + 1) = sint (tail q) + 1"
    using Cons.prems by (simp add: sint_incr)
  ultimately show ?case
    using Cons.IH [of "q\<lparr>tail := tail q + 1, data := d\<rparr>"] Cons.prems by auto
qed

section \<open>Handlers in sequence\<close>

lemma sample_alt: "of_nat i + 1 = sample i"
  by (simp add: sample_def)

lemma enqueue_handler_latency_ok:
  assumes "ring_inv m q" and "ring_list m q = []" and "0 < nt" and "N div nt \<le> m"
    and "N div nt \<le> ring_budget q" and "numEnqueue b + N div nt \<le> length (enqueuetimestamp b)"
  shows "\<exists>q' b'. enqueue_handler LATENCY m N nt e (q, b) = Ret (q', b') \<and> ring_inv m q'
    \<and> ring_list m q' = map sample [0..<N div nt] \<and> numEnqueue b' = numEnqueue b + N div nt
    \<and> take (numEnqueue b') (enqueuetimestamp b') = take (numEnqueue b) (enqueuetimestamp b)
        @ map (\<lambda>i. tsc e (2 * i + 1) - tsc e (2 * i)) [0..<N div nt]
    \<and> numDequeue b' = numDequeue b \<and> dequeuetimestamp b' = dequeuetimestamp b"
proof -
  let ?n = "N div nt"
  have "?n \<le> 2147483648"
    using assms(5) ring_invD(4) [OF assms(1)] by (simp add: ring_budget_def)
  then obtain q' where q': "enq_all (\<lambda>x q. run_state (Enqueue_qb m x q)) (map sample [0..<?n]) q = Ret q'"
      "ring_inv m q'" "ring_list m q' = map sample [0..<?n]"
    using sq.enq_all_ok [of m q "map sample [0..<?n]"] assms(1,2,4,5) samples_nonzero [of ?n]
    by (auto simp: Enqueue_qb_put Enqueue_sq_put)
  have "repeat_op (\<lambda>i q. run_state (Enqueue_qb m (of_nat i + 1) q)) ?n q
      = enq_all (\<lambda>x q. run_state (Enqueue_qb m x q)) (map sample [0..<?n]) q"
    unfolding sample_alt by (rule repeat_enq)
  with q' have r: "repeat_op (\<lambda>i q. run_state (Enqueue_qb m (of_nat i + 1) q)) ?n q = Ret q'"
    by simp
  have "\<exists>b'. timed_enqueues (\<lambda>i q. run_state (Enqueue_qb m (of_nat i + 1) q)) (tsc e) ?n (q, b) = Ret (q', b')
      \<and> numEnqueue b' = numEnqueue b + ?n \<and> take (numEnqueue b') (enqueuetimestamp b')
        = take (numEnqueue b) (enqueuetimestamp b) @ map (\<lambda>i. tsc e (2 * i + 1) - tsc e (2 * i)) [0..<?n]
      \<and> numDequeue b' = numDequeue b \<and> dequeuetimestamp b' = dequeuetimestamp b"
    using assms(6) by (simp add: timed_enqueues_def latency_loop_eq r merge_enqueue_def copy_at_def)
  then show ?thesis
    using q' assms(3) by (auto simp: enqueue_handler_def per_thread_def)
qed

lemma worker_handler_latency_ok:
  assumes "ring_inv m q" and "m \<le> 2147483647" and "length (ring_list m q) = N div nt" and "0 < nt"
    and "numDequeue b + N div nt \<le> length (dequeuetimestamp b)"
  shows "\<exists>q' b'. worker_handler LATENCY m N nt e (q, b) = Ret (q', b') \<and> ring_inv m q' \<and> ring_list m q' = []
    \<and> numDequeue b' = numDequeue b + N div nt
    \<and> take (numDequeue b') (dequeuetimestamp b') = take (numDequeue b) (dequeuetimestamp b)
        @ map (\<lambda>i. tsc e (2 * i + 1) - tsc e (2 * i)) [0..<N div nt]"
proof -
  let ?n = "N div nt"
  obtain q' where q': "deq_n (Dequeue_qb m) ?n q = Ret (ring_list m q, q')" "ring_inv m q'" "ring_list m q' = []"
    using fifo_queue.deq_some [OF bounded_fifo.axioms(1) [OF qb_contract [OF assms(2)]] assms(1), of ?n] assms(3)
    by auto
  then have "repeat_op (\<lambda>i q. run_state (Dequeue_qb m q)) ?n q = Ret q'"
    by (simp add: repeat_deq)
  from timed_dequeues_ok [OF this assms(5), of "tsc e"] show ?thesis
    using q' assms(4) by (auto simp: worker_handler_def per_thread_def)
qed

lemma empty_ring_at:
  "0 < m \<Longrightarrow> - 1 \<le> sint t \<Longrightarrow> ring_inv m \<lparr>head = t, tail = t, data = replicate m 0\<rparr>
   \<and> ring_list m \<lparr>head = t, tail = t, data = replicate m 0\<rparr> = []"
  by (simp add: ring_inv_def ring_list_def tickets_in_def tickets_out_def)

section \<open>Properties\<close>

text \<open>In the single-producer benchmark (type 8) with \<open>n\<close> queues and \<open>n * k\<close> samples that fit them, the
  producer deals element \<open>i + 1\<close> to queue \<open>i mod n\<close>, so that queue \<open>j\<close> ends up with its \<open>k\<close> elements in order,
  and the worker of queue \<open>j\<close> then dequeues exactly those; every call has left one sample.\<close>

theorem spmc_deals_evenly:
  assumes "0 < n" and "n \<le> m" and "m \<le> 2147483647" and "\<forall>i<n. length (mem i) = m div n"
    and "InitQueues m mem n s0 = Ret s" and "k \<le> m div n" and "j < n"
    and "numEnqueue b + n * k \<le> length (enqueuetimestamp b)" and "numDequeue b + k \<le> length (dequeuetimestamp b)"
  shows "\<exists>s1 b1 s2 b2. enqueuespmc_handler LATENCY n (n * k) e (s, b) = Ret (s1, b1)
    \<and> multi_list j s1 = map (\<lambda>r. sample (r * n + j)) [0..<k] \<and> numEnqueue b1 = numEnqueue b + n * k
    \<and> workerspmc_handler LATENCY j (n * k) n e' (s1, b1) = Ret (s2, b2)
    \<and> multi_list j s2 = [] \<and> numDequeue b2 = numDequeue b + k"
proof -
  have init: "deal_inv n (m div n) 0 s"
    using InitQueues_ok [OF assms(1-3), of mem s0] assms(4,5) by auto
  have le: "n * k \<le> n * (m div n)" "n * (m div n) \<le> m"
    using assms(6) by simp_all
  obtain s1 where s1: "repeat_op (deal_multi n) (n * k) s = Ret s1" "deal_inv n (m div n) (n * k) s1"
    using deal_all [OF init assms(1) le(1)] le(2) assms(3) by auto
  have "k * n + n - 1 - j = k * n + (n - 1 - j)"
    using assms(7) by simp
  then have "(n * k + n - 1 - j) div n = k"
    using assms(1) by (simp add: mult.commute)
  then have l: "multi_list j s1 = map (\<lambda>r. sample (r * n + j)) [0..<k]" and m1: "multi_inv n s1"
    using s1(2) assms(7) by (simp_all add: deal_inv_def dealt_def)
  obtain b1 where b1: "enqueuespmc_handler LATENCY n (n * k) e (s, b) = Ret (s1, b1)"
      "numEnqueue b1 = numEnqueue b + n * k" "numDequeue b1 = numDequeue b" "dequeuetimestamp b1 = dequeuetimestamp b"
    using s1(1) assms(8) by (simp add: enqueuespmc_handler_def timed_enqueues_def latency_loop_eq
        merge_enqueue_def copy_at_def)
  obtain s2 where s2: "deq_n (take_multi j) k s1 = Ret (multi_list j s1, s2)" "multi_list j s2 = []"
    using fifo_queue.deq_some [OF multi_contract [OF assms(7)] m1, of k] l by auto
  then have "repeat_op (\<lambda>i s. run_state (take_multi j s)) k s1 = Ret s2"
    by (simp add: repeat_deq)
  from timed_dequeues_ok [OF this, of b1 "tsc e'"] obtain b2 where
      "timed_dequeues (\<lambda>i s. run_state (take_multi j s)) (tsc e') k (s1, b1) = Ret (s2, b2)"
      "numDequeue b2 = numDequeue b + k"
    using assms(9) b1(3,4) by auto
  then show ?thesis
    using b1 l s2 assms(1) by (simp add: workerspmc_handler_def per_thread_def)
qed

definition demo_bench :: bench where
  "demo_bench = \<lparr>enqueuetimestamp = replicate 6 0, dequeuetimestamp = replicate 6 0, dequeue_ticks = 0,
     enqueue_ticks = 0, numEnqueue = 0, numDequeue = 0, ENQUEUE_SAMPLES = 0, DEQUEUE_SAMPLES = 0,
     numEnqueueThreadsCreated = 0, numDequeueThreadsCreated = 0, enqueuethroughput = 0,
     dequeuethroughput = 0, failed_ck_dequeues = 0\<rparr>"

definition demo_env :: env where
  "demo_env = \<lparr>tsc = (\<lambda>k. 3 * of_nat k), monotonic = (\<lambda>k. (if k < 2 then 0 else 4, 0)), stack_ret = 0\<rparr>"

theorem spmc_deals_evenly_witness:
  "\<exists>s s1 b1. InitQueues 6 (\<lambda>_. [9, 9, 9]) 2 \<lparr>QUEUE_SIZE = 0, queues = []\<rparr> = Ret s
    \<and> enqueuespmc_handler LATENCY 2 (2 * 3) demo_env (s, demo_bench) = Ret (s1, b1) \<and> multi_list 1 s1 = [2, 4, 6]"
proof -
  obtain s where s: "InitQueues 6 (\<lambda>_. [9, 9, 9]) 2 \<lparr>QUEUE_SIZE = 0, queues = []\<rparr> = Ret s"
    using InitQueues_ok [of 2 6 "\<lambda>_. [9, 9, 9]"] by auto
  have "map (\<lambda>r. sample (r * 2 + 1)) [0..<3] = [2, 4, 6]"
    by (simp add: sample_def numeral_3_eq_3)
  then show ?thesis
    using s spmc_deals_evenly [OF _ _ _ _ s, of 3 1 demo_bench demo_env demo_env]
    by (auto simp: demo_bench_def)
qed

text \<open>\<^verbatim>\<open>InitQueues\<close> sets up \<open>n\<close> empty queues of \<^verbatim>\<open>MAX_SIZE/n\<close> slots each, whatever
  \<^verbatim>\<open>malloc\<close> returned; for no queues it divides by zero.\<close>

theorem InitQueues_empty:
  assumes "0 < n" and "n \<le> m" and "m \<le> 2147483647" and "\<forall>i<n. length (mem i) = m div n"
  shows "(\<exists>s'. InitQueues m mem n s = Ret s' \<and> multi_inv n s' \<and> QUEUE_SIZE s' = m div n
      \<and> (\<forall>j<n. multi_list j s' = [] \<and> ring_budget (queues s' ! j) = 2147483648))
    \<and> InitQueues m mem 0 s = Fault DivByZero"
proof -
  obtain s' where s': "InitQueues m mem n s = Ret s'" "deal_inv n (m div n) 0 s'"
    using InitQueues_ok [OF assms(1-3)] assms(4) by blast
  moreover have "multi_list j s' = [] \<and> ring_budget (queues s' ! j) = 2147483648" if "j < n" for j
    using s'(2) that dealt_0 [OF that] by (simp add: deal_inv_def ring_budget_def)
  ultimately show ?thesis
    by (auto simp: deal_inv_def InitQueues_def)
qed

theorem InitQueues_empty_witness:
  "\<exists>s'. InitQueues 7 (\<lambda>_. [1, 2, 3]) 2 \<lparr>QUEUE_SIZE = 0, queues = []\<rparr> = Ret s' \<and> QUEUE_SIZE s' = 3
    \<and> multi_list 0 s' = [] \<and> multi_list 1 s' = []"
  using InitQueues_empty [of 2 7 "\<lambda>_. [1, 2, 3]" "\<lparr>QUEUE_SIZE = 0, queues = []\<rparr>"] by auto

text \<open>A producer and then a worker of the latency benchmark, on an empty array queue with room for a
  thread's share \<^verbatim>\<open>NUM_SAMPLES/CUR_NUM_THREADS\<close> of the samples: both return, the queue holds
  \<open>1, 2, \<dots>\<close> in between and nothing at the end, and each side has appended the difference of the two
  counter readings around every one of its calls to its global array, in order.\<close>

theorem latency_handlers:
  assumes "ring_inv m q" and "ring_list m q = []" and "m \<le> 2147483647" and "0 < nt" and "N div nt \<le> m"
    and "N div nt \<le> ring_budget q" and "numEnqueue b + N div nt \<le> length (enqueuetimestamp b)"
    and "numDequeue b + N div nt \<le> length (dequeuetimestamp b)"
  shows "\<exists>q1 b1 q2 b2. enqueue_handler LATENCY m N nt e (q, b) = Ret (q1, b1)
    \<and> ring_list m q1 = map sample [0..<N div nt]
    \<and> worker_handler LATENCY m N nt e' (q1, b1) = Ret (q2, b2) \<and> ring_list m q2 = []
    \<and> take (numEnqueue b1) (enqueuetimestamp b1) = take (numEnqueue b) (enqueuetimestamp b)
        @ map (\<lambda>i. tsc e (2 * i + 1) - tsc e (2 * i)) [0..<N div nt]
    \<and> take (numDequeue b2) (dequeuetimestamp b2) = take (numDequeue b) (dequeuetimestamp b)
        @ map (\<lambda>i. tsc e' (2 * i + 1) - tsc e' (2 * i)) [0..<N div nt]"
proof -
  obtain q1 b1 where q1: "enqueue_handler LATENCY m N nt e (q, b) = Ret (q1, b1)" "ring_inv m q1"
      "ring_list m q1 = map sample [0..<N div nt]"
      "take (numEnqueue b1) (enqueuetimestamp b1) = take (numEnqueue b) (enqueuetimestamp b)
        @ map (\<lambda>i. tsc e (2 * i + 1) - tsc e (2 * i)) [0..<N div nt]"
      "numDequeue b1 = numDequeue b" "dequeuetimestamp b1 = dequeuetimestamp b"
    using enqueue_handler_latency_ok [OF assms(1,2,4-7), of e] by blast
  moreover obtain q2 b2 where "worker_handler LATENCY m N nt e' (q1, b1) = Ret (q2, b2)" "ring_list m q2 = []"
      "take (numDequeue b2) (dequeuetimestamp b2) = take (numDequeue b) (dequeuetimestamp b)
        @ map (\<lambda>i. tsc e' (2 * i + 1) - tsc e' (2 * i)) [0..<N div nt]"
    using worker_handler_latency_ok [OF q1(2) assms(3) _ assms(4), of N b1 e'] q1(3,5,6) assms(8) by auto
  ultimately show ?thesis
    by blast
qed

theorem latency_handlers_witness:
  "\<exists>q1 b1 q2 b2. enqueue_handler LATENCY 4 6 2 demo_env
      (\<lparr>head = - 1, tail = - 1, data = replicate 4 0\<rparr>, demo_bench) = Ret (q1, b1)
    \<and> ring_list 4 q1 = [1, 2, 3] \<and> worker_handler LATENCY 4 6 2 demo_env (q1, b1) = Ret (q2, b2)
    \<and> take (numEnqueue b1) (enqueuetimestamp b1) = [3, 3, 3] \<and> take (numDequeue b2) (dequeuetimestamp b2) = [3, 3, 3]"
proof -
  have "map sample [0..<3] = [1, 2, 3]"
    "map (\<lambda>i. tsc demo_env (2 * i + 1) - tsc demo_env (2 * i)) [0..<3] = [3, 3, 3]"
    by (simp_all add: sample_def demo_env_def numeral_3_eq_3)
  then show ?thesis
    using latency_handlers [of 4 "\<lparr>head = - 1, tail = - 1, data = replicate 4 0\<rparr>" 2 6 demo_bench demo_env demo_env]
      empty_ring [of 4] by (auto simp: demo_bench_def)
qed

text \<open>The throughput producer of the array queue, on a freshly initialised ring of any size, never waits for
  room: it stops after the first batch whose clock reading is past three seconds, \<open>k + 1\<close> batches
  after its start; it has then made \<open>9999 * (k + 1)\<close> enqueues and adds \<open>10000 * (k + 1)\<close> to the samples
  it reports.\<close>

theorem throughput_producer_overcounts:
  assumes "0 < m" and "length (data q) = m" and "InitQueue_qb m q = Ret s"
    and "\<forall>j<k. fst (monotonic e (2 + j)) - fst (monotonic e 0) \<le> 3"
    and "3 < fst (monotonic e (2 + k)) - fst (monotonic e 0)" and "9999 * Suc k \<le> 2147483648"
  shows "\<exists>s' b'. enqueue_handler THROUGHPUT m N nt e (s, b) = Ret (s', b')
    \<and> sint (tail s') = int (9999 * Suc k) - 1 \<and> head s' = head s
    \<and> ENQUEUE_SAMPLES b' = ENQUEUE_SAMPLES b + 10000 * Suc k"
proof -
  have s: "length (data s) = m" "tail s = - 1"
    using assms(3) InitQueue_qb_eq [OF assms(2)] by auto
  have "length (batches (Suc k)) = 9999 * Suc k"
    by (rule length_batches)
  moreover have "int (9999 * Suc k) \<le> 2147483648"
    using assms(6) by linarith
  ultimately have "sint (tail s) + int (length (batches (Suc k))) \<le> INT_MAX"
    using s(2) by (simp del: mult_Suc_right of_nat_mult)
  from put_tickets_total [OF assms(1) s(1) _ this, of "\<lambda>i. of_nat i + 1"] obtain s' where
      s': "enq_all (\<lambda>i. put_ticket m (of_nat i + 1)) (batches (Suc k)) s = Ret s'"
        "sint (tail s') = int (9999 * Suc k) - 1" "head s' = head s"
    using s(2) by (auto simp del: mult_Suc_right)
  have op: "(\<lambda>i q. run_state (Enqueue_qb m (of_nat i + 1) q)) = (\<lambda>i. put_ticket m (of_nat i + 1))"
    by (simp add: Enqueue_qb_put fun_eq_iff)
  obtain b' where "throughput_enqueues (\<lambda>i. put_ticket m (of_nat i + 1)) e (s, b) = Ret (s', b')"
      "ENQUEUE_SAMPLES b' = ENQUEUE_SAMPLES b + 10000 * Suc k"
    using throughput_enqueues_ok [OF _ assms(5) s'(1), of b] assms(4) by blast
  then show ?thesis
    using s'(2,3) by (auto simp: enqueue_handler_def op)
qed

theorem throughput_producer_overcounts_witness:
  "\<exists>s s' b'. InitQueue_qb 4 \<lparr>head = 0, tail = 0, data = [1, 1, 1, 1]\<rparr> = Ret s
    \<and> enqueue_handler THROUGHPUT 4 8 2 demo_env (s, demo_bench) = Ret (s', b')
    \<and> sint (tail s') = 9998 \<and> ENQUEUE_SAMPLES b' = 10000"
proof -
  obtain s where s: "InitQueue_qb 4 \<lparr>head = 0, tail = 0, data = [1, 1, 1, 1]\<rparr> = Ret s"
    by (simp add: InitQueue_qb_eq)
  then show ?thesis
    using throughput_producer_overcounts [OF _ _ s, of 0 demo_env 8 2 demo_bench]
    by (auto simp: demo_env_def demo_bench_def)
qed

text \<open>The throughput worker of the array queue, once the tail has passed \<^verbatim>\<open>MAX_SIZE\<close>, empties the queue
  and stops at the first -1 if the clock leaves it the time and its uninitialised \<^verbatim>\<open>ret\<close> does not happen to
  be -1; for \<open>n\<close> elements it makes \<open>n + 1\<close> calls and reports one sample more for every batch begun.\<close>

theorem throughput_worker_drains:
  assumes "ring_polled MAX_SIZE_qb q" and "- 1 \<notin> set (ring_list MAX_SIZE_qb q)"
    and "\<forall>j. fst (monotonic e j) - fst (monotonic e 0) \<le> 3" and "stack_ret e \<noteq> - 1"
  shows "\<exists>q' b'. worker_handler THROUGHPUT MAX_SIZE_qb N nt e (q, b) = Ret (q', b')
    \<and> ring_list MAX_SIZE_qb q' = []
    \<and> DEQUEUE_SAMPLES b' = DEQUEUE_SAMPLES b + reported (Suc (length (ring_list MAX_SIZE_qb q)))"
  using qp.throughput_drains [OF _ assms(4,1,2), of b] assms(3) by (auto simp: worker_handler_def)

theorem throughput_worker_drains_witness:
  "\<exists>q' b'. worker_handler THROUGHPUT MAX_SIZE_qb 8 2 (demo_env\<lparr>monotonic := \<lambda>k. (0, int k)\<rparr>)
      (\<lparr>head = 300000, tail = 300000, data = replicate MAX_SIZE_qb 0\<rparr>, demo_bench) = Ret (q', b')
    \<and> DEQUEUE_SAMPLES b' = 2"
proof -
  let ?q = "\<lparr>head = 300000, tail = 300000, data = replicate MAX_SIZE_qb 0\<rparr> :: ringbuf"
  have "ring_polled MAX_SIZE_qb ?q" "ring_list MAX_SIZE_qb ?q = []"
    using empty_ring_at [of MAX_SIZE_qb 300000]
    by (simp_all add: ring_polled_def MAX_SIZE_qb_def NUM_SAMPLES_qb_def)
  then show ?thesis
    using throughput_worker_drains [of ?q "demo_env\<lparr>monotonic := \<lambda>k. (0, int k)\<rparr>" 8 2 demo_bench]
    by (auto simp: demo_env_def demo_bench_def reported_def)
qed

text \<open>At the end of a latency round the \<open>c\<close> producers and \<open>c\<close> workers append their
  \<^verbatim>\<open>NUM_SAMPLES/CUR_NUM_THREADS\<close> samples each under the mutex. In whatever order they get it, the
  copies stay inside the two arrays of \<^verbatim>\<open>NUM_SAMPLES\<close> elements, and afterwards each array starts with all
  samples of its side, thread after thread.\<close>

theorem merges_fit:
  assumes "0 < c" and "length (filter (\<lambda>x. fst x = EnqSide) xs) = c"
    and "length (filter (\<lambda>x. fst x = DeqSide) xs) = c" and "list_all (\<lambda>x. length (snd x) = N div c) xs"
  shows "\<exists>b'. merge_all xs (alloc_samples N b) = Ret b'
    \<and> numEnqueue b' = c * (N div c) \<and> numDequeue b' = c * (N div c)
    \<and> take (numEnqueue b') (enqueuetimestamp b') = samples_of EnqSide xs
    \<and> take (numDequeue b') (dequeuetimestamp b') = samples_of DeqSide xs"
proof -
  have "length (samples_of EnqSide xs) = c * (N div c)" "length (samples_of DeqSide xs) = c * (N div c)"
    using length_samples_of [OF assms(4)] assms(2,3) by simp_all
  then show ?thesis
    using merge_all_ok [of "alloc_samples N b" xs] by (auto simp: alloc_samples_def ResetCounters_def)
qed

theorem merges_fit_witness:
  "\<exists>b'. merge_all [(DeqSide, [5, 6]), (EnqSide, [1, 2]), (EnqSide, [3, 4]), (DeqSide, [7, 8])] (alloc_samples 5 demo_bench) = Ret b'
    \<and> take (numEnqueue b') (enqueuetimestamp b') = [1, 2, 3, 4] \<and> take (numDequeue b') (dequeuetimestamp b') = [5, 6, 7, 8]"
  using merges_fit [of 2 "[(DeqSide, [5, 6]), (EnqSide, [1, 2]), (EnqSide, [3, 4]), (DeqSide, [7, 8])]" 5 demo_bench]
  by auto

end
