(* ===== verification/Summary.thy ===== *)
theory Summary
  imports Bench_Handlers "HOL-Library.Log_Nat"
begin

text \<open>
  The statistics of \<^verbatim>\<open>QueueBenchmarks/sqmain.c\<close>: the calibration of the time stamp counter,
  the comparison and sorting of samples, \<^verbatim>\<open>ComputeSummary\<close> in both builds and
  \<^verbatim>\<open>rand_interval\<close>. Tick counts are 64-bit words and wrap; the \<^verbatim>\<open>float\<close> clock
  frequency and the times derived from it are reals; an integer sum converted to \<^verbatim>\<open>double\<close> is
  rounded to 53 significant bits.
\<close>

section \<open>Sorting\<close>

text \<open>\<^verbatim>\<open>*(int*)a - *(int*)b\<close>: the low halves of two 64-bit samples, as \<^verbatim>\<open>int\<close>s.\<close>

definition low_int :: "ticks \<Rightarrow> int" where
  "low_int a = sint (ucast a :: c_int)"

definition cmpfunc :: "ticks \<Rightarrow> ticks \<Rightarrow> int outcome" where
  "cmpfunc a b = c_sub (low_int a) (low_int b)"

text \<open>
  What C promises of \<^verbatim>\<open>qsort\<close>: when the comparisons of the elements are defined and order them
  consistently, the array is permuted into that order. The order of equal elements and the choice of
  comparisons are left open, so the function is a parameter of the model.
\<close>

type_synonym sorter = "(ticks \<Rightarrow> ticks \<Rightarrow> int outcome) \<Rightarrow> ticks list \<Rightarrow> ticks list outcome"

definition consistent :: "(ticks \<Rightarrow> ticks \<Rightarrow> int outcome) \<Rightarrow> (ticks \<Rightarrow> int) \<Rightarrow> ticks set \<Rightarrow> bool" where
  "consistent cmp key A \<longleftrightarrow> (\<forall>x\<in>A. \<forall>y\<in>A. cmp x y = Ret (key x - key y))"

definition qsort_contract :: "sorter \<Rightarrow> bool" where
  "qsort_contract qs \<longleftrightarrow> (\<forall>cmp key xs. consistent cmp key (set xs) \<longrightarrow>
     (\<exists>ys. qs cmp xs = Ret ys \<and> mset ys = mset xs \<and> sorted_wrt (\<lambda>x y. key x \<le> key y) ys))"

definition SortTicks :: "sorter \<Rightarrow> ticks list \<Rightarrow> ticks list outcome" where
  "SortTicks qs numTicks = qs cmpfunc numTicks"

text \<open>One sorting function that keeps the promise.\<close>

fun insert_by :: "(ticks \<Rightarrow> ticks \<Rightarrow> int outcome) \<Rightarrow> ticks \<Rightarrow> ticks list \<Rightarrow> ticks list outcome" where
  "insert_by cmp x [] = Ret [x]"
| "insert_by cmp x (y # ys) =
     bindO (cmp x y) (\<lambda>d. if d \<le> 0 then Ret (x # y # ys)
       else bindO (insert_by cmp x ys) (\<lambda>zs. Ret (y # zs)))"

fun sort_by :: "(ticks \<Rightarrow> ticks \<Rightarrow> int outcome) \<Rightarrow> ticks list \<Rightarrow> ticks list outcome" where
  "sort_by cmp [] = Ret []"
| "sort_by cmp (x # xs) = bindO (sort_by cmp xs) (insert_by cmp x)"

lemma consistent_cmp: "consistent cmp key A \<Longrightarrow> x \<in> A \<Longrightarrow> y \<in> A \<Longrightarrow> cmp x y = Ret (key x - key y)"
  by (simp add: consistent_def)

lemma consistent_mono: "consistent cmp key A \<Longrightarrow> B \<subseteq> A \<Longrightarrow> consistent cmp key B"
  by (auto simp: consistent_def)

lemma insert_by_ok:
  "consistent cmp key (insert x (set ys)) \<Longrightarrow> sorted_wrt (\<lambda>x y. key x \<le> key y) ys \<Longrightarrow>
   \<exists>zs. insert_by cmp x ys = Ret zs \<and> mset zs = add_mset x (mset ys) \<and> sorted_wrt (\<lambda>x y. key x \<le> key y) zs"
proof (induction ys)
  case Nil
  then show ?case by simp
next
  case (Cons y ys)
  have c: "cmp x y = Ret (key x - key y)"
    using consistent_cmp [OF Cons.prems(1)] by simp
  obtain zs where zs: "insert_by cmp x ys = Ret zs" "mset zs = add_mset x (mset ys)"
      "sorted_wrt (\<lambda>x y. key x \<le> key y) zs"
    using Cons.IH consistent_mono [OF Cons.prems(1), of "insert x (set ys)"] Cons.prems(2) by auto
  have "set zs = insert x (set ys)"
    by (metis set_mset_add_mset_insert set_mset_mset zs(2))
  with c zs Cons.prems(2) show ?case
    by (auto simp: le_less_trans order.trans)
qed

lemma sort_by_contract: "qsort_contract sort_by"
proof -
  have "\<exists>ys. sort_by cmp xs = Ret ys \<and> mset ys = mset xs \<and> sorted_wrt (\<lambda>x y. key x \<le> key y) ys"
    if "consistent cmp key (set xs)" for cmp key xs
    using that
  proof (induction xs)
    case Nil
    then show ?case by simp
  next
    case (Cons x xs)
    then obtain ys where ys: "sort_by cmp xs = Ret ys" "mset ys = mset xs" "sorted_wrt (\<lambda>x y. key x \<le> key y) ys"
      using consistent_mono [OF Cons.prems, of "set xs"] by auto
    moreover have "set ys = set xs"
      using ys(2) by (metis set_mset_mset)
    ultimately show ?case
      using insert_by_ok [of cmp key x ys] Cons.prems by simp
  qed
  then show ?thesis
    by (simp add: qsort_contract_def)
qed

text \<open>Samples below \<open>2 ^ 31\<close> are ordered by their value.\<close>

lemma small_tick: "t < 2147483648 \<Longrightarrow> uint (t :: ticks) < 2147483648"
  by (simp add: word_less_def)

lemma low_int_small:
  assumes "t < 2147483648"
  shows "low_int t = uint t"
proof -
  have "(ucast t :: c_int) = word_of_int (uint t)"
    by (rule ucast_eq)
  then have "low_int t = sint (word_of_int (uint t) :: c_int)"
    by (simp only: low_int_def)
  also have "\<dots> = uint t"
    using small_tick [OF assms] uint_ge_0 [of t] by (intro sint_of_int; linarith)
  finally show ?thesis .
qed

lemma cmpfunc_consistent:
  assumes "\<And>t. t \<in> set xs \<Longrightarrow> t < 2147483648"
  shows "consistent cmpfunc uint (set xs)"
  unfolding consistent_def
proof (intro ballI)
  fix x y assume "x \<in> set xs" "y \<in> set xs"
  then have x: "x < 2147483648" and y: "y < 2147483648"
    using assms by auto
  have "INT_MIN \<le> uint x - uint y \<and> uint x - uint y \<le> INT_MAX"
    using small_tick [OF x] small_tick [OF y] uint_ge_0 [of x] uint_ge_0 [of y] by linarith
  then show "cmpfunc x y = Ret (uint x - uint y)"
    by (simp only: cmpfunc_def low_int_small [OF x] low_int_small [OF y] c_sub_def simp_thms if_True)
qed

lemma SortTicks_sort:
  assumes "qsort_contract qs" and "\<And>t. t \<in> set xs \<Longrightarrow> t < 2147483648"
  shows "SortTicks qs xs = Ret (sort xs)"
proof -
  obtain ys where ys: "qs cmpfunc xs = Ret ys" "mset ys = mset xs"
      "sorted_wrt (\<lambda>x y. uint x \<le> uint y) ys"
    using assms(1) cmpfunc_consistent [OF assms(2)] unfolding qsort_contract_def by blast
  then have "sorted ys"
    unfolding word_le_def [abs_def] by simp
  then have "ys = sort xs"
    using ys(2) by (metis properties_for_sort)
  then show ?thesis
    using ys(1) by (simp add: SortTicks_def)
qed

section \<open>ComputeSummary\<close>

text \<open>\<^verbatim>\<open>unsigned long\<close> to \<^verbatim>\<open>double\<close>: round to 53 significant bits, ties to even.\<close>

definition double_of_nat :: "nat \<Rightarrow> nat" where
  "double_of_nat n =
     (if n < 2 ^ 53 then n
      else (let u = 2 ^ (floorlog 2 n - 53); q = n div u; r = n mod u
            in (if u < 2 * r \<or> (2 * r = u \<and> odd q) then q + 1 else q) * u))"

record side_summary =
  tickMin :: ticks
  tickMax :: ticks
  tickAverage :: ticks
  tickMedian :: ticks
  minTime :: real
  maxTime :: real
  avgTime :: real

definition median_of :: "ticks list \<Rightarrow> nat \<Rightarrow> ticks outcome" where
  "median_of a n =
     (if even n
      then bindO (arr_read a (int (n div 2))) (\<lambda>x.
           bindO (arr_read a (int (n div 2) - 1)) (\<lambda>y.
             Ret (of_nat (double_of_nat (unat (x + y)) div 2))))
      else arr_read a (int (n div 2)))"

text \<open>What follows the sorting: \<open>ticks_sum\<close> is the sum of the \<open>n\<close> samples, \<open>ordered\<close> the sorted array.\<close>

definition side_stats :: "real \<Rightarrow> nat \<Rightarrow> ticks \<Rightarrow> ticks list \<Rightarrow> side_summary outcome" where
  "side_stats clockFreq n ticks_sum ordered =
     bindO (arr_read ordered 0) (\<lambda>mi.
     bindO (arr_read ordered (int n - 1)) (\<lambda>ma.
     if n = 0 then Fault DivByZero
     else let avg = ticks_sum div of_nat n in
     bindO (median_of ordered n) (\<lambda>med.
       Ret \<lparr>tickMin = mi, tickMax = ma, tickAverage = avg, tickMedian = med,
            minTime = real (unat mi) / clockFreq, maxTime = real (unat ma) / clockFreq,
            avgTime = real (unat avg) / clockFreq\<rparr>)))"

text \<open>One side, enqueue or dequeue: \<open>arr\<close> is the array of samples and \<open>n\<close> their number.\<close>

definition summarize_side :: "sorter \<Rightarrow> real \<Rightarrow> int \<Rightarrow> ticks list \<Rightarrow> nat \<Rightarrow> side_summary outcome" where
  "summarize_side qs clockFreq overhead arr n =
     bindO (arr_read arr 0) (\<lambda>_.
     if length arr < n then Fault BadIndex
     else let nticks = map (\<lambda>t. t - word_of_int overhead) (take n arr); ticks_sum = sum_list nticks in
     bindO (SortTicks qs nticks) (side_stats clockFreq n ticks_sum))"

datatype report =
    LatencyReport int int nat nat side_summary side_summary
  | ThroughputReport nat nat int real real

definition ComputeSummary :: "sorter \<Rightarrow> build \<Rightarrow> int \<Rightarrow> int \<Rightarrow> real \<Rightarrow> int \<Rightarrow> bench \<Rightarrow> report outcome" where
  "ComputeSummary qs bd type numThreads clockFreq rdtsc_overhead b =
     (case bd of
        LATENCY \<Rightarrow>
          bindO (summarize_side qs clockFreq rdtsc_overhead (enqueuetimestamp b) (numEnqueue b)) (\<lambda>e.
          bindO (summarize_side qs clockFreq rdtsc_overhead (dequeuetimestamp b) (numDequeue b)) (\<lambda>d.
            Ret (LatencyReport type numThreads (numEnqueue b) (numDequeue b) e d)))
      | THROUGHPUT \<Rightarrow>
          Ret (ThroughputReport (ENQUEUE_SAMPLES b) (DEQUEUE_SAMPLES b) numThreads
                 (enqueuethroughput b) (dequeuethroughput b)))"

text \<open>The statistics of a list of numbers, as a reader of the summary understands them.\<close>

definition spec_median :: "nat list \<Rightarrow> nat" where
  "spec_median xs =
     (let ys = sort xs; n = length xs
      in if even n then (ys ! (n div 2) + ys ! (n div 2 - 1)) div 2 else ys ! (n div 2))"

definition corrected :: "int \<Rightarrow> ticks list \<Rightarrow> nat list" where
  "corrected overhead ts = map (\<lambda>t. unat t - nat overhead) ts"

text \<open>Samples that are at least the overhead and, without it, below \<open>2 ^ 31\<close>.\<close>

definition measurable :: "int \<Rightarrow> ticks \<Rightarrow> bool" where
  "measurable overhead t \<longleftrightarrow> 0 \<le> overhead \<and> nat overhead \<le> unat t \<and> unat t - nat overhead < 2147483648"

lemma measurable_corrected:
  assumes "measurable ov t"
  shows "unat (t - word_of_int ov) = unat t - nat ov" "t - word_of_int ov < 2147483648"
proof -
  have ov: "0 \<le> ov" "nat ov \<le> unat t" "unat t - nat ov < 2147483648"
    using assms by (auto simp: measurable_def)
  have "(word_of_int ov :: ticks) = of_nat (nat ov)"
    using ov(1) by simp
  moreover have "unat (of_nat (nat ov) :: ticks) = nat ov"
    using ov(2) by (metis le_unat_uoi)
  ultimately have u: "unat (word_of_int ov :: ticks) = nat ov"
    by (simp only:)
  then show eq: "unat (t - word_of_int ov) = unat t - nat ov"
    using ov(2) by (metis unat_sub word_le_nat_alt)
  show "t - word_of_int ov < 2147483648"
    using ov(3) by (simp only: word_less_nat_alt eq) simp
qed

lemma map_unat_sort: "map unat (sort xs) = sort (map unat (xs :: 'a :: len word list))"
proof (rule properties_for_sort [symmetric])
  have "sorted (sort xs)"
    by simp
  then show "sorted (map unat (sort xs))"
    by (simp only: sorted_map word_le_nat_alt [symmetric])
qed simp

lemma unat_sum_list:
  "sum_list (map unat xs) < 2 ^ LENGTH('a) \<Longrightarrow> unat (sum_list (xs :: 'a :: len word list)) = sum_list (map unat xs)"
proof (induction xs)
  case Nil
  then show ?case by simp
next
  case (Cons x xs)
  then have "unat (sum_list xs) = sum_list (map unat xs)"
    by simp
  with Cons.prems show ?case
    by (simp add: unat_word_ariths)
qed

lemma sum_list_le: "(\<And>x. x \<in> set xs \<Longrightarrow> x \<le> B) \<Longrightarrow> sum_list xs \<le> length xs * (B :: nat)"
  by (induction xs) (simp, fastforce)

lemma small_unat: "t < 2147483648 \<Longrightarrow> unat (t :: ticks) < 2147483648"
  by (simp add: word_less_nat_alt)

lemma unat_of_nat_tick: "n < 4294967296 \<Longrightarrow> unat (of_nat n :: ticks) = n"
  by (simp add: unat_of_nat)

lemma double_of_nat_small: "n < 4294967296 \<Longrightarrow> double_of_nat n = n"
  by (simp add: double_of_nat_def)

lemma median_of_ok:
  assumes "sorted ys" and "length ys = n" and "0 < n" and "\<And>y. y \<in> set ys \<Longrightarrow> y < 2147483648"
  shows "\<exists>med. median_of ys n = Ret med \<and> unat med = spec_median (map unat ys)"
proof (cases "even n")
  case True
  obtain k where "n = 2 * k" "0 < k"
    using True assms(3) by (auto elim: evenE)
  then have i: "n div 2 < length ys" "n div 2 - 1 < length ys" "int (n div 2) - 1 = int (n div 2 - 1)"
    using assms(2) by simp_all
  let ?x = "ys ! (n div 2)" and ?y = "ys ! (n div 2 - 1)"
  have "unat ?x < 2147483648" "unat ?y < 2147483648"
    using assms(4) i(1,2) by (simp_all add: small_unat)
  then have lt: "unat ?x + unat ?y < 4294967296"
    by linarith
  then have add: "unat (?x + ?y) = unat ?x + unat ?y"
    by (simp add: unat_word_ariths)
  have "median_of ys n = Ret (of_nat (double_of_nat (unat (?x + ?y)) div 2))"
    by (simp only: median_of_def True if_True i(3) arr_read_ok [OF i(1)] arr_read_ok [OF i(2)] bindO.simps)
  then have med: "median_of ys n = Ret (of_nat ((unat ?x + unat ?y) div 2))"
    using lt by (simp only: add double_of_nat_small)
  have "unat (of_nat ((unat ?x + unat ?y) div 2) :: ticks) = (unat ?x + unat ?y) div 2"
    using lt by (intro unat_of_nat_tick) simp
  moreover have "spec_median (map unat ys) = (unat ?x + unat ?y) div 2"
    using True i(1,2) assms(1,2)
    by (simp only: spec_median_def map_unat_sort [symmetric] sorted_sort_id length_map nth_map Let_def if_True)
  ultimately show ?thesis
    using med by simp
next
  case False
  have i: "n div 2 < length ys"
    using assms(2,3) by simp
  then show ?thesis
    using False assms(1,2) arr_read_ok [OF i]
    by (simp add: median_of_def spec_median_def sorted_sort_id flip: map_unat_sort)
qed

lemma sort_nth_mem: "k < length xs \<Longrightarrow> sort xs ! k \<in> set xs"
  using nth_mem [of k "sort xs"] by simp

lemma in_sort_nth: "y \<in> set xs \<Longrightarrow> \<exists>k<length xs. y = sort xs ! k"
  using in_set_conv_nth [of y "sort xs"] by auto

lemma sort_first: "xs \<noteq> [] \<Longrightarrow> sort xs ! 0 = Min (set xs)"
  by (rule Min_eqI [symmetric])
    (auto dest!: in_sort_nth intro!: sorted_nth_mono sort_nth_mem)

lemma sort_last: "xs \<noteq> [] \<Longrightarrow> sort xs ! (length xs - 1) = Max (set xs)"
  by (rule Max_eqI [symmetric])
    (auto dest!: in_sort_nth intro!: sorted_nth_mono sort_nth_mem)

text \<open>What a report must say about the corrected samples \<open>cs\<close> of one side.\<close>

definition describes :: "real \<Rightarrow> nat list \<Rightarrow> side_summary \<Rightarrow> bool" where
  "describes f cs r \<longleftrightarrow> unat (tickMin r) = Min (set cs) \<and> unat (tickMax r) = Max (set cs)
     \<and> unat (tickAverage r) = sum_list cs div length cs \<and> unat (tickMedian r) = spec_median cs
     \<and> minTime r = real (Min (set cs)) / f \<and> maxTime r = real (Max (set cs)) / f
     \<and> avgTime r = real (sum_list cs div length cs) / f"

lemma side_stats_ok:
  assumes n: "0 < n" "n \<le> 2147483647" "length ys = n" and small: "\<And>y. y \<in> set ys \<Longrightarrow> y < 2147483648"
  shows "\<exists>r. side_stats f n (sum_list ys) (sort ys) = Ret r \<and> describes f (map unat ys) r"
proof -
  let ?cs = "map unat ys"
  have len: "length ?cs = n" "?cs \<noteq> []"
    using n by auto
  have srt: "map unat (sort ys) = sort ?cs"
    by (rule map_unat_sort)
  have i: "0 < length (sort ys)" "n - 1 < length (sort ys)" "int n - 1 = int (n - 1)"
    using n by auto
  have at: "unat (sort ys ! k) = sort ?cs ! k" if "k < n" for k
    using that n(3) by (simp flip: srt)
  have mi: "sort ?cs ! 0 = Min (set ?cs)" and ma: "sort ?cs ! (n - 1) = Max (set ?cs)"
    using sort_first [OF len(2)] sort_last [OF len(2)] by (simp_all only: len(1))
  have "c \<le> 2147483648" if "c \<in> set ?cs" for c
    using that small_unat [OF small] unfolding set_map by fastforce
  then have "sum_list ?cs \<le> length ?cs * 2147483648"
    by (rule sum_list_le)
  also have "\<dots> = n * 2147483648"
    by (simp only: len(1))
  also have "\<dots> < 2 ^ LENGTH(64)"
    using n(2) by simp
  finally have total: "unat (sum_list ys) = sum_list ?cs"
    by (rule unat_sum_list)
  have avg: "unat (sum_list ys div of_nat n) = sum_list ?cs div n"
    using n(2) by (simp only: unat_div total) (simp add: unat_of_nat_tick)
  obtain med where med: "median_of (sort ys) n = Ret med" "unat med = spec_median ?cs"
  proof -
    have "\<exists>med. median_of (sort ys) n = Ret med \<and> unat med = spec_median (map unat (sort ys))"
      by (rule median_of_ok) (use n small in auto)
    moreover have "spec_median (sort ?cs) = spec_median ?cs"
      by (simp only: spec_median_def sorted_sort_id [OF sorted_sort] length_sort)
    ultimately show thesis
      using that srt by auto
  qed
  have "arr_read (sort ys) 0 = Ret (sort ys ! 0)" "arr_read (sort ys) (int n - 1) = Ret (sort ys ! (n - 1))"
    using arr_read_ok [OF i(1)] arr_read_ok [OF i(2)] by (simp, simp only: i(3))
  then show ?thesis
    using n(1) med at [of 0] at [of "n - 1"] mi ma avg len(1)
    by (simp add: side_stats_def describes_def Let_def del: of_nat_unat)
qed

lemma summarize_side_describes:
  assumes qs: "qsort_contract qs" and n: "0 < n" "n \<le> length arr" "n \<le> 2147483647"
    and ok: "list_all (measurable ov) (take n arr)"
  shows "\<exists>r. summarize_side qs f ov arr n = Ret r \<and> describes f (corrected ov (take n arr)) r"
proof -
  let ?ys = "map (\<lambda>t. t - word_of_int ov) (take n arr)"
  have small: "y < 2147483648" if "y \<in> set ?ys" for y
    using that ok measurable_corrected(2) by (auto simp: list_all_iff)
  have cs: "map unat ?ys = corrected ov (take n arr)" and len: "length ?ys = n"
    using ok n measurable_corrected(1) by (auto simp: corrected_def list_all_iff)
  have "arr_read arr 0 = Ret (arr ! 0)"
    using arr_read_ok [of 0 arr] n by (cases arr) simp_all
  moreover have "SortTicks qs ?ys = Ret (sort ?ys)"
    by (rule SortTicks_sort [OF qs small])
  ultimately have "summarize_side qs f ov arr n = side_stats f n (sum_list ?ys) (sort ?ys)"
    using n(2) by (simp add: summarize_side_def Let_def)
  then show ?thesis
    using side_stats_ok [OF n(1,3) len small, of f] by (simp only: cs)
qed

section \<open>Calibration\<close>

text \<open>The smallest difference of two consecutive readings over \<open>n\<close> rounds, then stored in an \<^verbatim>\<open>int\<close>.\<close>

primrec minRdtscTicks :: "(nat \<Rightarrow> ticks) \<Rightarrow> nat \<Rightarrow> ticks" where
  "minRdtscTicks clk 0 = 0"
| "minRdtscTicks clk (Suc i) =
     (let diff_tick = clk (2 * i + 1) - clk (2 * i)
      in if i = 0 then diff_tick
         else if minRdtscTicks clk i > diff_tick then diff_tick else minRdtscTicks clk i)"

definition rdtsc_overhead_ticks :: "(nat \<Rightarrow> ticks) \<Rightarrow> nat \<Rightarrow> int" where
  "rdtsc_overhead_ticks clk n = sint (ucast (minRdtscTicks clk n) :: c_int)"

lemma minRdtscTicks_Min:
  "minRdtscTicks clk (Suc n) = Min ((\<lambda>i. clk (2 * i + 1) - clk (2 * i)) ` {..n})"
proof (induction n)
  case 0
  then show ?case by simp
next
  case (Suc n)
  let ?d = "\<lambda>i. clk (2 * i + 1) - clk (2 * i)"
  have "Min (?d ` {..Suc n}) = min (?d (Suc n)) (Min (?d ` {..n}))"
    by (simp add: atMost_Suc)
  moreover have "(if d < M then d else M) = min d M" for d M :: ticks
    using less_imp_le [of d M] by (auto simp: min_def)
  ultimately show ?case
    by (simp only: minRdtscTicks.simps(2) [of clk "Suc n"] Let_def Suc nat.simps if_False)
qed

section \<open>rand\_interval\<close>

text \<open>
  \<^verbatim>\<open>rnd k\<close> is the \<open>k\<close>-th value of \<^verbatim>\<open>rand()\<close>, between 0 and \<^verbatim>\<open>RAND_MAX\<close>; the loop draws
  until a value falls below the limit, and never returns when none does.
\<close>

abbreviation RAND_MAX :: "32 word" where
  "RAND_MAX \<equiv> 2147483647"

partial_function (option) rand_below :: "(nat \<Rightarrow> 32 word) \<Rightarrow> 32 word \<Rightarrow> nat \<Rightarrow> (32 word \<times> nat) option" where
  "rand_below rnd limit k =
     (let r = rnd k in if limit \<le> r then rand_below rnd limit (Suc k) else Some (r, Suc k))"

definition rand_interval :: "(nat \<Rightarrow> 32 word) \<Rightarrow> 32 word \<Rightarrow> 32 word \<Rightarrow> nat \<Rightarrow> (32 word \<times> nat) outcome" where
  "rand_interval rnd mn mx k =
     (let range = 1 + mx - mn in
      if range = 0 then Fault DivByZero
      else let buckets = RAND_MAX div range; limit = buckets * range
           in case rand_below rnd limit k of
                None \<Rightarrow> Hang
              | Some (r, k') \<Rightarrow> Ret (mn + r div buckets, k'))"

lemma rand_below_first:
  assumes "limit > rnd (k + d)" and "\<And>j. j < d \<Longrightarrow> limit \<le> rnd (k + j)"
  shows "rand_below rnd limit k = Some (rnd (k + d), Suc (k + d))"
  using assms
proof (induction d arbitrary: k)
  case 0
  then have "\<not> limit \<le> rnd k"
    using leD by fastforce
  then show ?case
    by (subst rand_below.simps) (simp add: Let_def)
next
  case (Suc d)
  then have "rand_below rnd limit (Suc k) = Some (rnd (Suc k + d), Suc (Suc k + d))"
    using Suc.prems(2) [of "Suc _"] by (intro Suc.IH) auto
  moreover have "limit \<le> rnd k"
    using Suc.prems(2) [of 0] by simp
  ultimately show ?case
    by (subst rand_below.simps) (simp add: Let_def)
qed

text \<open>The buckets, in numbers: \<open>w\<close> values share \<open>RAND_MAX div w\<close> preimages each.\<close>

definition bucket_size :: "nat \<Rightarrow> nat" where
  "bucket_size w = 2147483647 div w"

lemma rand_interval_arith:
  fixes mn mx :: "32 word"
  assumes "mn \<le> mx" and w: "w = unat mx - unat mn + 1" and "w \<le> 2147483647"
  shows "unat (1 + mx - mn) = w" "unat (RAND_MAX div (1 + mx - mn)) = bucket_size w"
    "unat (RAND_MAX div (1 + mx - mn) * (1 + mx - mn)) = bucket_size w * w"
proof -
  have "unat (mx - mn) = unat mx - unat mn"
    using assms(1) by (rule unat_sub)
  then have "unat (1 + (mx - mn)) = w"
    using w assms(3) unat_word_ariths(1) [of 1 "mx - mn"] by simp
  moreover have "1 + mx - mn = 1 + (mx - mn)"
    by simp
  ultimately show r: "unat (1 + mx - mn) = w"
    by (simp only:)
  then show b: "unat (RAND_MAX div (1 + mx - mn)) = bucket_size w"
    by (simp only: unat_div bucket_size_def) simp
  have "bucket_size w * w \<le> 2147483647"
    by (simp add: bucket_size_def)
  then show "unat (RAND_MAX div (1 + mx - mn) * (1 + mx - mn)) = bucket_size w * w"
    using unat_word_ariths(2) [of "RAND_MAX div (1 + mx - mn)" "1 + mx - mn"] r b by simp
qed

text \<open>A draw that is accepted is below the limit and was the last one taken.\<close>

lemma rand_below_Some:
  assumes "rand_below rnd limit k = Some p"
  shows "k < snd p \<and> fst p = rnd (snd p - 1) \<and> fst p < limit"
  using assms
proof (rule rand_below.raw_induct
    [where P = "\<lambda>rnd limit k p. k < snd p \<and> fst p = rnd (snd p - 1) \<and> fst p < limit", rotated])
  fix rand and rnd :: "nat \<Rightarrow> 32 word" and limit k p
  assume IH: "\<And>rnd limit k p. rand rnd limit k = Some p \<Longrightarrow> k < snd p \<and> fst p = rnd (snd p - 1) \<and> fst p < limit"
    and eq: "(let r = rnd k in if limit \<le> r then rand rnd limit (Suc k) else Some (r, Suc k)) = Some p"
  show "k < snd p \<and> fst p = rnd (snd p - 1) \<and> fst p < limit"
  proof (cases "limit \<le> rnd k")
    case True
    then show ?thesis
      using eq IH [of rnd limit "Suc k" p] by (auto simp: Let_def)
  next
    case False
    then have "(rnd k, Suc k) = p"
      using eq by (simp only: Let_def if_False option.inject)
    moreover have "rnd k < limit"
      using False by (simp only: not_le)
    ultimately show ?thesis
      by auto
  qed
qed

lemma rand_interval_eq:
  assumes "unat (1 + mx - mn) = w" and "0 < w"
  shows "rand_interval rnd mn mx k =
    (case rand_below rnd (RAND_MAX div (1 + mx - mn) * (1 + mx - mn)) k of None \<Rightarrow> Hang
     | Some (r, k') \<Rightarrow> Ret (mn + r div (RAND_MAX div (1 + mx - mn)), k'))"
proof -
  have "1 + mx - mn \<noteq> 0"
    using assms by (metis less_irrefl unat_0)
  then show ?thesis
    by (simp add: rand_interval_def Let_def)
qed

text \<open>The offset of the result, in numbers.\<close>

lemma offset_iff:
  fixes mn v x :: "32 word"
  assumes "mn \<le> v"
  shows "mn + x = v \<longleftrightarrow> unat x = unat v - unat mn"
proof -
  have "mn + x = v \<longleftrightarrow> x = v - mn"
    by (auto simp: algebra_simps)
  also have "\<dots> \<longleftrightarrow> unat x = unat (v - mn)"
    by (rule word_unat_eq_iff)
  finally show ?thesis
    using assms by (simp only: unat_sub)
qed

lemma card_bucket:
  assumes "(o1 + 1) * b \<le> 4294967296" and "0 < b"
  shows "card {r :: 32 word. unat r div b = o1} = b"
proof -
  have "{r :: 32 word. unat r div b = o1} = of_nat ` {o1 * b..<(o1 + 1) * b}"
  proof (intro equalityI subsetI)
    fix r :: "32 word" assume "r \<in> {r. unat r div b = o1}"
    then have "unat r \<in> {o1 * b..<(o1 + 1) * b}"
      using assms(2) div_mult_mod_eq [of "unat r" b] mod_less_divisor [OF assms(2), of "unat r"]
      by (simp add: algebra_simps)
    then show "r \<in> of_nat ` {o1 * b..<(o1 + 1) * b}"
      by (intro image_eqI [where x = "unat r"]) simp_all
  next
    fix r :: "32 word" assume "r \<in> of_nat ` {o1 * b..<(o1 + 1) * b}"
    then obtain x where x: "r = of_nat x" "o1 * b \<le> x" "x < (o1 + 1) * b"
      by auto
    then have "unat r = x"
      using assms(1) by (simp add: unat_of_nat)
    moreover have "x div b = o1"
      using x(2,3) by (intro div_nat_eqI) (simp_all add: algebra_simps)
    ultimately show "r \<in> {r. unat r div b = o1}"
      by simp
  qed
  moreover have "inj_on (of_nat :: nat \<Rightarrow> 32 word) {o1 * b..<(o1 + 1) * b}"
  proof (rule inj_onI)
    fix x y assume "x \<in> {o1 * b..<(o1 + 1) * b}" "y \<in> {o1 * b..<(o1 + 1) * b}" "(of_nat x :: 32 word) = of_nat y"
    then have "x < 4294967296" "y < 4294967296" "unat (of_nat x :: 32 word) = unat (of_nat y :: 32 word)"
      using assms(1) by (simp_all del: unat_of_nat)
    then show "x = y"
      by (simp add: unat_of_nat)
  qed
  ultimately show ?thesis
    by (simp add: card_image)
qed

text \<open>The number of draws of a bucket, and the limit of the accepted draws.\<close>

abbreviation bucket_word :: "32 word \<Rightarrow> 32 word \<Rightarrow> 32 word" where
  "bucket_word mn mx \<equiv> RAND_MAX div (1 + mx - mn)"

abbreviation draw_limit :: "32 word \<Rightarrow> 32 word \<Rightarrow> 32 word" where
  "draw_limit mn mx \<equiv> RAND_MAX div (1 + mx - mn) * (1 + mx - mn)"

lemma bucket_pos: "0 < w \<Longrightarrow> w \<le> 2147483647 \<Longrightarrow> 0 < bucket_size w \<and> bucket_size w * w \<le> 2147483647"
  by (simp add: bucket_size_def div_greater_zero_iff)

lemma draws_in_buckets:
  assumes "mn \<le> mx" and "w = unat mx - unat mn + 1" and "w \<le> 2147483647"
  shows "unat (r div bucket_word mn mx) = unat r div bucket_size w"
    and "r < draw_limit mn mx \<longleftrightarrow> unat r div bucket_size w < w"
    and "rand_interval rnd mn mx k =
      (case rand_below rnd (draw_limit mn mx) k of None \<Rightarrow> Hang | Some (r, k') \<Rightarrow> Ret (mn + r div bucket_word mn mx, k'))"
proof -
  note R = rand_interval_arith [OF assms]
  have w: "0 < w" "0 < bucket_size w"
    using assms(2) bucket_pos [OF _ assms(3)] by simp_all
  show "unat (r div bucket_word mn mx) = unat r div bucket_size w"
    using unat_div [of r "bucket_word mn mx"] by (simp only: R(2))
  show "r < draw_limit mn mx \<longleftrightarrow> unat r div bucket_size w < w"
    by (simp only: word_less_nat_alt R(3) div_less_iff_less_mult [OF w(2)] mult.commute [of w])
qed (rule rand_interval_eq [OF rand_interval_arith(1) [OF assms]], use assms(2) in simp)

lemma rand_interval_returns:
  assumes w: "mn \<le> mx" "w = unat mx - unat mn + 1" "w \<le> 2147483647"
    and ex: "\<exists>d. unat (rnd (k + d)) < bucket_size w * w"
  shows "\<exists>v k'. rand_interval rnd mn mx k = Ret (v, k')"
proof -
  note R = rand_interval_arith [OF w]
  define d where "d = (LEAST d. unat (rnd (k + d)) < bucket_size w * w)"
  have "rnd (k + d) < draw_limit mn mx"
    using LeastI_ex [OF ex] by (simp only: word_less_nat_alt R(3) d_def)
  moreover have "draw_limit mn mx \<le> rnd (k + j)" if "j < d" for j
    using not_less_Least [of j "\<lambda>d. unat (rnd (k + d)) < bucket_size w * w"] that
    by (simp only: word_le_nat_alt R(3) d_def not_less)
  ultimately have "rand_below rnd (draw_limit mn mx) k = Some (rnd (k + d), Suc (k + d))"
    by (rule rand_below_first)
  then show ?thesis
    by (simp only: draws_in_buckets(3) [OF w] option.case prod.case) blast
qed

lemma rand_interval_range:
  assumes w: "mn \<le> mx" "w = unat mx - unat mn + 1" "w \<le> 2147483647"
    and "rand_interval rnd mn mx k = Ret (v, k')"
  shows "mn \<le> v \<and> v \<le> mx"
proof -
  note B = draws_in_buckets [OF w]
  obtain r where r: "rand_below rnd (draw_limit mn mx) k = Some (r, k')" "v = mn + r div bucket_word mn mx"
    using assms(4) by (auto simp: B(3) split: option.splits)
  have "r < draw_limit mn mx"
    using rand_below_Some [OF r(1)] unfolding fst_conv by blast
  then have "unat r div bucket_size w < w"
    by (simp only: B(2))
  moreover have "unat mx < 4294967296"
    by (rule order_less_le_trans [OF unsigned_less]) simp
  moreover have "unat mn \<le> unat mx"
    using w(1) by (simp add: word_le_nat_alt)
  ultimately have "unat mn + unat r div bucket_size w \<le> unat mx" "unat mn + unat r div bucket_size w < 4294967296"
    using w(2) by linarith+
  moreover from this(2) have "unat v = unat mn + unat r div bucket_size w"
    using unat_word_ariths(1) [of mn "r div bucket_word mn mx"] by (simp only: r(2) B(1)) simp
  ultimately show ?thesis
    by (simp add: word_le_nat_alt)
qed

text \<open>The draws that give one value at once are those of its bucket.\<close>

lemma rand_interval_hit:
  assumes w: "mn \<le> mx" "w = unat mx - unat mn + 1" "w \<le> 2147483647" and v: "mn \<le> v" "v \<le> mx"
  shows "rand_interval (rnd(k := r)) mn mx k = Ret (v, Suc k) \<longleftrightarrow> unat r div bucket_size w = unat v - unat mn"
proof (cases "r < draw_limit mn mx")
  note B = draws_in_buckets [OF w]
  case True
  then have "rand_below (rnd(k := r)) (draw_limit mn mx) k = Some (r, Suc k)"
    using rand_below_first [where d = 0 and k = k and rnd = "rnd(k := r)"] by simp
  then show ?thesis
    using v by (simp add: B(3) offset_iff B(1))
next
  note B = draws_in_buckets [OF w]
  case False
  then have "rand_below (rnd(k := r)) (draw_limit mn mx) k \<noteq> Some (x, Suc k)" for x
    using rand_below_Some [of "rnd(k := r)" "draw_limit mn mx" k "(x, Suc k)"] by auto
  moreover have "\<not> unat r div bucket_size w < w"
    using False B(2) by simp
  moreover have "unat v - unat mn < w"
    using v w(2) by (auto simp: word_le_nat_alt)
  ultimately show ?thesis
    by (auto simp: B(3) split: option.splits)
qed

section \<open>Properties\<close>

text \<open>C27: With any \<^verbatim>\<open>qsort\<close> that keeps its promise, and samples whose ticks above the overhead are below
  \<open>2 ^ 31\<close>, the latency summary reports for each side the minimum, maximum, integer average and median of
  the samples less the overhead, and the first three divided by the clock frequency.\<close>

theorem summary_correct:
  assumes "qsort_contract qs"
    and "0 < numEnqueue b" and "numEnqueue b \<le> length (enqueuetimestamp b)" and "numEnqueue b \<le> 2147483647"
    and "0 < numDequeue b" and "numDequeue b \<le> length (dequeuetimestamp b)" and "numDequeue b \<le> 2147483647"
    and "list_all (measurable ov) (take (numEnqueue b) (enqueuetimestamp b))"
    and "list_all (measurable ov) (take (numDequeue b) (dequeuetimestamp b))"
  shows "\<exists>e d. ComputeSummary qs LATENCY type nt f ov b = Ret (LatencyReport type nt (numEnqueue b) (numDequeue b) e d)
    \<and> describes f (corrected ov (take (numEnqueue b) (enqueuetimestamp b))) e
    \<and> describes f (corrected ov (take (numDequeue b) (dequeuetimestamp b))) d"
  using summarize_side_describes [OF assms(1-4,8), of f] summarize_side_describes [OF assms(1,5-7,9), of f]
  by (auto simp: ComputeSummary_def)

definition demo_samples :: bench where
  "demo_samples = demo_bench\<lparr>enqueuetimestamp := [30, 10, 20, 0], dequeuetimestamp := [8, 5, 5, 6],
     numEnqueue := 3, numDequeue := 4\<rparr>"

theorem summary_correct_witness:
  "\<exists>e d. ComputeSummary sort_by LATENCY 1 2 2 4 demo_samples = Ret (LatencyReport 1 2 3 4 e d)
    \<and> describes 2 [26, 6, 16] e \<and> describes 2 [4, 1, 1, 2] d"
proof -
  have "corrected 4 (take (numEnqueue demo_samples) (enqueuetimestamp demo_samples)) = [26, 6, 16]"
    "corrected 4 (take (numDequeue demo_samples) (dequeuetimestamp demo_samples)) = [4, 1, 1, 2]"
    "numEnqueue demo_samples = 3" "numDequeue demo_samples = 4"
    by (simp_all add: demo_samples_def corrected_def)
  then show ?thesis
    using summary_correct [OF sort_by_contract, of demo_samples 4 1 2 2]
    by (simp add: demo_samples_def measurable_def)
qed

text \<open>\<^verbatim>\<open>rand_interval(min, max)\<close> returns as soon as a draw of \<^verbatim>\<open>rand()\<close> is below its limit, only returns
  values between \<open>min\<close> and \<open>max\<close>, and gives every such value for the same number of draws.\<close>

theorem rand_interval_uniform:
  assumes "mn \<le> mx" and "w = unat mx - unat mn + 1" and "w \<le> 2147483647"
  shows "((\<exists>d. unat (rnd (k + d)) < bucket_size w * w) \<longrightarrow> (\<exists>v k'. rand_interval rnd mn mx k = Ret (v, k')))
    \<and> (rand_interval rnd mn mx k = Ret (v, k') \<longrightarrow> mn \<le> v \<and> v \<le> mx)
    \<and> (mn \<le> v \<and> v \<le> mx \<longrightarrow>
        card {r. rand_interval (rnd(k := r)) mn mx k = Ret (v, Suc k)} = bucket_size w)"
proof (intro conjI impI)
  assume "\<exists>d. unat (rnd (k + d)) < bucket_size w * w"
  then show "\<exists>v k'. rand_interval rnd mn mx k = Ret (v, k')"
    by (rule rand_interval_returns [OF assms])
next
  assume "rand_interval rnd mn mx k = Ret (v, k')"
  then show "mn \<le> v" "v \<le> mx"
    using rand_interval_range [OF assms] by blast+
next
  assume v: "mn \<le> v \<and> v \<le> mx"
  have w: "0 < bucket_size w" "bucket_size w * w \<le> 2147483647"
    using bucket_pos [OF _ assms(3)] assms(2) by simp_all
  have "unat v - unat mn + 1 \<le> w"
    using v assms(2) by (auto simp: word_le_nat_alt)
  then have "(unat v - unat mn + 1) * bucket_size w \<le> w * bucket_size w"
    by (rule mult_le_mono1)
  then show "card {r. rand_interval (rnd(k := r)) mn mx k = Ret (v, Suc k)} = bucket_size w"
    using v w card_bucket [of "unat v - unat mn" "bucket_size w"]
    by (simp add: rand_interval_hit [OF assms] mult.commute)
qed

theorem rand_interval_uniform_witness:
  "card {r. rand_interval ((\<lambda>_. 0)(3 := r)) 10 12 3 = Ret (11, Suc 3)} = 715827882"
  using rand_interval_uniform [of 10 12 3 "\<lambda>_. 0" 3 11 4] by (simp add: bucket_size_def)

text \<open>The calibration stores the smallest difference of two consecutive readings, provided it fits an
  \<^verbatim>\<open>int\<close>.\<close>

theorem calibration_min:
  assumes "j \<le> n" and "clk (2 * j + 1) - clk (2 * j) < 2147483648"
  shows "rdtsc_overhead_ticks clk (Suc n) = Min ((\<lambda>i. uint (clk (2 * i + 1) - clk (2 * i))) ` {..n})"
proof -
  let ?d = "\<lambda>i. clk (2 * i + 1) - clk (2 * i)"
  have "Min (?d ` {..n}) \<le> ?d j"
    using assms(1) by (intro Min_le) auto
  then have "low_int (Min (?d ` {..n})) = uint (Min (?d ` {..n}))"
    using assms(2) by (intro low_int_small) simp
  moreover have "mono (uint :: ticks \<Rightarrow> int)"
    by (simp add: mono_def word_le_def)
  then have "uint (Min (?d ` {..n})) = Min (uint ` ?d ` {..n})"
    by (rule mono_Min_commute) simp_all
  ultimately show ?thesis
    by (simp add: rdtsc_overhead_ticks_def low_int_def minRdtscTicks_Min image_image del: minRdtscTicks.simps)
qed

theorem calibration_min_witness:
  "rdtsc_overhead_ticks (\<lambda>k. of_nat (k * k)) (Suc 2) = 1"
proof -
  have "{..2 :: nat} = {0, 1, 2}"
    by auto
  then show ?thesis
    using calibration_min [of 0 2 "\<lambda>k. of_nat (k * k)"] by simp
qed

text \<open>Samples of \<open>2 ^ 32\<close> and of 1 tick compare as 0 and 1, whatever \<^verbatim>\<open>qsort\<close> does: the summary reports
  a minimum above the maximum.\<close>

theorem low_halves_missort:
  assumes "qsort_contract qs"
  shows "\<exists>r. summarize_side qs f 0 [1, 4294967296] 2 = Ret r \<and> tickMin r = 4294967296 \<and> tickMax r = 1"
proof -
  let ?a = "1 :: ticks" and ?b = "4294967296 :: ticks"
  have low: "low_int ?a = 1" "low_int ?b = 0"
    by (simp_all add: low_int_def)
  have "consistent cmpfunc low_int (set [?a, ?b])"
    by (simp add: consistent_def cmpfunc_def c_sub_def low)
  then obtain ys where ys: "qs cmpfunc [?a, ?b] = Ret ys" "mset ys = {#?a, ?b#}"
      "sorted_wrt (\<lambda>x y. low_int x \<le> low_int y) ys"
    using assms unfolding qsort_contract_def by force
  have "length ys = 2"
    using ys(2) by (metis length_Cons list.size(3) mset.simps numeral_2_eq_2 size_mset)
  then obtain x y where xy: "ys = [x, y]"
    by (auto simp: numeral_2_eq_2 length_Suc_conv)
  then have "(x = ?a \<and> y = ?b) \<or> (x = ?b \<and> y = ?a)"
    using ys(2) by (auto simp: add_eq_conv_ex)
  then have "ys = [?b, ?a]"
    using ys(3) low xy by auto
  then show ?thesis
    using ys(1) by (simp add: summarize_side_def side_stats_def SortTicks_def arr_read_def median_of_def Let_def)
qed

theorem low_halves_missort_witness:
  "\<exists>r. summarize_side sort_by 1 0 [1, 4294967296] 2 = Ret r \<and> tickMax r < tickMin r"
  using low_halves_missort [OF sort_by_contract, of 1] by auto

end
