(* ===== verification/Turns.thy ===== *)
theory Turns
  imports Bench_Handlers
begin

text \<open>
  Threads that take turns. A thread is a function that makes its next turn from where it stands; a schedule is the
  list of the threads in the order in which they get their turns, and is a parameter like the clocks, so that what
  holds for every schedule holds for every order. The rounds of \<^verbatim>\<open>QueueBenchmarks/sqmain.c\<close> whose outcome depends
  on the order (queue types 2, 3 and 5) are run in this way: a turn is one call of the queue, which is a critical
  section of its mutex (type 3) or an atomic operation of the library (types 2 and 5), or the critical section at
  the end of the handler.
\<close>

section \<open>Runs\<close>

text \<open>Where thread \<open>i\<close> stands is \<open>ls i\<close>, \<open>None\<close> when it has returned. A turn of a thread that has returned, or was never
  created, is void.\<close>

fun take_turns :: "(nat \<Rightarrow> 'l \<Rightarrow> 'g \<Rightarrow> ('l option \<times> 'g) outcome) \<Rightarrow> nat list \<Rightarrow> (nat \<Rightarrow> 'l option) \<times> 'g
    \<Rightarrow> ((nat \<Rightarrow> 'l option) \<times> 'g) outcome" where
  "take_turns turn [] x = Ret x"
| "take_turns turn (i # is) (ls, g) =
     (case ls i of
        None \<Rightarrow> take_turns turn is (ls, g)
      | Some l \<Rightarrow> bindO (turn i l g) (\<lambda>(l', g'). take_turns turn is (ls(i := l'), g')))"

text \<open>\<open>c\<close> producers and \<open>c\<close> consumers (the threads from \<open>c\<close> on) wait for each other at a barrier of \<open>t\<close> arrivals, take
  their turns, and are joined; the joins wait for a thread that has not returned when the schedule is over.\<close>

definition run_turns :: "nat \<Rightarrow> (nat \<Rightarrow> 'l \<Rightarrow> 'g \<Rightarrow> ('l option \<times> 'g) outcome) \<Rightarrow> (nat \<Rightarrow> 'l) \<Rightarrow> nat list \<Rightarrow> 'g \<Rightarrow> 'g outcome" where
  "run_turns t turn start sch g =
     (let c = cur_num_threads t in
      if c \<noteq> 0 \<and> \<not> barrier_opens t then Hang
      else bindO (take_turns turn sch (\<lambda>i. if i < c + c then Some (start i) else None, g)) (\<lambda>(ls, g').
        if list_all (\<lambda>i. ls i = None) [0..<c + c] then Ret g' else Hang))"

lemma take_turns_none: "take_turns turn is (\<lambda>_. None, g) = Ret (\<lambda>_. None, g)"
  by (induction "is") simp_all

lemma run_turns_none: "cur_num_threads t = 0 \<Longrightarrow> run_turns t turn start sch g = Ret g"
  by (simp add: run_turns_def take_turns_none)

section \<open>Threads that make a number of calls\<close>

text \<open>Such a thread stands at the number of the calls it has made. A call that has to be repeated (it polls) leaves it where it
  is; after \<open>n\<close> calls comes the end of the handler.\<close>

definition counted_turn :: "nat \<Rightarrow> (nat \<Rightarrow> 's \<Rightarrow> ('s \<times> bool) outcome) \<Rightarrow> (bench \<Rightarrow> bench outcome) \<Rightarrow> nat \<Rightarrow> 's \<times> bench
    \<Rightarrow> (nat option \<times> 's \<times> bench) outcome" where
  "counted_turn n op finish k sb =
     (if k < n then bindO (op k (fst sb)) (\<lambda>(s, over). Ret (Some (if over then Suc k else k), s, snd sb))
      else bindO (finish (snd sb)) (\<lambda>b. Ret (None, fst sb, b)))"

definition once :: "'s outcome \<Rightarrow> ('s \<times> bool) outcome" where
  "once r = bindO r (\<lambda>s. Ret (s, True))"

text \<open>With \<open>LATENCY\<close> a thread makes \<^verbatim>\<open>NUM_SAMPLES/CUR_NUM_THREADS\<close> calls and merges the samples, with \<open>THROUGHPUT\<close> it makes
  \<^verbatim>\<open>NUM_SAMPLES\<close> calls and adds its rate.\<close>

definition calls_of :: "build \<Rightarrow> nat \<Rightarrow> nat \<Rightarrow> nat" where
  "calls_of bd N nt = (case bd of LATENCY \<Rightarrow> N div nt | THROUGHPUT \<Rightarrow> N)"

definition finish_enqueues :: "build \<Rightarrow> nat \<Rightarrow> nat \<Rightarrow> env \<Rightarrow> bench \<Rightarrow> bench outcome" where
  "finish_enqueues bd N nt e b =
     (case bd of LATENCY \<Rightarrow> merge_enqueue (deltas (tsc e) (N div nt)) b
      | THROUGHPUT \<Rightarrow> Ret (add_enqueue_samples N (elapsed (monotonic e 0) (monotonic e 1)) b))"

definition finish_dequeues :: "build \<Rightarrow> nat \<Rightarrow> nat \<Rightarrow> env \<Rightarrow> bench \<Rightarrow> bench outcome" where
  "finish_dequeues bd N nt e b =
     (case bd of LATENCY \<Rightarrow> merge_dequeue (deltas (tsc e) (N div nt)) b
      | THROUGHPUT \<Rightarrow> Ret (add_dequeue_samples N (elapsed (monotonic e 0) (monotonic e 1)) b))"

definition counted_thread :: "build \<Rightarrow> nat \<Rightarrow> nat \<Rightarrow> (nat \<Rightarrow> nat \<Rightarrow> 's \<Rightarrow> ('s \<times> bool) outcome) \<Rightarrow> ('s \<Rightarrow> ('s \<times> bool) outcome)
    \<Rightarrow> (nat \<Rightarrow> env) \<Rightarrow> nat \<Rightarrow> nat \<Rightarrow> 's \<times> bench \<Rightarrow> (nat option \<times> 's \<times> bench) outcome" where
  "counted_thread bd N c enq deq es i =
     (if i < c then counted_turn (calls_of bd N c) (enq i) (finish_enqueues bd N c (es i))
      else counted_turn (calls_of bd N c) (\<lambda>_. deq) (finish_dequeues bd N c (es i)))"

text \<open>The threads of queue types 3 and 5.\<close>

definition basic_thread :: "build \<Rightarrow> nat \<Rightarrow> nat \<Rightarrow> (nat \<Rightarrow> env) \<Rightarrow> nat \<Rightarrow> nat \<Rightarrow> basicq \<times> bench \<Rightarrow> (nat option \<times> basicq \<times> bench) outcome" where
  "basic_thread bd N c =
     counted_thread bd N c (\<lambda>_ k q. once (BasicEnqueue_qb (of_nat k + 1) q)) (\<lambda>q. once (run_state (BasicDequeue_qb q)))"

definition rcu_thread :: "(c_int \<Rightarrow> 's \<Rightarrow> 's outcome) \<Rightarrow> ('s \<Rightarrow> ('n option \<times> 's) outcome) \<Rightarrow> ('n \<Rightarrow> 's \<Rightarrow> 's outcome)
    \<Rightarrow> build \<Rightarrow> nat \<Rightarrow> nat \<Rightarrow> (nat \<Rightarrow> env) \<Rightarrow> nat \<Rightarrow> nat \<Rightarrow> 's \<times> bench \<Rightarrow> (nat option \<times> 's \<times> bench) outcome" where
  "rcu_thread lfq_enq lfq_deq retire bd N c =
     counted_thread bd N c (\<lambda>_ k s. once (lfq_enq (sample k) s)) (\<lambda>s. once (rcu_dequeue lfq_deq retire s))"

section \<open>A thread that runs alone is its handler\<close>

lemma calls_alone:
  assumes "k + m \<le> n" and "ls i = Some k" and "turn i = counted_turn n (\<lambda>k s. once (op k s)) finish"
  shows "take_turns turn (replicate m i) (ls, s, b) =
    bindO (fold (\<lambda>j r. bindO r (op j)) [k..<k + m] (Ret s)) (\<lambda>s'. Ret (ls(i := Some (k + m)), s', b))"
  using assms
proof (induction m arbitrary: k ls s)
  case 0
  then show ?case
    by (simp add: fun_upd_idem)
next
  case (Suc m)
  have err: "fold (\<lambda>j r. bindO r (op j)) js (Fault e) = Fault e" "fold (\<lambda>j r. bindO r (op j)) js Hang = Hang" for js e
    by (induction js) simp_all
  have up: "[k..<k + Suc m] = k # [Suc k..<Suc k + m]"
    by (simp add: upt_conv_Cons)
  show ?case
  proof (cases "op k s")
    case (Ret s1)
    then have "take_turns turn (replicate (Suc m) i) (ls, s, b) = take_turns turn (replicate m i) (ls(i := Some (Suc k)), s1, b)"
      using Suc.prems by (simp add: counted_turn_def once_def)
    also have "\<dots> = bindO (fold (\<lambda>j r. bindO r (op j)) [Suc k..<Suc k + m] (Ret s1)) (\<lambda>s'. Ret (ls(i := Some (Suc k + m)), s', b))"
      using Suc.IH [of "Suc k" "ls(i := Some (Suc k))" s1] Suc.prems by (simp only: fun_upd_upd fun_upd_same add_Suc add_Suc_right)
    finally show ?thesis
      by (simp only: up [unfolded add_Suc add_Suc_right] fold_Cons o_def bindO.simps Ret add_Suc add_Suc_right)
  next
    case (Fault e)
    then show ?thesis
      using Suc.prems by (simp add: counted_turn_def once_def up [unfolded add_Suc add_Suc_right] err del: upt_Suc)
  next
    case Hang
    then show ?thesis
      using Suc.prems by (simp add: counted_turn_def once_def up [unfolded add_Suc add_Suc_right] err del: upt_Suc)
  qed
qed

lemma fold_repeat: "fold (\<lambda>j r. bindO r (op j)) [0..<n] (Ret s) = repeat_op op n s"
  by (induction n) simp_all

lemma take_turns_append: "take_turns turn (is @ js) x = bindO (take_turns turn is x) (take_turns turn js)"
proof (induction "is" arbitrary: x)
  case Nil
  then show ?case by simp
next
  case (Cons i "is")
  obtain ls g where x: "x = (ls, g)"
    by (cases x)
  show ?case
  proof (cases "ls i")
    case None
    then show ?thesis
      using Cons by (simp add: x)
  next
    case (Some l)
    then show ?thesis
      using Cons by (cases "turn i l g") (auto simp: x)
  qed
qed

lemma handler_alone:
  assumes "ls i = Some 0" and "turn i = counted_turn n (\<lambda>k s. once (op k s)) finish"
  shows "take_turns turn (replicate n i @ [i]) (ls, s, b) =
    bindO (repeat_op op n s) (\<lambda>s'. bindO (finish b) (\<lambda>b'. Ret (ls(i := None), s', b')))"
  using calls_alone [of 0 n n ls i turn op finish s b] assms
  by (cases "repeat_op op n s"; cases "finish b") (simp_all add: take_turns_append fold_repeat counted_turn_def)

text \<open>The handlers of types 3 and 5 are what their threads do when nobody interferes.\<close>

lemma timed_alone:
  "timed_enqueues op clk n (s, b) = bindO (repeat_op op n s) (\<lambda>s'. bindO (merge_enqueue (deltas clk n) b) (\<lambda>b'. Ret (s', b')))"
  "timed_dequeues op clk n (s, b) = bindO (repeat_op op n s) (\<lambda>s'. bindO (merge_dequeue (deltas clk n) b) (\<lambda>b'. Ret (s', b')))"
  by (cases "repeat_op op n s"; simp add: timed_enqueues_def timed_dequeues_def latency_loop_eq deltas_def)+

lemma basic_handlers_alone:
  assumes "0 < c" and "ls i = Some 0"
  shows "take_turns (basic_thread bd N c es) (replicate (calls_of bd N c) i @ [i]) (ls, s, b) =
    bindO (if i < c then basicenqueue_handler bd N c (es i) (s, b) else basicworker_handler bd N c (es i) (s, b))
      (\<lambda>sb. Ret (ls(i := None), sb))"
proof (cases "i < c")
  case True
  then have "basic_thread bd N c es i = counted_turn (calls_of bd N c) (\<lambda>k q. once (BasicEnqueue_qb (of_nat k + 1) q)) (finish_enqueues bd N c (es i))"
    by (simp add: basic_thread_def counted_thread_def)
  from handler_alone [where op = "\<lambda>k. BasicEnqueue_qb (of_nat k + 1)" and finish = "finish_enqueues bd N c (es i)" and ls = ls and i = i and turn = "basic_thread bd N c es", OF assms(2) this] show ?thesis
    using True assms(1)
    by (cases bd) (simp_all add: basicenqueue_handler_def per_thread_def timed_alone counted_enqueues_def calls_of_def finish_enqueues_def bindO_assoc)
next
  case False
  then have "basic_thread bd N c es i = counted_turn (calls_of bd N c) (\<lambda>_ q. once (run_state (BasicDequeue_qb q))) (finish_dequeues bd N c (es i))"
    by (simp add: basic_thread_def counted_thread_def)
  from handler_alone [where op = "\<lambda>_ q. run_state (BasicDequeue_qb q)" and finish = "finish_dequeues bd N c (es i)" and ls = ls and i = i and turn = "basic_thread bd N c es", OF assms(2) this] show ?thesis
    using False assms(1)
    by (cases bd) (simp_all add: basicworker_handler_def per_thread_def timed_alone counted_dequeues_def calls_of_def finish_dequeues_def bindO_assoc)
qed

lemma rcu_handlers_alone:
  assumes "0 < c" and "ls i = Some 0"
  shows "take_turns (rcu_thread lfq_enq lfq_deq retire bd N c es) (replicate (calls_of bd N c) i @ [i]) (ls, s, b) =
    bindO (if i < c then rculfenqueue_handler lfq_enq bd N c (es i) (s, b) else rculfdequeue_handler lfq_deq retire bd N c (es i) (s, b))
      (\<lambda>sb. Ret (ls(i := None), sb))"
proof (cases "i < c")
  case True
  then have "rcu_thread lfq_enq lfq_deq retire bd N c es i
      = counted_turn (calls_of bd N c) (\<lambda>k s. once (lfq_enq (sample k) s)) (finish_enqueues bd N c (es i))"
    by (simp add: rcu_thread_def counted_thread_def)
  from handler_alone [where op = "\<lambda>k. lfq_enq (sample k)" and finish = "finish_enqueues bd N c (es i)" and ls = ls and i = i and turn = "rcu_thread lfq_enq lfq_deq retire bd N c es", OF assms(2) this] show ?thesis
    using True assms(1)
    by (cases bd) (simp_all add: rculfenqueue_handler_def per_thread_def timed_alone counted_enqueues_def calls_of_def finish_enqueues_def bindO_assoc)
next
  case False
  then have "rcu_thread lfq_enq lfq_deq retire bd N c es i
      = counted_turn (calls_of bd N c) (\<lambda>_ s. once (rcu_dequeue lfq_deq retire s)) (finish_dequeues bd N c (es i))"
    by (simp add: rcu_thread_def counted_thread_def)
  from handler_alone [where op = "\<lambda>_. rcu_dequeue lfq_deq retire" and finish = "finish_dequeues bd N c (es i)" and ls = ls and i = i and turn = "rcu_thread lfq_enq lfq_deq retire bd N c es", OF assms(2) this] show ?thesis
    using False assms(1)
    by (cases bd) (simp_all add: rculfdequeue_handler_def per_thread_def timed_alone counted_dequeues_def calls_of_def finish_dequeues_def bindO_assoc)
qed

end
