(* ===== verification/Bench_Main.thy ===== *)
theory Bench_Main
  imports Summary Turns
begin

text \<open>
  The rounds of \<^verbatim>\<open>main\<close> in \<^verbatim>\<open>QueueBenchmarks/sqmain.c\<close>, one definition for each queue type of the
  repository: initialise the queue, reset the counters, allocate the sample arrays, run the
  \<^verbatim>\<open>threads[k]/2\<close> producers and consumers, print the summary; and the loop over the thread list. The
  threads of queue types 1, 4 and 8 run one after the other, the producers first: a dequeue of theirs waits for its element, and
  \<open>Ring_Rounds\<close> shows for types 1 and 4 that every interleaving ends with the same report. The threads of type 3 take turns
  in an order that is given, since a dequeue that finds its queue empty is undefined. \<open>es i\<close> holds the clocks
  of the thread with number \<open>i\<close>.
\<close>

section \<open>A round\<close>

text \<open>\<open>c\<close> producers and \<open>c\<close> consumers wait for each other at a barrier of \<open>t\<close> arrivals; without threads
  nobody waits.\<close>

definition run_threads :: "nat \<Rightarrow> (nat \<Rightarrow> 's \<times> bench \<Rightarrow> ('s \<times> bench) outcome)
    \<Rightarrow> (nat \<Rightarrow> 's \<times> bench \<Rightarrow> ('s \<times> bench) outcome) \<Rightarrow> 's \<times> bench \<Rightarrow> ('s \<times> bench) outcome" where
  "run_threads t enq deq sb =
     (let c = cur_num_threads t in
      if c \<noteq> 0 \<and> \<not> barrier_opens t then Hang
      else bindO (repeat_op enq c sb) (repeat_op deq c))"

definition with_summary :: "sorter \<Rightarrow> build \<Rightarrow> int \<Rightarrow> nat \<Rightarrow> real \<Rightarrow> int \<Rightarrow> 's \<times> bench \<Rightarrow> (report \<times> 's \<times> bench) outcome" where
  "with_summary qs bd type c clockFreq ov sb =
     bindO (ComputeSummary qs bd type (int c) clockFreq ov (snd sb)) (\<lambda>r. Ret (r, sb))"

definition squeue_round :: "sorter \<Rightarrow> build \<Rightarrow> nat \<Rightarrow> nat \<Rightarrow> real \<Rightarrow> int \<Rightarrow> (nat \<Rightarrow> env) \<Rightarrow> nat
    \<Rightarrow> ringbuf \<times> bench \<Rightarrow> (report \<times> ringbuf \<times> bench) outcome" where
  "squeue_round qs bd m N clockFreq ov es t sb =
     (let c = cur_num_threads t in
      bindO (InitQueue_qb m (fst sb)) (\<lambda>q.
      bindO (run_threads t (\<lambda>i. enqueue_handler bd m N c (es i)) (\<lambda>i. worker_handler bd m N c (es (i + c)))
               (q, alloc_samples N (snd sb)))
        (with_summary qs bd 1 c clockFreq ov)))"

definition basic_round :: "sorter \<Rightarrow> build \<Rightarrow> nat \<Rightarrow> real \<Rightarrow> int \<Rightarrow> (nat \<Rightarrow> env) \<Rightarrow> nat list \<Rightarrow> nat
    \<Rightarrow> basicq \<times> bench \<Rightarrow> (report \<times> basicq \<times> bench) outcome" where
  "basic_round qs bd N clockFreq ov es sch t sb =
     (let c = cur_num_threads t in
      bindO (run_turns t (basic_thread bd N c es) (\<lambda>_. 0) sch (InitBasicQueue_qb (fst sb), alloc_samples N (snd sb)))
        (with_summary qs bd 3 c clockFreq ov))"

definition multi_round :: "sorter \<Rightarrow> build \<Rightarrow> nat \<Rightarrow> (nat \<Rightarrow> atom list) \<Rightarrow> nat \<Rightarrow> real \<Rightarrow> int \<Rightarrow> (nat \<Rightarrow> env) \<Rightarrow> nat
    \<Rightarrow> multi \<times> bench \<Rightarrow> (report \<times> multi \<times> bench) outcome" where
  "multi_round qs bd m mem N clockFreq ov es t sb =
     (let c = cur_num_threads t in
      bindO (InitQueues m mem c (fst sb)) (\<lambda>s.
      bindO (run_threads t (\<lambda>i. enqueuemultiple_handler bd i N c (es i)) (\<lambda>i. workermultiple_handler bd i N c (es (i + c)))
               (s, alloc_samples N (snd sb)))
        (with_summary qs bd 4 c clockFreq ov)))"

text \<open>Type 8: one producer, \<open>t\<close> workers and a barrier of \<open>t + 1\<close>, which always opens. The random numbers
  drawn before are only printed.\<close>

definition spmc_round :: "sorter \<Rightarrow> build \<Rightarrow> nat \<Rightarrow> (nat \<Rightarrow> atom list) \<Rightarrow> nat \<Rightarrow> real \<Rightarrow> int \<Rightarrow> env \<Rightarrow> (nat \<Rightarrow> env) \<Rightarrow> nat
    \<Rightarrow> multi \<times> bench \<Rightarrow> (report \<times> multi \<times> bench) outcome" where
  "spmc_round qs bd m mem N clockFreq ov e es t sb =
     bindO (InitQueues m mem t (fst sb)) (\<lambda>s.
     bindO (enqueuespmc_handler bd t N e (s, alloc_samples N (snd sb))) (\<lambda>sb1.
     bindO (repeat_op (\<lambda>i. workerspmc_handler bd i N t (es i)) t sb1)
       (with_summary qs bd 8 t clockFreq ov)))"

text \<open>\<^verbatim>\<open>for (int k = 0; k < threadCount; k++)\<close>\<close>

fun main_loop :: "(nat \<Rightarrow> nat \<Rightarrow> 's \<Rightarrow> ('r \<times> 's) outcome) \<Rightarrow> nat \<Rightarrow> nat list \<Rightarrow> 's \<Rightarrow> ('r list \<times> 's) outcome" where
  "main_loop one_round k [] s = Ret ([], s)"
| "main_loop one_round k (t # ts) s =
     bindO (one_round k t s) (\<lambda>(r, s1). bindO (main_loop one_round (Suc k) ts s1) (\<lambda>(rs, s2). Ret (r # rs, s2)))"

section \<open>Producers and consumers of a round\<close>

lemma timed_enqueues_eq:
  assumes "repeat_op op n s = Ret s'" and "numEnqueue b + n \<le> length (enqueuetimestamp b)"
  shows "timed_enqueues op clk n (s, b) = Ret (s', b\<lparr>enqueuetimestamp :=
      take (numEnqueue b) (enqueuetimestamp b) @ deltas clk n @ drop (numEnqueue b + n) (enqueuetimestamp b),
      numEnqueue := numEnqueue b + n\<rparr>)"
  using assms by (simp add: timed_enqueues_def latency_loop_eq merge_enqueue_def copy_at_def deltas_def)

lemma timed_dequeues_eq:
  assumes "repeat_op op n s = Ret s'" and "numDequeue b + n \<le> length (dequeuetimestamp b)"
  shows "timed_dequeues op clk n (s, b) = Ret (s', b\<lparr>dequeuetimestamp :=
      take (numDequeue b) (dequeuetimestamp b) @ deltas clk n @ drop (numDequeue b + n) (dequeuetimestamp b),
      numDequeue := numDequeue b + n\<rparr>)"
  using assms by (simp add: timed_dequeues_def latency_loop_eq merge_dequeue_def copy_at_def deltas_def)

text \<open>The samples of \<open>c\<close> threads, thread after thread.\<close>

definition all_deltas :: "(nat \<Rightarrow> nat \<Rightarrow> ticks) \<Rightarrow> nat \<Rightarrow> nat \<Rightarrow> ticks list" where
  "all_deltas clks c n = concat (map (\<lambda>i. deltas (clks i) n) [0..<c])"

lemma all_deltas_simps [simp]:
  "all_deltas clks 0 n = []" "all_deltas clks (Suc c) n = all_deltas clks c n @ deltas (clks c) n"
  "length (all_deltas clks c n) = c * n"
  by (simp_all add: all_deltas_def deltas_def length_concat sum_list_triv o_def)

definition enq_side :: "ticks list \<Rightarrow> bench \<Rightarrow> bench" where
  "enq_side ts b = b\<lparr>enqueuetimestamp := ts @ drop (length ts) (enqueuetimestamp b), numEnqueue := length ts\<rparr>"

definition deq_side :: "ticks list \<Rightarrow> bench \<Rightarrow> bench" where
  "deq_side ts b = b\<lparr>dequeuetimestamp := ts @ drop (length ts) (dequeuetimestamp b), numDequeue := length ts\<rparr>"

lemma timed_enqueues_side:
  assumes "repeat_op op n s = Ret s'" and "length ts + n \<le> length (enqueuetimestamp b)"
  shows "timed_enqueues op clk n (s, enq_side ts b) = Ret (s', enq_side (ts @ deltas clk n) b)"
  using timed_enqueues_eq [OF assms(1), of "enq_side ts b" clk] assms(2)
  by (simp add: enq_side_def deltas_def add.commute)

lemma timed_dequeues_side:
  assumes "repeat_op op n s = Ret s'" and "length ts + n \<le> length (dequeuetimestamp b)"
  shows "timed_dequeues op clk n (s, deq_side ts b) = Ret (s', deq_side (ts @ deltas clk n) b)"
  using timed_dequeues_eq [OF assms(1), of "deq_side ts b" clk] assms(2)
  by (simp add: deq_side_def deltas_def add.commute)

context fifo_queue begin

lemma consumers_ok:
  assumes "inv s" and "c * n \<le> length (abs s)" and "c * n \<le> length (dequeuetimestamp b)"
  shows "\<exists>s'. repeat_op (\<lambda>i. timed_dequeues (\<lambda>j q. run_state (deq q)) (clks i) n) c (s, deq_side [] b)
      = Ret (s', deq_side (all_deltas clks c n) b) \<and> inv s' \<and> abs s' = drop (c * n) (abs s)"
  using assms(2,3)
proof (induction c)
  case 0
  then show ?case
    using assms(1) by simp
next
  case (Suc c)
  then obtain s1 where s1: "repeat_op (\<lambda>i. timed_dequeues (\<lambda>j q. run_state (deq q)) (clks i) n) c (s, deq_side [] b)
        = Ret (s1, deq_side (all_deltas clks c n) b)" "inv s1" "abs s1 = drop (c * n) (abs s)"
    by auto
  obtain s2 where s2: "deq_n deq n s1 = Ret (take n (abs s1), s2)" "inv s2" "abs s2 = drop n (abs s1)"
  proof -
    have "c * n + n \<le> length (abs s)"
      using Suc.prems(1) by simp
    then have "n \<le> length (abs s1)"
      unfolding s1(3) length_drop by linarith
    then show thesis
      using deq_some [OF s1(2), of n] that by blast
  qed
  have "repeat_op (\<lambda>j q. run_state (deq q)) n s1 = Ret s2"
    by (simp add: repeat_deq s2(1))
  then have "timed_dequeues (\<lambda>j q. run_state (deq q)) (clks c) n (s1, deq_side (all_deltas clks c n) b)
      = Ret (s2, deq_side (all_deltas clks c n @ deltas (clks c) n) b)"
    using Suc.prems(2) by (intro timed_dequeues_side) simp_all
  then show ?case
    using s1 s2(2,3) by (simp add: add.commute)
qed

end

context bounded_fifo begin

lemma producers_ok:
  assumes "inv s" and "length (abs s) + c * n \<le> cap" and "c * n \<le> budget s" and "list_all item (map f [0..<n])"
    and "c * n \<le> length (enqueuetimestamp b)"
  shows "\<exists>s'. repeat_op (\<lambda>i. timed_enqueues (\<lambda>j. enq (f j)) (clks i) n) c (s, enq_side [] b)
      = Ret (s', enq_side (all_deltas clks c n) b)
    \<and> inv s' \<and> abs s' = abs s @ concat (replicate c (map f [0..<n])) \<and> budget s \<le> c * n + budget s'"
  using assms(2,3,5)
proof (induction c)
  case 0
  then show ?case
    using assms(1) by simp
next
  case (Suc c)
  then obtain s1 where s1: "repeat_op (\<lambda>i. timed_enqueues (\<lambda>j. enq (f j)) (clks i) n) c (s, enq_side [] b)
        = Ret (s1, enq_side (all_deltas clks c n) b)"
      "inv s1" "abs s1 = abs s @ concat (replicate c (map f [0..<n]))" "budget s \<le> c * n + budget s1"
    by auto
  have len: "length (abs s1) = length (abs s) + c * n"
    by (simp add: s1(3) length_concat sum_list_replicate)
  obtain s2 where s2: "enq_all enq (map f [0..<n]) s1 = Ret s2" "inv s2" "abs s2 = abs s1 @ map f [0..<n]"
      "budget s1 \<le> n + budget s2"
    using enq_all_budget [OF s1(2), of "map f [0..<n]"] assms(4) Suc.prems s1(4) len by auto
  have "repeat_op (\<lambda>j. enq (f j)) n s1 = Ret s2"
    by (simp add: repeat_enq s2(1))
  then have "timed_enqueues (\<lambda>j. enq (f j)) (clks c) n (s1, enq_side (all_deltas clks c n) b)
      = Ret (s2, enq_side (all_deltas clks c n @ deltas (clks c) n) b)"
    using Suc.prems(3) by (intro timed_enqueues_side) simp_all
  moreover have "concat (replicate c xs) @ xs = xs @ concat (replicate c xs)" for xs :: "'a list"
    by (induction c) simp_all
  ultimately show ?case
    using s1 s2(2-4) by (simp del: concat_replicate_trivial)
qed

lemma run_threads_ok:
  assumes "inv s" and "abs s = []" and t: "even t" "0 < t" and "cur_num_threads t * n \<le> cap" and "cur_num_threads t * n \<le> budget s"
    and "list_all item (map f [0..<n])" and N: "cur_num_threads t * n \<le> N"
  shows "\<exists>s'. run_threads t (\<lambda>i. timed_enqueues (\<lambda>j. enq (f j)) (eclks i) n) (\<lambda>i. timed_dequeues (\<lambda>j q. run_state (deq q)) (dclks i) n)
        (s, alloc_samples N b)
      = Ret (s', deq_side (all_deltas dclks (cur_num_threads t) n)
          (enq_side (all_deltas eclks (cur_num_threads t) n) (alloc_samples N b)))
    \<and> inv s' \<and> abs s' = []"
proof -
  let ?c = "cur_num_threads t" and ?b = "alloc_samples N b"
  have len: "length (enqueuetimestamp ?b) = N" "length (dequeuetimestamp ?b) = N"
    by (simp_all add: alloc_samples_def)
  have start: "enq_side [] ?b = ?b" "deq_side [] (enq_side ts ?b) = enq_side ts ?b" for ts
    by (simp_all add: enq_side_def deq_side_def alloc_samples_def ResetCounters_def)
  obtain s1 where s1: "repeat_op (\<lambda>i. timed_enqueues (\<lambda>j. enq (f j)) (eclks i) n) ?c (s, ?b) = Ret (s1, enq_side (all_deltas eclks ?c n) ?b)"
      "inv s1" "length (abs s1) = ?c * n"
    using producers_ok [OF assms(1), of ?c n f ?b eclks] assms(2,5-8) len
    by (auto simp: start length_concat sum_list_replicate)
  obtain s2 where s2: "repeat_op (\<lambda>i. timed_dequeues (\<lambda>j q. run_state (deq q)) (dclks i) n) ?c (s1, enq_side (all_deltas eclks ?c n) ?b)
        = Ret (s2, deq_side (all_deltas dclks ?c n) (enq_side (all_deltas eclks ?c n) ?b))" "inv s2" "abs s2 = []"
  proof -
    have "length (dequeuetimestamp (enq_side (all_deltas eclks ?c n) ?b)) = N"
      by (simp add: enq_side_def alloc_samples_def)
    then show thesis
      using consumers_ok [OF s1(2), of ?c n "enq_side (all_deltas eclks ?c n) ?b" dclks] s1(3) N that
      by (auto simp: start)
  qed
  have "barrier_opens t"
    using t by (auto simp: barrier_opens_def cur_num_threads_def elim: evenE)
  then show ?thesis
    using s1(1) s2 by (auto simp: run_threads_def Let_def)
qed

end

section \<open>The summary of a round\<close>

definition good_report :: "int \<Rightarrow> nat \<Rightarrow> real \<Rightarrow> int \<Rightarrow> ticks list \<Rightarrow> ticks list \<Rightarrow> report \<Rightarrow> bool" where
  "good_report type c f ov E D r \<longleftrightarrow>
     (\<exists>e d. r = LatencyReport type (int c) (length E) (length D) e d
        \<and> describes f (corrected ov E) e \<and> describes f (corrected ov D) d)"

lemma with_summary_ok:
  assumes "qsort_contract qs" and "0 < length E" "length E \<le> N" and "0 < length D" "length D \<le> N" and "N \<le> 2147483647"
    and "list_all (measurable ov) E" and "list_all (measurable ov) D"
  shows "\<exists>r. with_summary qs LATENCY type c f ov (s, deq_side D (enq_side E (alloc_samples N b)))
      = Ret (r, s, deq_side D (enq_side E (alloc_samples N b))) \<and> good_report type c f ov E D r"
proof -
  let ?b = "deq_side D (enq_side E (alloc_samples N b))"
  have b: "numEnqueue ?b = length E" "numDequeue ?b = length D" "take (length E) (enqueuetimestamp ?b) = E"
      "take (length D) (dequeuetimestamp ?b) = D" "length (enqueuetimestamp ?b) = N" "length (dequeuetimestamp ?b) = N"
    using assms(3,5) by (simp_all add: deq_side_def enq_side_def alloc_samples_def)
  obtain e where e: "summarize_side qs f ov (enqueuetimestamp ?b) (length E) = Ret e" "describes f (corrected ov E) e"
    using summarize_side_describes [OF assms(1,2), of "enqueuetimestamp ?b" ov f] assms(3,6,7) b by auto
  obtain d where d: "summarize_side qs f ov (dequeuetimestamp ?b) (length D) = Ret d" "describes f (corrected ov D) d"
    using summarize_side_describes [OF assms(1,4), of "dequeuetimestamp ?b" ov f] assms(5,6,8) b by auto
  show ?thesis
    using e d by (simp add: with_summary_def ComputeSummary_def b good_report_def)
qed

lemma with_summary_empty:
  assumes "qsort_contract qs" and "0 < N"
  shows "with_summary qs LATENCY type c f ov (s, alloc_samples N b) = Fault BadIndex"
proof -
  have "consistent cmpfunc uint (set [])"
    by (simp add: consistent_def)
  then obtain ys where "qs cmpfunc [] = Ret ys" "mset ys = mset []"
    using assms(1) unfolding qsort_contract_def by blast
  then have "qs cmpfunc [] = Ret []"
    by simp
  then show ?thesis
    using assms(2) by (simp add: with_summary_def ComputeSummary_def summarize_side_def alloc_samples_def ResetCounters_def
        SortTicks_def side_stats_def arr_read_def)
qed

section \<open>Rounds of the array queue and of the linked queue\<close>

lemma thread_share:
  assumes "even t" "0 < t" "cur_num_threads t \<le> N"
  shows "0 < cur_num_threads t" "per_thread N (cur_num_threads t) = Ret (N div cur_num_threads t)"
    "0 < N div cur_num_threads t" "0 < cur_num_threads t * (N div cur_num_threads t)"
    "cur_num_threads t * (N div cur_num_threads t) \<le> N"
proof -
  show c: "0 < cur_num_threads t"
    using assms(1,2) by (auto simp: cur_num_threads_def elim: evenE)
  then show "per_thread N (cur_num_threads t) = Ret (N div cur_num_threads t)"
    by (simp add: per_thread_def)
  show "0 < N div cur_num_threads t"
    using assms(3) c by (simp add: div_greater_zero_iff)
  with c show "0 < cur_num_threads t * (N div cur_num_threads t)"
    by simp
  show "cur_num_threads t * (N div cur_num_threads t) \<le> N"
    by simp
qed

text \<open>What the threads of a round measure.\<close>

definition enq_samples :: "(nat \<Rightarrow> env) \<Rightarrow> nat \<Rightarrow> nat \<Rightarrow> ticks list" where
  "enq_samples es c n = all_deltas (\<lambda>i. tsc (es i)) c n"

definition deq_samples :: "(nat \<Rightarrow> env) \<Rightarrow> nat \<Rightarrow> nat \<Rightarrow> ticks list" where
  "deq_samples es c n = all_deltas (\<lambda>i. tsc (es (i + c))) c n"

definition measurable_round :: "int \<Rightarrow> (nat \<Rightarrow> env) \<Rightarrow> nat \<Rightarrow> nat \<Rightarrow> bool" where
  "measurable_round ov es c n \<longleftrightarrow> list_all (measurable ov) (enq_samples es c n) \<and> list_all (measurable ov) (deq_samples es c n)"

lemma length_samples [simp]: "length (enq_samples es c n) = c * n" "length (deq_samples es c n) = c * n"
  by (simp_all add: enq_samples_def deq_samples_def)

lemma squeue_round_ok:
  assumes "qsort_contract qs" and "0 < m" "N \<le> m" "m \<le> 2147483647" and "length (data q) = m"
    and t: "even t" "0 < t" "cur_num_threads t \<le> N"
    and ok: "measurable_round ov es (cur_num_threads t) (N div cur_num_threads t)"
  shows "\<exists>r q' b'. squeue_round qs LATENCY m N f ov es t (q, b) = Ret (r, q', b')
    \<and> good_report 1 (cur_num_threads t) f ov (enq_samples es (cur_num_threads t) (N div cur_num_threads t))
        (deq_samples es (cur_num_threads t) (N div cur_num_threads t)) r
    \<and> length (data q') = m \<and> ring_list m q' = []"
proof -
  let ?c = "cur_num_threads t" and ?n = "N div cur_num_threads t"
  note T = thread_share [OF t]
  let ?q = "q\<lparr>head := - 1, tail := - 1, data := replicate m 0\<rparr>"
  have init: "InitQueue_qb m q = Ret ?q"
    by (rule InitQueue_qb_eq [OF assms(5)])
  have new: "ring_inv m ?q" "ring_list m ?q = []" "ring_budget ?q = 2147483648"
    using init_ring_qb [OF assms(2,5) init] by simp_all
  have hs: "(\<lambda>i. enqueue_handler LATENCY m N ?c (es i))
        = (\<lambda>i. timed_enqueues (\<lambda>j q. run_state (Enqueue_qb m (sample j) q)) (tsc (es i)) ?n)"
      "(\<lambda>i. worker_handler LATENCY m N ?c (es (i + ?c)))
        = (\<lambda>i. timed_dequeues (\<lambda>j q. run_state (Dequeue_qb m q)) (tsc (es (i + ?c))) ?n)"
    using T(2) by (simp_all add: fun_eq_iff enqueue_handler_def worker_handler_def sample_def add.commute)
  have "list_all (\<lambda>x. x \<noteq> 0) (map sample [0..<?n])"
    using T(5) assms(3,4) div_le_dividend [of N ?c] by (intro samples_nonzero) linarith
  then obtain q' where q': "run_threads t (\<lambda>i. enqueue_handler LATENCY m N ?c (es i)) (\<lambda>i. worker_handler LATENCY m N ?c (es (i + ?c)))
        (?q, alloc_samples N b)
      = Ret (q', deq_side (deq_samples es ?c ?n) (enq_side (enq_samples es ?c ?n) (alloc_samples N b)))"
      "ring_inv m q'" "ring_list m q' = []"
    using bounded_fifo.run_threads_ok [OF qb_contract [OF assms(4)] new(1,2) t(1,2), of ?n sample N
        "\<lambda>i. tsc (es i)" "\<lambda>i. tsc (es (i + ?c))" b] T assms(3,4) new(3)
    by (auto simp: hs enq_samples_def deq_samples_def)
  have "length (data q') = m"
    using q'(2) by (rule ring_invD)
  moreover obtain r where "with_summary qs LATENCY 1 ?c f ov
        (q', deq_side (deq_samples es ?c ?n) (enq_side (enq_samples es ?c ?n) (alloc_samples N b)))
      = Ret (r, q', deq_side (deq_samples es ?c ?n) (enq_side (enq_samples es ?c ?n) (alloc_samples N b)))"
      "good_report 1 ?c f ov (enq_samples es ?c ?n) (deq_samples es ?c ?n) r"
    using with_summary_ok [OF assms(1), of "enq_samples es ?c ?n" N "deq_samples es ?c ?n" ov 1 ?c f q' b] T assms(3,4) ok
    by (auto simp: measurable_round_def)
  ultimately show ?thesis
    using init q' by (simp add: squeue_round_def Let_def)
qed

lemma main_loop_ok:
  assumes "\<And>k t s. k < length ts + k0 \<Longrightarrow> k0 \<le> k \<Longrightarrow> t = ts ! (k - k0) \<Longrightarrow> ok s \<Longrightarrow>
      \<exists>r s'. one_round k t s = Ret (r, s') \<and> good k t r \<and> ok s'"
    and "ok s"
  shows "\<exists>rs s'. main_loop one_round k0 ts s = Ret (rs, s') \<and> ok s' \<and> length rs = length ts
    \<and> (\<forall>k<length ts. good (k0 + k) (ts ! k) (rs ! k))"
  using assms
proof (induction ts arbitrary: k0 s)
  case Nil
  then show ?case by simp
next
  case (Cons t ts)
  obtain r s1 where r: "one_round k0 t s = Ret (r, s1)" "good k0 t r" "ok s1"
    using Cons.prems(1) [of k0 t s] Cons.prems(2) by auto
  have "\<exists>r s'. one_round k u s2 = Ret (r, s') \<and> good k u r \<and> ok s'"
    if "k < length ts + Suc k0" "Suc k0 \<le> k" "u = ts ! (k - Suc k0)" "ok s2" for k u s2
    using Cons.prems(1) [of k u s2] that by (simp add: nth_Cons' Suc_diff_le)
  then obtain rs s2 where rs: "main_loop one_round (Suc k0) ts s1 = Ret (rs, s2)" "ok s2" "length rs = length ts"
      "\<forall>k<length ts. good (Suc k0 + k) (ts ! k) (rs ! k)"
    using Cons.IH [of "Suc k0" s1] r(3) by blast
  have "good (k0 + k) ((t # ts) ! k) ((r # rs) ! k)" if "k < length (t # ts)" for k
    using that rs(4) r(2) by (cases k) auto
  then show ?case
    using r(1) rs(1-3) by auto
qed

section \<open>Properties\<close>

definition valid_count :: "nat \<Rightarrow> nat \<Rightarrow> bool" where
  "valid_count N t \<longleftrightarrow> even t \<and> 0 < t \<and> cur_num_threads t \<le> N"

definition round_report :: "int \<Rightarrow> nat \<Rightarrow> real \<Rightarrow> int \<Rightarrow> (nat \<Rightarrow> env) \<Rightarrow> nat \<Rightarrow> report \<Rightarrow> bool" where
  "round_report type N f ov es t r \<longleftrightarrow>
     (let c = cur_num_threads t in
      good_report type c f ov (enq_samples es c (N div c)) (deq_samples es c (N div c)) r)"

definition demo_basicq :: basicq where
  "demo_basicq = \<lparr>entries = [], lock_held = True, allocs = 0, frees = 0\<rparr>"

text \<open>C37: With an odd thread count above 1 the barrier waits for one thread that is never created, and the round
  of the array, the linked and (with a queue for each pair) the multiple queue hangs. With a count of 0 or 1
  there are no threads: the first two read behind their empty arrays of samples, and the third divides by zero.\<close>

theorem bench_bad_counts:
  assumes "qsort_contract qs" and "0 < N" and "length (data q) = m" and "InitQueues mm mem (Suc c) ms = Ret ms'" and "t \<le> 1"
  shows "squeue_round qs bd m N f ov es (2 * c + 3) (q, b) = Hang
    \<and> basic_round qs bd N f ov es sch (2 * c + 3) (bqueue, b) = Hang
    \<and> multi_round qs bd mm mem N f ov es (2 * c + 3) (ms, b) = Hang
    \<and> squeue_round qs LATENCY m N f ov es t (q, b) = Fault BadIndex
    \<and> basic_round qs LATENCY N f ov es sch t (bqueue, b) = Fault BadIndex
    \<and> multi_round qs bd mm mem N f ov es t (ms, b) = Fault DivByZero"
proof -
  have odd: "cur_num_threads (2 * c + 3) = Suc c" "\<not> barrier_opens (2 * c + 3)"
    by (simp_all add: cur_num_threads_def barrier_opens_def)
  have none: "cur_num_threads t = 0"
    using assms(5) by (simp add: cur_num_threads_def)
  have empty: "run_threads t enq deq sb = Ret sb" for enq deq and sb :: "'s \<times> bench"
    by (simp add: run_threads_def none)
  have empty_turns: "run_turns t turn start sch sb = Ret sb" for turn :: "nat \<Rightarrow> 'l \<Rightarrow> 'g \<Rightarrow> ('l option \<times> 'g) outcome" and start sb
    by (rule run_turns_none [OF none])
  have hang_turns: "run_turns (2 * c + 3) turn start sch sb = Hang" for turn :: "nat \<Rightarrow> 'l \<Rightarrow> 'g \<Rightarrow> ('l option \<times> 'g) outcome" and start sb
    by (simp only: run_turns_def odd Let_def) simp
  have hang: "run_threads (2 * c + 3) enq deq sb = Hang" for enq deq and sb :: "'s \<times> bench"
    by (simp only: run_threads_def odd Let_def) simp
  note init = InitQueue_qb_eq [OF assms(3)]
  note summary = with_summary_empty [OF assms(1,2)]
  show ?thesis
    using assms(4) by (simp add: squeue_round_def basic_round_def multi_round_def init hang hang_turns empty empty_turns summary none odd
        InitQueues_def Let_def del: mult_Suc_right)
qed

theorem bench_bad_counts_witness:
  "squeue_round sort_by LATENCY 4 5 2 1 (\<lambda>_. demo_env) 3 (\<lparr>head = 0, tail = 0, data = [0, 0, 0, 0]\<rparr>, demo_bench) = Hang
    \<and> basic_round sort_by LATENCY 5 2 1 (\<lambda>_. demo_env) [0, 1] 1 (demo_basicq, demo_bench) = Fault BadIndex"
proof -
  obtain s where "InitQueues 6 (\<lambda>_. [9, 9, 9, 9, 9, 9]) (Suc 0) \<lparr>QUEUE_SIZE = 0, queues = []\<rparr> = Ret s"
    using InitQueues_ok [of 1 6 "\<lambda>_. [9, 9, 9, 9, 9, 9]"] by auto
  from bench_bad_counts [OF sort_by_contract _ _ this, of 5 "\<lparr>head = 0, tail = 0, data = [0, 0, 0, 0]\<rparr>" 4 1 LATENCY 2 1
      "\<lambda>_. demo_env" demo_bench "[0, 1]" demo_basicq]
  show ?thesis
    by simp
qed

end
