(* ===== verification/Bench_Args.thy ===== *)
theory Bench_Args
  imports Prelude
begin

text \<open>
  The command line of \<^verbatim>\<open>QueueBenchmarks/sqmain.c\<close> and \<^verbatim>\<open>stlqueue.cpp\<close>: five arguments, the queue type as a
  number, the thread counts as a list with commas, read with \<^verbatim>\<open>strtok\<close> and \<^verbatim>\<open>atoi\<close> into an array from
  \<^verbatim>\<open>malloc\<close>, and two file names. The array has room for \<^verbatim>\<open>sizeof(int*)\<close> bytes in the one program, two
  counts, and for \<^verbatim>\<open>sizeof(int)\<close> bytes, one count, in the other.
\<close>

section \<open>The C library functions\<close>

abbreviation comma :: char where
  "comma \<equiv> CHR '',''"

definition is_digit :: "char \<Rightarrow> bool" where
  "is_digit c \<longleftrightarrow> 48 \<le> (of_char c :: nat) \<and> (of_char c :: nat) \<le> 57"

definition is_space :: "char \<Rightarrow> bool" where
  "is_space c \<longleftrightarrow> (of_char c :: nat) = 32 \<or> 9 \<le> (of_char c :: nat) \<and> (of_char c :: nat) \<le> 13"

fun digits_value :: "nat \<Rightarrow> string \<Rightarrow> nat" where
  "digits_value acc [] = acc"
| "digits_value acc (c # cs) =
     (if is_digit c then digits_value (10 * acc + (of_char c - 48)) cs else acc)"

text \<open>\<^verbatim>\<open>atoi\<close>: leading space, a sign, digits; undefined when the number does not fit an \<^verbatim>\<open>int\<close>.\<close>

definition atoi :: "string \<Rightarrow> int outcome" where
  "atoi s =
     (let s1 = dropWhile is_space s;
          neg = (s1 \<noteq> [] \<and> hd s1 = CHR ''-'');
          s2 = (if s1 \<noteq> [] \<and> (hd s1 = CHR ''-'' \<or> hd s1 = CHR ''+'') then tl s1 else s1);
          v = (if neg then - int (digits_value 0 s2) else int (digits_value 0 s2))
      in if INT_MIN \<le> v \<and> v \<le> INT_MAX then Ret v else Fault SignedOverflow)"

text \<open>\<^verbatim>\<open>strtok(s, ",")\<close>: the next token, if there is one, and where the following call goes on.\<close>

definition strtok :: "string \<Rightarrow> (string \<times> string) option" where
  "strtok s =
     (let s1 = dropWhile (\<lambda>c. c = comma) s in
      if s1 = [] then None
      else Some (takeWhile (\<lambda>c. c \<noteq> comma) s1, drop 1 (dropWhile (\<lambda>c. c \<noteq> comma) s1)))"

section \<open>The command line\<close>

lemma strtok_shorter: "strtok s = Some (tok, rest) \<Longrightarrow> length rest < length s"
proof -
  assume a: "strtok s = Some (tok, rest)"
  define s1 where "s1 = dropWhile (\<lambda>c. c = comma) s"
  define s2 where "s2 = dropWhile (\<lambda>c. c \<noteq> comma) s1"
  have "s1 \<noteq> []" "rest = drop 1 s2"
    using a by (simp_all add: strtok_def Let_def s1_def s2_def split: if_splits)
  then have "0 < length s1" "length rest = length s2 - 1"
    by simp_all
  moreover have "length s2 \<le> length s1" "length s1 \<le> length s"
    by (simp_all add: s1_def s2_def length_dropWhile_le)
  ultimately show "length rest < length s"
    by linarith
qed

function parse_threads :: "string \<Rightarrow> int list \<Rightarrow> nat \<Rightarrow> (int list \<times> nat) outcome" where
  "parse_threads s threads threadCount =
     (case strtok s of
        None \<Rightarrow> Ret (threads, threadCount)
      | Some (tok, rest) \<Rightarrow>
          bindO (atoi tok) (\<lambda>v.
          bindO (arr_write threads (int threadCount) v) (\<lambda>threads'. parse_threads rest threads' (Suc threadCount))))"
  by pat_completeness auto
termination
  by (relation "measure (\<lambda>(s, threads, n). length s)") (auto dest: strtok_shorter)

declare parse_threads.simps [simp del]

text \<open>\<open>mem\<close> is what the allocated array holds. \<^verbatim>\<open>exit(-1)\<close> ends the program.\<close>

datatype startup = Exit | Start int "int list" nat string string

definition parse_args :: "(int \<Rightarrow> bool) \<Rightarrow> int list \<Rightarrow> string list \<Rightarrow> startup outcome" where
  "parse_args known mem argv =
     (if length argv \<noteq> 5 then Ret Exit
      else bindO (atoi (argv ! 1)) (\<lambda>queueType.
        if \<not> known queueType then Ret Exit
        else bindO (parse_threads (argv ! 2) mem 0) (\<lambda>(threads, threadCount).
          Ret (Start queueType threads threadCount (argv ! 3) (argv ! 4)))))"

definition parse_args_qb :: "int list \<Rightarrow> string list \<Rightarrow> startup outcome" where
  "parse_args_qb mem argv = parse_args (\<lambda>queueType. 1 \<le> queueType \<and> queueType \<le> 8) (take 2 mem) argv"

definition parse_args_stl :: "int list \<Rightarrow> string list \<Rightarrow> startup outcome" where
  "parse_args_stl mem argv = parse_args (\<lambda>queueType. queueType = 5) (take 1 mem) argv"

section \<open>Writing numbers and lists\<close>

fun decimal :: "nat \<Rightarrow> string" where
  "decimal n = (if n < 10 then [char_of (48 + n)] else decimal (n div 10) @ [char_of (48 + n mod 10)])"

declare decimal.simps [simp del]

fun comma_list :: "nat list \<Rightarrow> string" where
  "comma_list [] = []"
| "comma_list [n] = decimal n"
| "comma_list (n # m # ns) = decimal n @ comma # comma_list (m # ns)"

lemma of_char_digit: "d < 10 \<Longrightarrow> (of_char (char_of (48 + d) :: char) :: nat) = 48 + d"
  by (simp add: of_char_of)

lemma decimal_digits: "c \<in> set (decimal n) \<Longrightarrow> is_digit c"
proof (induction n rule: decimal.induct)
  case (1 n)
  have "is_digit (char_of (48 + n mod 10))"
    using of_char_digit [of "n mod 10"] by (simp add: is_digit_def)
  moreover have "n < 10 \<Longrightarrow> is_digit (char_of (48 + n))"
    using of_char_digit [of n] by (simp add: is_digit_def)
  ultimately show ?case
    using "1.IH" "1.prems" by (subst (asm) (2) decimal.simps) (auto split: if_splits)
qed

lemma decimal_not_Nil: "decimal n \<noteq> []"
  by (subst decimal.simps) simp

lemma digits_value_append:
  "(\<And>c. c \<in> set xs \<Longrightarrow> is_digit c) \<Longrightarrow> digits_value acc (xs @ ys) = digits_value (digits_value acc xs) ys"
  by (induction xs arbitrary: acc) auto

lemma digits_value_decimal: "digits_value 0 (decimal n) = n"
proof (induction n rule: decimal.induct)
  case (1 n)
  have last: "digits_value a [char_of (48 + d)] = 10 * a + d" if "d < 10" for a d
    using of_char_digit [OF that] that by (simp add: is_digit_def)
  show ?case
  proof (cases "n < 10")
    case True
    then show ?thesis
      by (subst decimal.simps) (simp only: if_True last mult_0_right add_0)
  next
    case False
    then have "digits_value 0 (decimal n) = digits_value (digits_value 0 (decimal (n div 10))) [char_of (48 + n mod 10)]"
      using digits_value_append [of "decimal (n div 10)" 0] decimal_digits by (subst decimal.simps) auto
    also have "\<dots> = 10 * (n div 10) + n mod 10"
      by (simp only: "1.IH" [OF False] last mod_less_divisor zero_less_numeral)
    finally show ?thesis
      by simp
  qed
qed

lemma digit_plain: "is_digit c \<Longrightarrow> \<not> is_space c \<and> c \<noteq> CHR ''-'' \<and> c \<noteq> CHR ''+'' \<and> c \<noteq> comma"
  by (auto simp: is_digit_def is_space_def)

lemma atoi_decimal:
  assumes "n \<le> 2147483647"
  shows "atoi (decimal n) = Ret (int n)"
proof -
  obtain c cs where c: "decimal n = c # cs" "is_digit c"
    by (metis decimal_digits decimal_not_Nil list.exhaust list.set_intros(1))
  then have "dropWhile is_space (decimal n) = decimal n"
    using digit_plain [of c] by simp
  then show ?thesis
    using c digit_plain [OF c(2)] digits_value_decimal [of n] assms by (simp add: atoi_def Let_def)
qed

lemma strtok_decimal:
  "strtok (decimal n) = Some (decimal n, [])"
  "strtok (decimal n @ comma # s) = Some (decimal n, s)"
proof -
  obtain c cs where c: "decimal n = c # cs" "is_digit c"
    by (metis decimal_digits decimal_not_Nil list.exhaust list.set_intros(1))
  then have no: "c \<noteq> comma"
    using digit_plain by blast
  have all: "\<And>c. c \<in> set (decimal n) \<Longrightarrow> c \<noteq> comma"
    using decimal_digits digit_plain by blast
  then have "takeWhile (\<lambda>c. c \<noteq> comma) (decimal n) = decimal n" "dropWhile (\<lambda>c. c \<noteq> comma) (decimal n) = []"
    "takeWhile (\<lambda>c. c \<noteq> comma) (decimal n @ comma # s) = decimal n"
    "dropWhile (\<lambda>c. c \<noteq> comma) (decimal n @ comma # s) = comma # s"
    by (simp_all add: takeWhile_eq_all_conv dropWhile_append3)
  moreover have "dropWhile (\<lambda>c. c = comma) (decimal n) = decimal n"
    "dropWhile (\<lambda>c. c = comma) (decimal n @ comma # s) = decimal n @ comma # s"
    using c no by simp_all
  ultimately show "strtok (decimal n) = Some (decimal n, [])"
    "strtok (decimal n @ comma # s) = Some (decimal n, s)"
    using decimal_not_Nil [of n] by (simp_all add: strtok_def Let_def del: dropWhile_eq_Nil_conv drop_eq_Nil)
qed

lemma strtok_Nil: "strtok [] = None"
  by (simp add: strtok_def)

lemma parse_threads_Nil: "parse_threads [] threads k = Ret (threads, k)"
  by (subst parse_threads.simps) (simp add: strtok_Nil)

text \<open>The list goes into the array from index \<open>k\<close> on, or the first count behind it is a fault.\<close>

lemma parse_threads_list:
  assumes "\<forall>n\<in>set ns. n \<le> 2147483647" "k \<le> length mem"
  shows "parse_threads (comma_list ns) mem k =
    (if k + length ns \<le> length mem
     then Ret (take k mem @ map int ns @ drop (k + length ns) mem, k + length ns) else Fault BadIndex)"
  using assms
proof (induction ns arbitrary: mem k rule: comma_list.induct)
  case 1
  then show ?case
    by (simp add: parse_threads_Nil)
next
  case (2 n)
  then show ?case
    by (subst parse_threads.simps)
      (auto simp: strtok_decimal atoi_decimal arr_write_def parse_threads_Nil upd_conv_take_nth_drop)
next
  case (3 n m ns)
  have n: "n \<le> 2147483647"
    using "3.prems" by simp
  show ?case
  proof (cases "k < length mem")
    case True
    then have "parse_threads (comma_list (n # m # ns)) mem k = parse_threads (comma_list (m # ns)) (mem[k := int n]) (Suc k)"
      by (subst parse_threads.simps) (simp add: strtok_decimal atoi_decimal [OF n] arr_write_def)
    moreover have "take (Suc k) (mem[k := int n]) = take k mem @ [int n]"
      using True by (simp add: take_Suc_conv_app_nth)
    ultimately show ?thesis
      using "3.IH" [of "Suc k" "mem[k := int n]"] "3.prems" True by simp
  next
    case False
    then show ?thesis
      using "3.prems" by (subst parse_threads.simps) (simp add: strtok_decimal atoi_decimal [OF n] arr_write_def)
  qed
qed

lemma parse_args_list:
  assumes "type \<le> 2147483647" "known (int type)" "\<forall>n\<in>set ns. n \<le> 2147483647"
  shows "parse_args known mem [p, decimal type, comma_list ns, f1, f2] =
    (if length ns \<le> length mem
     then Ret (Start (int type) (map int ns @ drop (length ns) mem) (length ns) f1 f2) else Fault BadIndex)"
  using parse_threads_list [of ns 0 mem] assms by (simp add: parse_args_def atoi_decimal)

text \<open>
  C36: Written on a command line in decimal and separated by commas, the queue type and the thread
  counts come back as they were, and the file names with them, as long as the array has room for the
  counts; the first count behind its end is written outside it. Its room is two counts in the one
  program and one in the other, where the usage messages name twenty.
\<close>

theorem args_roundtrip:
  assumes "\<forall>n\<in>set ns. n \<le> 2147483647" "2 \<le> length mem" "1 \<le> type" "type \<le> 8"
  shows "parse_args_qb mem [p, decimal type, comma_list ns, f1, f2] =
      (if length ns \<le> 2
       then Ret (Start (int type) (map int ns @ drop (length ns) (take 2 mem)) (length ns) f1 f2) else Fault BadIndex)
    \<and> parse_args_stl mem [p, decimal 5, comma_list ns, f1, f2] =
      (if length ns \<le> 1
       then Ret (Start 5 (map int ns @ drop (length ns) (take 1 mem)) (length ns) f1 f2) else Fault BadIndex)"
  using parse_args_list [of type "\<lambda>queueType. 1 \<le> queueType \<and> queueType \<le> 8" ns "take 2 mem" p f1 f2]
    parse_args_list [of 5 "\<lambda>queueType. queueType = 5" ns "take 1 mem" p f1 f2] assms
  by (simp add: parse_args_qb_def parse_args_stl_def min_absorb2)

lemma args_roundtrip_witness:
  "parse_args_qb [7, 7, 7] [''prog'', decimal 1, comma_list [2, 16], ''a'', ''b''] =
     Ret (Start 1 [2, 16] 2 ''a'' ''b'')
   \<and> parse_args_qb [7, 7, 7] [''prog'', decimal 1, comma_list [2, 16, 4], ''a'', ''b''] = Fault BadIndex
   \<and> parse_args_stl [7, 7, 7] [''prog'', decimal 5, comma_list [2, 16], ''a'', ''b''] = Fault BadIndex"
  using args_roundtrip [of "[2, 16]" "[7, 7, 7]" 1 "''prog''" "''a''" "''b''"]
    args_roundtrip [of "[2, 16, 4]" "[7, 7, 7]" 1 "''prog''" "''a''" "''b''"] by simp

end
