(* ===== verification/Openmp_Rounds.thy ===== *)
theory Openmp_Rounds
  imports XTask_Ring Bench_Loops
begin

text \<open>
  The rounds of queue types 6 and 7 of \<^verbatim>\<open>QueueBenchmarks/sqmain.c\<close> in the \<^verbatim>\<open>THROUGHPUT\<close> build, which
  distribute their iterations with OpenMP. The order in which the runtime runs the iterations of a
  \<^verbatim>\<open>parallel for\<close> is the parameter \<open>order\<close>, any permutation of them; the time stamp counter a stream of
  readings.
\<close>

section \<open>Type 6\<close>

text \<open>\<^verbatim>\<open>for (i = 0; i < NUM_SAMPLES; i++) EnqueueToQ((i + 1), &incoming);\<close>\<close>

definition omp_fill :: "nat \<Rightarrow> nat list \<Rightarrow> ringbuf \<Rightarrow> ringbuf outcome" where
  "omp_fill m order incoming =
     enq_all (\<lambda>x q. run_state (EnqueueToQ_qb m x q)) (map (\<lambda>i. of_nat i + 1) order) incoming"

text \<open>The loop of the \<^verbatim>\<open>single\<close> thread, with the number of tasks it has created.\<close>

partial_function (option) omp_drain :: "nat \<Rightarrow> ringbuf \<Rightarrow> nat \<Rightarrow> (ringbuf \<times> nat) outcome option" where
  "omp_drain m incoming created =
     (if isQueueEmpty_qb incoming then Some (Ret (incoming, created))
      else case DequeueFromQ_qb m incoming of
        Fault e \<Rightarrow> Some (Fault e)
      | Hang \<Rightarrow> Some Hang
      | Ret (elem, q) \<Rightarrow> omp_drain m q (Suc created))"

text \<open>
  Each task enqueues \<^verbatim>\<open>count + 1\<close>, \<^verbatim>\<open>count\<close> being the constant 0. The tasks only touch the queue of
  results, so that their interleaving with the loop does not matter, and as they are all alike neither
  does their order.
\<close>

definition omp_tasks :: "nat \<Rightarrow> nat \<Rightarrow> ringbuf \<Rightarrow> ringbuf outcome" where
  "omp_tasks m created results =
     (let count = 0 in enq_all (\<lambda>x q. run_state (EnqueueToQ_qb m x q)) (replicate created (count + 1)) results)"

text \<open>\<^verbatim>\<open>(NUM_SAMPLES * 1000000000.0) / elapsed\<close> with \<^verbatim>\<open>elapsed = diff_tick / clockFreq\<close>\<close>

definition omp_rate :: "nat \<Rightarrow> real \<Rightarrow> ticks \<Rightarrow> real" where
  "omp_rate N clockFreq diff_tick = real N * 1000000000 / (real (unat diff_tick) / clockFreq)"

definition omp_work :: "nat \<Rightarrow> nat list \<Rightarrow> ringbuf \<times> ringbuf \<Rightarrow> (ringbuf \<times> ringbuf) outcome" where
  "omp_work m order qs =
     bindO (omp_fill m order (fst qs)) (\<lambda>incoming.
     bindO (case omp_drain m incoming 0 of None \<Rightarrow> Hang | Some r \<Rightarrow> r) (\<lambda>(incoming', created).
     bindO (omp_tasks m created (snd qs)) (\<lambda>results. Ret (incoming', results))))"

definition omp_round :: "nat \<Rightarrow> nat \<Rightarrow> atom list \<Rightarrow> atom list \<Rightarrow> nat list \<Rightarrow> (nat \<Rightarrow> ticks) \<Rightarrow> real \<Rightarrow> ringbuf \<times> ringbuf \<times> ringbuf
    \<Rightarrow> bench \<Rightarrow> ((ringbuf \<times> ringbuf \<times> ringbuf) \<times> bench) outcome" where
  "omp_round m N mem_in mem_res order clk clockFreq qs b =
     (case qs of (q, incoming, results) \<Rightarrow>
      bindO (InitQueue_qb m q) (\<lambda>q1.
      bindO (InitXTaskQueue_qb m mem_in incoming) (\<lambda>incoming1.
      bindO (InitXTaskQueue_qb m mem_res results) (\<lambda>results1.
      bindO (omp_work m order (incoming1, results1)) (\<lambda>(incoming2, results2).
      bindO (ClearXTaskQueue_qb m incoming2) (\<lambda>incoming3.
      bindO (ClearXTaskQueue_qb m results2) (\<lambda>results3.
        Ret ((q1, incoming3, results3),
          (ResetCounters b)\<lparr>enqueuethroughput := omp_rate N clockFreq (clk 1 - clk 0),
            dequeuethroughput := omp_rate N clockFreq (clk 3 - clk 2)\<rparr>))))))))"

section \<open>Type 7\<close>

text \<open>Each iteration creates a thread that sleeps for no time and joins it; the global queue is initialised and
  not used.\<close>

definition sleep_round :: "nat \<Rightarrow> nat \<Rightarrow> (nat \<Rightarrow> ticks) \<Rightarrow> real \<Rightarrow> ringbuf \<Rightarrow> bench \<Rightarrow> (ringbuf \<times> bench) outcome" where
  "sleep_round m N clk clockFreq q b =
     bindO (InitQueue_qb m q) (\<lambda>q1.
       Ret (q1, (ResetCounters b)\<lparr>dequeuethroughput := omp_rate N clockFreq (clk 1 - clk 0)\<rparr>))"

section \<open>What the round does\<close>

lemma omp_drain_ok:
  "ring_inv m q \<Longrightarrow> \<exists>q'. omp_drain m q k = Some (Ret (q', k + length (ring_list m q))) \<and> ring_inv m q' \<and> ring_list m q' = []"
proof (induction "ring_list m q" arbitrary: q k)
  case Nil
  then have "isQueueEmpty_qb q"
    by (simp add: isQueueEmpty_qb_def counters_equal_iff)
  with Nil show ?case
    by (subst omp_drain.simps) simp
next
  case (Cons x xs)
  then have ne: "\<not> isQueueEmpty_qb q"
    by (simp add: isQueueEmpty_qb_def counters_equal_iff flip: Cons.hyps(2))
  obtain q1 where q1: "DequeueFromQ_qb m q = Ret (x, q1)" "ring_inv m q1" "ring_list m q1 = xs"
    using xq.deq_law [OF Cons.prems Cons.hyps(2) [symmetric]] by blast
  have "omp_drain m q k = omp_drain m q1 (Suc k)"
    using ne q1(1) by (subst omp_drain.simps) simp
  with Cons.hyps(1) [of q1 "Suc k"] q1(2,3) show ?case
    unfolding Cons.hyps(2) [symmetric] by simp
qed

lemma no_zero_element: "i < 2147483648 \<Longrightarrow> (of_nat i + 1 :: atom) \<noteq> 0"
proof
  assume i: "i < 2147483648" and "(of_nat i + 1 :: atom) = 0"
  then have "(of_nat (Suc i) :: atom) = 0"
    by (simp add: add.commute)
  then have "unat (of_nat (Suc i) :: atom) = 0"
    by (simp only: unat_0)
  with i show False
    by (simp add: unat_of_nat del: of_nat_Suc)
qed

lemma omp_work_ok:
  assumes in0: "ring_inv m incoming" "ring_list m incoming = []" "ring_budget incoming = 2147483648"
    and res0: "ring_inv m results" "ring_list m results = []" "ring_budget results = 2147483648"
    and order: "mset order = mset [0..<N]" and N: "N \<le> m" "N \<le> 2147483648"
  shows "\<exists>incoming' results'. omp_work m order (incoming, results) = Ret (incoming', results')
    \<and> ring_inv m incoming' \<and> ring_list m incoming' = [] \<and> ring_inv m results' \<and> ring_list m results' = replicate N 1"
proof -
  have len: "length order = N"
    using order mset_eq_length by fastforce
  have "set order = set [0..<N]"
    using order by (metis set_mset_mset)
  then have nz: "list_all (\<lambda>x. x \<noteq> 0) (map (\<lambda>i. of_nat i + 1 :: atom) order)"
    using no_zero_element N(2) by (auto simp: list_all_iff)
  obtain q1 where q1: "omp_fill m order incoming = Ret q1" "ring_inv m q1" "length (ring_list m q1) = N"
    using xq.enq_all_ok [OF in0(1), of "map (\<lambda>i. of_nat i + 1) order"] in0 N len nz
    by (auto simp: omp_fill_def)
  obtain q2 where q2: "omp_drain m q1 0 = Some (Ret (q2, N))" "ring_inv m q2" "ring_list m q2 = []"
    using omp_drain_ok [OF q1(2), of 0] q1(3) by auto
  obtain r1 where "omp_tasks m N results = Ret r1" "ring_inv m r1" "ring_list m r1 = replicate N 1"
    using xq.enq_all_ok [OF res0(1), of "replicate N 1"] res0 N by (auto simp: omp_tasks_def list_all_iff)
  with q1(1) q2 show ?thesis
    by (simp add: omp_work_def)
qed

text \<open>C22: In a round of queue type 6, with at most as many samples as slots and in whatever order the OpenMP
  runtime runs the iterations, both loops end: the incoming queue is filled with the numbers from 1 on and
  emptied again, with one task for each of them, and as the variable \<^verbatim>\<open>count\<close> stays 0 the queue of
  results then holds \<^verbatim>\<open>NUM_SAMPLES\<close> times the number 1; the round returns with both queues cleared.\<close>

theorem openmp_round_results:
  assumes "0 < m" and "length mem_in = m" "length mem_res = m" "length (data q) = m"
    and "mset order = mset [0..<N]" and "N \<le> m" "N \<le> 2147483648"
  shows "\<exists>in1 res1 in2 res2. InitXTaskQueue_qb m mem_in incoming = Ret in1 \<and> InitXTaskQueue_qb m mem_res results = Ret res1
    \<and> omp_work m order (in1, res1) = Ret (in2, res2) \<and> ring_list m in2 = [] \<and> ring_list m res2 = replicate N 1
    \<and> omp_round m N mem_in mem_res order clk f (q, incoming, results) b =
        Ret ((\<lparr>head = - 1, tail = - 1, data = replicate m 0\<rparr>, \<lparr>head = - 1, tail = - 1, data = replicate m 0\<rparr>,
              \<lparr>head = - 1, tail = - 1, data = replicate m 0\<rparr>),
          (ResetCounters b)\<lparr>enqueuethroughput := omp_rate N f (clk 1 - clk 0), dequeuethroughput := omp_rate N f (clk 3 - clk 2)\<rparr>)"
proof -
  let ?new = "\<lparr>head = - 1, tail = - 1, data = replicate m 0\<rparr> :: ringbuf"
  have i: "InitXTaskQueue_qb m mem_in incoming = Ret ?new" "InitXTaskQueue_qb m mem_res results = Ret ?new"
      "InitQueue_qb m q = Ret ?new"
    using assms(2-4) by (cases incoming; cases results; cases q;
        simp add: InitXTaskQueue_qb_def InitQueue_qb_def)+
  have clear: "ClearXTaskQueue_qb m r = Ret ?new" if "ring_inv m r" for r
    using that by (cases r) (simp add: ClearXTaskQueue_qb_def ring_inv_def)
  obtain in2 res2 where w: "omp_work m order (?new, ?new) = Ret (in2, res2)" "ring_inv m in2" "ring_list m in2 = []"
      "ring_inv m res2" "ring_list m res2 = replicate N 1"
    using omp_work_ok [of m ?new ?new order N] empty_ring [OF assms(1)] assms(5-7) by auto
  then show ?thesis
    by (intro exI [of _ ?new] exI [of _ in2] exI [of _ res2]) (simp add: i omp_round_def clear)
qed

theorem openmp_round_results_witness:
  "\<exists>in2 res2. omp_work 3 [1, 0] (\<lparr>head = - 1, tail = - 1, data = [0, 0, 0]\<rparr>, \<lparr>head = - 1, tail = - 1, data = [0, 0, 0]\<rparr>) = Ret (in2, res2)
    \<and> ring_list 3 res2 = [1, 1]"
proof -
  have "InitXTaskQueue_qb 3 [7, 8, 9] \<lparr>head = 0, tail = 0, data = []\<rparr> = Ret \<lparr>head = - 1, tail = - 1, data = [0, 0, 0]\<rparr>"
    by (simp add: InitXTaskQueue_qb_def numeral_3_eq_3 arr_write_def)
  with openmp_round_results [of 3 "[7, 8, 9]" "[7, 8, 9]" "\<lparr>head = 0, tail = 0, data = [1, 2, 3]\<rparr>" "[1, 0]" 2
      "\<lparr>head = 0, tail = 0, data = []\<rparr>" "\<lparr>head = 0, tail = 0, data = []\<rparr>"]
  show ?thesis
    by (force simp: numeral_2_eq_2)
qed

end
