(* ===== verification/Multi_Main.thy ===== *)
theory Multi_Main
  imports Bench_Main
begin

text \<open>
  The rounds of the queue types 4 and 8 of \<^verbatim>\<open>QueueBenchmarks/sqmain.c\<close>, over the array of rings of
  \<^verbatim>\<open>squeuemultiple.c\<close>: what the producers leave in each ring, what the workers take out of it, and the report at
  the end. The definitions of the rounds are in \<open>Bench_Main\<close>.
\<close>

section \<open>One ring of several\<close>

text \<open>All rings hold what \<open>f\<close> says and have room for tickets.\<close>

definition rings_hold :: "nat \<Rightarrow> nat \<Rightarrow> (nat \<Rightarrow> atom list) \<Rightarrow> multi \<Rightarrow> bool" where
  "rings_hold n sz f s \<longleftrightarrow> multi_inv n s \<and> QUEUE_SIZE s = sz
     \<and> (\<forall>j<n. multi_list j s = f j \<and> sint (tail (queues s ! j)) < 2147483647 - int sz + int (length (f j)))"

lemma fill_ring:
  assumes i: "i < n" and small: "sz \<le> 2147483647" and "f i = []"
  shows "rings_hold n sz f s \<Longrightarrow> k \<le> sz \<Longrightarrow>
    \<exists>s'. repeat_op (\<lambda>j. put_multi i (sample j)) k s = Ret s' \<and> rings_hold n sz (f(i := map sample [0..<k])) s'"
proof (induction k)
  case 0
  then show ?case
    using assms(3) by (simp add: fun_upd_idem)
next
  case (Suc k)
  then obtain s1 where s1: "repeat_op (\<lambda>j. put_multi i (sample j)) k s = Ret s1" "rings_hold n sz (f(i := map sample [0..<k])) s1"
    using Suc.IH by (meson Suc_leD)
  then have h: "multi_inv n s1" "QUEUE_SIZE s1 = sz" "multi_list i s1 = map sample [0..<k]"
      "sint (tail (queues s1 ! i)) < 2147483647 - int sz + int k"
    using spec [of _ i] i unfolding rings_hold_def by auto
  have "sample k \<noteq> 0"
    using Suc.prems(2) small by (intro sample_nonzero) simp
  moreover have "0 < ring_budget (queues s1 ! i)"
    using h(4) Suc.prems(2) by (simp add: ring_budget_def)
  ultimately obtain s2 where s2: "put_multi i (sample k) s1 = Ret s2" "multi_inv n s2" "QUEUE_SIZE s2 = sz"
      "multi_list i s2 = multi_list i s1 @ [sample k]" "sint (tail (queues s2 ! i)) = sint (tail (queues s1 ! i)) + 1"
      "\<forall>j. j \<noteq> i \<longrightarrow> queues s2 ! j = queues s1 ! j"
    using put_multi_ok [OF h(1) i, of "sample k"] h(2,3) Suc.prems(2) by auto
  have "rings_hold n sz (f(i := map sample [0..<Suc k])) s2"
    unfolding rings_hold_def
  proof (intro conjI allI impI)
    fix j assume j: "j < n"
    have old: "multi_list j s1 = (f(i := map sample [0..<k])) j"
        "sint (tail (queues s1 ! j)) < 2147483647 - int sz + int (length ((f(i := map sample [0..<k])) j))"
      using s1(2) j unfolding rings_hold_def by blast+
    show "multi_list j s2 = (f(i := map sample [0..<Suc k])) j"
      using old(1) s2(3,4,6) h(2,3) by (cases "j = i") (simp_all add: multi_list_def)
    show "sint (tail (queues s2 ! j)) < 2147483647 - int sz + int (length ((f(i := map sample [0..<Suc k])) j))"
      using old(2) s2(5,6) h(4) by (cases "j = i") simp_all
  qed (use s2 in simp_all)
  moreover have "repeat_op (\<lambda>j. put_multi i (sample j)) (Suc k) s = Ret s2"
    using s1(1) s2(1) by simp
  ultimately show ?case
    by blast
qed

lemma drain_ring:
  assumes i: "i < n"
  shows "multi_inv n s \<Longrightarrow> k \<le> length (multi_list i s) \<Longrightarrow>
    \<exists>s'. repeat_op (\<lambda>j s. run_state (take_multi i s)) k s = Ret s' \<and> multi_inv n s' \<and> multi_list i s' = drop k (multi_list i s)
      \<and> QUEUE_SIZE s' = QUEUE_SIZE s \<and> (\<forall>j. j \<noteq> i \<longrightarrow> queues s' ! j = queues s ! j)"
proof (induction k)
  case 0
  then show ?case by simp
next
  case (Suc k)
  then obtain s1 where s1: "repeat_op (\<lambda>j s. run_state (take_multi i s)) k s = Ret s1" "multi_inv n s1"
      "multi_list i s1 = drop k (multi_list i s)" "QUEUE_SIZE s1 = QUEUE_SIZE s" "\<forall>j. j \<noteq> i \<longrightarrow> queues s1 ! j = queues s ! j"
    by auto
  have "multi_list i s1 = multi_list i s ! k # drop (Suc k) (multi_list i s)"
    using Suc.prems(2) s1(3) by (simp add: Cons_nth_drop_Suc)
  from take_multi_ok [OF s1(2) i this] obtain s2 where "take_multi i s1 = Ret (multi_list i s ! k, s2)" "multi_inv n s2"
      "QUEUE_SIZE s2 = QUEUE_SIZE s1" "multi_list i s2 = drop (Suc k) (multi_list i s)" "\<forall>j. j \<noteq> i \<longrightarrow> queues s2 ! j = queues s1 ! j"
    by blast
  then show ?case
    using s1 by auto
qed

section \<open>All threads of a side\<close>

lemma multi_producers:
  assumes small: "sz \<le> 2147483647" and k: "k \<le> sz"
    and new: "rings_hold n sz (\<lambda>_. []) s"
  shows "c \<le> n \<Longrightarrow> c * k \<le> length (enqueuetimestamp b) \<Longrightarrow>
    \<exists>s'. repeat_op (\<lambda>i. timed_enqueues (\<lambda>j. put_multi i (sample j)) (clks i) k) c (s, enq_side [] b)
      = Ret (s', enq_side (all_deltas clks c k) b)
    \<and> rings_hold n sz (\<lambda>j. if j < c then map sample [0..<k] else []) s'"
proof (induction c)
  case 0
  then show ?case
    using new by simp
next
  case (Suc c)
  let ?f = "\<lambda>j. if j < c then map sample [0..<k] else []"
  obtain s1 where s1: "repeat_op (\<lambda>i. timed_enqueues (\<lambda>j. put_multi i (sample j)) (clks i) k) c (s, enq_side [] b)
      = Ret (s1, enq_side (all_deltas clks c k) b)" "rings_hold n sz ?f s1"
    using Suc by auto
  obtain s2 where s2: "repeat_op (\<lambda>j. put_multi c (sample j)) k s1 = Ret s2" "rings_hold n sz (?f(c := map sample [0..<k])) s2"
    using fill_ring [OF _ small _ s1(2) k, of c] Suc.prems(1) by auto
  have "timed_enqueues (\<lambda>j. put_multi c (sample j)) (clks c) k (s1, enq_side (all_deltas clks c k) b)
      = Ret (s2, enq_side (all_deltas clks c k @ deltas (clks c) k) b)"
    using s2(1) Suc.prems(2) by (intro timed_enqueues_side) simp_all
  moreover have "?f(c := map sample [0..<k]) = (\<lambda>j. if j < Suc c then map sample [0..<k] else [])"
    by (auto simp: fun_eq_iff)
  ultimately show ?case
    using s1(1) s2(2) by simp
qed

lemma multi_consumers:
  assumes inv: "multi_inv n s" and full: "\<And>j. j < n \<Longrightarrow> k \<le> length (multi_list j s)"
  shows "c \<le> n \<Longrightarrow> c * k \<le> length (dequeuetimestamp b) \<Longrightarrow>
    \<exists>s'. repeat_op (\<lambda>i. timed_dequeues (\<lambda>j s. run_state (take_multi i s)) (clks i) k) c (s, deq_side [] b)
      = Ret (s', deq_side (all_deltas clks c k) b)
    \<and> multi_inv n s' \<and> (\<forall>j<n. multi_list j s' = (if j < c then drop k (multi_list j s) else multi_list j s))"
proof (induction c)
  case 0
  then show ?case
    using inv by simp
next
  case (Suc c)
  obtain s1 where s1: "repeat_op (\<lambda>i. timed_dequeues (\<lambda>j s. run_state (take_multi i s)) (clks i) k) c (s, deq_side [] b)
        = Ret (s1, deq_side (all_deltas clks c k) b)" "multi_inv n s1"
      "\<forall>j<n. multi_list j s1 = (if j < c then drop k (multi_list j s) else multi_list j s)"
    using Suc by auto
  have c: "c < n"
    using Suc.prems(1) by simp
  then have "k \<le> length (multi_list c s1)"
    using s1(3) full by simp
  from drain_ring [OF c s1(2) this] obtain s2 where s2: "repeat_op (\<lambda>j s. run_state (take_multi c s)) k s1 = Ret s2" "multi_inv n s2"
      "multi_list c s2 = drop k (multi_list c s1)" "QUEUE_SIZE s2 = QUEUE_SIZE s1" "\<forall>j. j \<noteq> c \<longrightarrow> queues s2 ! j = queues s1 ! j"
    by blast
  have "timed_dequeues (\<lambda>j s. run_state (take_multi c s)) (clks c) k (s1, deq_side (all_deltas clks c k) b)
      = Ret (s2, deq_side (all_deltas clks c k @ deltas (clks c) k) b)"
    using s2(1) Suc.prems(2) by (intro timed_dequeues_side) simp_all
  moreover have "multi_list j s2 = (if j < Suc c then drop k (multi_list j s) else multi_list j s)" if "j < n" for j
    using s1(3) s2(3-5) that c by (cases "j = c") (auto simp: multi_list_def less_Suc_eq)
  ultimately show ?case
    using s1(1) s2(2) by simp
qed

section \<open>The rounds\<close>

text \<open>The first rings get one element more than the others.\<close>

lemma length_dealt_share:
  assumes "j < t"
  shows "length (dealt t N j) = N div t + (if j < N mod t then 1 else 0)"
proof -
  have "N + t - 1 - j = N div t * t + (N mod t + t - 1 - j)"
    using assms div_mult_mod_eq [of N t] by linarith
  then have "length (dealt t N j) = N div t + (N mod t + t - 1 - j) div t"
    using div_mult_self3 [of t "N div t" "N mod t + t - 1 - j"] assms by (simp only: length_dealt)
  moreover have "N mod t < t"
    using assms by simp
  then have "(N mod t + t - 1 - j) div t = (if j < N mod t then 1 else 0)"
    using assms by (auto intro!: div_nat_eqI simp del: mod_less_divisor)
  ultimately show ?thesis
    by simp
qed

lemma new_rings:
  assumes "0 < n" "n \<le> m" "m \<le> 2147483647" "\<forall>i<n. length (mem i) = m div n"
  shows "\<exists>s'. InitQueues m mem n s = Ret s' \<and> rings_hold n (m div n) (\<lambda>_. []) s' \<and> deal_inv n (m div n) 0 s'"
proof -
  obtain s' where s': "InitQueues m mem n s = Ret s'" "deal_inv n (m div n) 0 s'"
    using InitQueues_ok [OF assms(1-3)] assms(4) by blast
  have "m div n \<le> 2147483647"
    using assms(3) div_le_dividend [of m n] by linarith
  then have "rings_hold n (m div n) (\<lambda>_. []) s'"
    using s'(2) dealt_0 by (auto simp: rings_hold_def deal_inv_def)
  then show ?thesis
    using s' by blast
qed

lemma alloc_sides:
  "enq_side [] (alloc_samples N b) = alloc_samples N b" "deq_side [] (enq_side ts (alloc_samples N b)) = enq_side ts (alloc_samples N b)"
  "length (enqueuetimestamp (alloc_samples N b)) = N" "length (dequeuetimestamp (enq_side ts (alloc_samples N b))) = N"
  by (simp_all add: enq_side_def deq_side_def alloc_samples_def ResetCounters_def)

lemma multi_round_ok:
  assumes "qsort_contract qs" and m: "N \<le> m" "m \<le> 2147483647" and t: "even t" "0 < t" "cur_num_threads t \<le> N"
    and mem: "\<forall>i<cur_num_threads t. length (mem i) = m div cur_num_threads t"
    and ok: "measurable_round ov es (cur_num_threads t) (N div cur_num_threads t)"
  shows "\<exists>r sb'. multi_round qs LATENCY m mem N f ov es t (s, b) = Ret (r, sb') \<and> round_report 4 N f ov es t r
    \<and> (\<forall>j<cur_num_threads t. multi_list j (fst sb') = [])"
proof -
  let ?c = "cur_num_threads t" and ?n = "N div cur_num_threads t" and ?b = "alloc_samples N b"
  note T = thread_share [OF t]
  obtain s0 where s0: "InitQueues m mem ?c s = Ret s0" "rings_hold ?c (m div ?c) (\<lambda>_. []) s0"
    using new_rings [OF T(1) _ m(2) mem, of s] t(3) m(1) by auto
  have le: "?n \<le> m div ?c" "m div ?c \<le> 2147483647"
    using div_le_mono [OF m(1)] le_trans [OF div_le_dividend m(2)] by blast+
  have hs: "(\<lambda>i. enqueuemultiple_handler LATENCY i N ?c (es i)) = (\<lambda>i. timed_enqueues (\<lambda>j. put_multi i (sample j)) (tsc (es i)) ?n)"
      "(\<lambda>i. workermultiple_handler LATENCY i N ?c (es (i + ?c)))
        = (\<lambda>i. timed_dequeues (\<lambda>j s. run_state (take_multi i s)) (tsc (es (i + ?c))) ?n)"
    using T(2) by (simp_all add: fun_eq_iff enqueuemultiple_handler_def workermultiple_handler_def)
  obtain s1 where s1: "repeat_op (\<lambda>i. enqueuemultiple_handler LATENCY i N ?c (es i)) ?c (s0, ?b) = Ret (s1, enq_side (enq_samples es ?c ?n) ?b)"
      "rings_hold ?c (m div ?c) (\<lambda>j. if j < ?c then map sample [0..<?n] else []) s1"
    using multi_producers [OF le(2,1) s0(2), of ?c ?b "\<lambda>i. tsc (es i)"] T(5) by (auto simp: hs alloc_sides enq_samples_def)
  have full: "multi_inv ?c s1" "\<And>j. j < ?c \<Longrightarrow> multi_list j s1 = map sample [0..<?n]"
    using s1(2) by (simp_all add: rings_hold_def)
  obtain s2 where s2: "repeat_op (\<lambda>i. workermultiple_handler LATENCY i N ?c (es (i + ?c))) ?c (s1, enq_side (enq_samples es ?c ?n) ?b)
        = Ret (s2, deq_side (deq_samples es ?c ?n) (enq_side (enq_samples es ?c ?n) ?b))"
      "\<forall>j<?c. multi_list j s2 = []"
    using multi_consumers [OF full(1), of ?n ?c "enq_side (enq_samples es ?c ?n) ?b" "\<lambda>i. tsc (es (i + ?c))"] full(2) T(5)
    by (auto simp: hs alloc_sides deq_samples_def)
  have "barrier_opens t"
    using t by (auto simp: barrier_opens_def cur_num_threads_def elim: evenE)
  moreover obtain r where "with_summary qs LATENCY 4 ?c f ov (s2, deq_side (deq_samples es ?c ?n) (enq_side (enq_samples es ?c ?n) ?b))
      = Ret (r, s2, deq_side (deq_samples es ?c ?n) (enq_side (enq_samples es ?c ?n) ?b))"
      "good_report 4 ?c f ov (enq_samples es ?c ?n) (deq_samples es ?c ?n) r"
    using with_summary_ok [OF assms(1), of "enq_samples es ?c ?n" N "deq_samples es ?c ?n" ov 4 ?c f s2 b] T m ok
    by (auto simp: measurable_round_def)
  ultimately show ?thesis
    using s0(1) s1(1) s2 by (simp add: multi_round_def run_threads_def Let_def round_report_def)
qed

text \<open>Type 8: the samples are those of the one producer and of the \<open>t\<close> workers.\<close>

definition spmc_report :: "nat \<Rightarrow> real \<Rightarrow> int \<Rightarrow> env \<Rightarrow> (nat \<Rightarrow> env) \<Rightarrow> nat \<Rightarrow> report \<Rightarrow> bool" where
  "spmc_report N f ov e es t r \<longleftrightarrow>
     good_report 8 t f ov (deltas (tsc e) N) (all_deltas (\<lambda>i. tsc (es i)) t (N div t)) r"

definition spmc_measurable :: "nat \<Rightarrow> int \<Rightarrow> env \<Rightarrow> (nat \<Rightarrow> env) \<Rightarrow> nat \<Rightarrow> bool" where
  "spmc_measurable N ov e es t \<longleftrightarrow> list_all (measurable ov) (deltas (tsc e) N)
     \<and> list_all (measurable ov) (all_deltas (\<lambda>i. tsc (es i)) t (N div t))"

lemma spmc_round_ok:
  assumes "qsort_contract qs" and m: "N \<le> t * (m div t)" "m \<le> 2147483647" and t: "0 < t" "t \<le> N"
    and mem: "\<forall>i<t. length (mem i) = m div t" and ok: "spmc_measurable N ov e es t"
  shows "\<exists>r sb'. spmc_round qs LATENCY m mem N f ov e es t (s, b) = Ret (r, sb') \<and> spmc_report N f ov e es t r
    \<and> (\<forall>j<t. length (multi_list j (fst sb')) = (if j < N mod t then 1 else 0))"
proof -
  let ?n = "N div t" and ?b = "alloc_samples N b"
  have tm: "t * (m div t) \<le> m" "t \<le> m"
    using m(1) t(2) times_div_less_eq_dividend [of t m] by linarith+
  obtain s0 where s0: "InitQueues m mem t s = Ret s0" "deal_inv t (m div t) 0 s0"
    using new_rings [OF t(1) tm(2) m(2) mem, of s] by auto
  obtain s1 where s1: "repeat_op (deal_multi t) N s0 = Ret s1" "deal_inv t (m div t) N s1"
    using deal_all [OF s0(2) t(1) m(1)] tm(1) m(2) by auto
  have enq: "enqueuespmc_handler LATENCY t N e (s0, ?b) = Ret (s1, enq_side (deltas (tsc e) N) ?b)"
    using timed_enqueues_side [OF s1(1), of "[]" ?b "tsc e"] by (simp add: enqueuespmc_handler_def alloc_sides)
  have full: "multi_inv t s1" "\<And>j. j < t \<Longrightarrow> multi_list j s1 = dealt t N j"
    using s1(2) by (simp_all add: deal_inv_def)
  have len: "length (dealt t N j) = N div t + (if j < N mod t then 1 else 0)" if "j < t" for j
    using that by (rule length_dealt_share)
  have hs: "(\<lambda>i. workerspmc_handler LATENCY i N t (es i)) = (\<lambda>i. timed_dequeues (\<lambda>j s. run_state (take_multi i s)) (tsc (es i)) ?n)"
    using t(1) by (simp add: fun_eq_iff workerspmc_handler_def per_thread_def)
  have tn: "t * ?n \<le> N" "0 < ?n"
    using t by (simp_all add: div_greater_zero_iff)
  let ?D = "all_deltas (\<lambda>i. tsc (es i)) t ?n" and ?E = "deltas (tsc e) N"
  obtain s2 where s2: "repeat_op (\<lambda>i. workerspmc_handler LATENCY i N t (es i)) t (s1, enq_side ?E ?b) = Ret (s2, deq_side ?D (enq_side ?E ?b))"
      "\<forall>j<t. multi_list j s2 = drop ?n (dealt t N j)"
    using multi_consumers [OF full(1), of ?n t "enq_side ?E ?b" "\<lambda>i. tsc (es i)"] full(2) len tn(1)
    by (auto simp: hs alloc_sides)
  have small: "N \<le> 2147483647" "length ?E = N"
    using m tm(1) by (linarith, simp add: deltas_def)
  obtain r where "with_summary qs LATENCY 8 t f ov (s2, deq_side ?D (enq_side ?E ?b)) = Ret (r, s2, deq_side ?D (enq_side ?E ?b))"
      "good_report 8 t f ov ?E ?D r"
    using with_summary_ok [OF assms(1), of ?E N ?D ov 8 t f s2 b] t tn small ok
    by (auto simp: spmc_measurable_def)
  then show ?thesis
    using s0(1) enq s2 len by (simp add: spmc_round_def spmc_report_def)
qed

section \<open>Properties\<close>

text \<open>C19: The latency benchmarks of the multiple array queues. Type 4, for even thread counts with a sample for every
  thread: each round returns, its report describes the samples its producers and workers have measured, and every
  ring is empty. Type 8, for counts at which the rings together have room for all samples: the same, except that of
  the elements dealt out \<^verbatim>\<open>NUM_SAMPLES\<close> modulo the thread count are never dequeued, one in each of the first rings.\<close>

theorem multi_rounds_report:
  assumes "qsort_contract qs" and "m \<le> 2147483647" and "N \<le> m" and "valid_count N t" and "0 < u" and "u \<le> N" and "N \<le> u * (m div u)"
    and "\<forall>i<cur_num_threads t. length (mem i) = m div cur_num_threads t" and "\<forall>i<u. length (mem' i) = m div u"
    and "measurable_round ov es (cur_num_threads t) (N div cur_num_threads t)" and "spmc_measurable N ov e es u"
  shows "(\<exists>r sb'. multi_round qs LATENCY m mem N f ov es t (s, b) = Ret (r, sb') \<and> round_report 4 N f ov es t r
      \<and> (\<forall>j<cur_num_threads t. multi_list j (fst sb') = []))
    \<and> (\<exists>r sb'. spmc_round qs LATENCY m mem' N f ov e es u (s, b) = Ret (r, sb') \<and> spmc_report N f ov e es u r
      \<and> (\<forall>j<u. length (multi_list j (fst sb')) = (if j < N mod u then 1 else 0)))"
proof
  show "\<exists>r sb'. multi_round qs LATENCY m mem N f ov es t (s, b) = Ret (r, sb') \<and> round_report 4 N f ov es t r
      \<and> (\<forall>j<cur_num_threads t. multi_list j (fst sb') = [])"
    using assms(4,8,10) by (intro multi_round_ok [OF assms(1,3,2)]) (auto simp: valid_count_def)
  show "\<exists>r sb'. spmc_round qs LATENCY m mem' N f ov e es u (s, b) = Ret (r, sb') \<and> spmc_report N f ov e es u r
      \<and> (\<forall>j<u. length (multi_list j (fst sb')) = (if j < N mod u then 1 else 0))"
    using assms(9) by (intro spmc_round_ok [OF assms(1,7,2,5,6) _ assms(11)]) auto
qed

theorem multi_rounds_report_witness:
  "(\<exists>r sb'. multi_round sort_by LATENCY 8 (\<lambda>_. [7, 7, 7, 7]) 6 2 1 (\<lambda>_. demo_env) 4 (\<lparr>QUEUE_SIZE = 0, queues = []\<rparr>, demo_bench) = Ret (r, sb')
      \<and> good_report 4 2 2 1 (replicate 6 3) (replicate 6 3) r)
    \<and> (\<exists>r sb'. spmc_round sort_by LATENCY 8 (\<lambda>_. [7, 7]) 6 2 1 demo_env (\<lambda>_. demo_env) 4 (\<lparr>QUEUE_SIZE = 0, queues = []\<rparr>, demo_bench) = Ret (r, sb')
      \<and> good_report 8 4 2 1 (replicate 6 3) (replicate 4 3) r \<and> length (multi_list 1 (fst sb')) = 1 \<and> length (multi_list 2 (fst sb')) = 0)"
proof -
  have ds: "enq_samples (\<lambda>_. demo_env) 2 3 = replicate 6 3" "deq_samples (\<lambda>_. demo_env) 2 3 = replicate 6 3"
    "deltas (tsc demo_env) 6 = replicate 6 3" "all_deltas (\<lambda>_. tsc demo_env) 4 1 = replicate 4 3"
    by (simp_all add: enq_samples_def deq_samples_def all_deltas_def deltas_def demo_env_def eval_nat_numeral)
  have c: "cur_num_threads 4 = 2"
    by (simp add: cur_num_threads_def)
  have m: "measurable 1 3"
    by (simp add: measurable_def)
  have "valid_count 6 4" "measurable_round 1 (\<lambda>_. demo_env) (cur_num_threads 4) (6 div cur_num_threads 4)"
      "spmc_measurable 6 1 demo_env (\<lambda>_. demo_env) 4"
    using m ds(4) by (simp_all add: valid_count_def c measurable_round_def spmc_measurable_def ds list_all_iff)
  note rounds = multi_rounds_report [OF sort_by_contract _ _ this(1) _ _ _ _ _ this(2,3), where m = 8 and f = 2
      and mem = "\<lambda>_. [7, 7, 7, 7]" and mem' = "\<lambda>_. [7, 7]" and s = "\<lparr>QUEUE_SIZE = 0, queues = []\<rparr>" and b = demo_bench]
  have reports: "round_report 4 6 2 1 (\<lambda>_. demo_env) 4 r \<longleftrightarrow> good_report 4 2 2 1 (replicate 6 3) (replicate 6 3) r"
      "spmc_report 6 2 1 demo_env (\<lambda>_. demo_env) 4 r \<longleftrightarrow> good_report 8 4 2 1 (replicate 6 3) (replicate 4 3) r" for r
    using ds(4) by (simp_all add: c ds round_report_def spmc_report_def)
  show ?thesis
  proof (intro conjI)
    show "\<exists>r sb'. multi_round sort_by LATENCY 8 (\<lambda>_. [7, 7, 7, 7]) 6 2 1 (\<lambda>_. demo_env) 4 (\<lparr>QUEUE_SIZE = 0, queues = []\<rparr>, demo_bench) = Ret (r, sb')
        \<and> good_report 4 2 2 1 (replicate 6 3) (replicate 6 3) r"
      using rounds [THEN conjunct1] unfolding reports c by auto
    have "\<forall>j<4. length (multi_list j s) = (if j < 6 mod 4 then 1 else 0) \<Longrightarrow>
        length (multi_list 1 s) = 1 \<and> length (multi_list 2 s) = 0" for s
      by simp
    then show "\<exists>r sb'. spmc_round sort_by LATENCY 8 (\<lambda>_. [7, 7]) 6 2 1 demo_env (\<lambda>_. demo_env) 4 (\<lparr>QUEUE_SIZE = 0, queues = []\<rparr>, demo_bench) = Ret (r, sb')
        \<and> good_report 8 4 2 1 (replicate 6 3) (replicate 4 3) r \<and> length (multi_list 1 (fst sb')) = 1 \<and> length (multi_list 2 (fst sb')) = 0"
      using rounds [THEN conjunct2] unfolding reports c by fastforce
  qed
qed

end
