(* ===== verification/Round_Conc.thy ===== *)
theory Round_Conc
  imports Ring_Conc Multi_Main
begin

text \<open>
  A latency round of \<^verbatim>\<open>QueueBenchmarks/sqmain.c\<close> with its \<open>c\<close> producers and \<open>c\<close> consumers interleaved, from their creation to
  the joins: the barrier, the timed calls on the queue, and the merging of a thread's samples into the global arrays
  under the mutex, in which the copy and the change of the counter are steps of their own. Threads below \<open>c\<close> are producers.
  The queue is given by its own step relation; \<open>view q i\<close> is where thread \<open>i\<close> is in its calls, and \<open>over\<close>
  says that it has made them all. The rounds of queue types 1 and 4 are instances.
\<close>

section \<open>The threads of a round\<close>

datatype round_pc = Created | AtBarrier | Timing | Merging | Copying | Adding | Leaving | Ended

record 'q round_state =
  round_queue :: 'q
  merged :: bench
  lock_taken :: bool
  round_pcs :: "nat \<Rightarrow> round_pc"
  broken :: bool

text \<open>\<^verbatim>\<open>memcpy(enqueuetimestamp + numEnqueue, timestamp, ...)\<close> and \<^verbatim>\<open>numEnqueue += NUM_SAMPLES_PER_THREAD\<close>\<close>

definition copy_samples :: "nat \<Rightarrow> nat \<Rightarrow> ticks list \<Rightarrow> bench \<Rightarrow> bench outcome" where
  "copy_samples c i ts b =
     (if i < c then bindO (copy_at (numEnqueue b) ts (enqueuetimestamp b)) (\<lambda>a. Ret (b\<lparr>enqueuetimestamp := a\<rparr>))
      else bindO (copy_at (numDequeue b) ts (dequeuetimestamp b)) (\<lambda>a. Ret (b\<lparr>dequeuetimestamp := a\<rparr>)))"

definition count_samples :: "nat \<Rightarrow> nat \<Rightarrow> nat \<Rightarrow> bench \<Rightarrow> bench" where
  "count_samples c i k b =
     (if i < c then b\<lparr>numEnqueue := numEnqueue b + k\<rparr> else b\<lparr>numDequeue := numDequeue b + k\<rparr>)"

text \<open>\<open>ts i\<close> are the samples thread \<open>i\<close> measures. Only a thread between the barrier and the mutex makes calls.\<close>

inductive round_step :: "('q \<Rightarrow> 'q \<Rightarrow> bool) \<Rightarrow> ('q \<Rightarrow> nat \<Rightarrow> 'l) \<Rightarrow> ('l \<Rightarrow> bool) \<Rightarrow> nat \<Rightarrow> (nat \<Rightarrow> ticks list)
    \<Rightarrow> 'q round_state \<Rightarrow> 'q round_state \<Rightarrow> bool" for qstep view over c ts where
  arrive: "i < c + c \<Longrightarrow> round_pcs s i = Created \<Longrightarrow>
    round_step qstep view over c ts s (s\<lparr>round_pcs := (round_pcs s)(i := AtBarrier)\<rparr>)"
| pass: "i < c + c \<Longrightarrow> round_pcs s i = AtBarrier \<Longrightarrow> \<forall>j<c + c. round_pcs s j \<noteq> Created \<Longrightarrow>
    round_step qstep view over c ts s (s\<lparr>round_pcs := (round_pcs s)(i := Timing)\<rparr>)"
| call: "qstep (round_queue s) q \<Longrightarrow> \<forall>i<c + c. view q i \<noteq> view (round_queue s) i \<longrightarrow> round_pcs s i = Timing \<Longrightarrow>
    round_step qstep view over c ts s (s\<lparr>round_queue := q\<rparr>)"
| calls_over: "i < c + c \<Longrightarrow> round_pcs s i = Timing \<Longrightarrow> over (view (round_queue s) i) \<Longrightarrow>
    round_step qstep view over c ts s (s\<lparr>round_pcs := (round_pcs s)(i := Merging)\<rparr>)"
| lock: "i < c + c \<Longrightarrow> round_pcs s i = Merging \<Longrightarrow> \<not> lock_taken s \<Longrightarrow>
    round_step qstep view over c ts s (s\<lparr>lock_taken := True, round_pcs := (round_pcs s)(i := Copying)\<rparr>)"
| copy: "i < c + c \<Longrightarrow> round_pcs s i = Copying \<Longrightarrow> copy_samples c i (ts i) (merged s) = Ret b \<Longrightarrow>
    round_step qstep view over c ts s (s\<lparr>merged := b, round_pcs := (round_pcs s)(i := Adding)\<rparr>)"
| copy_fails: "i < c + c \<Longrightarrow> round_pcs s i = Copying \<Longrightarrow> copy_samples c i (ts i) (merged s) = Fault e \<Longrightarrow>
    round_step qstep view over c ts s (s\<lparr>broken := True\<rparr>)"
| add: "i < c + c \<Longrightarrow> round_pcs s i = Adding \<Longrightarrow>
    round_step qstep view over c ts s (s\<lparr>merged := count_samples c i (length (ts i)) (merged s), round_pcs := (round_pcs s)(i := Leaving)\<rparr>)"
| unlock: "i < c + c \<Longrightarrow> round_pcs s i = Leaving \<Longrightarrow>
    round_step qstep view over c ts s (s\<lparr>lock_taken := False, round_pcs := (round_pcs s)(i := Ended)\<rparr>)"

definition round_start :: "'q \<Rightarrow> bench \<Rightarrow> 'q round_state" where
  "round_start q b = \<lparr>round_queue = q, merged = b, lock_taken = False, round_pcs = \<lambda>_. Created, broken = False\<rparr>"

definition all_ended :: "nat \<Rightarrow> 'q round_state \<Rightarrow> bool" where
  "all_ended c s \<longleftrightarrow> (\<forall>i<c + c. round_pcs s i = Ended)"

section \<open>The merged samples\<close>

text \<open>The arrays after the threads of \<open>ord\<close> have merged their samples, in this order.\<close>

definition sides :: "nat \<Rightarrow> (nat \<Rightarrow> ticks list) \<Rightarrow> bench \<Rightarrow> nat list \<Rightarrow> bench" where
  "sides c ts b ord = deq_side (concat (map ts (filter (\<lambda>i. \<not> i < c) ord)))
     (enq_side (concat (map ts (filter (\<lambda>i. i < c) ord))) b)"

lemma length_concat_same: "(\<And>x. x \<in> set xs \<Longrightarrow> length (f x) = n) \<Longrightarrow> length (concat (map f xs)) = length xs * n"
  by (induction xs) simp_all

lemma share_fits:
  assumes "distinct ord" and "set ord \<subseteq> {..<c + c}" and "i < c + c" "i \<notin> set ord" and "\<And>j. j < c + c \<Longrightarrow> length (ts j) = n" and "c * n \<le> N"
    and "P = (\<lambda>j. j < c) \<or> P = (\<lambda>j. \<not> j < c)" and "P i"
  shows "length (concat (map ts (filter P ord))) + length (ts i) \<le> N"
proof -
  have same: "length (ts j) = n" if "j \<in> set (filter P ord)" for j
    using assms(2,5) that by auto
  have "card (set (filter P ord)) \<le> card ({j. j < c + c \<and> P j} - {i})"
    using assms(2,4) by (intro card_mono) auto
  moreover have "card {j. j < c + c \<and> P j} = c"
  proof -
    have halves: "{j. j < c + c \<and> j < c} = {..<c}" "{j. j < c + c \<and> \<not> j < c} = {c..<c + c}"
      by auto
    show ?thesis
      using assms(7) by (elim disjE) (simp_all only: halves card_lessThan card_atLeastLessThan diff_add_inverse)
  qed
  moreover have "card ({j. j < c + c \<and> P j} - {i}) < card {j. j < c + c \<and> P j}"
    using assms(3,8) by (intro psubset_card_mono) auto
  ultimately have "Suc (length (filter P ord)) \<le> c"
    using distinct_card [OF distinct_filter [OF assms(1), of P]] by linarith
  then have "Suc (length (filter P ord)) * n \<le> N"
    using assms(6) by (meson le_trans mult_le_mono1)
  moreover have "length (concat (map ts (filter P ord))) = length (filter P ord) * n"
    using same by (intro length_concat_same) blast
  moreover have "length (ts i) = n"
    using assms(3,5) by blast
  ultimately show ?thesis
    by (simp only: mult_Suc add.commute)
qed

lemma sides_merge:
  assumes "length (enqueuetimestamp b) = N" "length (dequeuetimestamp b) = N"
    and "i < c \<Longrightarrow> length (concat (map ts (filter (\<lambda>j. j < c) ord))) + length (ts i) \<le> N"
    and "\<not> i < c \<Longrightarrow> length (concat (map ts (filter (\<lambda>j. \<not> j < c) ord))) + length (ts i) \<le> N"
  shows "\<exists>b'. copy_samples c i (ts i) (sides c ts b ord) = Ret b' \<and> count_samples c i (length (ts i)) b' = sides c ts b (ord @ [i])"
proof (cases "i < c")
  case True
  then show ?thesis
    using assms(1) assms(3) [OF True]
    by (simp add: copy_samples_def count_samples_def sides_def enq_side_def deq_side_def copy_at_def add.commute)
next
  case False
  then show ?thesis
    using assms(2) assms(4) [OF False]
    by (simp add: copy_samples_def count_samples_def sides_def enq_side_def deq_side_def copy_at_def add.commute)
qed

section \<open>The contract of the queue and what the threads keep\<close>

definition in_section :: "round_pc \<Rightarrow> bool" where
  "in_section p \<longleftrightarrow> p = Copying \<or> p = Adding \<or> p = Leaving"

definition has_merged :: "round_pc \<Rightarrow> bool" where
  "has_merged p \<longleftrightarrow> p = Leaving \<or> p = Ended"

definition calls_made :: "round_pc \<Rightarrow> bool" where
  "calls_made p \<longleftrightarrow> p = Merging \<or> in_section p \<or> p = Ended"

lemma pc_kinds [simp]:
  "\<not> in_section Created" "\<not> in_section AtBarrier" "\<not> in_section Timing" "\<not> in_section Merging" "\<not> in_section Ended"
  "in_section Copying" "in_section Adding" "in_section Leaving"
  "\<not> has_merged Created" "\<not> has_merged AtBarrier" "\<not> has_merged Timing" "\<not> has_merged Merging" "has_merged Ended"
  "\<not> has_merged Copying" "\<not> has_merged Adding" "has_merged Leaving"
  "\<not> calls_made Created" "\<not> calls_made AtBarrier" "\<not> calls_made Timing" "calls_made Merging" "calls_made Ended"
  "calls_made Copying" "calls_made Adding" "calls_made Leaving"
  by (simp_all add: in_section_def has_merged_def calls_made_def)

text \<open>Mutual exclusion, and the samples: \<open>ord\<close> are the threads that have merged theirs.\<close>

definition lock_inv :: "nat \<Rightarrow> 'q round_state \<Rightarrow> bool" where
  "lock_inv c s \<longleftrightarrow> lock_taken s = (\<exists>i<c + c. in_section (round_pcs s i))
     \<and> (\<forall>i<c + c. \<forall>j<c + c. in_section (round_pcs s i) \<and> in_section (round_pcs s j) \<longrightarrow> i = j)"

definition merge_inv :: "nat \<Rightarrow> (nat \<Rightarrow> ticks list) \<Rightarrow> bench \<Rightarrow> 'q round_state \<Rightarrow> bool" where
  "merge_inv c ts b s \<longleftrightarrow> (\<exists>ord. distinct ord \<and> set ord = {i. i < c + c \<and> has_merged (round_pcs s i)}
     \<and> (\<forall>i<c + c. round_pcs s i = Adding \<longrightarrow> copy_samples c i (ts i) (sides c ts b ord) = Ret (merged s))
     \<and> ((\<forall>i<c + c. round_pcs s i \<noteq> Adding) \<longrightarrow> merged s = sides c ts b ord))"

text \<open>\<open>n\<close> samples per thread, and arrays with room for those of a side.\<close>

definition shares :: "nat \<Rightarrow> (nat \<Rightarrow> ticks list) \<Rightarrow> nat \<Rightarrow> bench \<Rightarrow> bool" where
  "shares c ts n b \<longleftrightarrow> (\<forall>i<c + c. length (ts i) = n) \<and> c * n \<le> length (enqueuetimestamp b)
     \<and> length (dequeuetimestamp b) = length (enqueuetimestamp b)"

lemma lock_inv_move:
  assumes "lock_inv c s" and "round_pcs s' = (round_pcs s)(i := p)" and "lock_taken s' = lock_taken s"
    and "in_section p = in_section (round_pcs s i)"
  shows "lock_inv c s'"
proof -
  have "in_section (round_pcs s' j) = in_section (round_pcs s j)" for j
    using assms(2,4) by simp
  then show ?thesis
    using assms(1,3) by (simp add: lock_inv_def)
qed

lemma lock_inv_lock:
  assumes "lock_inv c s" and "round_pcs s' = (round_pcs s)(i := p)" and "i < c + c" and "\<not> lock_taken s" "lock_taken s'" "in_section p"
  shows "lock_inv c s'"
  using assms unfolding lock_inv_def by (auto split: if_splits)

lemma lock_inv_unlock:
  assumes "lock_inv c s" and "round_pcs s' = (round_pcs s)(i := p)" and "i < c + c" and "in_section (round_pcs s i)"
    and "\<not> lock_taken s'" "\<not> in_section p"
  shows "lock_inv c s'"
  using assms unfolding lock_inv_def by (auto split: if_splits)

lemma alone_in_section:
  "lock_inv c s \<Longrightarrow> i < c + c \<Longrightarrow> in_section (round_pcs s i) \<Longrightarrow> j < c + c \<Longrightarrow> j \<noteq> i \<Longrightarrow> \<not> in_section (round_pcs s j)"
  unfolding lock_inv_def by blast

lemma merge_inv_move:
  assumes "merge_inv c ts b s" and "round_pcs s' = (round_pcs s)(i := p)" and "merged s' = merged s"
    and "has_merged p = has_merged (round_pcs s i)" and "p \<noteq> Adding" "round_pcs s i \<noteq> Adding"
  shows "merge_inv c ts b s'"
proof -
  have "has_merged (round_pcs s' j) = has_merged (round_pcs s j)" "round_pcs s' j = Adding \<longleftrightarrow> round_pcs s j = Adding" for j
    using assms(2,4-6) by simp_all
  then show ?thesis
    using assms(1,3) by (simp add: merge_inv_def)
qed

lemma merge_inv_copy:
  assumes "merge_inv c ts b s" and "lock_inv c s" and i: "i < c + c" "round_pcs s i = Copying"
    and "copy_samples c i (ts i) (merged s) = Ret b'"
  shows "merge_inv c ts b (s\<lparr>merged := b', round_pcs := (round_pcs s)(i := Adding)\<rparr>)"
proof -
  have no: "round_pcs s j \<noteq> Adding" if "j < c + c" for j
    using alone_in_section [OF assms(2) i(1) _ that] i(2) by (cases "j = i") auto
  obtain ord where ord: "distinct ord" "set ord = {j. j < c + c \<and> has_merged (round_pcs s j)}" "merged s = sides c ts b ord"
    using assms(1) no unfolding merge_inv_def by blast
  have "has_merged (((round_pcs s)(i := Adding)) j) = has_merged (round_pcs s j)" for j
    using i(2) by simp
  then show ?thesis
    unfolding merge_inv_def using ord no i assms(5) by (intro exI [of _ ord]) auto
qed

lemma merge_room:
  assumes "shares c ts n b" and "distinct ord" "set ord \<subseteq> {..<c + c}" and "i < c + c" "i \<notin> set ord"
  shows "\<exists>b'. copy_samples c i (ts i) (sides c ts b ord) = Ret b' \<and> count_samples c i (length (ts i)) b' = sides c ts b (ord @ [i])"
proof -
  have len: "\<And>j. j < c + c \<Longrightarrow> length (ts j) = n" "c * n \<le> length (enqueuetimestamp b)"
    using assms(1) by (simp_all add: shares_def)
  show ?thesis
    using share_fits [OF assms(2-5) len disjI1 [OF refl]] share_fits [OF assms(2-5) len disjI2 [OF refl]] assms(1)
    by (intro sides_merge [of b "length (enqueuetimestamp b)"]) (simp_all add: shares_def)
qed

lemma merge_inv_add:
  assumes "merge_inv c ts b s" and "lock_inv c s" and i: "i < c + c" "round_pcs s i = Adding" and "shares c ts n b"
  shows "merge_inv c ts b (s\<lparr>merged := count_samples c i (length (ts i)) (merged s), round_pcs := (round_pcs s)(i := Leaving)\<rparr>)"
proof -
  have no: "round_pcs s j \<noteq> Adding" if "j < c + c" "j \<noteq> i" for j
    using alone_in_section [OF assms(2) i(1) _ that] i(2) by auto
  obtain ord where ord: "distinct ord" "set ord = {j. j < c + c \<and> has_merged (round_pcs s j)}"
      "copy_samples c i (ts i) (sides c ts b ord) = Ret (merged s)"
    using assms(1) i unfolding merge_inv_def by blast
  then have "i \<notin> set ord" "set ord \<subseteq> {..<c + c}"
    using i(2) by auto
  then show ?thesis
    unfolding merge_inv_def using merge_room [OF assms(5) ord(1) _ i(1)] ord no i
    by (intro exI [of _ "ord @ [i]"]) auto
qed

definition pcs_left :: "round_pc \<Rightarrow> nat" where
  "pcs_left p = (case p of Created \<Rightarrow> 7 | AtBarrier \<Rightarrow> 6 | Timing \<Rightarrow> 5 | Merging \<Rightarrow> 4 | Copying \<Rightarrow> 3 | Adding \<Rightarrow> 2 | Leaving \<Rightarrow> 1 | Ended \<Rightarrow> 0)"

definition round_left :: "nat \<Rightarrow> 'q round_state \<Rightarrow> nat" where
  "round_left c s = (\<Sum>i<c + c. pcs_left (round_pcs s i))"

lemma round_left_move:
  assumes "i < c + c" and "pcs_left p < pcs_left (round_pcs s i)" and "round_pcs s' = (round_pcs s)(i := p)"
  shows "round_left c s' < round_left c s"
  using sum_upd [OF assms(1), of pcs_left p "round_pcs s"] assms(2) by (simp add: round_left_def assms(3))

text \<open>The summary of a side depends on which samples were merged, not on their order.\<close>

lemma describes_mset:
  assumes "mset cs = mset cs'"
  shows "describes f cs r = describes f cs' r"
proof -
  have "sum_list cs = sum_list cs'"
    using assms by (metis sum_mset_sum_list)
  moreover have "sort cs = sort cs'"
    using assms by (intro properties_for_sort) simp_all
  moreover note mset_eq_setD [OF assms] mset_eq_length [OF assms]
  ultimately show ?thesis
    by (simp only: describes_def spec_median_def)
qed

lemma good_report_mset:
  assumes "mset E = mset E'" and "mset D = mset D'"
  shows "good_report type c f ov E D r = good_report type c f ov E' D' r"
proof -
  have "mset (corrected ov E) = mset (corrected ov E')" "mset (corrected ov D) = mset (corrected ov D')"
    using assms by (simp_all add: corrected_def)
  from describes_mset [OF this(1)] describes_mset [OF this(2)] mset_eq_length [OF assms(1)] mset_eq_length [OF assms(2)]
  show ?thesis
    by (simp add: good_report_def)
qed

lemma concat_mset:
  assumes "mset xs = mset ys"
  shows "mset (concat (map f xs)) = mset (concat (map f ys))"
proof -
  have "mset (concat (map f zs)) = (\<Sum>x\<in>#mset zs. mset (f x))" for zs
    by (induction zs) simp_all
  then show ?thesis
    using assms by simp
qed

definition thread_samples :: "(nat \<Rightarrow> env) \<Rightarrow> nat \<Rightarrow> nat \<Rightarrow> ticks list" where
  "thread_samples es n i = deltas (tsc (es i)) n"

lemma upt_sides: "filter (\<lambda>i. i < c) [0..<c + c] = [0..<c]" "filter (\<lambda>i. \<not> i < c) [0..<c + c] = [c..<c + c]"
proof -
  have "filter (\<lambda>i. i < c) [c..<c + c] = []" "filter (\<lambda>i. \<not> i < c) [c..<c + c] = [c..<c + c]"
      "filter (\<lambda>i. i < c) [0..<c] = [0..<c]" "filter (\<lambda>i. \<not> i < c) [0..<c] = []"
    by (simp_all add: filter_empty_conv filter_id_conv)
  then show "filter (\<lambda>i. i < c) [0..<c + c] = [0..<c]" "filter (\<lambda>i. \<not> i < c) [0..<c + c] = [c..<c + c]"
    by (simp_all only: upt_add_eq_append [OF le0] add_0 filter_append append_Nil append_Nil2)
qed

lemma ordered_samples:
  assumes "mset ord = mset [0..<c + c]"
  shows "mset (concat (map (thread_samples es n) (filter (\<lambda>i. i < c) ord))) = mset (enq_samples es c n)"
    and "mset (concat (map (thread_samples es n) (filter (\<lambda>i. \<not> i < c) ord))) = mset (deq_samples es c n)"
proof -
  have "mset (filter P ord) = mset (filter P [0..<c + c])" for P
    using assms by (metis mset_filter)
  from this [THEN concat_mset]
  have E: "mset (concat (map f (filter P ord))) = mset (concat (map f (filter P [0..<c + c])))" for f :: "nat \<Rightarrow> ticks list" and P .
  show "mset (concat (map (thread_samples es n) (filter (\<lambda>i. i < c) ord))) = mset (enq_samples es c n)"
    by (simp only: E upt_sides) (simp add: enq_samples_def all_deltas_def thread_samples_def [abs_def])
  have shift: "[c..<c + c] = map (\<lambda>i. i + c) [0..<c]"
    by (simp add: map_add_upt)
  show "mset (concat (map (thread_samples es n) (filter (\<lambda>i. \<not> i < c) ord))) = mset (deq_samples es c n)"
    by (simp only: E upt_sides shift) (simp add: deq_samples_def all_deltas_def thread_samples_def o_def del: map_add_upt)
qed

locale concurrent_queue =
  fixes qstep :: "'q \<Rightarrow> 'q \<Rightarrow> bool" and view :: "'q \<Rightarrow> nat \<Rightarrow> 'l" and over :: "'l \<Rightarrow> bool" and qinv :: "'q \<Rightarrow> bool" and c :: nat
  assumes keeps: "qstep q q' \<Longrightarrow> qinv q \<Longrightarrow> qinv q'"
    and rests: "qstep q q' \<Longrightarrow> i < c + c \<Longrightarrow> over (view q i) \<Longrightarrow> view q' i = view q i"
    and ends: "qinv q \<Longrightarrow> \<exists>q'. qstep\<^sup>*\<^sup>* q q' \<and> (\<forall>i<c + c. over (view q' i))"
begin

definition queue_inv :: "'q round_state \<Rightarrow> bool" where
  "queue_inv s \<longleftrightarrow> qinv (round_queue s) \<and> \<not> broken s
     \<and> (\<forall>i<c + c. calls_made (round_pcs s i) \<longrightarrow> over (view (round_queue s) i))"

lemma queue_inv_move:
  assumes "queue_inv s" and "round_queue s' = round_queue s" and "round_pcs s' = (round_pcs s)(i := p)" and "broken s' = broken s"
    and "calls_made p \<Longrightarrow> calls_made (round_pcs s i) \<or> over (view (round_queue s) i)"
  shows "queue_inv s'"
  using assms by (auto simp: queue_inv_def)

text \<open>The queue runs to the end of all calls while the threads that have ended theirs rest.\<close>

lemma run_queue:
  assumes "qstep\<^sup>*\<^sup>* (round_queue s) q" and "\<forall>i<c + c. round_pcs s i = Timing \<or> over (view (round_queue s) i)"
  shows "(round_step qstep view over c ts)\<^sup>*\<^sup>* s (s\<lparr>round_queue := q\<rparr>)
    \<and> (\<forall>i<c + c. round_pcs s i = Timing \<or> over (view q i))"
  using assms(1)
proof induction
  case base
  then show ?case
    using assms(2) by simp
next
  case (step q q')
  have stay: "view q' i = view q i" if "i < c + c" "round_pcs s i \<noteq> Timing" for i
    using rests [OF step.hyps(2) that(1)] step.IH that by blast
  have "round_step qstep view over c ts (s\<lparr>round_queue := q\<rparr>) (s\<lparr>round_queue := q\<rparr>\<lparr>round_queue := q'\<rparr>)"
    using step.hyps(2) stay by (intro round_step.call) auto
  then have "(round_step qstep view over c ts)\<^sup>*\<^sup>* s (s\<lparr>round_queue := q'\<rparr>)"
    using step.IH by (auto intro: rtranclp.rtrancl_into_rtrancl)
  moreover have "round_pcs s i = Timing \<or> over (view q' i)" if "i < c + c" for i
    using step.IH stay [OF that] that by metis
  ultimately show ?case
    by blast
qed

text \<open>All of it together, and every step keeps it.\<close>

definition round_inv :: "(nat \<Rightarrow> ticks list) \<Rightarrow> bench \<Rightarrow> 'q round_state \<Rightarrow> bool" where
  "round_inv ts b s \<longleftrightarrow> queue_inv s \<and> lock_inv c s \<and> merge_inv c ts b s"

lemma round_start_inv: "qinv q \<Longrightarrow> deq_side [] (enq_side [] b) = b \<Longrightarrow> round_inv ts b (round_start q b)"
  by (simp add: round_inv_def queue_inv_def lock_inv_def merge_inv_def round_start_def sides_def)

lemma copy_possible:
  assumes "round_inv ts b s" and "shares c ts n b" and i: "i < c + c" "round_pcs s i = Copying"
  shows "\<exists>b'. copy_samples c i (ts i) (merged s) = Ret b'"
proof -
  have "lock_inv c s" "merge_inv c ts b s"
    using assms(1) by (simp_all add: round_inv_def)
  then have "round_pcs s j \<noteq> Adding" if "j < c + c" for j
    using alone_in_section [of c s i j] i that by (cases "j = i") auto
  with \<open>merge_inv c ts b s\<close> obtain ord where "distinct ord" "set ord = {j. j < c + c \<and> has_merged (round_pcs s j)}"
      "merged s = sides c ts b ord"
    unfolding merge_inv_def by blast
  moreover from this have "i \<notin> set ord" "set ord \<subseteq> {..<c + c}"
    using i(2) by auto
  ultimately show ?thesis
    using merge_room [OF assms(2) _ _ i(1), of ord] by auto
qed

lemma round_step_inv:
  assumes "round_step qstep view over c ts s s'" and "round_inv ts b s" and "shares c ts n b"
  shows "round_inv ts b s'"
  using assms
proof (induction rule: round_step.induct)
  case (arrive i s)
  then show ?case
    unfolding round_inv_def
    by (auto intro: queue_inv_move [of s _ i] lock_inv_move [of c s _ i] merge_inv_move [of c ts b s _ i])
next
  case (pass i s)
  then show ?case
    unfolding round_inv_def
    by (auto intro: queue_inv_move [of s _ i] lock_inv_move [of c s _ i] merge_inv_move [of c ts b s _ i])
next
  case (call s q)
  have "queue_inv (s\<lparr>round_queue := q\<rparr>)"
    unfolding queue_inv_def
  proof (intro conjI allI impI)
    fix i assume i: "i < c + c" "calls_made (round_pcs (s\<lparr>round_queue := q\<rparr>) i)"
    then show "over (view (round_queue (s\<lparr>round_queue := q\<rparr>)) i)"
      using call.prems(1) rests [OF call.hyps(1) i(1)] by (simp add: round_inv_def queue_inv_def)
  qed (use call keeps in \<open>simp_all add: round_inv_def queue_inv_def\<close>)
  then show ?case
    using call by (simp add: round_inv_def lock_inv_def merge_inv_def)
next
  case (calls_over i s)
  then show ?case
    unfolding round_inv_def
    by (auto intro: queue_inv_move [of s _ i] lock_inv_move [of c s _ i] merge_inv_move [of c ts b s _ i])
next
  case (lock i s)
  then show ?case
    unfolding round_inv_def
    by (auto intro: queue_inv_move [of s _ i] lock_inv_lock [of c s _ i] merge_inv_move [of c ts b s _ i])
next
  case (copy i s b')
  then show ?case
    unfolding round_inv_def
    by (auto intro: queue_inv_move [of s _ i] lock_inv_move [of c s _ i] merge_inv_copy)
next
  case (copy_fails i s e)
  then show ?case
    using copy_possible [of ts b s n i] by auto
next
  case (add i s)
  then show ?case
    unfolding round_inv_def
    by (auto intro: queue_inv_move [of s _ i] lock_inv_move [of c s _ i] merge_inv_add)
next
  case (unlock i s)
  then show ?case
    unfolding round_inv_def
    by (auto intro: queue_inv_move [of s _ i] lock_inv_unlock [of c s _ i] merge_inv_move [of c ts b s _ i])
qed

lemma round_runs_inv:
  assumes "(round_step qstep view over c ts)\<^sup>*\<^sup>* s s'" and "round_inv ts b s" and "shares c ts n b"
  shows "round_inv ts b s'"
  using assms(1,2) by induction (blast intro: round_step_inv [OF _ _ assms(3)])+

text \<open>Some thread always can go on.\<close>

lemma one_move:
  assumes "round_step qstep view over c ts s s'" and "i < c + c" and "round_pcs s' = (round_pcs s)(i := p)"
    and "pcs_left p < pcs_left (round_pcs s i)"
  shows "\<exists>s'. (round_step qstep view over c ts)\<^sup>*\<^sup>* s s' \<and> round_left c s' < round_left c s"
  using round_left_move [OF assms(2,4,3)] assms(1) by blast

lemma section_moves:
  assumes "round_inv ts b s" and "shares c ts n b" and i: "i < c + c" "in_section (round_pcs s i)"
  shows "\<exists>s'. (round_step qstep view over c ts)\<^sup>*\<^sup>* s s' \<and> round_left c s' < round_left c s"
proof -
  consider "round_pcs s i = Copying" | "round_pcs s i = Adding" | "round_pcs s i = Leaving"
    using i(2) by (auto simp: in_section_def)
  then show ?thesis
  proof cases
    case 1
    obtain b' where "copy_samples c i (ts i) (merged s) = Ret b'"
      using copy_possible [OF assms(1,2) i(1) 1] by blast
    from one_move [where p = Adding, OF round_step.copy [where ts = ts, OF i(1) 1 this] i(1)] 1 show ?thesis
      by (simp add: pcs_left_def)
  next
    case 2
    from one_move [where p = Leaving, OF round_step.add [OF i(1) 2] i(1)] 2 show ?thesis
      by (simp add: pcs_left_def)
  next
    case 3
    from one_move [where p = Ended, OF round_step.unlock [OF i(1) 3] i(1)] 3 show ?thesis
      by (simp add: pcs_left_def)
  qed
qed

lemma timing_ends:
  assumes "round_inv ts b s" and i: "i < c + c" "round_pcs s i = Timing"
    and "\<forall>j<c + c. round_pcs s j \<noteq> Created \<and> round_pcs s j \<noteq> AtBarrier"
  shows "\<exists>s'. (round_step qstep view over c ts)\<^sup>*\<^sup>* s s' \<and> round_left c s' < round_left c s"
proof -
  have q: "queue_inv s"
    using assms(1) by (simp add: round_inv_def)
  have "round_pcs s j = Timing \<or> over (view (round_queue s) j)" if "j < c + c" for j
  proof (cases "round_pcs s j")
    case Created
    then show ?thesis using assms(4) that by blast
  next
    case AtBarrier
    then show ?thesis using assms(4) that by blast
  qed (use q that in \<open>simp_all add: queue_inv_def\<close>)
  moreover obtain q' where q': "qstep\<^sup>*\<^sup>* (round_queue s) q'" "\<forall>j<c + c. over (view q' j)"
    using ends [of "round_queue s"] q by (auto simp: queue_inv_def)
  ultimately have run: "(round_step qstep view over c ts)\<^sup>*\<^sup>* s (s\<lparr>round_queue := q'\<rparr>)"
    using run_queue [OF q'(1), of ts] by blast
  let ?s = "s\<lparr>round_queue := q'\<rparr>"
  have "round_step qstep view over c ts ?s (?s\<lparr>round_pcs := (round_pcs ?s)(i := Merging)\<rparr>)"
    using i q'(2) by (intro round_step.calls_over) simp_all
  from one_move [where p = Merging, OF this i(1)] i(2) obtain s' where
      "(round_step qstep view over c ts)\<^sup>*\<^sup>* ?s s'" "round_left c s' < round_left c ?s"
    by (auto simp: pcs_left_def)
  moreover have "round_left c ?s = round_left c s"
    by (simp add: round_left_def)
  ultimately show ?thesis
    using rtranclp_trans [OF run, of s'] by auto
qed

lemma round_advances:
  assumes "round_inv ts b s" and "shares c ts n b" and "\<not> all_ended c s"
  shows "\<exists>s'. (round_step qstep view over c ts)\<^sup>*\<^sup>* s s' \<and> round_left c s' < round_left c s"
proof -
  consider i where "i < c + c" "round_pcs s i = Created"
    | i where "\<forall>j<c + c. round_pcs s j \<noteq> Created" "i < c + c" "round_pcs s i = AtBarrier"
    | i where "\<forall>j<c + c. round_pcs s j \<noteq> Created \<and> round_pcs s j \<noteq> AtBarrier" "i < c + c" "round_pcs s i = Timing"
    | i where "i < c + c" "in_section (round_pcs s i)"
    | i where "\<forall>j<c + c. \<not> in_section (round_pcs s j)" "i < c + c" "round_pcs s i = Merging"
  proof -
    obtain i where i: "i < c + c" "round_pcs s i \<noteq> Ended"
      using assms(3) by (auto simp: all_ended_def)
    then show ?thesis
      using that by (cases "round_pcs s i") (simp_all, blast+)
  qed
  then show ?thesis
  proof cases
    case 1
    from one_move [where p = AtBarrier, OF round_step.arrive [OF 1] 1(1)] 1(2) show ?thesis
      by (simp add: pcs_left_def)
  next
    case 2
    from one_move [where p = Timing, OF round_step.pass [OF 2(2,3,1)] 2(2)] 2(3) show ?thesis
      by (simp add: pcs_left_def)
  next
    case 3
    from timing_ends [OF assms(1) 3(2,3,1)] show ?thesis .
  next
    case 4
    from section_moves [OF assms(1,2) 4] show ?thesis .
  next
    case 5
    have "\<not> lock_taken s"
      using assms(1) 5(1) by (simp add: round_inv_def lock_inv_def)
    from one_move [where p = Copying, OF round_step.lock [OF 5(2,3) this] 5(2)] 5(3) show ?thesis
      by (simp add: pcs_left_def)
  qed
qed

lemma round_reaches_end:
  assumes "round_inv ts b s" and "shares c ts n b"
  shows "\<exists>s'. (round_step qstep view over c ts)\<^sup>*\<^sup>* s s' \<and> all_ended c s'"
  using assms(1)
proof (induction "round_left c s" arbitrary: s rule: less_induct)
  case less
  show ?case
  proof (cases "all_ended c s")
    case True
    then show ?thesis by blast
  next
    case False
    from round_advances [OF less.prems assms(2) this] obtain s1 where
        s1: "(round_step qstep view over c ts)\<^sup>*\<^sup>* s s1" "round_left c s1 < round_left c s"
      by blast
    from less.hyps [OF s1(2) round_runs_inv [OF s1(1) less.prems assms(2)]] show ?thesis
      using s1(1) by (blast intro: rtranclp_trans)
  qed
qed

text \<open>When all threads have ended, the arrays hold the samples of every thread, in some order.\<close>

lemma ended_merged:
  assumes "round_inv ts b s" and "all_ended c s"
  shows "\<exists>ord. mset ord = mset [0..<c + c] \<and> merged s = sides c ts b ord"
    and "\<forall>i<c + c. over (view (round_queue s) i)" "qinv (round_queue s)"
proof -
  have pcs: "round_pcs s i = Ended" if "i < c + c" for i
    using assms(2) that by (simp add: all_ended_def)
  have "\<forall>i<c + c. round_pcs s i \<noteq> Adding" "{i. i < c + c \<and> has_merged (round_pcs s i)} = {..<c + c}"
    using pcs by auto
  moreover have "merge_inv c ts b s"
    using assms(1) by (simp add: round_inv_def)
  ultimately obtain ord where "distinct ord" "set ord = {..<c + c}" "merged s = sides c ts b ord"
    unfolding merge_inv_def by auto
  moreover from this have "mset ord = mset [0..<c + c]"
    by (metis atLeast0LessThan atLeast_upt distinct_upt set_eq_iff_mset_eq_distinct)
  ultimately show "\<exists>ord. mset ord = mset [0..<c + c] \<and> merged s = sides c ts b ord"
    by blast
  show "\<forall>i<c + c. over (view (round_queue s) i)" "qinv (round_queue s)"
    using assms(1) pcs by (simp_all add: round_inv_def queue_inv_def)
qed

text \<open>The round as a whole: it never breaks, it can always be completed, and then the summary is that of the samples of all threads.\<close>

lemma interleaved_round:
  assumes "qinv q" and "qsort_contract qs" and c: "0 < c" "c \<le> N" and "N \<le> 2147483647"
    and ok: "measurable_round ov es c (N div c)"
    and runs: "(round_step qstep view over c (thread_samples es (N div c)))\<^sup>*\<^sup>* (round_start q (alloc_samples N b)) s"
  shows "\<not> broken s" and "\<exists>s'. (round_step qstep view over c (thread_samples es (N div c)))\<^sup>*\<^sup>* s s' \<and> all_ended c s'"
    and "all_ended c s \<Longrightarrow> qinv (round_queue s) \<and> (\<forall>i<c + c. over (view (round_queue s) i))
      \<and> (\<exists>r. with_summary qs LATENCY type c f ov (round_queue s, merged s) = Ret (r, round_queue s, merged s)
         \<and> good_report type c f ov (enq_samples es c (N div c)) (deq_samples es c (N div c)) r)"
proof -
  let ?n = "N div c" and ?ts = "thread_samples es (N div c)" and ?b = "alloc_samples N b"
  have sh: "shares c ?ts ?n ?b"
    by (simp add: shares_def thread_samples_def deltas_def alloc_samples_def)
  have inv: "round_inv ?ts ?b s"
    using round_runs_inv [OF runs round_start_inv [OF assms(1)] sh] by (metis alloc_sides(1,2))
  then show "\<not> broken s"
    by (simp add: round_inv_def queue_inv_def)
  show "\<exists>s'. (round_step qstep view over c ?ts)\<^sup>*\<^sup>* s s' \<and> all_ended c s'"
    by (rule round_reaches_end [OF inv sh])
  assume ended: "all_ended c s"
  obtain ord where ord: "mset ord = mset [0..<c + c]" "merged s = sides c ?ts ?b ord"
    using ended_merged(1) [OF inv ended] by blast
  let ?E = "concat (map ?ts (filter (\<lambda>i. i < c) ord))" and ?D = "concat (map ?ts (filter (\<lambda>i. \<not> i < c) ord))"
  note S = ordered_samples [OF ord(1), of es ?n]
  have len: "length ?E = c * ?n" "length ?D = c * ?n"
    using mset_eq_length [OF S(1)] mset_eq_length [OF S(2)] by simp_all
  have "0 < c * ?n" "c * ?n \<le> N"
    using c by (simp_all add: div_greater_zero_iff)
  moreover have "list_all (measurable ov) ?E" "list_all (measurable ov) ?D"
    using ok mset_eq_setD [OF S(1)] mset_eq_setD [OF S(2)] by (simp_all add: measurable_round_def list_all_iff)
  ultimately show "qinv (round_queue s) \<and> (\<forall>i<c + c. over (view (round_queue s) i))
      \<and> (\<exists>r. with_summary qs LATENCY type c f ov (round_queue s, merged s) = Ret (r, round_queue s, merged s)
         \<and> good_report type c f ov (enq_samples es c ?n) (deq_samples es c ?n) r)"
    using with_summary_ok [OF assms(2), of ?E N ?D ov type c f "round_queue s" b] len assms(5) ended_merged(2,3) [OF inv ended]
    by (simp add: ord(2) sides_def good_report_mset [OF S])
qed

end

end
