(* ===== verification/Turn_Rounds.thy ===== *)
theory Turn_Rounds
  imports Round_Conc
begin

text \<open>
  What the latency rounds of threads that take turns (theory \<open>Turns\<close>) come to, for every schedule. The tally of a
  schedule is what can be read off it without a queue: the calls each thread has made, the elements
  that wait, the dequeues that found none, and the order in which the threads have returned. A round over any queue that
  keeps the contract \<open>turn_queue\<close> follows its tally; the rounds of types 2, 3 and 5 are instances.
\<close>

section \<open>The tally of a schedule\<close>

text \<open>What a dequeue does that finds the queue empty.\<close>

datatype on_empty = Faults fault | Skips | Retries

record tally =
  made :: "nat \<Rightarrow> nat"
  waiting :: nat
  missed :: nat
  ended_in :: "nat list"

definition tally_start :: tally where
  "tally_start = \<lparr>made = (\<lambda>_. 0), waiting = 0, missed = 0, ended_in = []\<rparr>"

text \<open>A turn of thread \<open>i\<close>; each thread makes \<open>n\<close> calls. \<open>ot\<close> is the fault of a dequeue that finds an element, if it has one.\<close>

definition tally_turn :: "on_empty \<Rightarrow> fault option \<Rightarrow> nat \<Rightarrow> nat \<Rightarrow> nat \<Rightarrow> tally \<Rightarrow> tally outcome" where
  "tally_turn oe ot c n i s =
     (let on = s\<lparr>made := (made s)(i := Suc (made s i))\<rparr> in
      if c + c \<le> i \<or> n < made s i then Ret s
      else if made s i = n then Ret (on\<lparr>ended_in := ended_in s @ [i]\<rparr>)
      else if i < c then Ret (on\<lparr>waiting := Suc (waiting s)\<rparr>)
      else if 0 < waiting s then (case ot of Some e \<Rightarrow> Fault e | None \<Rightarrow> Ret (on\<lparr>waiting := waiting s - 1\<rparr>))
      else (case oe of Faults e \<Rightarrow> Fault e | Skips \<Rightarrow> Ret (on\<lparr>missed := Suc (missed s)\<rparr>) | Retries \<Rightarrow> Ret s))"

fun tally_turns :: "on_empty \<Rightarrow> fault option \<Rightarrow> nat \<Rightarrow> nat \<Rightarrow> nat list \<Rightarrow> tally \<Rightarrow> tally outcome" where
  "tally_turns oe ot c n [] s = Ret s"
| "tally_turns oe ot c n (i # is) s = bindO (tally_turn oe ot c n i s) (tally_turns oe ot c n is)"

definition calls_in :: "nat \<Rightarrow> tally \<Rightarrow> nat set \<Rightarrow> nat" where
  "calls_in n s A = (\<Sum>i\<in>A. min (made s i) n)"

definition tally_inv :: "nat \<Rightarrow> nat \<Rightarrow> tally \<Rightarrow> bool" where
  "tally_inv c n s \<longleftrightarrow> (\<forall>i<c + c. made s i \<le> Suc n) \<and> distinct (ended_in s)
     \<and> set (ended_in s) = {i. i < c + c \<and> made s i = Suc n}
     \<and> waiting s + calls_in n s {c..<c + c} = calls_in n s {..<c} + missed s \<and> waiting s \<le> calls_in n s {..<c}"

lemma tally_start_inv: "tally_inv c n tally_start"
  by (simp add: tally_inv_def tally_start_def calls_in_def)

lemma calls_in_upd:
  assumes made: "made s' = (made s)(i := Suc (made s i))" and "finite A"
  shows "calls_in n s' A = calls_in n s A + (if i \<in> A \<and> made s i < n then 1 else 0)"
proof (cases "i \<in> A")
  case True
  have "calls_in n s' A = min (Suc (made s i)) n + (\<Sum>j\<in>A - {i}. min (made s j) n)"
    unfolding calls_in_def using True assms by (simp add: sum.remove [of A i])
  moreover have "calls_in n s A = min (made s i) n + (\<Sum>j\<in>A - {i}. min (made s j) n)"
    unfolding calls_in_def using True assms by (simp add: sum.remove [of A i])
  ultimately show ?thesis
    using True by simp
next
  case False
  then show ?thesis
    unfolding calls_in_def made by (auto intro: sum.cong)
qed

text \<open>A thread makes one more call; or it returns.\<close>

lemma tally_inv_call:
  assumes inv: "tally_inv c n s" and i: "i < c + c" "made s i < n" and made: "made s' = (made s)(i := Suc (made s i))"
    and same: "ended_in s' = ended_in s"
    and w: "waiting s' + (if c \<le> i then 1 else 0) + missed s = waiting s + (if c \<le> i then 0 else 1) + missed s'"
      "waiting s' \<le> waiting s + (if c \<le> i then 0 else 1)"
  shows "tally_inv c n s'"
proof -
  have "made s' j = Suc n \<longleftrightarrow> made s j = Suc n" for j
    using i(2) made by simp
  then have ended: "{j. j < c + c \<and> made s' j = Suc n} = {j. j < c + c \<and> made s j = Suc n}"
    by simp
  have most: "\<forall>j<c + c. made s' j \<le> Suc n"
    using inv i(2) made by (simp add: tally_inv_def)
  have calls: "calls_in n s' {..<c} = calls_in n s {..<c} + (if c \<le> i then 0 else 1)"
      "calls_in n s' {c..<c + c} = calls_in n s {c..<c + c} + (if c \<le> i then 1 else 0)"
    using calls_in_upd [OF made, of "{..<c}" n] calls_in_upd [OF made, of "{c..<c + c}" n] i by auto
  have old: "waiting s + calls_in n s {c..<c + c} = calls_in n s {..<c} + missed s" "waiting s \<le> calls_in n s {..<c}"
      "distinct (ended_in s)" "set (ended_in s) = {j. j < c + c \<and> made s j = Suc n}"
    using inv by (simp_all add: tally_inv_def)
  have "waiting s' + calls_in n s' {c..<c + c} = calls_in n s' {..<c} + missed s'" "waiting s' \<le> calls_in n s' {..<c}"
    using calls old(1,2) w by (auto split: if_splits)
  then show ?thesis
    unfolding tally_inv_def same using most old(3,4) ended by simp
qed

lemma tally_inv_end:
  assumes inv: "tally_inv c n s" and i: "i < c + c" "made s i = n" and made: "made s' = (made s)(i := Suc (made s i))"
    and same: "ended_in s' = ended_in s @ [i]" "waiting s' = waiting s" "missed s' = missed s"
  shows "tally_inv c n s'"
proof -
  have ended: "distinct (ended_in s)" "set (ended_in s) = {j. j < c + c \<and> made s j = Suc n}"
    using inv by (simp_all add: tally_inv_def)
  have "{j. j < c + c \<and> made s' j = Suc n} = insert i {j. j < c + c \<and> made s j = Suc n}"
    using i made by auto
  moreover have "\<forall>j<c + c. made s' j \<le> Suc n"
    using inv i(2) made by (simp add: tally_inv_def)
  moreover have "calls_in n s' {..<c} = calls_in n s {..<c}" "calls_in n s' {c..<c + c} = calls_in n s {c..<c + c}"
    using calls_in_upd [OF made, of "{..<c}" n] calls_in_upd [OF made, of "{c..<c + c}" n] i by auto
  moreover have "i \<notin> set (ended_in s)"
    using ended(2) i(2) by simp
  moreover have "waiting s + calls_in n s {c..<c + c} = calls_in n s {..<c} + missed s" "waiting s \<le> calls_in n s {..<c}"
    using inv by (simp_all add: tally_inv_def)
  ultimately show ?thesis
    unfolding tally_inv_def same using ended by simp
qed

lemma tally_turn_inv:
  assumes inv: "tally_inv c n s" and turn: "tally_turn oe ot c n i s = Ret s'"
  shows "tally_inv c n s'"
proof -
  let ?on = "s\<lparr>made := (made s)(i := Suc (made s i))\<rparr>"
  consider (void) "c + c \<le> i \<or> n < made s i" | (finish) "i < c + c" "made s i = n"
    | (put) "i < c" "made s i < n" | (take) "c \<le> i" "i < c + c" "made s i < n" "0 < waiting s"
    | (empty) "c \<le> i" "i < c + c" "made s i < n" "waiting s = 0"
    by linarith
  then show ?thesis
  proof cases
    case void
    then show ?thesis
      using inv turn by (simp add: tally_turn_def)
  next
    case finish
    then have "s' = ?on\<lparr>ended_in := ended_in s @ [i]\<rparr>"
      using turn by (simp add: tally_turn_def)
    then show ?thesis
      using finish by (intro tally_inv_end [OF inv, of i]) simp_all
  next
    case put
    then have "s' = ?on\<lparr>waiting := Suc (waiting s)\<rparr>"
      using turn by (simp add: tally_turn_def)
    then show ?thesis
      using put by (intro tally_inv_call [OF inv, of i]) simp_all
  next
    case take
    then have "s' = ?on\<lparr>waiting := waiting s - 1\<rparr>"
      using turn by (simp add: tally_turn_def split: option.splits)
    then show ?thesis
      using take by (intro tally_inv_call [OF inv, of i]) simp_all
  next
    case empty
    then have "s' = s \<or> s' = ?on\<lparr>missed := Suc (missed s)\<rparr>"
      using turn by (simp add: tally_turn_def split: on_empty.splits)
    moreover have "tally_inv c n (?on\<lparr>missed := Suc (missed s)\<rparr>)"
      using empty by (intro tally_inv_call [OF inv, of i]) simp_all
    ultimately show ?thesis
      using inv by metis
  qed
qed

lemma tally_turns_inv: "tally_inv c n s \<Longrightarrow> tally_turns oe ot c n is s = Ret s' \<Longrightarrow> tally_inv c n s'"
  by (induction "is" arbitrary: s) (auto simp: bindO_Ret_iff intro: tally_turn_inv)

lemma calls_in_most: "(\<And>i. i \<in> A \<Longrightarrow> i < c + c) \<Longrightarrow> tally_inv c n s \<Longrightarrow> calls_in n s A \<le> card A * n"
  unfolding calls_in_def by (rule sum_bounded_above [where K = n, simplified]) simp

text \<open>All threads have returned.\<close>

definition tally_over :: "nat \<Rightarrow> nat \<Rightarrow> tally \<Rightarrow> bool" where
  "tally_over c n s \<longleftrightarrow> (\<forall>i<c + c. made s i = Suc n)"

lemma tally_over_facts:
  assumes "tally_inv c n s" and "tally_over c n s"
  shows "mset (ended_in s) = mset [0..<c + c]" and "waiting s = missed s"
proof -
  have "set (ended_in s) = {..<c + c}"
    using assms by (auto simp: tally_inv_def tally_over_def)
  then show "mset (ended_in s) = mset [0..<c + c]"
    using assms(1) unfolding tally_inv_def by (metis atLeast0LessThan atLeast_upt distinct_upt set_eq_iff_mset_eq_distinct)
  have "calls_in n s {..<c} = c * n" "calls_in n s {c..<c + c} = c * n"
    using assms(2) by (simp_all add: calls_in_def tally_over_def)
  then show "waiting s = missed s"
    using assms(1) by (simp add: tally_inv_def)
qed

section \<open>Rounds follow their tallies\<close>

locale turn_queue =
  fixes enq :: "nat \<Rightarrow> nat \<Rightarrow> 's \<Rightarrow> ('s \<times> bool) outcome" and deq :: "'s \<Rightarrow> ('s \<times> bool) outcome" and qinv :: "'s \<Rightarrow> bool"
    and qlen :: "'s \<Rightarrow> nat" and cap :: nat and oe :: on_empty and ot :: "fault option"
  assumes enq_law: "qinv q \<Longrightarrow> qlen q < cap \<Longrightarrow> \<exists>q'. enq i k q = Ret (q', True) \<and> qinv q' \<and> qlen q' = Suc (qlen q)"
    and take_law: "qinv q \<Longrightarrow> 0 < qlen q \<Longrightarrow>
      (case ot of Some e \<Rightarrow> deq q = Fault e | None \<Rightarrow> \<exists>q'. deq q = Ret (q', True) \<and> qinv q' \<and> qlen q' = qlen q - 1)"
    and empty_law: "qinv q \<Longrightarrow> qlen q = 0 \<Longrightarrow>
      (case oe of Faults e \<Rightarrow> deq q = Fault e | Skips \<Rightarrow> \<exists>q'. deq q = Ret (q', True) \<and> qinv q' \<and> qlen q' = 0
        | Retries \<Rightarrow> \<exists>q'. deq q = Ret (q', False) \<and> qinv q' \<and> qlen q' = 0)"
begin

definition standing :: "nat \<Rightarrow> nat \<Rightarrow> tally \<Rightarrow> nat \<Rightarrow> nat option" where
  "standing c n s = (\<lambda>i. if i < c + c \<and> made s i \<le> n then Some (made s i) else None)"

text \<open>The state a tally stands for.\<close>

definition follows :: "nat \<Rightarrow> nat \<Rightarrow> (nat \<Rightarrow> ticks list) \<Rightarrow> bench \<Rightarrow> tally \<Rightarrow> (nat \<Rightarrow> nat option) \<times> 's \<times> bench \<Rightarrow> bool" where
  "follows c n ts b s x \<longleftrightarrow> (\<exists>q. x = (standing c n s, q, sides c ts b (ended_in s)) \<and> qinv q \<and> qlen q = waiting s)"

definition follows_outcome :: "nat \<Rightarrow> nat \<Rightarrow> (nat \<Rightarrow> ticks list) \<Rightarrow> bench \<Rightarrow> tally outcome \<Rightarrow> ((nat \<Rightarrow> nat option) \<times> 's \<times> bench) outcome \<Rightarrow> bool" where
  "follows_outcome c n ts b r x \<longleftrightarrow> (case r of Ret s \<Rightarrow> \<exists>y. x = Ret y \<and> follows c n ts b s y | Fault e \<Rightarrow> x = Fault e | Hang \<Rightarrow> False)"

lemma merge_finishes:
  assumes "shares c ts n b" and "tally_inv c n s" and i: "i < c + c" "made s i \<noteq> Suc n" and "ts i = deltas (tsc e) n" "n = N div c"
  shows "(if i < c then finish_enqueues LATENCY N c e (sides c ts b (ended_in s)) else finish_dequeues LATENCY N c e (sides c ts b (ended_in s)))
    = Ret (sides c ts b (ended_in s @ [i]))"
proof -
  have "distinct (ended_in s)" "set (ended_in s) \<subseteq> {..<c + c}" "i \<notin> set (ended_in s)"
    using assms(2) i(2) by (auto simp: tally_inv_def)
  from merge_room [OF assms(1) this(1,2) i(1) this(3)] obtain b' where
      "copy_samples c i (ts i) (sides c ts b (ended_in s)) = Ret b'" "count_samples c i (length (ts i)) b' = sides c ts b (ended_in s @ [i])"
    by blast
  then show ?thesis
    using assms(5,6)
    by (auto simp: finish_enqueues_def finish_dequeues_def merge_enqueue_def merge_dequeue_def copy_samples_def count_samples_def bindO_Ret_iff split: if_splits)
qed

lemma turn_follows:
  assumes sh: "shares c ts n b" and inv: "tally_inv c n s" and x: "follows c n ts b s x" and cap: "c * n \<le> cap"
    and ts: "\<And>i. ts i = deltas (tsc (es i)) n" and n: "n = N div c"
  shows "follows_outcome c n ts b (tally_turn oe ot c n i s) (take_turns (counted_thread LATENCY N c enq deq es) [i] x)"
proof -
  obtain q where q: "x = (standing c n s, q, sides c ts b (ended_in s))" "qinv q" "qlen q = waiting s"
    using x by (auto simp: follows_def)
  let ?on = "s\<lparr>made := (made s)(i := Suc (made s i))\<rparr>"
  have on: "(standing c n s)(i := if made s i < n then Some (Suc (made s i)) else None) = standing c n ?on"
    if "i < c + c" "made s i \<le> n"
    using that by (auto simp: standing_def fun_eq_iff)
  have upd: "standing c n (r\<lparr>waiting := w\<rparr>) = standing c n r" "standing c n (r\<lparr>missed := w\<rparr>) = standing c n r"
      "standing c n (r\<lparr>ended_in := l\<rparr>) = standing c n r" for r w l
    by (simp_all add: standing_def cong: if_cong)
  consider (void) "c + c \<le> i \<or> n < made s i" | (finish) "i < c + c" "made s i = n"
    | (put) "i < c" "made s i < n" | (take) "c \<le> i" "i < c + c" "made s i < n" "0 < waiting s"
    | (empty) "c \<le> i" "i < c + c" "made s i < n" "waiting s = 0"
    by linarith
  then show ?thesis
  proof cases
    case void
    then have "standing c n s i = None"
      by (auto simp: standing_def)
    then show ?thesis
      using void q x by (auto simp: tally_turn_def follows_outcome_def)
  next
    case finish
    have "take_turns (counted_thread LATENCY N c enq deq es) [i] x
        = Ret (standing c n (?on\<lparr>ended_in := ended_in s @ [i]\<rparr>), q, sides c ts b (ended_in s @ [i]))"
      using finish q(1) merge_finishes [OF sh inv finish(1) _ ts n] on upd(3) n
      by (auto simp: counted_thread_def counted_turn_def standing_def calls_of_def split: if_splits)
    then show ?thesis
      using finish q(2,3) by (simp add: tally_turn_def follows_outcome_def follows_def Let_def)
  next
    case put
    have "waiting s \<le> calls_in n s {..<c}" "calls_in n s {..<c} + (n - made s i) \<le> c * n"
    proof -
      show "waiting s \<le> calls_in n s {..<c}"
        using inv by (simp add: tally_inv_def)
      have "calls_in n s {..<c} = made s i + calls_in n s ({..<c} - {i})"
        using put by (simp add: calls_in_def sum.remove [of "{..<c}" i])
      moreover have "calls_in n s ({..<c} - {i}) \<le> (c - 1) * n"
        using calls_in_most [of "{..<c} - {i}" c n s] inv put by (auto simp: card_Diff_singleton)
      moreover have "c * n = n + (c - 1) * n"
        using put by (cases c) simp_all
      ultimately show "calls_in n s {..<c} + (n - made s i) \<le> c * n"
        using put by simp
    qed
    then have "qlen q < cap"
      using q(3) cap put by linarith
    then obtain q' where "enq i (made s i) q = Ret (q', True)" "qinv q'" "qlen q' = Suc (waiting s)"
      using enq_law [where i = i and k = "made s i", OF q(2)] q(3) by auto
    moreover have "standing c n s i = Some (made s i)"
      using put by (simp add: standing_def)
    ultimately show ?thesis
      using put q(1) on upd n
      by (simp add: tally_turn_def follows_outcome_def follows_def Let_def counted_thread_def counted_turn_def calls_of_def)
  next
    case take
    have st: "standing c n s i = Some (made s i)"
      using take by (simp add: standing_def)
    show ?thesis
    proof (cases ot)
      case None
      then obtain q' where "deq q = Ret (q', True)" "qinv q'" "qlen q' = waiting s - 1"
        using take_law [OF q(2)] q(3) take(4) by auto
      then show ?thesis
        using take q(1) on upd n st None
        by (simp add: tally_turn_def follows_outcome_def follows_def Let_def counted_thread_def counted_turn_def calls_of_def)
    next
      case (Some e)
      then have "deq q = Fault e"
        using take_law [OF q(2)] q(3) take(4) by simp
      then show ?thesis
        using take q(1) n st Some
        by (simp add: tally_turn_def follows_outcome_def Let_def counted_thread_def counted_turn_def calls_of_def)
    qed
  next
    case empty
    have st: "standing c n s i = Some (made s i)"
      using empty by (simp add: standing_def)
    have stay: "(standing c n s)(i := Some (made s i)) = standing c n s"
      using st by (simp add: fun_upd_idem)
    show ?thesis
    proof (cases oe)
      case (Faults e)
      then have "deq q = Fault e"
        using empty_law [OF q(2)] q(3) empty(4) by simp
      then show ?thesis
        using empty q(1) n st Faults
        by (simp add: tally_turn_def follows_outcome_def Let_def counted_thread_def counted_turn_def calls_of_def)
    next
      case Skips
      then obtain q' where "deq q = Ret (q', True)" "qinv q'" "qlen q' = 0"
        using empty_law [OF q(2)] q(3) empty(4) by auto
      then show ?thesis
        using empty q(1) on upd n st Skips
        by (simp add: tally_turn_def follows_outcome_def follows_def Let_def counted_thread_def counted_turn_def calls_of_def)
    next
      case Retries
      then obtain q' where "deq q = Ret (q', False)" "qinv q'" "qlen q' = 0"
        using empty_law [OF q(2)] q(3) empty(4) by auto
      then show ?thesis
        using empty q(1) stay n st Retries
        by (simp add: tally_turn_def follows_outcome_def follows_def Let_def counted_thread_def counted_turn_def calls_of_def)
    qed
  qed
qed


lemma turns_follow:
  assumes sh: "shares c ts n b" and "tally_inv c n s" and "follows c n ts b s x" and cap: "c * n \<le> cap"
    and ts: "\<And>i. ts i = deltas (tsc (es i)) n" and n: "n = N div c"
  shows "follows_outcome c n ts b (tally_turns oe ot c n is s) (take_turns (counted_thread LATENCY N c enq deq es) is x)"
  using assms(2,3)
proof (induction "is" arbitrary: s x)
  case Nil
  then show ?case
    by (simp add: follows_outcome_def)
next
  case (Cons i "is")
  let ?turn = "counted_thread LATENCY N c enq deq es"
  have one: "follows_outcome c n ts b (tally_turn oe ot c n i s) (take_turns ?turn [i] x)"
    by (rule turn_follows [OF sh Cons.prems cap ts n])
  have split: "take_turns ?turn (i # is) x = bindO (take_turns ?turn [i] x) (take_turns ?turn is)"
    using take_turns_append [of ?turn "[i]" "is" x] by simp
  show ?case
  proof (cases "tally_turn oe ot c n i s")
    case (Ret s1)
    then obtain y where y: "take_turns ?turn [i] x = Ret y" "follows c n ts b s1 y"
      using one by (auto simp: follows_outcome_def)
    have "tally_inv c n s1"
      by (rule tally_turn_inv [OF Cons.prems(1) Ret])
    from Cons.IH [OF this y(2)] show ?thesis
      unfolding split y(1) by (simp add: Ret)
  next
    case (Fault e)
    then show ?thesis
      using one unfolding split by (simp add: follows_outcome_def)
  next
    case Hang
    then show ?thesis
      using one by (simp add: follows_outcome_def)
  qed
qed

text \<open>The round: with all threads back the summary is that of the samples of all of them; otherwise the joins wait.\<close>

definition round_follows :: "sorter \<Rightarrow> int \<Rightarrow> nat \<Rightarrow> real \<Rightarrow> int \<Rightarrow> (nat \<Rightarrow> env) \<Rightarrow> nat \<Rightarrow> tally outcome \<Rightarrow> ('s \<times> bench) outcome \<Rightarrow> bool" where
  "round_follows qs type N f ov es c r x \<longleftrightarrow>
     (case r of
        Fault e \<Rightarrow> x = Fault e
      | Hang \<Rightarrow> False
      | Ret s \<Rightarrow> if tally_over c (N div c) s
          then \<exists>q b rep. x = Ret (q, b) \<and> qinv q \<and> qlen q = missed s
            \<and> with_summary qs LATENCY type c f ov (q, b) = Ret (rep, q, b)
            \<and> good_report type c f ov (enq_samples es c (N div c)) (deq_samples es c (N div c)) rep
          else x = Hang)"

lemma turn_round:
  assumes "qsort_contract qs" and t: "even t" "0 < t" "cur_num_threads t \<le> N" and "N \<le> 2147483647"
    and ok: "measurable_round ov es (cur_num_threads t) (N div cur_num_threads t)"
    and q: "qinv q" "qlen q = 0" and cap: "cur_num_threads t * (N div cur_num_threads t) \<le> cap"
  shows "round_follows qs type N f ov es (cur_num_threads t)
      (tally_turns oe ot (cur_num_threads t) (N div cur_num_threads t) sch tally_start)
      (run_turns t (counted_thread LATENCY N (cur_num_threads t) enq deq es) (\<lambda>_. 0) sch (q, alloc_samples N b))"
proof -
  let ?c = "cur_num_threads t" and ?n = "N div cur_num_threads t" and ?b = "alloc_samples N b"
  let ?ts = "thread_samples es ?n" and ?turn = "counted_thread LATENCY N (cur_num_threads t) enq deq es"
  let ?start = "(\<lambda>i. if i < ?c + ?c then Some 0 else None, q, ?b)"
  note T = thread_share [OF t]
  have opens: "barrier_opens t"
    using t(1) by (auto simp: barrier_opens_def cur_num_threads_def elim: evenE)
  have sh: "shares ?c ?ts ?n ?b"
    by (simp add: shares_def thread_samples_def deltas_def alloc_samples_def)
  have "sides ?c ?ts ?b [] = ?b"
    unfolding sides_def by (metis alloc_sides(1,2) filter.simps(1) list.map(1) concat.simps(1))
  then have start: "follows ?c ?n ?ts ?b tally_start ?start"
    using q by (simp add: follows_def standing_def tally_start_def cong: if_cong)
  have F: "follows_outcome ?c ?n ?ts ?b (tally_turns oe ot ?c ?n sch tally_start) (take_turns ?turn sch ?start)"
    by (rule turns_follow [OF sh tally_start_inv start cap _ refl]) (simp add: thread_samples_def)
  have run: "run_turns t ?turn (\<lambda>_. 0) sch (q, ?b) = bindO (take_turns ?turn sch ?start)
      (\<lambda>(ls, g). if list_all (\<lambda>i. ls i = None) [0..<?c + ?c] then Ret g else Hang)"
    by (simp add: run_turns_def Let_def opens)
  show ?thesis
  proof (cases "tally_turns oe ot ?c ?n sch tally_start")
    case (Ret s)
    have inv: "tally_inv ?c ?n s"
      by (rule tally_turns_inv [OF tally_start_inv Ret])
    obtain q' where q': "take_turns ?turn sch ?start = Ret (standing ?c ?n s, q', sides ?c ?ts ?b (ended_in s))"
        "qinv q'" "qlen q' = waiting s"
      using F Ret by (auto simp: follows_outcome_def follows_def)
    have "standing ?c ?n s i = None \<longleftrightarrow> made s i = Suc ?n" if "i < ?c + ?c" for i
      using inv that unfolding tally_inv_def standing_def by (auto simp: le_Suc_eq)
    then have "list_all (\<lambda>i. standing ?c ?n s i = None) [0..<?c + ?c] \<longleftrightarrow> tally_over ?c ?n s"
      by (auto simp: list_all_iff tally_over_def)
    then have run': "run_turns t ?turn (\<lambda>_. 0) sch (q, ?b) = (if tally_over ?c ?n s then Ret (q', sides ?c ?ts ?b (ended_in s)) else Hang)"
      unfolding run q'(1) by simp
    show ?thesis
    proof (cases "tally_over ?c ?n s")
      case True
      note ended = tally_over_facts [OF inv True]
      let ?E = "concat (map ?ts (filter (\<lambda>i. i < ?c) (ended_in s)))" and ?D = "concat (map ?ts (filter (\<lambda>i. \<not> i < ?c) (ended_in s)))"
      note S = ordered_samples [OF ended(1), of es ?n]
      have len: "length ?E = ?c * ?n" "length ?D = ?c * ?n"
        using mset_eq_length [OF S(1)] mset_eq_length [OF S(2)] by simp_all
      have meas: "list_all (measurable ov) ?E" "list_all (measurable ov) ?D"
        using ok mset_eq_setD [OF S(1)] mset_eq_setD [OF S(2)] by (simp_all add: measurable_round_def list_all_iff)
      obtain rep where rep: "with_summary qs LATENCY type ?c f ov (q', deq_side ?D (enq_side ?E ?b)) = Ret (rep, q', deq_side ?D (enq_side ?E ?b))"
          "good_report type ?c f ov ?E ?D rep"
        using with_summary_ok [OF assms(1) _ _ _ _ assms(5) meas, where type = type and c = ?c and f = f and s = q' and b = b] len T(4,5)
        by metis
      have "good_report type ?c f ov (enq_samples es ?c ?n) (deq_samples es ?c ?n) rep"
        using rep(2) good_report_mset [OF S] by blast
      then show ?thesis
        using True Ret run' q' rep(1) ended(2) by (simp add: round_follows_def sides_def)
    next
      case False
      then show ?thesis
        using Ret run' by (simp add: round_follows_def)
    qed
  next
    case (Fault e)
    then show ?thesis
      using F by (simp add: round_follows_def follows_outcome_def run)
  next
    case Hang
    then show ?thesis
      using F by (simp add: follows_outcome_def)
  qed
qed

end

section \<open>Complete schedules and dequeues that find nothing\<close>

text \<open>Each of the \<open>c + c\<close> threads gets a turn for each of its calls and one more for the end of its handler.\<close>

definition complete_schedule :: "nat \<Rightarrow> nat \<Rightarrow> nat list \<Rightarrow> bool" where
  "complete_schedule c n sch \<longleftrightarrow> (\<forall>i<c + c. n < count_list sch i)"

text \<open>The dequeues of a schedule that find no element waiting.\<close>

definition misses :: "nat \<Rightarrow> nat \<Rightarrow> nat list \<Rightarrow> nat" where
  "misses c n sch = (case tally_turns Skips None c n sch tally_start of Ret s \<Rightarrow> missed s | _ \<Rightarrow> 0)"

lemma skip_turn:
  assumes "made s i \<le> Suc n"
  shows "\<exists>s'. tally_turn Skips None c n i s = Ret s' \<and> missed s \<le> missed s'
    \<and> (\<forall>j<c + c. made s' j = (if j = i then min (Suc (made s i)) (Suc n) else made s j))"
  using assms by (auto simp: tally_turn_def Let_def)

lemma skip_turns:
  assumes "\<forall>j<c + c. made s j \<le> Suc n"
  shows "\<exists>s'. tally_turns Skips None c n is s = Ret s' \<and> missed s \<le> missed s'
    \<and> (\<forall>j<c + c. made s' j = min (made s j + count_list is j) (Suc n))"
  using assms
proof (induction "is" arbitrary: s)
  case Nil
  then show ?case by simp
next
  case (Cons i "is")
  obtain s1 where s1: "tally_turn Skips None c n i s = Ret s1" "missed s \<le> missed s1"
      "\<forall>j<c + c. made s1 j = (if j = i then min (Suc (made s i)) (Suc n) else made s j)"
  proof (cases "i < c + c")
    case True
    then show thesis
      using skip_turn [of s i n c] Cons.prems that by blast
  next
    case False
    then have "tally_turn Skips None c n i s = Ret s" "\<forall>j<c + c. j \<noteq> i"
      by (simp_all add: tally_turn_def)
    then show thesis
      using that by simp
  qed
  then have "\<forall>j<c + c. made s1 j \<le> Suc n"
    using Cons.prems by simp
  from Cons.IH [OF this] obtain s' where s': "tally_turns Skips None c n is s1 = Ret s'" "missed s1 \<le> missed s'"
      "\<forall>j<c + c. made s' j = min (made s1 j + count_list is j) (Suc n)"
    by blast
  have "\<forall>j<c + c. made s' j = min (made s j + count_list (i # is) j) (Suc n)"
    using s1(3) s'(3) Cons.prems by auto
  then show ?case
    using s1(1,2) s'(1,2) by (intro exI [of _ s']) simp
qed

lemma skips_tally: "\<exists>s. tally_turns Skips None c n sch tally_start = Ret s \<and> missed s = misses c n sch
    \<and> (tally_over c n s \<longleftrightarrow> complete_schedule c n sch)"
proof -
  obtain s where s: "tally_turns Skips None c n sch tally_start = Ret s" "\<forall>j<c + c. made s j = min (count_list sch j) (Suc n)"
    using skip_turns [of c tally_start n sch] by (auto simp: tally_start_def)
  then show ?thesis
    by (auto simp: misses_def tally_over_def complete_schedule_def Suc_le_eq)
qed

text \<open>Where a dequeue on the empty queue is a fault, the first one ends the round.\<close>

lemma faults_turns:
  assumes "\<forall>j<c + c. made s j \<le> Suc n" and "tally_turns Skips None c n is s = Ret s'"
  shows "tally_turns (Faults e) None c n is s = (if missed s' = missed s then Ret s' else Fault e)"
  using assms
proof (induction "is" arbitrary: s)
  case Nil
  then show ?case by simp
next
  case (Cons i "is")
  obtain s1 where s1: "tally_turn Skips None c n i s = Ret s1" "tally_turns Skips None c n is s1 = Ret s'"
    using Cons.prems(2) by (auto simp: bindO_Ret_iff)
  have made: "\<forall>j<c + c. made s1 j \<le> Suc n"
    using s1(1) Cons.prems(1) by (auto simp: tally_turn_def Let_def split: if_splits)
  then have more: "missed s1 \<le> missed s'"
    using skip_turns [of c s1 n "is"] s1(2) by auto
  consider "missed s1 = Suc (missed s)" "tally_turn (Faults e) None c n i s = Fault e"
    | "missed s1 = missed s" "tally_turn (Faults e) None c n i s = Ret s1"
    using s1(1) by (auto simp: tally_turn_def Let_def split: if_splits)
  then show ?case
    using Cons.IH [OF made s1(2)] more by cases simp_all
qed

lemma faults_tally:
  "\<exists>s. tally_turns (Faults e) None c n sch tally_start = (if misses c n sch = 0 then Ret s else Fault e)
    \<and> missed s = misses c n sch \<and> (tally_over c n s \<longleftrightarrow> complete_schedule c n sch)"
proof -
  obtain s where "tally_turns Skips None c n sch tally_start = Ret s" "missed s = misses c n sch" "tally_over c n s \<longleftrightarrow> complete_schedule c n sch"
    using skips_tally by blast
  then show ?thesis
    using faults_turns [of c tally_start n sch s e] by (auto simp: tally_start_def)
qed

section \<open>Rounds whose dequeues poll\<close>

lemma tally_turns_append: "tally_turns oe ot c n (is @ js) s = bindO (tally_turns oe ot c n is s) (tally_turns oe ot c n js)"
proof (induction "is" arbitrary: s)
  case (Cons i "is")
  then show ?case
    by (cases "tally_turn oe ot c n i s") simp_all
qed simp

lemma retries_outcomes:
  "\<exists>s'. missed s' = missed s \<and>
     (tally_turns Retries ot c n is s = Ret s' \<or> (\<exists>e. ot = Some e \<and> tally_turns Retries ot c n is s = Fault e))"
proof (induction "is" arbitrary: s)
  case Nil
  then show ?case by auto
next
  case (Cons i "is")
  have "(\<exists>s1. tally_turn Retries ot c n i s = Ret s1 \<and> missed s1 = missed s) \<or> (\<exists>e. ot = Some e \<and> tally_turn Retries ot c n i s = Fault e)"
    by (simp add: tally_turn_def Let_def split: option.splits)
  then show ?case
  proof
    assume "\<exists>s1. tally_turn Retries ot c n i s = Ret s1 \<and> missed s1 = missed s"
    then obtain s1 where "tally_turn Retries ot c n i s = Ret s1" "missed s1 = missed s"
      by blast
    then show ?thesis
      using Cons.IH [of s1] by simp
  next
    assume "\<exists>e. ot = Some e \<and> tally_turn Retries ot c n i s = Fault e"
    then show ?thesis
      by auto
  qed
qed

text \<open>As long as a thread is not at its end, there is one whose turn brings the round forward.\<close>

definition turns_left :: "nat \<Rightarrow> nat \<Rightarrow> tally \<Rightarrow> nat" where
  "turns_left c n s = (\<Sum>i<c + c. Suc n - made s i)"

lemma turns_left_less:
  assumes "i < c + c" and "made s i \<le> n" and "made s' = (made s)(i := Suc (made s i))"
  shows "turns_left c n s' < turns_left c n s"
  unfolding turns_left_def using assms by (intro sum_strict_mono_ex1) auto

lemma polls_advance:
  assumes inv: "tally_inv c n s" and "missed s = 0" and "\<not> tally_over c n s"
  shows "\<exists>i s'. tally_turn Retries None c n i s = Ret s' \<and> turns_left c n s' < turns_left c n s"
proof -
  let ?on = "\<lambda>i. s\<lparr>made := (made s)(i := Suc (made s i))\<rparr>"
  have most: "made s i \<le> Suc n" if "i < c + c" for i
    using inv that by (simp add: tally_inv_def)
  obtain i where i: "i < c + c" "made s i \<le> n" "(\<forall>j<c. n < made s j) \<or> i < c"
  proof (cases "\<exists>j<c. made s j \<le> n")
    case True
    then show thesis
      using that by (metis trans_less_add1)
  next
    case False
    obtain i where "i < c + c" "made s i \<noteq> Suc n"
      using assms(3) by (auto simp: tally_over_def)
    then show thesis
      using that [of i] most [of i] False by (metis le_Suc_eq not_less)
  qed
  consider (finish) "made s i = n" | (put) "i < c" "made s i < n" | (take) "c \<le> i" "made s i < n" "\<forall>j<c. n < made s j"
    using i by (cases "i < c"; cases "made s i = n") auto
  then show ?thesis
  proof cases
    case finish
    then have "tally_turn Retries None c n i s = Ret (?on i\<lparr>ended_in := ended_in s @ [i]\<rparr>)"
      using i(1) by (simp add: tally_turn_def)
    then show ?thesis
      using turns_left_less [OF i(1,2)] by fastforce
  next
    case put
    then have "tally_turn Retries None c n i s = Ret (?on i\<lparr>waiting := Suc (waiting s)\<rparr>)"
      by (simp add: tally_turn_def)
    then show ?thesis
      using turns_left_less [OF i(1,2)] by fastforce
  next
    case take
    have "calls_in n s {..<c} = c * n"
      using take(3) by (simp add: calls_in_def min_absorb2 less_imp_le)
    moreover have "calls_in n s {c..<c + c} < c * n"
    proof -
      have "calls_in n s {c..<c + c} < (\<Sum>j\<in>{c..<c + c}. n)"
        unfolding calls_in_def using i(1) take(1,2) by (intro sum_strict_mono_ex1) (auto intro!: bexI [of _ i])
      then show ?thesis by simp
    qed
    ultimately have "0 < waiting s"
      using inv assms(2) by (simp add: tally_inv_def)
    then have "tally_turn Retries None c n i s = Ret (?on i\<lparr>waiting := waiting s - 1\<rparr>)"
      using i(1) take(1,2) by (simp add: tally_turn_def)
    then show ?thesis
      using turns_left_less [OF i(1,2)] by fastforce
  qed
qed

lemma polls_finish:
  assumes "tally_inv c n s" and "missed s = 0"
  shows "\<exists>more s'. tally_turns Retries None c n more s = Ret s' \<and> tally_over c n s'"
  using assms
proof (induction "turns_left c n s" arbitrary: s rule: less_induct)
  case less
  show ?case
  proof (cases "tally_over c n s")
    case True
    then have "tally_turns Retries None c n [] s = Ret s \<and> tally_over c n s"
      by simp
    then show ?thesis
      by blast
  next
    case False
    from polls_advance [OF less.prems False] obtain i s1 where
        s1: "tally_turn Retries None c n i s = Ret s1" "turns_left c n s1 < turns_left c n s"
      by blast
    have "missed s1 = 0"
      using retries_outcomes [of s None c n "[i]"] s1(1) less.prems(2) by simp
    from less.hyps [OF s1(2) tally_turn_inv [OF less.prems(1) s1(1)] this] obtain more s' where
        "tally_turns Retries None c n more s1 = Ret s'" "tally_over c n s'"
      by blast
    then have "tally_turns Retries None c n (i # more) s = Ret s' \<and> tally_over c n s'"
      using s1(1) by simp
    then show ?thesis
      by blast
  qed
qed

text \<open>When a dequeue that finds an element is a fault, no consumer gets past its first call.\<close>

lemma consumers_stuck:
  assumes "\<forall>i. c \<le> i \<longrightarrow> made s i = 0" and "0 < n" and "tally_turns Retries (Some e) c n is s = Ret s'"
  shows "\<forall>i. c \<le> i \<longrightarrow> made s' i = 0"
  using assms(1,3)
proof (induction "is" arbitrary: s)
  case Nil
  then show ?case by simp
next
  case (Cons i "is")
  then obtain s1 where s1: "tally_turn Retries (Some e) c n i s = Ret s1" "tally_turns Retries (Some e) c n is s1 = Ret s'"
    by (auto simp: bindO_Ret_iff)
  have "\<forall>j. c \<le> j \<longrightarrow> made s1 j = 0"
  proof (cases "c \<le> i")
    case True
    then show ?thesis
      using s1(1) Cons.prems(1) assms(2) by (simp add: tally_turn_def Let_def split: if_splits)
  next
    case False
    then show ?thesis
      using s1(1) Cons.prems(1) by (auto simp: tally_turn_def Let_def split: if_splits)
  qed
  from Cons.IH [OF this s1(2)] show ?case .
qed

lemma takes_fault:
  assumes "tally_inv c n s" and "missed s = 0" and "\<forall>i. c \<le> i \<longrightarrow> made s i = 0" and "0 < c" "0 < n"
  shows "tally_turns Retries (Some e) c n [0, c] s = Fault e" and "\<not> tally_over c n s"
proof -
  have "calls_in n s {c..<c + c} = 0"
    using assms(3) by (simp add: calls_in_def)
  then have waiting: "waiting s = calls_in n s {..<c}"
    using assms(1,2) by (simp add: tally_inv_def)
  have "0 < waiting s \<or> made s 0 = 0"
  proof (cases "made s 0")
    case (Suc k)
    then have "0 < min (made s 0) n"
      using assms(5) by simp
    also have "\<dots> \<le> waiting s"
      unfolding waiting calls_in_def using assms(4) by (intro member_le_sum) auto
    finally show ?thesis ..
  qed simp
  then obtain s1 where s1: "tally_turn Retries (Some e) c n 0 s = Ret s1" "0 < waiting s1" "made s1 c = 0"
    using assms(3-5) by (cases "made s 0 < n"; cases "made s 0 = n") (auto simp: tally_turn_def)
  then have "tally_turn Retries (Some e) c n c s1 = Fault e"
    using assms(4,5) by (simp add: tally_turn_def)
  then show "tally_turns Retries (Some e) c n [0, c] s = Fault e"
    by (simp add: s1(1))
  show "\<not> tally_over c n s"
    using assms(3,4) by (auto simp: tally_over_def intro!: exI [of _ c])
qed

section \<open>The linked queue\<close>

interpretation basic_turns: turn_queue "\<lambda>_ k q. once (BasicEnqueue_qb (of_nat k + 1) q)" "\<lambda>q. once (run_state (BasicDequeue_qb q))"
    "\<lambda>q. \<not> lock_held q" "\<lambda>q. length (entries q)" K "Faults BadPointer" None for K :: nat
proof
  fix q :: basicq
  assume "\<not> lock_held q"
  then show "\<exists>q'. once (BasicEnqueue_qb (of_nat k + 1) q) = Ret (q', True) \<and> \<not> lock_held q' \<and> length (entries q') = Suc (length (entries q))" for k
    by (auto simp: once_def basic_defs)
next
  fix q :: basicq
  assume "\<not> lock_held q" "0 < length (entries q)"
  then show "case None of None \<Rightarrow> \<exists>q'. once (run_state (BasicDequeue_qb q)) = Ret (q', True) \<and> \<not> lock_held q' \<and> length (entries q') = length (entries q) - 1
      | Some e \<Rightarrow> once (run_state (BasicDequeue_qb q)) = Fault e"
    by (cases "entries q") (auto simp: once_def basic_defs)
next
  fix q :: basicq
  assume "\<not> lock_held q" "length (entries q) = 0"
  then show "case Faults BadPointer of Faults e \<Rightarrow> once (run_state (BasicDequeue_qb q)) = Fault e
      | Skips \<Rightarrow> \<exists>q'. once (run_state (BasicDequeue_qb q)) = Ret (q', True) \<and> \<not> lock_held q' \<and> length (entries q') = 0
      | Retries \<Rightarrow> \<exists>q'. once (run_state (BasicDequeue_qb q)) = Ret (q', False) \<and> \<not> lock_held q' \<and> length (entries q') = 0"
    by (simp add: once_def BasicDequeue_qb_empty)
qed


lemma basic_round_outcome:
  assumes "qsort_contract qs" and t: "even t" "0 < t" "cur_num_threads t \<le> N" and "N \<le> 2147483647"
    and ok: "measurable_round ov es (cur_num_threads t) (N div cur_num_threads t)"
    and sch: "complete_schedule (cur_num_threads t) (N div cur_num_threads t) sch"
  shows "if misses (cur_num_threads t) (N div cur_num_threads t) sch = 0
    then \<exists>r q' b'. basic_round qs LATENCY N f ov es sch t (q, b) = Ret (r, q', b') \<and> round_report 3 N f ov es t r \<and> entries q' = []
    else basic_round qs LATENCY N f ov es sch t (q, b) = Fault BadPointer"
proof -
  let ?c = "cur_num_threads t" and ?n = "N div cur_num_threads t" and ?q = "InitBasicQueue_qb q"
  let ?r = "tally_turns (Faults BadPointer) None ?c ?n sch tally_start"
    and ?x = "run_turns t (basic_thread LATENCY N ?c es) (\<lambda>_. 0) sch (?q, alloc_samples N b)"
  have "\<not> lock_held ?q" "length (entries ?q) = 0"
    by (simp_all add: InitBasicQueue_qb_def)
  from basic_turns.turn_round [where sch = sch and b = b and type = 3 and f = f, OF assms(1) t assms(5) ok this order.refl]
  have F: "basic_turns.round_follows qs 3 N f ov es ?c ?r ?x"
    by (simp add: basic_thread_def)
  obtain s where s: "?r = (if misses ?c ?n sch = 0 then Ret s else Fault BadPointer)" "missed s = misses ?c ?n sch" "tally_over ?c ?n s"
    using faults_tally [of BadPointer ?c ?n sch] sch by blast
  show ?thesis
  proof (cases "misses ?c ?n sch = 0")
    case True
    then show ?thesis
      using F s by (fastforce simp: basic_turns.round_follows_def basic_round_def Let_def round_report_def)
  next
    case False
    then show ?thesis
      using F s(1) by (simp add: basic_turns.round_follows_def basic_round_def Let_def)
  qed
qed

text \<open>The loop over the thread counts when some rounds may fault.\<close>

lemma main_loop_outcome:
  assumes "\<And>k t s. k < length ts + k0 \<Longrightarrow> k0 \<le> k \<Longrightarrow> t = ts ! (k - k0) \<Longrightarrow>
      if bad k then one_round k t s = Fault e else \<exists>r s'. one_round k t s = Ret (r, s') \<and> good k t r"
  shows "if \<exists>k<length ts. bad (k0 + k) then main_loop one_round k0 ts s = Fault e
    else \<exists>rs s'. main_loop one_round k0 ts s = Ret (rs, s') \<and> length rs = length ts \<and> (\<forall>k<length ts. good (k0 + k) (ts ! k) (rs ! k))"
  using assms
proof (induction ts arbitrary: k0 s)
  case Nil
  then show ?case by simp
next
  case (Cons t ts)
  have here: "if bad k0 then one_round k0 t s = Fault e else \<exists>r s'. one_round k0 t s = Ret (r, s') \<and> good k0 t r"
    using Cons.prems [of k0 t s] by simp
  have later: "if \<exists>k<length ts. bad (Suc k0 + k) then main_loop one_round (Suc k0) ts s1 = Fault e
    else \<exists>rs s'. main_loop one_round (Suc k0) ts s1 = Ret (rs, s') \<and> length rs = length ts \<and> (\<forall>k<length ts. good (Suc k0 + k) (ts ! k) (rs ! k))" for s1
  proof (rule Cons.IH)
    fix k u s2 assume "k < length ts + Suc k0" "Suc k0 \<le> k" "u = ts ! (k - Suc k0)"
    then show "if bad k then one_round k u s2 = Fault e else \<exists>r s'. one_round k u s2 = Ret (r, s') \<and> good k u r"
      using Cons.prems [of k u s2] by (simp add: nth_Cons' Suc_diff_le)
  qed
  have bad: "(\<exists>k<length (t # ts). bad (k0 + k)) \<longleftrightarrow> bad k0 \<or> (\<exists>k<length ts. bad (Suc k0 + k))"
    by (simp add: Ex_less_Suc2 del: ex_simps)
  show ?case
  proof (cases "bad k0")
    case True
    then show ?thesis
      using here bad by simp
  next
    case False
    then obtain r s1 where r: "one_round k0 t s = Ret (r, s1)" "good k0 t r"
      using here by auto
    show ?thesis
    proof (cases "\<exists>k<length ts. bad (Suc k0 + k)")
      case True
      then show ?thesis
        using r(1) later [of s1] bad by simp
    next
      case no: False
      then obtain rs s' where rs: "main_loop one_round (Suc k0) ts s1 = Ret (rs, s')" "length rs = length ts"
          "\<forall>k<length ts. good (Suc k0 + k) (ts ! k) (rs ! k)"
        using later [of s1] by (auto split: if_splits)
      have "good (k0 + k) ((t # ts) ! k) ((r # rs) ! k)" if "k < length (t # ts)" for k
        using that rs(3) r(2) by (cases k) auto
      moreover have "\<not> (\<exists>k<length (t # ts). bad (k0 + k))"
        using bad False no by blast
      ultimately show ?thesis
        using r(1) rs(1,2) by simp
    qed
  qed
qed

section \<open>Property\<close>

text \<open>C18: The latency benchmark of the array queue (type 1) and of the linked queue (type 3), for any list of
  even thread counts with at most one thread per side for each sample. With the array queue the program prints a
  report for each count, and the report of round \<open>k\<close> names the number of threads on a side and of samples
  taken, and describes the samples that the round's producers and consumers have measured. With the linked queue, whose threads take
  their turns in the order \<open>sch k\<close> (any order in which all of them get to their ends), the same holds exactly when in no round a dequeue
  finds the queue empty; otherwise the program ends in the access through the empty queue's head.\<close>

theorem bench_main_reports:
  assumes "qsort_contract qs" and "0 < m" and "N \<le> m" and "m \<le> 2147483647" and "length (data q) = m"
    and "list_all (valid_count N) ts"
    and "\<forall>k<length ts. measurable_round ov (es k) (cur_num_threads (ts ! k)) (N div cur_num_threads (ts ! k))"
    and "\<forall>k<length ts. complete_schedule (cur_num_threads (ts ! k)) (N div cur_num_threads (ts ! k)) (sch k)"
  shows "(\<exists>rs q' b'. main_loop (\<lambda>k. squeue_round qs LATENCY m N f ov (es k)) 0 ts (q, b) = Ret (rs, q', b')
      \<and> length rs = length ts \<and> (\<forall>k<length ts. round_report 1 N f ov (es k) (ts ! k) (rs ! k)))
    \<and> (if \<exists>k<length ts. misses (cur_num_threads (ts ! k)) (N div cur_num_threads (ts ! k)) (sch k) \<noteq> 0
       then main_loop (\<lambda>k. basic_round qs LATENCY N f ov (es k) (sch k)) 0 ts (bqueue, b) = Fault BadPointer
       else \<exists>rs q' b'. main_loop (\<lambda>k. basic_round qs LATENCY N f ov (es k) (sch k)) 0 ts (bqueue, b) = Ret (rs, q', b')
         \<and> length rs = length ts \<and> (\<forall>k<length ts. round_report 3 N f ov (es k) (ts ! k) (rs ! k)))"
proof -
  have v: "even (ts ! k)" "0 < ts ! k" "cur_num_threads (ts ! k) \<le> N" if "k < length ts" for k
    using assms(6) that by (auto simp: valid_count_def list_all_length)
  have sq: "\<exists>r s'. squeue_round qs LATENCY m N f ov (es k) t s = Ret (r, s') \<and> round_report 1 N f ov (es k) t r \<and> length (data (fst s')) = m"
    if "k < length ts + 0" "0 \<le> k" "t = ts ! (k - 0)" "length (data (fst s)) = m" for k t and s :: "ringbuf \<times> bench"
    using squeue_round_ok [OF assms(1-4) that(4) v, of k ov "es k" f "snd s"] assms(7) that
    by (fastforce simp: round_report_def Let_def)
  have ba: "if misses (cur_num_threads (ts ! k)) (N div cur_num_threads (ts ! k)) (sch k) \<noteq> 0
      then basic_round qs LATENCY N f ov (es k) (sch k) t s = Fault BadPointer
      else \<exists>r s'. basic_round qs LATENCY N f ov (es k) (sch k) t s = Ret (r, s') \<and> round_report 3 N f ov (es k) t r"
    if "k < length ts + 0" "0 \<le> k" "t = ts ! (k - 0)" for k t and s :: "basicq \<times> bench"
  proof -
    have k: "k < length ts" "t = ts ! k" "N \<le> 2147483647"
      using that assms(3,4) by simp_all
    from basic_round_outcome [OF assms(1) v [OF k(1)] k(3), of ov "es k" "sch k" f "fst s" "snd s"] assms(7,8) k(1) show ?thesis
      unfolding k(2) by (cases s) (auto split: if_splits)
  qed
  have "\<exists>rs s'. main_loop (\<lambda>k. squeue_round qs LATENCY m N f ov (es k)) 0 ts (q, b) = Ret (rs, s')
      \<and> length (data (fst s')) = m \<and> length rs = length ts \<and> (\<forall>k<length ts. round_report 1 N f ov (es (0 + k)) (ts ! k) (rs ! k))"
    by (rule main_loop_ok [where ok = "\<lambda>s. length (data (fst s)) = m", OF sq]) (use assms(5) in auto)
  moreover have "if \<exists>k<length ts. misses (cur_num_threads (ts ! (0 + k))) (N div cur_num_threads (ts ! (0 + k))) (sch (0 + k)) \<noteq> 0
      then main_loop (\<lambda>k. basic_round qs LATENCY N f ov (es k) (sch k)) 0 ts (bqueue, b) = Fault BadPointer
      else \<exists>rs s'. main_loop (\<lambda>k. basic_round qs LATENCY N f ov (es k) (sch k)) 0 ts (bqueue, b) = Ret (rs, s')
        \<and> length rs = length ts \<and> (\<forall>k<length ts. round_report 3 N f ov (es (0 + k)) (ts ! k) (rs ! k))"
    by (rule main_loop_outcome [where bad = "\<lambda>k. misses (cur_num_threads (ts ! k)) (N div cur_num_threads (ts ! k)) (sch k) \<noteq> 0", OF ba])
  ultimately show ?thesis
    unfolding add_0 by (simp only: split_paired_Ex fst_conv) blast
qed



theorem bench_main_reports_witness:
  "(\<exists>r q' b'. main_loop (\<lambda>k. basic_round sort_by LATENCY 2 2 1 (\<lambda>_. demo_env) [0, 1, 0, 0, 1, 1]) 0 [2] (demo_basicq, demo_bench) = Ret ([r], q', b')
      \<and> good_report 3 1 2 1 [3, 3] [3, 3] r)
    \<and> main_loop (\<lambda>k. basic_round sort_by LATENCY 2 2 1 (\<lambda>_. demo_env) [0, 1, 1, 0, 1, 0]) 0 [2] (demo_basicq, demo_bench) = Fault BadPointer"
proof -
  let ?sch = "[0, 1, 0, 0, 1, 1]" and ?early = "[0, 1, 1, 0, 1, 0]" and ?q = "\<lparr>head = 5, tail = 7, data = [1, 2]\<rparr>"
  have c: "cur_num_threads 2 = 1" "2 div 1 = (2::nat)"
    by (simp_all add: cur_num_threads_def)
  have ds: "enq_samples (\<lambda>_. demo_env) 1 2 = [3, 3]" "deq_samples (\<lambda>_. demo_env) 1 2 = [3, 3]"
    by (simp_all add: enq_samples_def deq_samples_def all_deltas_def deltas_def demo_env_def eval_nat_numeral)
  have sch: "complete_schedule 1 2 ?sch" "complete_schedule 1 2 ?early" "misses 1 2 ?sch = 0" "misses 1 2 ?early \<noteq> 0"
    by code_simp+
  have v: "list_all (valid_count 2) [2]"
    by (simp add: valid_count_def c)
  have m: "\<forall>k<length [2::nat]. measurable_round 1 (\<lambda>_. demo_env) (cur_num_threads ([2] ! k)) (2 div cur_num_threads ([2] ! k))"
    by (simp add: c measurable_round_def measurable_def ds del: One_nat_def)
  have k: "\<forall>k<length [2::nat]. complete_schedule (cur_num_threads ([2] ! k)) (2 div cur_num_threads ([2] ! k)) s \<longleftrightarrow> complete_schedule 1 2 s" for s
    by (simp add: c del: One_nat_def)
  note R = bench_main_reports [OF sort_by_contract, where m = 2 and N = 2 and q = ?q and ts = "[2]" and ov = 1 and es = "\<lambda>_ _. demo_env" and f = 2
      and b = demo_bench and bqueue = demo_basicq]
  show ?thesis
    using R [where sch = "\<lambda>_. ?sch"] R [where sch = "\<lambda>_. ?early"] v m k sch
    by (auto simp: c ds length_Suc_conv round_report_def simp del: One_nat_def)
qed

end
