(* ===== verification/Rcu_Main.thy ===== *)
theory Rcu_Main
  imports Turn_Rounds
begin

text \<open>
  Queue type 5 of \<^verbatim>\<open>QueueBenchmarks/sqmain.c\<close>: the round over userspace-RCU's lock-free queue, whose threads take turns
  in a given order. The library's functions are parameters, with their documented behaviour as the contract (each call is atomic); the
  \<^verbatim>\<open>return ret\<close> inside the loop over the thread list ends the program after the first round.
\<close>

section \<open>The round\<close>

definition rcu_round :: "('s \<Rightarrow> 's) \<Rightarrow> (c_int \<Rightarrow> 's \<Rightarrow> 's outcome) \<Rightarrow> ('s \<Rightarrow> ('n option \<times> 's) outcome) \<Rightarrow> ('n \<Rightarrow> 's \<Rightarrow> 's outcome)
    \<Rightarrow> ('s \<Rightarrow> int \<times> 's) \<Rightarrow> sorter \<Rightarrow> build \<Rightarrow> nat \<Rightarrow> real \<Rightarrow> int \<Rightarrow> (nat \<Rightarrow> env) \<Rightarrow> nat list \<Rightarrow> nat \<Rightarrow> 's \<times> bench
    \<Rightarrow> ((report \<times> int) \<times> 's \<times> bench) outcome" where
  "rcu_round lfq_init lfq_enq lfq_deq retire lfq_destroy qs bd N clockFreq ov es sch t sb =
     (let c = cur_num_threads t; b = alloc_samples N (snd sb); s = lfq_init (fst sb) in
      bindO (run_turns t (rcu_thread lfq_enq lfq_deq retire bd N c es) (\<lambda>_. 0) sch (s, b)) (\<lambda>sb1.
      bindO (with_summary qs bd 5 c clockFreq ov sb1) (\<lambda>(r, s2, b2).
        let (ret, s3) = lfq_destroy s2 in Ret ((r, ret), s3, b2))))"

text \<open>The reports printed and the exit status: that of \<^verbatim>\<open>cds_lfq_destroy_rcu\<close>, or 0 when the list is empty.\<close>

definition rcu_main :: "(nat \<Rightarrow> 's \<Rightarrow> ((report \<times> int) \<times> 's) outcome) \<Rightarrow> nat list \<Rightarrow> 's \<Rightarrow> ((report list \<times> int) \<times> 's) outcome" where
  "rcu_main one_round ts s =
     (case ts of
        [] \<Rightarrow> Ret (([], 0), s)
      | t # _ \<Rightarrow> bindO (one_round t s) (\<lambda>((r, ret), s1). Ret (([r], ret), s1)))"

section \<open>The contract of the library's queue\<close>

definition rcu_contract :: "('s \<Rightarrow> bool) \<Rightarrow> ('s \<Rightarrow> c_int list) \<Rightarrow> ('s \<Rightarrow> 's) \<Rightarrow> (c_int \<Rightarrow> 's \<Rightarrow> 's outcome)
    \<Rightarrow> ('s \<Rightarrow> ('n option \<times> 's) outcome) \<Rightarrow> ('n \<Rightarrow> 's \<Rightarrow> 's outcome) \<Rightarrow> ('s \<Rightarrow> int \<times> 's) \<Rightarrow> bool" where
  "rcu_contract ok_q contents lfq_init lfq_enq lfq_deq retire lfq_destroy \<longleftrightarrow>
     (\<forall>s. ok_q (lfq_init s) \<and> contents (lfq_init s) = [])
     \<and> (\<forall>s x. ok_q s \<longrightarrow> (\<exists>s'. lfq_enq x s = Ret s' \<and> ok_q s' \<and> contents s' = contents s @ [x]))
     \<and> (\<forall>s x xs. ok_q s \<longrightarrow> contents s = x # xs \<longrightarrow>
          (\<exists>node s1 s2. lfq_deq s = Ret (Some node, s1) \<and> retire node s1 = Ret s2 \<and> ok_q s2 \<and> contents s2 = xs))
     \<and> (\<forall>s. ok_q s \<longrightarrow> contents s = [] \<longrightarrow> (\<exists>s'. lfq_deq s = Ret (None, s') \<and> ok_q s' \<and> contents s' = []))
     \<and> (\<forall>s. ok_q s \<longrightarrow> (fst (lfq_destroy s) = 0 \<longleftrightarrow> contents s = []))"

lemma rcu_turns:
  assumes "rcu_contract ok_q contents lfq_init lfq_enq lfq_deq retire lfq_destroy"
  shows "turn_queue (\<lambda>_ k s. once (lfq_enq (sample k) s)) (\<lambda>s. once (rcu_dequeue lfq_deq retire s)) ok_q
    (\<lambda>s. length (contents s)) K Skips None"
proof
  fix s and i k :: nat assume "ok_q s"
  then obtain s' where "lfq_enq (sample k) s = Ret s'" "ok_q s'" "contents s' = contents s @ [sample k]"
    using assms unfolding rcu_contract_def by blast
  then show "\<exists>s'. once (lfq_enq (sample k) s) = Ret (s', True) \<and> ok_q s' \<and> length (contents s') = Suc (length (contents s))"
    by (simp add: once_def)
next
  fix s assume a: "ok_q s" "0 < length (contents s)"
  then obtain x xs where "contents s = x # xs"
    by (cases "contents s") auto
  moreover from this obtain node s1 s2 where "lfq_deq s = Ret (Some node, s1)" "retire node s1 = Ret s2" "ok_q s2" "contents s2 = xs"
    using assms a(1) unfolding rcu_contract_def by blast
  ultimately show "case None of None \<Rightarrow> \<exists>s'. once (rcu_dequeue lfq_deq retire s) = Ret (s', True) \<and> ok_q s'
        \<and> length (contents s') = length (contents s) - 1
      | Some e \<Rightarrow> once (rcu_dequeue lfq_deq retire s) = Fault e"
    by (simp add: once_def rcu_dequeue_def)
next
  fix s assume "ok_q s" "length (contents s) = 0"
  then obtain s' where "lfq_deq s = Ret (None, s')" "ok_q s'" "contents s' = []"
    using assms unfolding rcu_contract_def by auto
  then show "case Skips of Faults e \<Rightarrow> once (rcu_dequeue lfq_deq retire s) = Fault e
      | Skips \<Rightarrow> \<exists>s'. once (rcu_dequeue lfq_deq retire s) = Ret (s', True) \<and> ok_q s' \<and> length (contents s') = 0
      | Retries \<Rightarrow> \<exists>s'. once (rcu_dequeue lfq_deq retire s) = Ret (s', False) \<and> ok_q s' \<and> length (contents s') = 0"
    by (simp add: once_def rcu_dequeue_def)
qed

lemma rcu_round_ok:
  assumes "rcu_contract ok_q contents lfq_init lfq_enq lfq_deq retire lfq_destroy" and "qsort_contract qs"
    and "N \<le> 2147483647" and t: "even t" "0 < t" "cur_num_threads t \<le> N"
    and ok: "measurable_round ov es (cur_num_threads t) (N div cur_num_threads t)"
    and sch: "complete_schedule (cur_num_threads t) (N div cur_num_threads t) sch"
  shows "\<exists>r ret sb'. rcu_round lfq_init lfq_enq lfq_deq retire lfq_destroy qs LATENCY N f ov es sch t (s, b) = Ret ((r, ret), sb')
    \<and> round_report 5 N f ov es t r \<and> (ret = 0 \<longleftrightarrow> misses (cur_num_threads t) (N div cur_num_threads t) sch = 0)"
proof -
  let ?c = "cur_num_threads t" and ?n = "N div cur_num_threads t" and ?s = "lfq_init s"
  let ?x = "run_turns t (rcu_thread lfq_enq lfq_deq retire LATENCY N ?c es) (\<lambda>_. 0) sch (?s, alloc_samples N b)"
  note L = rcu_turns [OF assms(1), of "?c * ?n"]
  have new: "ok_q ?s" "length (contents ?s) = 0"
    using assms(1) unfolding rcu_contract_def by auto
  from turn_queue.turn_round [where sch = sch and b = b and type = 5 and f = f, OF L assms(2) t assms(3) ok new order.refl]
  have F: "turn_queue.round_follows ok_q (\<lambda>s. length (contents s)) qs 5 N f ov es ?c (tally_turns Skips None ?c ?n sch tally_start) ?x"
    by (simp add: rcu_thread_def)
  obtain st where st: "tally_turns Skips None ?c ?n sch tally_start = Ret st" "missed st = misses ?c ?n sch" "tally_over ?c ?n st"
    using skips_tally [of ?c ?n sch] sch by blast
  then obtain s' b' r where r: "?x = Ret (s', b')" "ok_q s'" "length (contents s') = misses ?c ?n sch"
      "with_summary qs LATENCY 5 ?c f ov (s', b') = Ret (r, s', b')"
      "good_report 5 ?c f ov (enq_samples es ?c ?n) (deq_samples es ?c ?n) r"
    using F by (auto simp: turn_queue.round_follows_def [OF L])
  have "fst (lfq_destroy s') = 0 \<longleftrightarrow> contents s' = []"
    using assms(1) r(2) unfolding rcu_contract_def by blast
  then have "fst (lfq_destroy s') = 0 \<longleftrightarrow> misses ?c ?n sch = 0"
    unfolding r(3) [symmetric] by simp
  then show ?thesis
    using r(1,4,5) by (cases "lfq_destroy s'") (simp add: rcu_round_def Let_def round_report_def)
qed

section \<open>Property\<close>

text \<open>C21: The latency benchmark of userspace-RCU's queue, over any queue that keeps its promise, with the threads taking their
  turns in any order in which all of them get to their ends: for
  a list of thread counts whose first one is even and has a sample for each thread, the program ends after
  the first count, whatever follows it: it prints one report, which describes the samples measured in that round,
  those of dequeues that found nothing among them. Its exit status is 0 exactly when no dequeue
  found the queue empty: each one that did leaves an element behind, and the queue is not destroyed.\<close>

theorem rcu_main_once:
  assumes "rcu_contract ok_q contents lfq_init lfq_enq lfq_deq retire lfq_destroy" and "qsort_contract qs"
    and "N \<le> 2147483647" and "valid_count N t"
    and "measurable_round ov es (cur_num_threads t) (N div cur_num_threads t)"
    and "complete_schedule (cur_num_threads t) (N div cur_num_threads t) sch"
  shows "\<exists>r status sb'. rcu_main (rcu_round lfq_init lfq_enq lfq_deq retire lfq_destroy qs LATENCY N f ov es sch) (t # ts) (s, b)
      = Ret (([r], status), sb') \<and> round_report 5 N f ov es t r
    \<and> (status = 0 \<longleftrightarrow> misses (cur_num_threads t) (N div cur_num_threads t) sch = 0)"
  using rcu_round_ok [OF assms(1-3), of t ov es sch f s b] assms(4-6) by (auto simp: rcu_main_def valid_count_def)

text \<open>A list as the queue.\<close>

definition list_deq :: "c_int list \<Rightarrow> (c_int option \<times> c_int list) outcome" where
  "list_deq q = Ret (case q of [] \<Rightarrow> (None, []) | x # xs \<Rightarrow> (Some x, xs))"

definition list_destroy :: "c_int list \<Rightarrow> int \<times> c_int list" where
  "list_destroy q = (if q = [] then 0 else - 1, q)"

lemma list_rcu: "rcu_contract (\<lambda>_. True) (\<lambda>q. q) (\<lambda>_. []) (\<lambda>x q. Ret (q @ [x])) list_deq (\<lambda>_. Ret) list_destroy"
  by (simp add: rcu_contract_def list_deq_def list_destroy_def)


theorem rcu_main_once_witness:
  "(\<exists>r sb'. rcu_main (rcu_round (\<lambda>_. []) (\<lambda>x q. Ret (q @ [x])) list_deq (\<lambda>_. Ret) list_destroy sort_by LATENCY 2 2 1 (\<lambda>_. demo_env) [0, 1, 0, 0, 1, 1])
      [2, 6, 7] ([], demo_bench) = Ret (([r], 0), sb') \<and> round_report 5 2 2 1 (\<lambda>_. demo_env) 2 r)
    \<and> (\<exists>r status sb'. rcu_main (rcu_round (\<lambda>_. []) (\<lambda>x q. Ret (q @ [x])) list_deq (\<lambda>_. Ret) list_destroy sort_by LATENCY 2 2 1 (\<lambda>_. demo_env) [0, 1, 1, 0, 1, 0])
      [2, 6, 7] ([], demo_bench) = Ret (([r], status), sb') \<and> status \<noteq> 0)"
proof -
  let ?sch = "[0, 1, 0, 0, 1, 1]" and ?early = "[0, 1, 1, 0, 1, 0]"
  have c: "cur_num_threads 2 = 1" "2 div 1 = (2::nat)"
    by (simp_all add: cur_num_threads_def)
  have "enq_samples (\<lambda>_. demo_env) 1 2 = [3, 3]" "deq_samples (\<lambda>_. demo_env) 1 2 = [3, 3]"
    by (simp_all add: enq_samples_def deq_samples_def all_deltas_def deltas_def demo_env_def eval_nat_numeral)
  then have m: "measurable_round 1 (\<lambda>_. demo_env) (cur_num_threads 2) (2 div cur_num_threads 2)"
    by (simp add: measurable_round_def c measurable_def list_all_iff)
  have v: "valid_count 2 2"
    by (simp add: valid_count_def c)
  have "complete_schedule 1 2 ?sch" "complete_schedule 1 2 ?early" "misses 1 2 ?sch = 0" "misses 1 2 ?early \<noteq> 0"
    by code_simp+
  then have sch: "complete_schedule (cur_num_threads 2) (2 div cur_num_threads 2) ?sch" "complete_schedule (cur_num_threads 2) (2 div cur_num_threads 2) ?early"
      "misses (cur_num_threads 2) (2 div cur_num_threads 2) ?sch = 0" "misses (cur_num_threads 2) (2 div cur_num_threads 2) ?early \<noteq> 0"
    by (simp_all only: c not_False_eq_True)
  note R = rcu_main_once [OF list_rcu sort_by_contract _ v m, where f = 2 and ts = "[6, 7]" and s = "[]" and b = demo_bench]
  show ?thesis
    using R [OF _ sch(1)] R [OF _ sch(2)] sch(3,4) by auto
qed

end
