(* ===== verification/Task_Queue.thy ===== *)
theory Task_Queue
  imports Queue_Contract
begin

text \<open>
  The three queues of \<^verbatim>\<open>SimpleQueueImpl\<close> over \<^verbatim>\<open>struct queue\<close>: \<^verbatim>\<open>queue.c\<close> (no
  synchronisation), \<^verbatim>\<open>blockingqueue.c\<close> (two semaphores and a mutex) and
  \<^verbatim>\<open>queue_atomic.c\<close> (compare-and-exchange on the slots). All three index the array modulo the
  macro \<^verbatim>\<open>QUEUE_SIZE\<close>, the parameter \<open>m\<close>, whatever the capacity they were created with.
  \<open>mem\<close> is what \<^verbatim>\<open>malloc\<close> leaves in the array.
\<close>

section \<open>Data\<close>

record task_desc =
  task_id :: c_int
  task_type :: c_int
  num_threads :: c_int
  params :: "64 word"

record task_queue =
  tasks :: "task_desc list"
  capacity :: nat
  rear :: c_int
  front :: c_int
  locked :: bool
  task_sem :: nat
  spaces_sem :: nat

definition QUEUE_SIZE_si :: nat where
  "QUEUE_SIZE_si = 32 * 1024 * 1024"

definition EmptyTask :: task_desc where
  "EmptyTask = \<lparr>task_id = 0, task_type = 0, num_threads = 0, params = 0\<rparr>"

text \<open>\<^verbatim>\<open>tasks[i % QUEUE_SIZE] = x\<close> and \<^verbatim>\<open>tasks[i % QUEUE_SIZE]\<close>.\<close>

definition put_task :: "nat \<Rightarrow> c_int \<Rightarrow> task_desc \<Rightarrow> task_queue \<Rightarrow> task_queue outcome" where
  "put_task m i x q =
     bindO (c_mod (sint i) (int m)) (\<lambda>k.
     bindO (arr_write (tasks q) k x) (\<lambda>ts. Ret (q\<lparr>tasks := ts\<rparr>)))"

definition get_task :: "nat \<Rightarrow> c_int \<Rightarrow> task_queue \<Rightarrow> task_desc outcome" where
  "get_task m i q = bindO (c_mod (sint i) (int m)) (arr_read (tasks q))"

section \<open>queue.c\<close>

definition create_queue :: "nat \<Rightarrow> task_desc list \<Rightarrow> task_queue" where
  "create_queue sz mem =
     \<lparr>tasks = mem, capacity = sz, rear = 0, front = 0, locked = False,
      task_sem = 0, spaces_sem = sz\<rparr>"

definition enqueue :: "nat \<Rightarrow> task_desc \<Rightarrow> task_queue \<Rightarrow> task_queue outcome" where
  "enqueue m task q =
     bindO (c_incr (rear q)) (\<lambda>r. let q1 = q\<lparr>rear := r\<rparr> in put_task m r task q1)"

definition dequeue :: "nat \<Rightarrow> task_queue \<Rightarrow> (task_desc \<times> task_queue) outcome" where
  "dequeue m q =
     bindO (c_incr (front q)) (\<lambda>f. let q1 = q\<lparr>front := f\<rparr> in
     bindO (get_task m f q1) (\<lambda>task. Ret (task, q1)))"

section \<open>blockingqueue.c\<close>

text \<open>A caller alone is never woken: waiting on a semaphore at 0, or for a mutex that is held, does
  not return.\<close>

definition create_queue_blocking :: "nat \<Rightarrow> task_desc list \<Rightarrow> task_queue" where
  "create_queue_blocking sz mem =
     \<lparr>tasks = mem, capacity = sz, rear = 0, front = 0, locked = False,
      task_sem = 0, spaces_sem = sz\<rparr>"

definition wait_spaces :: "task_queue \<Rightarrow> task_queue outcome" where
  "wait_spaces q = (case spaces_sem q of 0 \<Rightarrow> Hang | Suc k \<Rightarrow> Ret (q\<lparr>spaces_sem := k\<rparr>))"

definition wait_tasks :: "task_queue \<Rightarrow> task_queue outcome" where
  "wait_tasks q = (case task_sem q of 0 \<Rightarrow> Hang | Suc k \<Rightarrow> Ret (q\<lparr>task_sem := k\<rparr>))"

definition lock_queue :: "task_queue \<Rightarrow> task_queue outcome" where
  "lock_queue q = (if locked q then Hang else Ret (q\<lparr>locked := True\<rparr>))"

definition enqueue_blocking :: "nat \<Rightarrow> task_desc \<Rightarrow> task_queue \<Rightarrow> task_queue outcome" where
  "enqueue_blocking m task q =
     bindO (wait_spaces q) (\<lambda>q1.
     bindO (lock_queue q1) (\<lambda>q2.
     bindO (c_incr (rear q2)) (\<lambda>r.
     bindO (put_task m r task (q2\<lparr>rear := r\<rparr>)) (\<lambda>q3.
       Ret (q3\<lparr>locked := False, task_sem := Suc (task_sem q3)\<rparr>)))))"

definition dequeue_blocking :: "nat \<Rightarrow> task_queue \<Rightarrow> (task_desc \<times> task_queue) outcome" where
  "dequeue_blocking m q =
     bindO (wait_tasks q) (\<lambda>q1.
     bindO (lock_queue q1) (\<lambda>q2.
     bindO (c_incr (front q2)) (\<lambda>f. let q3 = q2\<lparr>front := f\<rparr> in
     bindO (get_task m f q3) (\<lambda>task.
       Ret (task, q3\<lparr>locked := False, spaces_sem := Suc (spaces_sem q3)\<rparr>)))))"

section \<open>queue\_atomic.c\<close>

definition create_queue_atomic :: "nat \<Rightarrow> task_desc list \<Rightarrow> task_queue" where
  "create_queue_atomic sz mem =
     \<lparr>tasks = mem, capacity = sz, rear = - 1, front = - 1, locked = False,
      task_sem = 0, spaces_sem = sz\<rparr>"

text \<open>
  \<^verbatim>\<open>__atomic_compare_exchange(&tasks[last % QUEUE_SIZE], &emptyTask, &task, \<dots>)\<close> stores the task when the
  slot equals \<^verbatim>\<open>emptyTask\<close>, and otherwise copies the slot into \<^verbatim>\<open>emptyTask\<close>, which the loop
  passes on. Tasks are compared field by field, their padding being the same.
\<close>

partial_function (option) enqueue_atomic_loop :: "nat \<Rightarrow> task_desc \<Rightarrow> task_desc \<Rightarrow> task_queue
    \<Rightarrow> task_queue outcome option" where
  "enqueue_atomic_loop m task expected q =
     (let last = rear q + 1; q1 = q\<lparr>rear := last\<rparr> in
      case get_task m last q1 of
        Fault e \<Rightarrow> Some (Fault e)
      | Hang \<Rightarrow> Some Hang
      | Ret cur \<Rightarrow>
          if cur = expected then Some (put_task m last task q1)
          else enqueue_atomic_loop m task cur q1)"

definition enqueue_atomic :: "nat \<Rightarrow> task_desc \<Rightarrow> task_queue \<Rightarrow> task_queue outcome" where
  "enqueue_atomic m task q =
     (case enqueue_atomic_loop m task EmptyTask q of None \<Rightarrow> Hang | Some r \<Rightarrow> r)"

partial_function (option) dequeue_atomic_loop :: "nat \<Rightarrow> task_queue
    \<Rightarrow> (task_desc \<times> task_queue) outcome option" where
  "dequeue_atomic_loop m q =
     (let first = front q + 1; q1 = q\<lparr>front := first\<rparr> in
      case get_task m first q1 of
        Fault e \<Rightarrow> Some (Fault e)
      | Hang \<Rightarrow> Some Hang
      | Ret task \<Rightarrow>
          (case put_task m first EmptyTask q1 of
             Fault e \<Rightarrow> Some (Fault e)
           | Hang \<Rightarrow> Some Hang
           | Ret q2 \<Rightarrow> if task_id task = 0 then dequeue_atomic_loop m q2 else Some (Ret (task, q2))))"

definition dequeue_atomic :: "nat \<Rightarrow> task_queue \<Rightarrow> (task_desc \<times> task_queue) outcome" where
  "dequeue_atomic m q = (case dequeue_atomic_loop m q of None \<Rightarrow> Hang | Some r \<Rightarrow> r)"

section \<open>The array as a window of tasks\<close>

text \<open>The number of the next slot to write and of the next slot to read.\<close>

definition next_in :: "task_queue \<Rightarrow> nat" where
  "next_in q = nat (sint (rear q) + 1)"

definition next_out :: "task_queue \<Rightarrow> nat" where
  "next_out q = nat (sint (front q) + 1)"

definition task_list :: "nat \<Rightarrow> task_queue \<Rightarrow> task_desc list" where
  "task_list m q = window m (tasks q) (next_out q) (next_in q)"

definition task_inv :: "nat \<Rightarrow> task_queue \<Rightarrow> bool" where
  "task_inv m q \<longleftrightarrow> 0 < m \<and> length (tasks q) = m \<and> - 1 \<le> sint (front q)
     \<and> sint (front q) \<le> sint (rear q) \<and> sint (rear q) - sint (front q) \<le> int m"

definition task_budget :: "task_queue \<Rightarrow> nat" where
  "task_budget q = nat (INT_MAX - sint (rear q))"

lemma task_invD:
  assumes "task_inv m q"
  shows "0 < m" "length (tasks q) = m" "sint (front q) = int (next_out q) - 1"
    "sint (rear q) = int (next_in q) - 1" "next_out q \<le> next_in q" "next_in q \<le> next_out q + m"
  using assms by (auto simp: task_inv_def next_in_def next_out_def)

lemma length_task_list: "length (task_list m q) = next_in q - next_out q"
  by (simp add: task_list_def)

lemma task_slot: "0 < m \<Longrightarrow> sint i = int k \<Longrightarrow> c_mod (sint i) (int m) = Ret (int (k mod m))"
  by (simp add: c_mod_nonneg zmod_int)

lemma put_task_ok: "0 < m \<Longrightarrow> length (tasks q) = m \<Longrightarrow> sint i = int k
  \<Longrightarrow> put_task m i x q = Ret (q\<lparr>tasks := (tasks q)[k mod m := x]\<rparr>)"
  using task_slot [of m i k] by (simp add: put_task_def arr_write_ok)

lemma get_task_ok: "0 < m \<Longrightarrow> length (tasks q) = m \<Longrightarrow> sint i = int k
  \<Longrightarrow> get_task m i q = Ret (tasks q ! (k mod m))"
  using task_slot [of m i k] by (simp add: get_task_def arr_read_ok)

text \<open>The effect on the window of storing at the rear, and of moving the front (and clearing or not).\<close>

lemma task_snoc:
  fixes x :: task_desc
  assumes inv: "task_inv m q" and room: "length (task_list m q) < m" and b: "0 < task_budget q"
  defines "q' \<equiv> q\<lparr>rear := rear q + 1, tasks := (tasks q)[next_in q mod m := x]\<rparr>"
  shows "put_task m (rear q + 1) x (q\<lparr>rear := rear q + 1\<rparr>) = Ret q'" "task_inv m q'"
    "task_list m q' = task_list m q @ [x]" "sint (rear q') = sint (rear q) + 1"
    "c_incr (rear q) = Ret (rear q + 1)" "sint (rear q + 1) = int (next_in q)"
proof -
  note D = task_invD [OF inv]
  have lt: "sint (rear q) < INT_MAX"
    using b by (simp add: task_budget_def)
  then show cur: "sint (rear q + 1) = int (next_in q)"
    using D(4) by (simp add: sint_incr)
  have r: "next_in q < next_out q + m"
    using room D(5) by (simp add: length_task_list)
  show "put_task m (rear q + 1) x (q\<lparr>rear := rear q + 1\<rparr>) = Ret q'"
    using put_task_ok [of m "q\<lparr>rear := rear q + 1\<rparr>", OF D(1) _ cur] D(2) by (simp add: q'_def)
  show rr: "sint (rear q') = sint (rear q) + 1"
    using cur D(4) by (simp add: q'_def)
  have n: "next_in q' = Suc (next_in q)" "next_out q' = next_out q"
    using rr D(4) by (simp add: next_in_def [of q'], simp add: next_out_def q'_def)
  show "task_inv m q'"
    using D(1,2,3,4,5) r rr by (simp add: task_inv_def q'_def)
  show "task_list m q' = task_list m q @ [x]"
    using window_snoc [OF D(1,2,5) r] by (simp add: task_list_def n) (simp add: q'_def)
  show "c_incr (rear q) = Ret (rear q + 1)"
    using lt by (rule c_incr_ok)
qed

lemma task_pop:
  assumes inv: "task_inv m q" and ne: "task_list m q = x # xs"
  shows "get_task m (front q + 1) (q\<lparr>front := front q + 1\<rparr>) = Ret x"
    "ts = tasks q \<or> ts = (tasks q)[next_out q mod m := y] \<Longrightarrow>
       task_inv m (q\<lparr>front := front q + 1, tasks := ts\<rparr>)
       \<and> task_list m (q\<lparr>front := front q + 1, tasks := ts\<rparr>) = xs"
    "c_incr (front q) = Ret (front q + 1)" "sint (front q + 1) = int (next_out q)"
proof -
  note D = task_invD [OF inv]
  have lt: "next_out q < next_in q"
    using ne length_task_list [of m q] by simp
  then have f: "sint (front q) < INT_MAX"
    using D(3,4) sint_range [of "rear q"] by linarith
  then show cur: "sint (front q + 1) = int (next_out q)"
    using D(3) by (simp add: sint_incr)
  have hd: "tasks q ! (next_out q mod m) = x" and tl: "window m (tasks q) (Suc (next_out q)) (next_in q) = xs"
    using ne by (simp_all add: task_list_def window_Cons [OF lt])
  show "get_task m (front q + 1) (q\<lparr>front := front q + 1\<rparr>) = Ret x"
    using get_task_ok [of m "q\<lparr>front := front q + 1\<rparr>", OF D(1) _ cur] D(2) hd by simp
  show "c_incr (front q) = Ret (front q + 1)"
    using f by (rule c_incr_ok)
  show "task_inv m (q\<lparr>front := front q + 1, tasks := ts\<rparr>)
      \<and> task_list m (q\<lparr>front := front q + 1, tasks := ts\<rparr>) = xs"
    if "ts = tasks q \<or> ts = (tasks q)[next_out q mod m := y]"
  proof -
    let ?q = "q\<lparr>front := front q + 1, tasks := ts\<rparr>"
    have n: "next_out ?q = Suc (next_out q)" "next_in ?q = next_in q"
      by (simp_all add: next_out_def [of ?q] cur next_in_def)
    have "window m ts (Suc (next_out q)) (next_in q) = xs"
      using that tl window_pop [OF lt D(6), of "tasks q" y] ne by (auto simp: task_list_def)
    moreover have "task_inv m ?q"
      using that D(1,2,4,6) lt cur by (auto simp: task_inv_def)
    ultimately show ?thesis
      by (simp add: task_list_def n)
  qed
qed

section \<open>The contracts\<close>

definition task_ready :: "nat \<Rightarrow> task_desc \<Rightarrow> task_queue \<Rightarrow> bool" where
  "task_ready m x q \<longleftrightarrow> length (task_list m q) < m \<and> 0 < task_budget q"

lemma task_keep [simp]:
  "next_in (q\<lparr>locked := l, task_sem := a, spaces_sem := b\<rparr>) = next_in q"
  "next_out (q\<lparr>locked := l, task_sem := a, spaces_sem := b\<rparr>) = next_out q"
  "task_list m (q\<lparr>locked := l, task_sem := a, spaces_sem := b\<rparr>) = task_list m q"
  "task_inv m (q\<lparr>locked := l, task_sem := a, spaces_sem := b\<rparr>) = task_inv m q"
  "task_budget (q\<lparr>locked := l, task_sem := a, spaces_sem := b\<rparr>) = task_budget q"
  by (simp_all add: next_in_def next_out_def task_list_def task_inv_def task_budget_def)

lemma enqueue_ok:
  assumes "task_inv m q" and "task_ready m x q"
  shows "\<exists>q'. enqueue m x q = Ret q' \<and> task_inv m q' \<and> task_list m q' = task_list m q @ [x]
    \<and> task_budget q = Suc (task_budget q')"
proof -
  note S = task_snoc [OF assms(1)]
  have r: "length (task_list m q) < m" "0 < task_budget q"
    using assms(2) by (simp_all add: task_ready_def)
  then show ?thesis
    using S(1) [OF r, of x] S(2) [OF r, of x] S(3) [OF r, of x] S(4) [OF r, of x] S(5) [OF r]
    by (simp add: enqueue_def Let_def task_budget_def)
qed

lemma dequeue_ok:
  assumes "task_inv m q" and "task_list m q = x # xs"
  shows "\<exists>q'. dequeue m q = Ret (x, q') \<and> task_inv m q' \<and> task_list m q' = xs
    \<and> task_budget q' = task_budget q"
proof -
  note P = task_pop [OF assms]
  have "dequeue m q = Ret (x, q\<lparr>front := front q + 1\<rparr>)"
    using P(1,3) by (simp add: dequeue_def Let_def)
  then show ?thesis
    using P(2) [of "tasks q"] by (simp add: task_budget_def)
qed

interpretation tq: bounded_fifo "task_inv m" "task_list m" "task_ready m" "enqueue m" "dequeue m"
  "\<lambda>x. True" m task_budget for m
proof
  fix q x assume "task_inv m q" "task_ready m x q"
  from enqueue_ok [OF this]
  show "\<exists>q'. enqueue m x q = Ret q' \<and> task_inv m q' \<and> task_list m q' = task_list m q @ [x]"
    by blast
  fix q' assume "enqueue m x q = Ret q'"
  with enqueue_ok [OF \<open>task_inv m q\<close> \<open>task_ready m x q\<close>]
  show "task_budget q \<le> Suc (task_budget q')"
    by auto
next
  fix q x xs assume "task_inv m q" "task_list m q = x # xs"
  from dequeue_ok [OF this]
  show "\<exists>q'. dequeue m q = Ret (x, q') \<and> task_inv m q' \<and> task_list m q' = xs"
    by blast
  fix q' assume "dequeue m q = Ret (x, q')"
  with dequeue_ok [OF \<open>task_inv m q\<close> \<open>task_list m q = x # xs\<close>]
  show "task_budget q \<le> task_budget q'"
    by auto
next
  fix q x assume "length (task_list m q) < m" "0 < task_budget q"
  then show "task_ready m x q"
    by (simp add: task_ready_def)
qed

text \<open>The blocking queue: the semaphores count the tasks and the free slots.\<close>

definition blocking_inv :: "nat \<Rightarrow> task_queue \<Rightarrow> bool" where
  "blocking_inv m q \<longleftrightarrow> task_inv m q \<and> \<not> locked q \<and> task_sem q = length (task_list m q)
     \<and> spaces_sem q + length (task_list m q) = m"

lemma enqueue_blocking_eq:
  assumes "\<not> locked q" and "spaces_sem q = Suc k"
  shows "enqueue_blocking m x q = bindO (enqueue m x q) (\<lambda>q'.
    Ret (q'\<lparr>locked := False, task_sem := Suc (task_sem q), spaces_sem := k\<rparr>))"
proof (cases "c_incr (rear q)")
  case (Ret r)
  show ?thesis
    using assms Ret
    by (cases "c_mod (sint r) (int m)"; cases "arr_write (tasks q) (case c_mod (sint r) (int m) of Ret i \<Rightarrow> i) x")
      (simp_all add: enqueue_blocking_def enqueue_def wait_spaces_def lock_queue_def put_task_def)
qed (simp_all add: assms enqueue_blocking_def enqueue_def wait_spaces_def lock_queue_def)

lemma dequeue_blocking_eq:
  assumes "\<not> locked q" and "task_sem q = Suc k"
  shows "dequeue_blocking m q = bindO (dequeue m q) (\<lambda>(x, q').
    Ret (x, q'\<lparr>locked := False, task_sem := k, spaces_sem := Suc (spaces_sem q)\<rparr>))"
proof (cases "c_incr (front q)")
  case (Ret r)
  show ?thesis
    using assms Ret
    by (cases "c_mod (sint r) (int m)"; cases "arr_read (tasks q) (case c_mod (sint r) (int m) of Ret i \<Rightarrow> i)")
      (simp_all add: dequeue_blocking_def dequeue_def wait_tasks_def lock_queue_def get_task_def)
qed (simp_all add: assms dequeue_blocking_def dequeue_def wait_tasks_def lock_queue_def)

lemma enqueue_blocking_ok:
  assumes inv: "blocking_inv m q" and r: "task_ready m x q"
  shows "\<exists>q'. enqueue_blocking m x q = Ret q' \<and> blocking_inv m q'
    \<and> task_list m q' = task_list m q @ [x] \<and> task_budget q = Suc (task_budget q')"
proof -
  have q: "task_inv m q" "\<not> locked q" and s: "task_sem q = length (task_list m q)"
      "spaces_sem q = Suc (m - length (task_list m q) - 1)"
    using inv r by (auto simp: blocking_inv_def task_ready_def)
  obtain q' where "enqueue m x q = Ret q'" "task_inv m q'" "task_list m q' = task_list m q @ [x]"
      "task_budget q = Suc (task_budget q')"
    using enqueue_ok [OF q(1) r] by blast
  then show ?thesis
    using s r by (simp add: enqueue_blocking_eq [OF q(2) s(2)] blocking_inv_def task_ready_def)
qed

lemma dequeue_blocking_ok:
  assumes inv: "blocking_inv m q" and ne: "task_list m q = x # xs"
  shows "\<exists>q'. dequeue_blocking m q = Ret (x, q') \<and> blocking_inv m q'
    \<and> task_list m q' = xs \<and> task_budget q' = task_budget q"
proof -
  have q: "task_inv m q" "\<not> locked q" and s: "task_sem q = Suc (length xs)"
      "spaces_sem q + Suc (length xs) = m"
    using inv ne by (auto simp: blocking_inv_def)
  obtain q' where "dequeue m q = Ret (x, q')" "task_inv m q'" "task_list m q' = xs"
      "task_budget q' = task_budget q"
    using dequeue_ok [OF q(1) ne] by blast
  then show ?thesis
    using s by (simp add: dequeue_blocking_eq [OF q(2) s(1)] blocking_inv_def)
qed

interpretation tb: bounded_fifo "blocking_inv m" "task_list m" "task_ready m" "enqueue_blocking m"
  "dequeue_blocking m" "\<lambda>x. True" m task_budget for m
proof
  fix q x assume "blocking_inv m q" "task_ready m x q"
  from enqueue_blocking_ok [OF this]
  show "\<exists>q'. enqueue_blocking m x q = Ret q' \<and> blocking_inv m q' \<and> task_list m q' = task_list m q @ [x]"
    by blast
  fix q' assume "enqueue_blocking m x q = Ret q'"
  with enqueue_blocking_ok [OF \<open>blocking_inv m q\<close> \<open>task_ready m x q\<close>]
  show "task_budget q \<le> Suc (task_budget q')"
    by auto
next
  fix q x xs assume "blocking_inv m q" "task_list m q = x # xs"
  from dequeue_blocking_ok [OF this]
  show "\<exists>q'. dequeue_blocking m q = Ret (x, q') \<and> blocking_inv m q' \<and> task_list m q' = xs"
    by blast
  fix q' assume "dequeue_blocking m q = Ret (x, q')"
  with dequeue_blocking_ok [OF \<open>blocking_inv m q\<close> \<open>task_list m q = x # xs\<close>]
  show "task_budget q \<le> task_budget q'"
    by auto
next
  fix q x assume "length (task_list m q) < m" "0 < task_budget q"
  then show "task_ready m x q"
    by (simp add: task_ready_def)
qed

lemma blocking_edges:
  assumes "blocking_inv m q"
  shows "length (task_list m q) = m \<Longrightarrow> enqueue_blocking m x q = Hang"
    and "task_list m q = [] \<Longrightarrow> dequeue_blocking m q = Hang"
  using assms by (auto simp: blocking_inv_def enqueue_blocking_def dequeue_blocking_def
      wait_spaces_def wait_tasks_def)

text \<open>The atomic queue: a slot outside the window is \<open>EmptyTask\<close>, one inside holds a task whose
  identifier is not 0.\<close>

definition atomic_inv :: "nat \<Rightarrow> task_queue \<Rightarrow> bool" where
  "atomic_inv m q \<longleftrightarrow> task_inv m q \<and> (\<forall>i<m. if i \<in> live m (next_out q) (next_in q)
     then task_id (tasks q ! i) \<noteq> 0 else tasks q ! i = EmptyTask)"

lemma task_id_Empty [simp]: "task_id EmptyTask = 0"
  by (simp add: EmptyTask_def)

lemma enqueue_atomic_ok:
  assumes inv: "atomic_inv m q" and r: "task_ready m x q" and x: "task_id x \<noteq> 0"
  shows "\<exists>q'. enqueue_atomic m x q = Ret q' \<and> atomic_inv m q'
    \<and> task_list m q' = task_list m q @ [x] \<and> task_budget q = Suc (task_budget q')"
proof -
  have q: "task_inv m q" and room: "length (task_list m q) < m" "0 < task_budget q"
    using inv r by (simp_all add: atomic_inv_def task_ready_def)
  note D = task_invD [OF q]
  note S = task_snoc [OF q room]
  let ?k = "next_in q mod m"
  let ?q' = "q\<lparr>rear := rear q + 1, tasks := (tasks q)[?k := x]\<rparr>"
  have fresh: "?k \<notin> live m (next_out q) (next_in q)"
    using slot_fresh [OF D(5)] room(1) D(5) by (simp add: length_task_list)
  then have "tasks q ! ?k = EmptyTask"
    using inv D(1) by (auto simp: atomic_inv_def)
  then have "get_task m (rear q + 1) (q\<lparr>rear := rear q + 1\<rparr>) = Ret EmptyTask"
    using get_task_ok [of m "q\<lparr>rear := rear q + 1\<rparr>", OF D(1) _ S(6)] D(2) by simp
  then have "enqueue_atomic m x q = Ret ?q'"
    using S(1) [of x] by (simp add: enqueue_atomic_def enqueue_atomic_loop.simps Let_def)
  moreover have "atomic_inv m ?q'"
  proof -
    have n: "next_in ?q' = Suc (next_in q)" "next_out ?q' = next_out q"
      using S(4) [of x] D(4) by (simp add: next_in_def [of ?q'] S(6), simp add: next_out_def)
    show ?thesis
      using inv S(2) [of x] x fresh D(1,2)
      by (auto simp: atomic_inv_def n live_Suc [OF D(5)] nth_list_update)
  qed
  ultimately show ?thesis
    using S(3,4) [of x] room(2) by (simp add: task_budget_def)
qed

lemma dequeue_atomic_ok:
  assumes inv: "atomic_inv m q" and ne: "task_list m q = x # xs"
  shows "\<exists>q'. dequeue_atomic m q = Ret (x, q') \<and> atomic_inv m q' \<and> task_list m q' = xs
    \<and> task_budget q' = task_budget q"
proof -
  have q: "task_inv m q"
    using inv by (simp add: atomic_inv_def)
  note D = task_invD [OF q]
  note P = task_pop [OF q ne]
  let ?k = "next_out q mod m"
  let ?q' = "q\<lparr>front := front q + 1, tasks := (tasks q)[?k := EmptyTask]\<rparr>"
  have lt: "next_out q < next_in q"
    using ne length_task_list [of m q] by simp
  then have "?k \<in> live m (next_out q) (next_in q)" "x = tasks q ! ?k"
    using ne by (auto simp: live_def task_list_def window_Cons)
  then have "task_id x \<noteq> 0"
    using inv D(1) by (auto simp: atomic_inv_def)
  moreover have "put_task m (front q + 1) EmptyTask (q\<lparr>front := front q + 1\<rparr>) = Ret ?q'"
    using put_task_ok [of m "q\<lparr>front := front q + 1\<rparr>", OF D(1) _ P(4)] D(2) by simp
  ultimately have "dequeue_atomic m q = Ret (x, ?q')"
    using P(1) by (simp add: dequeue_atomic_def dequeue_atomic_loop.simps Let_def)
  moreover have "atomic_inv m ?q'"
  proof -
    have n: "next_out ?q' = Suc (next_out q)" "next_in ?q' = next_in q"
      by (simp_all add: next_out_def [of ?q'] P(4) next_in_def)
    show ?thesis
      using inv P(2) [of "tasks ?q'" EmptyTask] D(2)
      by (auto simp: atomic_inv_def n live_pop [OF lt D(6)] nth_list_update)
  qed
  ultimately show ?thesis
    using P(2) [of "tasks ?q'" EmptyTask] by (simp add: task_budget_def)
qed

interpretation ta: bounded_fifo "atomic_inv m" "task_list m" "\<lambda>x q. task_ready m x q \<and> task_id x \<noteq> 0"
  "enqueue_atomic m" "dequeue_atomic m" "\<lambda>x. task_id x \<noteq> 0" m task_budget for m
proof
  fix q x assume *: "atomic_inv m q" "task_ready m x q \<and> task_id x \<noteq> 0"
  from enqueue_atomic_ok [of m q x] *
  show "\<exists>q'. enqueue_atomic m x q = Ret q' \<and> atomic_inv m q' \<and> task_list m q' = task_list m q @ [x]"
    by blast
  fix q' assume "enqueue_atomic m x q = Ret q'"
  with enqueue_atomic_ok [of m q x] *
  show "task_budget q \<le> Suc (task_budget q')"
    by auto
next
  fix q x xs assume "atomic_inv m q" "task_list m q = x # xs"
  from dequeue_atomic_ok [OF this]
  show "\<exists>q'. dequeue_atomic m q = Ret (x, q') \<and> atomic_inv m q' \<and> task_list m q' = xs"
    by blast
  fix q' assume "dequeue_atomic m q = Ret (x, q')"
  with dequeue_atomic_ok [OF \<open>atomic_inv m q\<close> \<open>task_list m q = x # xs\<close>]
  show "task_budget q \<le> task_budget q'"
    by auto
next
  fix q and x :: task_desc assume "length (task_list m q) < m" "0 < task_budget q" "task_id x \<noteq> 0"
  then show "task_ready m x q \<and> task_id x \<noteq> 0"
    by (simp add: task_ready_def)
qed

section \<open>Freshly created queues\<close>

lemma create_queue_ok:
  assumes "0 < m" and "length mem = m"
  shows "task_inv m (create_queue m mem)" "task_list m (create_queue m mem) = []"
    "blocking_inv m (create_queue_blocking m mem)" "task_list m (create_queue_blocking m mem) = []"
    "task_budget (create_queue m mem) = 2147483647" "task_budget (create_queue_blocking m mem) = 2147483647"
  using assms
  by (simp_all add: task_inv_def blocking_inv_def task_list_def next_in_def next_out_def task_budget_def
      create_queue_def create_queue_blocking_def)

lemma create_queue_atomic_ok:
  assumes "0 < m"
  shows "atomic_inv m (create_queue_atomic m (replicate m EmptyTask))"
    "task_list m (create_queue_atomic m (replicate m EmptyTask)) = []"
    "task_budget (create_queue_atomic m (replicate m EmptyTask)) = 2147483648"
  using assms
  by (simp_all add: atomic_inv_def task_inv_def task_list_def next_in_def next_out_def
      task_budget_def create_queue_atomic_def)

text \<open>An array shorter than \<^verbatim>\<open>QUEUE_SIZE\<close> is overrun by the enqueue that reaches its end.\<close>

lemma enqueue_overrun:
  "sint (rear q) = int k \<Longrightarrow> length (tasks q) = cap \<Longrightarrow> cap < m \<Longrightarrow> m \<le> 2147483647 \<Longrightarrow> k < cap
   \<Longrightarrow> cap \<le> k + length xs \<Longrightarrow> enq_all (enqueue m) xs q = Fault BadIndex"
proof (induction xs arbitrary: q k)
  case Nil
  then show ?case by simp
next
  case (Cons x xs)
  have lt: "sint (rear q) < INT_MAX"
    using Cons.prems by linarith
  then have r: "c_incr (rear q) = Ret (rear q + 1)" "sint (rear q + 1) = int (Suc k)"
    using Cons.prems(1) by (simp_all add: c_incr_ok sint_incr)
  have slot: "c_mod (sint (rear q + 1)) (int m) = Ret (int (Suc k))"
    using task_slot [of m "rear q + 1" "Suc k"] r(2) Cons.prems(3,5) by simp
  show ?case
  proof (cases "Suc k < cap")
    case True
    let ?q = "q\<lparr>rear := rear q + 1, tasks := (tasks q)[Suc k := x]\<rparr>"
    have "enqueue m x q = Ret ?q"
      using True Cons.prems(2) arr_write_ok [of "Suc k" "tasks q" x]
      by (simp only: enqueue_def r(1) bindO.simps Let_def put_task_def slot) simp
    moreover have "enq_all (enqueue m) xs ?q = Fault BadIndex"
      using Cons.prems True r(2) by (intro Cons.IH [of ?q "Suc k"]) simp_all
    ultimately show ?thesis
      by simp
  next
    case False
    then have "arr_write (tasks q) (int (Suc k)) x = Fault BadIndex"
      using Cons.prems(2) by (simp add: arr_write_def)
    then have "enqueue m x q = Fault BadIndex"
      by (simp only: enqueue_def r(1) bindO.simps Let_def put_task_def slot) simp
    then show ?thesis
      by simp
  qed
qed

text \<open>Two rounds of the atomic enqueue on slots that hold the same task.\<close>

lemma enqueue_atomic_twice:
  assumes "0 < m" and "length (tasks q) = m" and "sint (rear q + 1) = int k" and "sint (rear q + 1 + 1) = int (Suc k)"
    and "tasks q ! (k mod m) = t" and "tasks q ! (Suc k mod m) = t" and "t \<noteq> EmptyTask"
  shows "enqueue_atomic m x q = Ret (q\<lparr>rear := rear q + 1 + 1, tasks := (tasks q)[Suc k mod m := x]\<rparr>)"
proof -
  let ?q1 = "q\<lparr>rear := rear q + 1\<rparr>" and ?q2 = "q\<lparr>rear := rear q + 1 + 1\<rparr>"
  have "get_task m (rear q + 1) ?q1 = Ret t" "get_task m (rear q + 1 + 1) ?q2 = Ret t"
    using assms get_task_ok [of m ?q1 "rear q + 1" k] get_task_ok [of m ?q2 "rear q + 1 + 1" "Suc k"] by simp_all
  moreover have "put_task m (rear q + 1 + 1) x ?q2 = Ret (?q2\<lparr>tasks := (tasks q)[Suc k mod m := x]\<rparr>)"
    using assms put_task_ok [of m ?q2 "rear q + 1 + 1" "Suc k"] by simp
  moreover have "enqueue_atomic_loop m x EmptyTask q = enqueue_atomic_loop m x t ?q1"
    using calculation(1) assms(7) by (subst enqueue_atomic_loop.simps) (simp add: Let_def)
  moreover have "enqueue_atomic_loop m x t ?q1 = Some (put_task m (rear q + 1 + 1) x ?q2)"
    using calculation(2) by (subst enqueue_atomic_loop.simps) (simp add: Let_def)
  ultimately show ?thesis
    by (simp add: enqueue_atomic_def)
qed

text \<open>One round of the atomic dequeue on a slot that holds a task.\<close>

lemma dequeue_atomic_once:
  assumes "0 < m" and "length (tasks q) = m" and "sint (front q + 1) = int k"
    and "tasks q ! (k mod m) = t" and "task_id t \<noteq> 0"
  shows "dequeue_atomic m q = Ret (t, q\<lparr>front := front q + 1, tasks := (tasks q)[k mod m := EmptyTask]\<rparr>)"
proof -
  let ?q1 = "q\<lparr>front := front q + 1\<rparr>"
  have "get_task m (front q + 1) ?q1 = Ret t"
    "put_task m (front q + 1) EmptyTask ?q1 = Ret (?q1\<lparr>tasks := (tasks q)[k mod m := EmptyTask]\<rparr>)"
    using assms get_task_ok [of m ?q1 "front q + 1" k] put_task_ok [of m ?q1 "front q + 1" k] by simp_all
  then show ?thesis
    using assms(5) by (simp add: dequeue_atomic_def dequeue_atomic_loop.simps Let_def)
qed

section \<open>Properties\<close>

definition demo_task :: "nat \<Rightarrow> task_desc" where
  "demo_task i = \<lparr>task_id = of_nat i, task_type = 1, num_threads = 1, params = 5\<rparr>"

definition demo_calls :: "task_desc qcall list" where
  "demo_calls = [Put (demo_task 7), Put (demo_task 8), Take, Put (demo_task 9), Take]"

lemma demo_calls_spec:
  "spec_run 2 demo_calls [] = Some ([demo_task 7, demo_task 8], [demo_task 9])"
  "puts demo_calls = [demo_task 7, demo_task 8, demo_task 9]"
  "list_all (\<lambda>x. task_id x \<noteq> 0) (puts demo_calls)"
  by (simp_all add: demo_calls_def demo_task_def)

text \<open>A sequence of calls on a new blocking queue that a list of at most \<^verbatim>\<open>QUEUE_SIZE\<close> tasks accepts is
  answered like that list; a call that it refuses, an enqueue on a full queue or a dequeue on an empty one,
  waits on its semaphore, for ever when nobody else calls.\<close>

theorem blocking_queue_refines:
  assumes "0 < m" and "length mem = m" and "spec_run m cs [] = Some (outs, q')" and "length (puts cs) \<le> 2147483647"
  shows "\<exists>s. impl_run (enqueue_blocking m) (dequeue_blocking m) cs (create_queue_blocking m mem) = Ret (outs, s)
    \<and> task_list m s = q' \<and> task_sem s = length q' \<and> spaces_sem s = m - length q'
    \<and> (length q' = m \<longrightarrow> (\<forall>x. enqueue_blocking m x s = Hang)) \<and> (q' = [] \<longrightarrow> dequeue_blocking m s = Hang)"
proof -
  note new = create_queue_ok [OF assms(1,2)]
  obtain s where "impl_run (enqueue_blocking m) (dequeue_blocking m) cs (create_queue_blocking m mem) = Ret (outs, s)"
      "blocking_inv m s" "task_list m s = q'"
    using tb.run_refines [OF new(3), of cs outs q'] assms(3,4) new(4,6) by (auto simp: list_all_iff)
  then show ?thesis
    using blocking_edges [of m s] by (auto simp: blocking_inv_def)
qed

theorem blocking_queue_refines_witness:
  "\<exists>s. impl_run (enqueue_blocking 2) (dequeue_blocking 2) demo_calls (create_queue_blocking 2 [demo_task 1, demo_task 2])
    = Ret ([demo_task 7, demo_task 8], s) \<and> task_sem s = 1"
  using blocking_queue_refines [OF _ _ demo_calls_spec(1), of "[demo_task 1, demo_task 2]"] demo_calls_spec(2) by auto

text \<open>A new atomic queue whose slots \<^verbatim>\<open>malloc\<close> left zero answers any sequence of calls with
  non-zero task identifiers like a list of at most \<^verbatim>\<open>QUEUE_SIZE\<close> tasks, up to the \<open>2 ^ 31\<close> enqueues
  its counter can number.\<close>

theorem atomic_queue_refines:
  assumes "0 < m" and "spec_run m cs [] = Some (outs, q')" and "length (puts cs) \<le> 2147483648"
    and "list_all (\<lambda>x. task_id x \<noteq> 0) (puts cs)"
  shows "\<exists>s. impl_run (enqueue_atomic m) (dequeue_atomic m) cs (create_queue_atomic m (replicate m EmptyTask)) = Ret (outs, s)
    \<and> atomic_inv m s \<and> task_list m s = q'"
  using ta.run_refines [OF create_queue_atomic_ok(1) [OF assms(1)], of cs outs q'] assms(2-4)
    create_queue_atomic_ok(2,3) [OF assms(1)] by simp

theorem atomic_queue_refines_witness:
  "\<exists>s. impl_run (enqueue_atomic 2) (dequeue_atomic 2) demo_calls (create_queue_atomic 2 (replicate 2 EmptyTask))
    = Ret ([demo_task 7, demo_task 8], s) \<and> task_list 2 s = [demo_task 9]"
  using atomic_queue_refines [OF _ demo_calls_spec(1) _ demo_calls_spec(3)] demo_calls_spec(2) by auto

text \<open>A new queue of \<^verbatim>\<open>queue.c\<close> with an array of \<^verbatim>\<open>QUEUE_SIZE\<close> slots, whatever they hold, answers
  any sequence of calls like a list of at most that many tasks, up to the \<open>2 ^ 31 - 1\<close> enqueues before
  \<^verbatim>\<open>++rear\<close> overflows.\<close>

theorem plain_queue_refines:
  assumes "0 < m" and "length mem = m" and "spec_run m cs [] = Some (outs, q')" and "length (puts cs) \<le> 2147483647"
  shows "\<exists>s. impl_run (enqueue m) (dequeue m) cs (create_queue m mem) = Ret (outs, s)
    \<and> task_inv m s \<and> task_list m s = q'"
  using tq.run_refines [OF create_queue_ok(1) [OF assms(1,2)], of cs outs q'] assms(3,4)
    create_queue_ok(2,5) [OF assms(1,2)] by (simp add: list_all_iff)

theorem plain_queue_refines_witness:
  "\<exists>s. impl_run (enqueue 2) (dequeue 2) demo_calls (create_queue 2 [demo_task 1, demo_task 2])
    = Ret ([demo_task 7, demo_task 8], s) \<and> task_list 2 s = [demo_task 9]"
  using plain_queue_refines [OF _ _ demo_calls_spec(1), of "[demo_task 1, demo_task 2]"] demo_calls_spec(2) by auto

text \<open>\<^verbatim>\<open>create_queue(sz)\<close> allocates \<open>sz\<close> slots, but the index is taken modulo \<^verbatim>\<open>QUEUE_SIZE\<close>: with a
  smaller capacity, as many enqueues as the queue has slots are enough to write behind the array.\<close>

theorem capacity_ignored:
  assumes "0 < cap" and "cap < m" and "m \<le> 2147483647" and "length mem = cap" and "cap \<le> length xs"
  shows "enq_all (enqueue m) xs (create_queue cap mem) = Fault BadIndex"
  by (rule enqueue_overrun [of _ 0]) (use assms in \<open>simp_all add: create_queue_def\<close>)

theorem capacity_ignored_witness:
  "enq_all (enqueue QUEUE_SIZE_si) [demo_task 1, demo_task 2] (create_queue 2 [demo_task 3, demo_task 4]) = Fault BadIndex"
  by (rule capacity_ignored) (simp_all add: QUEUE_SIZE_si_def)

text \<open>The failed compare-and-exchange of \<^verbatim>\<open>enqueue_atomic\<close> replaces the expected empty task by
  the task it found: on a full queue whose two oldest tasks are equal, the enqueue returns, having
  overwritten the second of them, and the new task is dequeued in its place, before all others.\<close>

theorem atomic_overwrites_equal:
  assumes "atomic_inv m q" and "task_list m q = t # t # ts" and "length (task_list m q) = m"
    and "2 \<le> task_budget q" and "task_id x \<noteq> 0"
  shows "\<exists>q1 q2. enqueue_atomic m x q = Ret q1 \<and> deq_n (dequeue_atomic m) 2 q1 = Ret ([t, x], q2)"
proof -
  have q: "task_inv m q"
    using assms(1) by (simp add: atomic_inv_def)
  note D = task_invD [OF q]
  have full: "next_in q = next_out q + m" and m: "2 \<le> m"
    using assms(2,3) length_task_list [of m q] D(5) by auto
  let ?a = "next_out q mod m" and ?b = "Suc (next_out q) mod m"
  have lt: "next_out q < next_in q" "Suc (next_out q) < next_in q"
    using full m by simp_all
  have t: "tasks q ! ?a = t" "tasks q ! ?b = t"
    using assms(2) by (simp_all add: task_list_def window_Cons [OF lt(1)] window_Cons [OF lt(2)])
  have ab: "?a \<noteq> ?b"
    using mod_slot_inj [of "next_out q" m "Suc (next_out q)"] m by auto
  have "?a \<in> live m (next_out q) (next_in q)"
    using lt(1) by (simp add: live_def)
  then have "task_id t \<noteq> 0"
    using assms(1) D(1) t(1) by (auto simp: atomic_inv_def)
  then have t0: "task_id t \<noteq> 0" "t \<noteq> EmptyTask"
    by auto
  have s: "(next_out q + m) mod m = ?a" "Suc (next_out q + m) mod m = ?b"
    using mod_add_self2 [of "next_out q" m] mod_add_self2 [of "Suc (next_out q)" m] by simp_all
  have r: "sint (rear q + 1) = int (next_in q)" "sint (rear q + 1 + 1) = int (Suc (next_in q))"
    using assms(4) D(4) sint_incr [of "rear q"] sint_incr [of "rear q + 1"] by (simp_all add: task_budget_def)
  let ?q1 = "q\<lparr>rear := rear q + 1 + 1, tasks := (tasks q)[?b := x]\<rparr>"
  have q1: "enqueue_atomic m x q = Ret ?q1"
    using enqueue_atomic_twice [OF D(1,2) r(1,2) _ _ t0(2), of x] t s by (simp add: full)
  have f: "sint (front q + 1) = int (next_out q)" "sint (front q + 1 + 1) = int (Suc (next_out q))"
    using assms(4) D(3,4) full sint_incr [of "front q"] sint_incr [of "front q + 1"] by (simp_all add: task_budget_def)
  let ?q2 = "?q1\<lparr>front := front q + 1, tasks := (tasks ?q1)[?a := EmptyTask]\<rparr>"
  have "dequeue_atomic m ?q1 = Ret (t, ?q2)"
    using dequeue_atomic_once [of m ?q1 "next_out q" t] D(1,2) f(1) t(1) t0(1) ab by simp
  moreover have "?b < m"
    using D(1) by simp
  then have "\<exists>q3. dequeue_atomic m ?q2 = Ret (x, q3)"
    using dequeue_atomic_once [of m ?q2 "Suc (next_out q)" x] D(1,2) f(2) assms(5) ab by simp
  ultimately show ?thesis
    using q1 by (auto simp: numeral_2_eq_2)
qed

theorem atomic_overwrites_equal_witness:
  "\<exists>q q1 q2. enq_all (enqueue_atomic 3) [demo_task 1, demo_task 1, demo_task 2]
      (create_queue_atomic 3 (replicate 3 EmptyTask)) = Ret q
    \<and> enqueue_atomic 3 (demo_task 9) q = Ret q1 \<and> deq_n (dequeue_atomic 3) 2 q1 = Ret ([demo_task 1, demo_task 9], q2)"
proof -
  let ?xs = "[demo_task 1, demo_task 1, demo_task 2]"
  obtain q where "enq_all (enqueue_atomic 3) ?xs (create_queue_atomic 3 (replicate 3 EmptyTask)) = Ret q"
      "atomic_inv 3 q" "task_list 3 q = ?xs" "2 \<le> task_budget q"
    using ta.enq_all_budget [of 3 "create_queue_atomic 3 (replicate 3 EmptyTask)" ?xs] create_queue_atomic_ok [of 3]
    by (auto simp: demo_task_def)
  then show ?thesis
    using atomic_overwrites_equal [of 3 q "demo_task 1" "[demo_task 2]" "demo_task 9"]
    by (auto simp: demo_task_def)
qed

end
