(* ===== verification/Semi_Blocking.thy ===== *)
theory Semi_Blocking
  imports Queue_Contract
begin

text \<open>
  \<^verbatim>\<open>SimpleQueueImpl/semiblockingqueue.c\<close>: a linked queue of two lists. \<^verbatim>\<open>queue_put\<close> pushes a
  node on the incoming list with a compare-and-swap; \<^verbatim>\<open>queue_get\<close> pops the outgoing list under a
  mutex and, when it is empty, takes the whole incoming list and reverses it. The nodes belong to the
  caller; \<open>nexts\<close> is the heap of their \<^verbatim>\<open>next\<close> fields, \<open>None\<close> at an address that is not allocated.
\<close>

section \<open>State and operations\<close>

datatype ptr = NULL | POISON | Addr nat

record queue_root =
  in_queue :: ptr
  out_queue :: ptr
  root_lock :: bool
  nexts :: "nat \<Rightarrow> ptr option"

definition ALLOC_QUEUE_ROOT :: "(nat \<Rightarrow> ptr option) \<Rightarrow> queue_root" where
  "ALLOC_QUEUE_ROOT h = \<lparr>in_queue = NULL, out_queue = NULL, root_lock = False, nexts = h\<rparr>"

definition read_next :: "ptr \<Rightarrow> queue_root \<Rightarrow> ptr outcome" where
  "read_next p r =
     (case p of NULL \<Rightarrow> Fault NullPointer | POISON \<Rightarrow> Fault BadPointer
      | Addr a \<Rightarrow> (case nexts r a of None \<Rightarrow> Fault UseAfterFree | Some q \<Rightarrow> Ret q))"

definition write_next :: "ptr \<Rightarrow> ptr \<Rightarrow> queue_root \<Rightarrow> queue_root outcome" where
  "write_next p q r =
     (case p of NULL \<Rightarrow> Fault NullPointer | POISON \<Rightarrow> Fault BadPointer
      | Addr a \<Rightarrow> (case nexts r a of None \<Rightarrow> Fault UseAfterFree
          | Some _ \<Rightarrow> Ret (r\<lparr>nexts := (nexts r)(a \<mapsto> q)\<rparr>)))"

definition INIT_QUEUE_HEAD :: "ptr \<Rightarrow> queue_root \<Rightarrow> queue_root outcome" where
  "INIT_QUEUE_HEAD head r = write_next head POISON r"

text \<open>\<^verbatim>\<open>_cas(&root->in_queue, old, new)\<close>\<close>

definition cas_in :: "ptr \<Rightarrow> ptr \<Rightarrow> queue_root \<Rightarrow> bool \<times> queue_root" where
  "cas_in old new r = (if in_queue r = old then (True, r\<lparr>in_queue := new\<rparr>) else (False, r))"

partial_function (option) queue_put_loop :: "ptr \<Rightarrow> queue_root \<Rightarrow> queue_root outcome option" where
  "queue_put_loop new r =
     (let old = in_queue r in
      case write_next new old r of
        Fault e \<Rightarrow> Some (Fault e)
      | Hang \<Rightarrow> Some Hang
      | Ret r1 \<Rightarrow>
          (case cas_in old new r1 of (ok, r2) \<Rightarrow>
             if ok then Some (Ret r2) else queue_put_loop new r2))"

definition queue_put :: "ptr \<Rightarrow> queue_root \<Rightarrow> queue_root outcome" where
  "queue_put new r = (case queue_put_loop new r of None \<Rightarrow> Hang | Some x \<Rightarrow> x)"

text \<open>\<^verbatim>\<open>while (head) { next = head->next; head->next = root->out_queue; root->out_queue = head; head = next; }\<close>\<close>

partial_function (option) reverse_loop :: "ptr \<Rightarrow> queue_root \<Rightarrow> queue_root outcome option" where
  "reverse_loop head r =
     (if head = NULL then Some (Ret r)
      else case read_next head r of
        Fault e \<Rightarrow> Some (Fault e)
      | Hang \<Rightarrow> Some Hang
      | Ret nx \<Rightarrow>
          (case write_next head (out_queue r) r of
             Fault e \<Rightarrow> Some (Fault e)
           | Hang \<Rightarrow> Some Hang
           | Ret r1 \<Rightarrow> reverse_loop nx (r1\<lparr>out_queue := head\<rparr>)))"

partial_function (option) refill_loop :: "queue_root \<Rightarrow> queue_root outcome option" where
  "refill_loop r =
     (let head = in_queue r in
      if head = NULL then Some (Ret r)
      else case cas_in head NULL r of (ok, r1) \<Rightarrow> if ok then reverse_loop head r1 else refill_loop r1)"

definition queue_get :: "queue_root \<Rightarrow> (ptr \<times> queue_root) outcome" where
  "queue_get r =
     (if root_lock r then Hang
      else let r1 = r\<lparr>root_lock := True\<rparr> in
       bindO (if out_queue r1 = NULL
              then (case refill_loop r1 of None \<Rightarrow> Hang | Some x \<Rightarrow> x)
              else Ret r1) (\<lambda>r2.
       let head = out_queue r2 in
       bindO (if head = NULL then Ret r2
              else bindO (read_next head r2) (\<lambda>nx. Ret (r2\<lparr>out_queue := nx\<rparr>))) (\<lambda>r3.
         Ret (head, r3\<lparr>root_lock := False\<rparr>))))"

section \<open>Lists in the heap\<close>

fun chain :: "(nat \<Rightarrow> ptr option) \<Rightarrow> nat list \<Rightarrow> ptr \<Rightarrow> bool" where
  "chain h [] p \<longleftrightarrow> p = NULL"
| "chain h (a # as) p \<longleftrightarrow> p = Addr a \<and> (\<exists>q. h a = Some q \<and> chain h as q)"

partial_function (option) walk :: "(nat \<Rightarrow> ptr option) \<Rightarrow> ptr \<Rightarrow> nat list option" where
  "walk h p =
     (case p of NULL \<Rightarrow> Some [] | POISON \<Rightarrow> None
      | Addr a \<Rightarrow>
          (case h a of None \<Rightarrow> None
           | Some q \<Rightarrow> Option.bind (walk h q) (\<lambda>as. Some (a # as))))"

lemma chain_walk: "chain h as p \<Longrightarrow> walk h p = Some as"
proof (induction as arbitrary: p)
  case Nil
  then show ?case
    by (subst walk.simps) simp
next
  case (Cons a as)
  then obtain q where q: "p = Addr a" "h a = Some q" "walk h q = Some as"
    by auto
  then show ?case
    by (subst walk.simps) simp
qed

lemma chain_update: "a \<notin> set as \<Longrightarrow> chain (h(a := x)) as p = chain h as p"
  by (induction as arbitrary: p) auto

definition in_list :: "queue_root \<Rightarrow> nat list" where
  "in_list r = (case walk (nexts r) (in_queue r) of None \<Rightarrow> [] | Some as \<Rightarrow> as)"

definition out_list :: "queue_root \<Rightarrow> nat list" where
  "out_list r = (case walk (nexts r) (out_queue r) of None \<Rightarrow> [] | Some as \<Rightarrow> as)"

text \<open>The queue, oldest first, and its invariant: two disjoint proper lists and a free mutex.\<close>

definition root_list :: "queue_root \<Rightarrow> ptr list" where
  "root_list r = map Addr (out_list r @ rev (in_list r))"

definition lists_are :: "nat list \<Rightarrow> nat list \<Rightarrow> queue_root \<Rightarrow> bool" where
  "lists_are ins outs r \<longleftrightarrow> chain (nexts r) ins (in_queue r) \<and> chain (nexts r) outs (out_queue r)
     \<and> distinct (ins @ outs)"

definition root_inv :: "queue_root \<Rightarrow> bool" where
  "root_inv r \<longleftrightarrow> \<not> root_lock r \<and> lists_are (in_list r) (out_list r) r"

lemma lists_are_lists: "lists_are ins outs r \<Longrightarrow> in_list r = ins \<and> out_list r = outs"
  using chain_walk [of "nexts r" ins "in_queue r"] chain_walk [of "nexts r" outs "out_queue r"]
  by (simp add: lists_are_def in_list_def out_list_def)

lemma root_invI:
  "lists_are ins outs r \<Longrightarrow> \<not> root_lock r \<Longrightarrow>
   root_inv r \<and> root_list r = map Addr (outs @ rev ins)"
  using lists_are_lists [of ins outs r] by (simp add: root_inv_def root_list_def)

text \<open>A node may be put when it is allocated and not already in the queue.\<close>

definition root_ready :: "ptr \<Rightarrow> queue_root \<Rightarrow> bool" where
  "root_ready p r \<longleftrightarrow> (\<exists>a. p = Addr a \<and> nexts r a \<noteq> None \<and> p \<notin> set (root_list r))"

section \<open>The contract\<close>

lemma queue_put_ok:
  assumes inv: "root_inv r" and rdy: "root_ready p r"
  shows "\<exists>r'. queue_put p r = Ret r' \<and> root_inv r' \<and> root_list r' = root_list r @ [p]
    \<and> dom (nexts r') = dom (nexts r)"
proof -
  obtain a nx where a: "p = Addr a" "nexts r a = Some nx" "a \<notin> set (in_list r)" "a \<notin> set (out_list r)"
    using rdy by (auto simp: root_ready_def root_list_def)
  let ?r = "r\<lparr>nexts := (nexts r)(a \<mapsto> in_queue r), in_queue := Addr a\<rparr>"
  have "queue_put p r = Ret ?r"
    using a by (simp add: queue_put_def queue_put_loop.simps write_next_def cas_in_def Let_def)
  moreover have "lists_are (a # in_list r) (out_list r) ?r"
    using inv a by (simp add: root_inv_def lists_are_def chain_update)
  ultimately show ?thesis
    using root_invI [of "a # in_list r" "out_list r" ?r] inv a
    by (auto simp: root_inv_def root_list_def)
qed

lemma reverse_loop_ok:
  assumes "chain (nexts r) as head" and "chain (nexts r) outs (out_queue r)" and "distinct (as @ outs)"
  shows "\<exists>r'. reverse_loop head r = Some (Ret r') \<and> in_queue r' = in_queue r
    \<and> root_lock r' = root_lock r \<and> chain (nexts r') (rev as @ outs) (out_queue r')
    \<and> dom (nexts r') = dom (nexts r)"
  using assms
proof (induction as arbitrary: head outs r)
  case Nil
  then show ?case
    by (subst reverse_loop.simps) simp
next
  case (Cons a as)
  then obtain q where q: "head = Addr a" "nexts r a = Some q" "chain (nexts r) as q"
    by auto
  let ?r = "r\<lparr>nexts := (nexts r)(a \<mapsto> out_queue r), out_queue := Addr a\<rparr>"
  have "chain (nexts ?r) as q" "chain (nexts ?r) (a # outs) (out_queue ?r)" "distinct (as @ a # outs)"
    using q Cons.prems by (simp_all add: chain_update)
  from Cons.IH [OF this] obtain r' where "reverse_loop q ?r = Some (Ret r')" "in_queue r' = in_queue r"
      "root_lock r' = root_lock r" "chain (nexts r') (rev as @ a # outs) (out_queue r')"
      and d: "dom (nexts r') = dom (nexts ?r)"
    by fastforce
  moreover have "dom (nexts r') = dom (nexts r)"
    unfolding d using q(2) by auto
  moreover have "reverse_loop head r = reverse_loop q ?r"
    using q by (subst reverse_loop.simps) (simp add: read_next_def write_next_def)
  ultimately show ?case
    by simp
qed

text \<open>Refilling an empty outgoing list turns the incoming list over.\<close>

lemma refill_ok:
  assumes "lists_are ins [] r"
  shows "\<exists>r'. refill_loop r = Some (Ret r') \<and> root_lock r' = root_lock r \<and> lists_are [] (rev ins) r'
    \<and> dom (nexts r') = dom (nexts r)"
proof (cases ins)
  case Nil
  with assms have "refill_loop r = Some (Ret r)"
    by (subst refill_loop.simps) (simp add: lists_are_def Let_def)
  with Nil assms show ?thesis
    by simp
next
  case (Cons a as)
  let ?r = "r\<lparr>in_queue := NULL\<rparr>"
  have c: "in_queue r = Addr a" "chain (nexts ?r) ins (in_queue r)" "chain (nexts ?r) [] (out_queue ?r)"
      "distinct (ins @ [])"
    using assms Cons by (simp_all add: lists_are_def)
  from reverse_loop_ok [OF c(2-4)] obtain r' where r': "reverse_loop (in_queue r) ?r = Some (Ret r')"
      "in_queue r' = NULL" "root_lock r' = root_lock r" "chain (nexts r') (rev ins) (out_queue r')" "dom (nexts r') = dom (nexts r)"
    by auto
  then have "refill_loop r = Some (Ret r')"
    using c(1) by (subst refill_loop.simps) (simp add: cas_in_def Let_def)
  with r' assms show ?thesis
    by (simp add: lists_are_def)
qed

lemma pop_out_ok:
  assumes "lists_are ins (a # outs) r"
  shows "out_queue r = Addr a" "\<exists>nx. read_next (Addr a) r = Ret nx \<and> lists_are ins outs (r\<lparr>out_queue := nx\<rparr>)"
  using assms by (auto simp: lists_are_def read_next_def)

lemma queue_get_ok:
  assumes inv: "root_inv r" and ne: "root_list r = x # xs"
  shows "\<exists>r'. queue_get r = Ret (x, r') \<and> root_inv r' \<and> root_list r' = xs \<and> dom (nexts r') = dom (nexts r)"
proof -
  let ?r1 = "r\<lparr>root_lock := True\<rparr>"
  have l: "lists_are (in_list r) (out_list r) ?r1"
    using inv by (simp add: root_inv_def lists_are_def)
  obtain a outs ins r2 where r2:
      "(if out_queue ?r1 = NULL then (case refill_loop ?r1 of None \<Rightarrow> Hang | Some x \<Rightarrow> x) else Ret ?r1) = Ret r2"
      "lists_are ins (a # outs) r2" "x = Addr a" "xs = map Addr (outs @ rev ins)" "dom (nexts r2) = dom (nexts r)"
  proof (cases "out_list r")
    case Nil
    then obtain r2 where "refill_loop ?r1 = Some (Ret r2)" "lists_are [] (rev (in_list r)) r2"
        "dom (nexts r2) = dom (nexts r)"
      using l refill_ok [of "in_list r" ?r1] by auto
    moreover have "out_queue ?r1 = NULL"
      using l Nil by (simp add: lists_are_def)
    moreover obtain a outs where "rev (in_list r) = a # outs" "x = Addr a" "xs = map Addr outs"
      using ne Nil by (auto simp: root_list_def)
    ultimately show thesis
      using that [of r2 "[]" a outs] by simp
  next
    case (Cons a outs)
    moreover from this have "out_queue ?r1 \<noteq> NULL"
      using l by (simp add: lists_are_def)
    ultimately show thesis
      using that [of ?r1 "in_list r" a outs] l ne by (simp add: root_list_def)
  qed
  obtain nx where "out_queue r2 = Addr a" "read_next (Addr a) r2 = Ret nx" "lists_are ins outs (r2\<lparr>out_queue := nx\<rparr>)"
    using pop_out_ok [OF r2(2)] by blast
  moreover from this(3) have "lists_are ins outs (r2\<lparr>out_queue := nx, root_lock := False\<rparr>)"
    by (simp add: lists_are_def)
  ultimately show ?thesis
    using r2 inv root_invI [of ins outs "r2\<lparr>out_queue := nx, root_lock := False\<rparr>"]
    by (simp add: queue_get_def root_inv_def Let_def)
qed

lemma queue_get_empty:
  assumes "root_inv r" and "root_list r = []"
  shows "queue_get r = Ret (NULL, r)"
proof -
  have "in_queue r = NULL" "out_queue r = NULL" "\<not> root_lock r"
    using assms by (simp_all add: root_inv_def lists_are_def root_list_def)
  then show ?thesis
    by (simp add: queue_get_def refill_loop.simps Let_def)
qed

interpretation sb: fifo_queue root_inv root_list root_ready queue_put queue_get
  by unfold_locales (use queue_put_ok queue_get_ok in blast)+

lemma ALLOC_QUEUE_ROOT_ok: "root_inv (ALLOC_QUEUE_ROOT h) \<and> root_list (ALLOC_QUEUE_ROOT h) = []"
  using root_invI [of "[]" "[]" "ALLOC_QUEUE_ROOT h"] by (simp add: ALLOC_QUEUE_ROOT_def lists_are_def)

section \<open>Properties\<close>

text \<open>The list of nodes the queue stands for: a node of \<open>A\<close> that is not queued may be put, and taking
  from an empty list answers \<^verbatim>\<open>NULL\<close>.\<close>

fun node_run :: "nat set \<Rightarrow> ptr qcall list \<Rightarrow> ptr list \<Rightarrow> (ptr list \<times> ptr list) option" where
  "node_run A [] q = Some ([], q)"
| "node_run A (Put p # cs) q = (if p \<in> Addr ` A \<and> p \<notin> set q then node_run A cs (q @ [p]) else None)"
| "node_run A (Take # cs) q =
     map_option (\<lambda>(xs, q'). ((case q of [] \<Rightarrow> NULL | x # _ \<Rightarrow> x) # xs, q')) (node_run A cs (tl q))"

lemma root_take:
  assumes "root_inv r"
  shows "\<exists>x r1. queue_get r = Ret (x, r1) \<and> root_inv r1 \<and> root_list r1 = tl (root_list r)
    \<and> dom (nexts r1) = dom (nexts r) \<and> x = (case root_list r of [] \<Rightarrow> NULL | x # _ \<Rightarrow> x)"
proof (cases "root_list r")
  case Nil
  then show ?thesis
    using queue_get_empty [OF assms] assms by simp
next
  case (Cons y ys)
  obtain r' where "queue_get r = Ret (y, r')" "root_inv r'" "root_list r' = ys" "dom (nexts r') = dom (nexts r)"
    using queue_get_ok [OF assms Cons] by blast
  then show ?thesis
    using Cons by simp
qed

lemma root_run_refines:
  "root_inv r \<Longrightarrow> node_run (dom (nexts r)) cs (root_list r) = Some (outs, q')
   \<Longrightarrow> \<exists>r'. impl_run queue_put queue_get cs r = Ret (outs, r') \<and> root_inv r' \<and> root_list r' = q'"
proof (induction cs arbitrary: r outs)
  case Nil
  then show ?case by simp
next
  case (Cons c cs)
  show ?case
  proof (cases c)
    case (Put p)
    with Cons.prems(2) have "root_ready p r"
        and n: "node_run (dom (nexts r)) cs (root_list r @ [p]) = Some (outs, q')"
      by (auto simp: root_ready_def split: if_splits)
    then obtain r1 where r1: "queue_put p r = Ret r1" "root_inv r1" "root_list r1 = root_list r @ [p]"
        "dom (nexts r1) = dom (nexts r)"
      using queue_put_ok [OF Cons.prems(1)] by blast
    with Cons.IH [of r1 outs] n Put show ?thesis
      by simp
  next
    case Take
    obtain x r1 where r1: "queue_get r = Ret (x, r1)" "root_inv r1" "root_list r1 = tl (root_list r)"
        "dom (nexts r1) = dom (nexts r)" "x = (case root_list r of [] \<Rightarrow> NULL | x # _ \<Rightarrow> x)"
      using root_take [OF Cons.prems(1)] by blast
    moreover obtain outs' where "outs = x # outs'" "node_run (dom (nexts r1)) cs (root_list r1) = Some (outs', q')"
      using Cons.prems(2) Take r1(3-5) by auto
    ultimately show ?thesis
      using Cons.IH [of r1 outs'] Take by auto
  qed
qed

text \<open>Any sequence of \<^verbatim>\<open>queue_put\<close> of nodes that are allocated and not in the queue, and of
  \<^verbatim>\<open>queue_get\<close>, on a new root behaves as on one list: first in, first out across the two lists and the
  reversals between them, with \<^verbatim>\<open>NULL\<close> when there is nothing to get; every call returns.\<close>

theorem semiblocking_refines:
  assumes "node_run (dom h) cs [] = Some (outs, q')"
  shows "\<exists>r. impl_run queue_put queue_get cs (ALLOC_QUEUE_ROOT h) = Ret (outs, r)
    \<and> root_inv r \<and> root_list r = q'"
proof -
  have "nexts (ALLOC_QUEUE_ROOT h) = h"
    by (simp add: ALLOC_QUEUE_ROOT_def)
  then show ?thesis
    using root_run_refines [of "ALLOC_QUEUE_ROOT h" cs outs q'] ALLOC_QUEUE_ROOT_ok [of h] assms by simp
qed

theorem semiblocking_refines_witness:
  "\<exists>r. impl_run queue_put queue_get [Take, Put (Addr 4), Put (Addr 2), Take, Put (Addr 4), Take, Take, Take, Put (Addr 2)]
      (ALLOC_QUEUE_ROOT [2 \<mapsto> NULL, 4 \<mapsto> NULL])
    = Ret ([NULL, Addr 4, Addr 2, Addr 4, NULL], r) \<and> root_list r = [Addr 2]"
  using semiblocking_refines [of "[2 \<mapsto> NULL, 4 \<mapsto> NULL]"
      "[Take, Put (Addr 4), Put (Addr 2), Take, Put (Addr 4), Take, Take, Take, Put (Addr 2)]"
      "[NULL, Addr 4, Addr 2, Addr 4, NULL]" "[Addr 2]"] by auto

end
