(* ===== verification/Lock_Free.thy ===== *)
theory Lock_Free
  imports Queue_Contract
begin

text \<open>
  \<^verbatim>\<open>SimpleQueueImpl/lockfreequeue.c\<close>: a linked queue in which nodes point to counted
  pointers and those to nodes. The heap has the two kinds of blocks; \<^verbatim>\<open>malloc\<close> gives the next
  address never used before, and \<^verbatim>\<open>free\<close> takes a block away, so that every access to a freed
  block is a fault. One caller runs at a time, so a compare-and-swap on a value just read succeeds.
  A stored \<^verbatim>\<open>void*\<close> is \<open>Some\<close> of an address, or \<open>None\<close> for \<^verbatim>\<open>NULL\<close>.
\<close>

section \<open>The heap\<close>

record lf_node =
  val :: "nat option"
  next_ptr :: "nat option"

record lf_pointer =
  pcount :: c_int
  nptr :: "nat option"

record lf_queue =
  qhead :: nat
  qtail :: nat
  nodes :: "nat \<Rightarrow> lf_node option"
  pointers :: "nat \<Rightarrow> lf_pointer option"
  brk :: nat

definition get_node :: "nat option \<Rightarrow> lf_queue \<Rightarrow> lf_node outcome" where
  "get_node p q = (case p of None \<Rightarrow> Fault NullPointer
     | Some a \<Rightarrow> (case nodes q a of None \<Rightarrow> Fault UseAfterFree | Some x \<Rightarrow> Ret x))"

definition get_pointer :: "nat option \<Rightarrow> lf_queue \<Rightarrow> lf_pointer outcome" where
  "get_pointer p q = (case p of None \<Rightarrow> Fault NullPointer
     | Some a \<Rightarrow> (case pointers q a of None \<Rightarrow> Fault UseAfterFree | Some x \<Rightarrow> Ret x))"

definition set_node :: "nat option \<Rightarrow> (lf_node \<Rightarrow> lf_node) \<Rightarrow> lf_queue \<Rightarrow> lf_queue outcome" where
  "set_node p f q = bindO (get_node p q) (\<lambda>x. Ret (q\<lparr>nodes := (nodes q)(the p \<mapsto> f x)\<rparr>))"

definition set_pointer :: "nat option \<Rightarrow> (lf_pointer \<Rightarrow> lf_pointer) \<Rightarrow> lf_queue \<Rightarrow> lf_queue outcome" where
  "set_pointer p f q = bindO (get_pointer p q) (\<lambda>x. Ret (q\<lparr>pointers := (pointers q)(the p \<mapsto> f x)\<rparr>))"

definition new_node :: "lf_node \<Rightarrow> lf_queue \<Rightarrow> nat \<times> lf_queue" where
  "new_node x q = (brk q, q\<lparr>nodes := (nodes q)(brk q \<mapsto> x), brk := Suc (brk q)\<rparr>)"

definition new_pointer :: "lf_pointer \<Rightarrow> lf_queue \<Rightarrow> nat \<times> lf_queue" where
  "new_pointer x q = (brk q, q\<lparr>pointers := (pointers q)(brk q \<mapsto> x), brk := Suc (brk q)\<rparr>)"

text \<open>\<^verbatim>\<open>free(NULL)\<close> does nothing.\<close>

definition free_node :: "nat option \<Rightarrow> lf_queue \<Rightarrow> lf_queue outcome" where
  "free_node p q = (case p of None \<Rightarrow> Ret q
     | Some a \<Rightarrow> (case nodes q a of None \<Rightarrow> Fault DoubleFree
         | Some _ \<Rightarrow> Ret (q\<lparr>nodes := (nodes q)(a := None)\<rparr>)))"

definition free_pointer :: "nat option \<Rightarrow> lf_queue \<Rightarrow> lf_queue outcome" where
  "free_pointer p q = (case p of None \<Rightarrow> Ret q
     | Some a \<Rightarrow> (case pointers q a of None \<Rightarrow> Fault DoubleFree
         | Some _ \<Rightarrow> Ret (q\<lparr>pointers := (pointers q)(a := None)\<rparr>)))"

text \<open>\<^verbatim>\<open>__sync_fetch_and_add(&p->count, 1)\<close>\<close>

definition incr_count :: "nat option \<Rightarrow> lf_queue \<Rightarrow> lf_queue outcome" where
  "incr_count p = set_pointer p (\<lambda>x. x\<lparr>pcount := pcount x + 1\<rparr>)"

section \<open>q\_initialize and qpush\<close>

definition q_initialize :: "lf_queue" where
  "q_initialize =
     (let q0 = \<lparr>qhead = 0, qtail = 0, nodes = Map.empty, pointers = Map.empty, brk = 0\<rparr>;
          (node, q1) = new_node \<lparr>val = None, next_ptr = None\<rparr> q0;
          (nodeptr, q2) = new_pointer \<lparr>pcount = 1, nptr = Some node\<rparr> q1
      in q2\<lparr>qhead := nodeptr, qtail := nodeptr\<rparr>)"

text \<open>
  One round of the loop; \<open>True\<close> for \<^verbatim>\<open>break\<close>. The last branch swings the tail to
  \<^verbatim>\<open>next->nptr\<close>, a node where a pointer belongs; the model follows the code.
\<close>

definition qpush_round :: "nat \<Rightarrow> lf_queue \<Rightarrow> (bool \<times> lf_queue) outcome" where
  "qpush_round nodeptr q =
     (let tail = qtail q in
      bindO (get_pointer (Some tail) q) (\<lambda>t.
      bindO (get_node (nptr t) q) (\<lambda>n.
      case next_ptr n of
        None \<Rightarrow>
          bindO (incr_count (Some nodeptr) q) (\<lambda>q1.
          bindO (set_node (nptr t) (\<lambda>x. x\<lparr>next_ptr := Some nodeptr\<rparr>) q1) (\<lambda>q2.
            Ret (True, q2\<lparr>qtail := nodeptr\<rparr>)))
      | Some nx \<Rightarrow>
          bindO (incr_count (Some nx) q) (\<lambda>q1.
          bindO (get_pointer (Some nx) q1) (\<lambda>x.
          case nptr x of None \<Rightarrow> Fault NullPointer | Some a \<Rightarrow> Ret (False, q1\<lparr>qtail := a\<rparr>))))))"

partial_function (option) qpush_loop :: "nat \<Rightarrow> lf_queue \<Rightarrow> lf_queue outcome option" where
  "qpush_loop nodeptr q =
     (case qpush_round nodeptr q of
        Fault e \<Rightarrow> Some (Fault e)
      | Hang \<Rightarrow> Some Hang
      | Ret (stop, q') \<Rightarrow> if stop then Some (Ret q') else qpush_loop nodeptr q')"

definition qpush :: "nat option \<Rightarrow> lf_queue \<Rightarrow> lf_queue outcome" where
  "qpush value q =
     (let (node, q1) = new_node \<lparr>val = value, next_ptr = None\<rparr> q;
          (nodeptr, q2) = new_pointer \<lparr>pcount = 1, nptr = Some node\<rparr> q1
      in case qpush_loop nodeptr q2 of None \<Rightarrow> Hang | Some r \<Rightarrow> r)"

section \<open>qpop\<close>

text \<open>
  The branch for a head whose count is 0: unless the node pointer equals \<^verbatim>\<open>_next\<close>, the
  tail gets a fresh node and the head becomes the tail.
\<close>

definition qpop_recount :: "nat option \<Rightarrow> lf_queue \<Rightarrow> (bool \<times> lf_queue) outcome" where
  "qpop_recount nx q =
     bindO (get_pointer (Some (qhead q)) q) (\<lambda>h.
     if pcount h \<noteq> 0 then Ret (False, q)
     else if nptr h = nx then Ret (True, q)
     else (let (node, q1) = new_node \<lparr>val = None, next_ptr = None\<rparr> q in
       bindO (set_pointer (Some (qtail q1)) (\<lambda>x. x\<lparr>pcount := 0\<rparr>) q1) (\<lambda>q2.
       bindO (set_pointer (Some (qtail q2)) (\<lambda>x. x\<lparr>nptr := Some node\<rparr>) q2) (\<lambda>q3.
         Ret (False, q3\<lparr>qhead := qtail q3\<rparr>)))))"

text \<open>How a round ends: with a result, or with another round, which inherits \<^verbatim>\<open>_next\<close>.\<close>

datatype pop_end = Popped "nat option" | Again "nat option"

definition qpop_take :: "nat \<Rightarrow> nat option \<Rightarrow> lf_queue \<Rightarrow> (pop_end \<times> lf_queue) outcome" where
  "qpop_take nx tmp q =
     bindO (get_pointer (Some nx) q) (\<lambda>x.
     bindO (get_node (nptr x) q) (\<lambda>n.
     bindO (get_pointer (Some (qhead q)) q) (\<lambda>h.
     if next_ptr n = None
     then bindO (free_node (nptr h) q) (\<lambda>q1.
          bindO (set_pointer (Some (qhead q1)) (\<lambda>y. y\<lparr>nptr := nptr x\<rparr>) q1) (\<lambda>q2.
          bindO (free_pointer (Some nx) (q2\<lparr>qtail := qhead q2\<rparr>)) (\<lambda>q3.
            Ret (Popped (val n), q3))))
     else bindO (incr_count (Some nx) q) (\<lambda>q1.
          bindO (get_node (nptr h) q1) (\<lambda>hn.
          if next_ptr hn \<noteq> tmp then Ret (Again (Some nx), q1)
          else bindO (set_node (nptr h) (\<lambda>y. y\<lparr>next_ptr := next_ptr n\<rparr>) q1) (\<lambda>q2.
               bindO (free_node (nptr x) q2) (\<lambda>q3.
               bindO (free_pointer (Some nx) q3) (\<lambda>q4.
                 Ret (Popped (val n), q4)))))))))"

definition qpop_round :: "nat option \<Rightarrow> lf_queue \<Rightarrow> (pop_end \<times> lf_queue) outcome" where
  "qpop_round prev q =
     (let head = qhead q; tail = qtail q in
      if head = tail then Ret (Popped None, q)
      else bindO (qpop_recount prev q) (\<lambda>(stop, q1).
      if stop then Ret (Popped None, q1)
      else bindO (get_pointer (Some (qhead q1)) q1) (\<lambda>h.
           bindO (get_node (nptr h) q1) (\<lambda>hn.
           bindO (get_pointer (Some head) q1) (\<lambda>h0.
           case next_ptr hn of
             None \<Rightarrow> Ret (Popped None, q1)
           | Some nx \<Rightarrow>
               if head \<noteq> qhead q1 then Ret (Again (Some nx), q1)
               else bindO (get_pointer (Some tail) q1) (\<lambda>t.
                    if nptr h0 = nptr t
                    then bindO (incr_count (Some nx) q1) (\<lambda>q2.
                      Ret (Again (Some nx), if qtail q2 = tail then q2\<lparr>qtail := nx\<rparr> else q2))
                    else qpop_take nx (next_ptr hn) q1))))))"

partial_function (option) qpop_loop :: "nat option \<Rightarrow> lf_queue \<Rightarrow> (nat option \<times> lf_queue) outcome option" where
  "qpop_loop prev q =
     (case qpop_round prev q of
        Fault e \<Rightarrow> Some (Fault e)
      | Hang \<Rightarrow> Some Hang
      | Ret (r, q') \<Rightarrow> (case r of Popped v \<Rightarrow> Some (Ret (v, q')) | Again nx \<Rightarrow> qpop_loop nx q'))"

definition qpop :: "lf_queue \<Rightarrow> (nat option \<times> lf_queue) outcome" where
  "qpop q = (case qpop_loop None q of None \<Rightarrow> Hang | Some r \<Rightarrow> r)"

section \<open>queue\_free\<close>

text \<open>The result is the heap that is left, the queue being gone.\<close>

definition queue_free :: "lf_queue \<Rightarrow> lf_queue outcome" where
  "queue_free q =
     bindO (get_pointer (Some (qhead q)) q) (\<lambda>h.
     bindO (free_node (nptr h) q) (\<lambda>q1.
     bindO (free_pointer (Some (qhead q)) q1) (\<lambda>q2.
     if qhead q = qtail q then Ret q2
     else bindO (get_pointer (Some (qtail q2)) q2) (\<lambda>t.
          bindO (free_node (nptr t) q2) (\<lambda>q3.
          free_pointer (Some (qtail q3)) q3)))))"

section \<open>The chain of a well-formed queue\<close>

text \<open>From the dummy node \<open>n\<close>: the links as pointer address, node address and stored value.\<close>

type_synonym link = "nat \<times> nat \<times> nat option"

abbreviation link_ptr :: "link \<Rightarrow> nat" where
  "link_ptr \<equiv> fst"

abbreviation link_node :: "link \<Rightarrow> nat" where
  "link_node x \<equiv> fst (snd x)"

abbreviation link_val :: "link \<Rightarrow> nat option" where
  "link_val x \<equiv> snd (snd x)"

fun lchain :: "(nat \<Rightarrow> lf_node option) \<Rightarrow> (nat \<Rightarrow> lf_pointer option) \<Rightarrow> nat \<Rightarrow> link list \<Rightarrow> bool" where
  "lchain nd pt n [] \<longleftrightarrow> (\<exists>x. nd n = Some x \<and> next_ptr x = None)"
| "lchain nd pt n (l # ls) \<longleftrightarrow>
     (\<exists>x. nd n = Some x \<and> next_ptr x = Some (link_ptr l))
     \<and> (\<exists>y. pt (link_ptr l) = Some y \<and> nptr y = Some (link_node l))
     \<and> (\<exists>x. nd (link_node l) = Some x \<and> val x = link_val l)
     \<and> lchain nd pt (link_node l) ls"

partial_function (option) lwalk :: "(nat \<Rightarrow> lf_node option) \<Rightarrow> (nat \<Rightarrow> lf_pointer option) \<Rightarrow> nat
    \<Rightarrow> nat option list option" where
  "lwalk nd pt n =
     (case nd n of None \<Rightarrow> None
      | Some x \<Rightarrow> (case next_ptr x of None \<Rightarrow> Some []
        | Some p \<Rightarrow> (case pt p of None \<Rightarrow> None
          | Some y \<Rightarrow> (case nptr y of None \<Rightarrow> None
            | Some n' \<Rightarrow> (case nd n' of None \<Rightarrow> None
              | Some x' \<Rightarrow> Option.bind (lwalk nd pt n') (\<lambda>vs. Some (val x' # vs)))))))"

definition lf_list :: "lf_queue \<Rightarrow> nat option list" where
  "lf_list q =
     (case pointers q (qhead q) of None \<Rightarrow> []
      | Some h \<Rightarrow> (case nptr h of None \<Rightarrow> []
        | Some n \<Rightarrow> (case lwalk (nodes q) (pointers q) n of None \<Rightarrow> [] | Some vs \<Rightarrow> vs)))"

text \<open>
  The shape of the whole heap: the head pointer and its dummy node, the links, the tail at the last
  pointer, no block besides these, and all addresses below the next one.
\<close>

definition node_addrs :: "nat \<Rightarrow> link list \<Rightarrow> nat list" where
  "node_addrs n ls = n # map link_node ls"

definition ptr_addrs :: "nat \<Rightarrow> link list \<Rightarrow> nat list" where
  "ptr_addrs h ls = h # map link_ptr ls"

definition lf_shape :: "lf_queue \<Rightarrow> nat \<Rightarrow> link list \<Rightarrow> bool" where
  "lf_shape q n ls \<longleftrightarrow>
     (\<exists>h. pointers q (qhead q) = Some h \<and> nptr h = Some n \<and> pcount h = 1)
     \<and> lchain (nodes q) (pointers q) n ls
     \<and> distinct (node_addrs n ls) \<and> distinct (ptr_addrs (qhead q) ls)
     \<and> qtail q = last (ptr_addrs (qhead q) ls)
     \<and> dom (nodes q) = set (node_addrs n ls) \<and> dom (pointers q) = set (ptr_addrs (qhead q) ls)
     \<and> (\<forall>a\<in>dom (nodes q) \<union> dom (pointers q). a < brk q)"

definition lf_inv :: "lf_queue \<Rightarrow> bool" where
  "lf_inv q \<longleftrightarrow> (\<exists>n ls. lf_shape q n ls)"

lemma lchain_lwalk: "lchain nd pt n ls \<Longrightarrow> lwalk nd pt n = Some (map link_val ls)"
proof (induction ls arbitrary: n)
  case Nil
  then show ?case
    by (subst lwalk.simps) auto
next
  case (Cons l ls)
  then have "lwalk nd pt (link_node l) = Some (map link_val ls)"
    by simp
  with Cons.prems show ?case
    by (subst lwalk.simps) auto
qed

lemma lf_shape_list: "lf_shape q n ls \<Longrightarrow> lf_list q = map link_val ls"
  using lchain_lwalk [of "nodes q" "pointers q" n ls] by (auto simp: lf_shape_def lf_list_def)

lemma lchain_other_node: "a \<notin> set (node_addrs n ls) \<Longrightarrow> lchain (nd(a := x)) pt n ls = lchain nd pt n ls"
  by (induction ls arbitrary: n) (auto simp: node_addrs_def)

lemma lchain_other_ptr: "a \<notin> set (map link_ptr ls) \<Longrightarrow> lchain nd (pt(a := x)) n ls = lchain nd pt n ls"
  by (induction ls arbitrary: n) auto

text \<open>Changing the link of the first node only matters to the first link.\<close>

lemma lchain_relink:
  "lchain nd pt n (l # ls) \<Longrightarrow> nd m = Some x \<Longrightarrow> m \<notin> set (node_addrs (link_node l) ls)
   \<Longrightarrow> lchain (nd(m \<mapsto> x\<lparr>next_ptr := Some (link_ptr l)\<rparr>)) pt m (l # ls)"
  by (auto simp: lchain_other_node node_addrs_def)

text \<open>Linking a new node at the end.\<close>

lemma lchain_append:
  assumes "lchain nd pt n ls" and "nd (last (node_addrs n ls)) = Some x"
    and "a \<notin> set (node_addrs n ls)" and "p \<notin> set (map link_ptr ls)" and "distinct (node_addrs n ls)"
    and "next_ptr nn = None" and "val nn = v" and "nptr pp = Some a"
  shows "lchain (nd(a \<mapsto> nn, last (node_addrs n ls) \<mapsto> x\<lparr>next_ptr := Some p\<rparr>)) (pt(p \<mapsto> pp)) n (ls @ [(p, a, v)])"
  using assms
proof (induction ls arbitrary: n)
  case Nil
  then show ?case
    by (simp add: node_addrs_def)
next
  case (Cons l ls)
  let ?e = "last (node_addrs (link_node l) ls)"
  define nd' where "nd' = nd(a \<mapsto> nn, ?e \<mapsto> x\<lparr>next_ptr := Some p\<rparr>)"
  define pt' where "pt' = pt(p \<mapsto> pp)"
  have last: "last (node_addrs n (l # ls)) = ?e"
    by (simp add: node_addrs_def)
  have "lchain nd' pt' (link_node l) (ls @ [(p, a, v)])"
    unfolding nd'_def pt'_def using Cons.prems by (intro Cons.IH) (auto simp: last node_addrs_def)
  moreover have "?e \<in> set (node_addrs (link_node l) ls)"
    by (rule last_in_set) (simp add: node_addrs_def)
  moreover have "n \<notin> set (node_addrs (link_node l) ls)"
    using Cons.prems(5) by (simp add: node_addrs_def)
  ultimately have "n \<noteq> ?e" and rest: "lchain nd' pt' (link_node l) (ls @ [(p, a, v)])"
    by metis+
  have "n \<noteq> a" "link_node l \<noteq> a" "link_ptr l \<noteq> p"
    using Cons.prems by (auto simp: node_addrs_def)
  then have "nd' n = nd n" "pt' (link_ptr l) = pt (link_ptr l)"
    using \<open>n \<noteq> ?e\<close> by (simp_all add: nd'_def pt'_def)
  moreover have "\<exists>z. nd' (link_node l) = Some z \<and> val z = link_val l"
    using Cons.prems(1,2) \<open>link_node l \<noteq> a\<close> by (auto simp: last nd'_def)
  ultimately have "lchain nd' pt' n ((l # ls) @ [(p, a, v)])"
    using Cons.prems(1) rest by simp
  then show ?case
    unfolding last nd'_def pt'_def .
qed

lemma lchain_last_ptr:
  "lchain nd pt n ls \<Longrightarrow> ls \<noteq> [] \<Longrightarrow> \<exists>y. pt (last (ptr_addrs h ls)) = Some y \<and> nptr y = Some (last (node_addrs n ls))"
  by (induction ls arbitrary: n h) (auto simp: ptr_addrs_def node_addrs_def split: if_splits)

lemma lchain_last_node:
  "lchain nd pt n ls \<Longrightarrow> \<exists>x. nd (last (node_addrs n ls)) = Some x \<and> next_ptr x = None"
  by (induction ls arbitrary: n) (auto simp: node_addrs_def)

section \<open>The operations on the shape\<close>

lemma node_addrs_snoc: "node_addrs n (ls @ [l]) = node_addrs n ls @ [link_node l]"
  by (simp add: node_addrs_def)

lemma ptr_addrs_snoc: "ptr_addrs h (ls @ [l]) = ptr_addrs h ls @ [link_ptr l]"
  by (simp add: ptr_addrs_def)

lemma lf_shapeD:
  assumes "lf_shape q n ls"
  shows "lchain (nodes q) (pointers q) n ls" "distinct (node_addrs n ls)"
    "distinct (ptr_addrs (qhead q) ls)" "qtail q = last (ptr_addrs (qhead q) ls)"
    "dom (nodes q) = set (node_addrs n ls)" "dom (pointers q) = set (ptr_addrs (qhead q) ls)"
    "a \<in> set (node_addrs n ls) \<Longrightarrow> a < brk q" "a \<in> set (ptr_addrs (qhead q) ls) \<Longrightarrow> a < brk q"
    "\<exists>h. pointers q (qhead q) = Some h \<and> nptr h = Some n \<and> pcount h = 1"
  using assms by (auto simp: lf_shape_def)

lemma q_initialize_shape: "lf_shape q_initialize 0 []"
  by (auto simp: q_initialize_def new_node_def new_pointer_def lf_shape_def node_addrs_def
      ptr_addrs_def Let_def)

lemma tail_node:
  assumes "lf_shape q n ls"
  shows "\<exists>t x. pointers q (qtail q) = Some t \<and> nptr t = Some (last (node_addrs n ls))
    \<and> nodes q (last (node_addrs n ls)) = Some x \<and> next_ptr x = None"
proof -
  note S = lf_shapeD [OF assms]
  have "\<exists>t. pointers q (qtail q) = Some t \<and> nptr t = Some (last (node_addrs n ls))"
  proof (cases "ls = []")
    case True
    then show ?thesis
      using S(4,9) by (auto simp: ptr_addrs_def node_addrs_def)
  next
    case False
    then show ?thesis
      using lchain_last_ptr [OF S(1) False, of "qhead q"] S(4) by simp
  qed
  then show ?thesis
    using lchain_last_node [OF S(1)] by auto
qed

lemma qpush_ok:
  assumes sh: "lf_shape q n ls"
  shows "\<exists>q' l. qpush v q = Ret q' \<and> lf_shape q' n (ls @ [l]) \<and> link_val l = v"
proof -
  note S = lf_shapeD [OF sh]
  let ?e = "last (node_addrs n ls)" and ?a = "brk q" and ?p = "Suc (brk q)"
  obtain t x where t: "pointers q (qtail q) = Some t" "nptr t = Some ?e" "nodes q ?e = Some x"
      "next_ptr x = None"
    using tail_node [OF sh] by blast
  have mem: "qtail q \<in> set (ptr_addrs (qhead q) ls)" "?e \<in> set (node_addrs n ls)"
    using t S(5,6) by auto
  then have lt: "qtail q < brk q" "?e < brk q"
    using S(7,8) by auto
  let ?nn = "\<lparr>val = v, next_ptr = None\<rparr>" and ?pp = "\<lparr>pcount = 2, nptr = Some ?a\<rparr>"
  let ?q' = "q\<lparr>nodes := (nodes q)(?a \<mapsto> ?nn, ?e \<mapsto> x\<lparr>next_ptr := Some ?p\<rparr>),
    pointers := (pointers q)(?p \<mapsto> ?pp), qtail := ?p, brk := Suc ?p\<rparr>"
  have "qpush v q = Ret ?q'"
    using t lt by (simp add: qpush_def new_node_def new_pointer_def qpush_loop.simps qpush_round_def
        get_pointer_def get_node_def incr_count_def set_pointer_def set_node_def Let_def fun_upd_twist)
  moreover have fresh: "?a \<notin> set (node_addrs n ls)" "?p \<notin> set (ptr_addrs (qhead q) ls)"
    using S(7) [of ?a] S(8) [of ?p] by auto
  have chain: "lchain (nodes ?q') (pointers ?q') n (ls @ [(?p, ?a, v)])"
    using lchain_append [OF S(1) t(3) fresh(1), of ?p ?nn v ?pp] fresh(2) S(2)
    by (simp add: ptr_addrs_def)
  moreover have "lf_shape ?q' n (ls @ [(?p, ?a, v)])"
    unfolding lf_shape_def
  proof (intro conjI)
    have "qhead q \<noteq> ?p"
      using fresh(2) by (auto simp: ptr_addrs_def)
    then show "\<exists>h. pointers ?q' (qhead ?q') = Some h \<and> nptr h = Some n \<and> pcount h = 1"
      using S(9) by simp
    show "dom (nodes ?q') = set (node_addrs n (ls @ [(?p, ?a, v)]))"
      using S(5) mem(2) by (auto simp: node_addrs_snoc)
    show "dom (pointers ?q') = set (ptr_addrs (qhead ?q') (ls @ [(?p, ?a, v)]))"
      using S(6) by (simp add: ptr_addrs_snoc)
    show "\<forall>c\<in>dom (nodes ?q') \<union> dom (pointers ?q'). c < brk ?q'"
      using S(5-8) lt(2) by (auto simp: less_Suc_eq)
  qed (use S(2,3) fresh chain in \<open>simp_all add: node_addrs_snoc ptr_addrs_snoc\<close>)
  ultimately show ?thesis
    by (intro exI [of _ ?q'] exI [of _ "(?p, ?a, v)"]) simp
qed

lemma last_node_in: "ls \<noteq> [] \<Longrightarrow> last (node_addrs n ls) \<in> set (map link_node ls)"
  unfolding node_addrs_def by (metis last_ConsR last_in_set list.map_disc_iff)

lemma last_ptr_in: "ls \<noteq> [] \<Longrightarrow> last (ptr_addrs h ls) \<in> set (map link_ptr ls)"
  unfolding ptr_addrs_def by (metis last_ConsR last_in_set list.map_disc_iff)

lemma qpop_empty:
  assumes "lf_shape q n []"
  shows "qpop q = Ret (None, q)"
  using lf_shapeD(4) [OF assms]
  by (simp add: qpop_def qpop_loop.simps qpop_round_def ptr_addrs_def)

text \<open>On a non-empty queue the first round goes straight to the first link.\<close>

lemma qpop_first_round:
  assumes sh: "lf_shape q n (l # ls)"
  shows "qpop_round prev q = qpop_take (link_ptr l) (Some (link_ptr l)) q"
proof -
  note S = lf_shapeD [OF sh]
  obtain h where h: "pointers q (qhead q) = Some h" "nptr h = Some n" "pcount h = 1"
    using S(9) by blast
  obtain x where x: "nodes q n = Some x" "next_ptr x = Some (link_ptr l)"
    using S(1) by auto
  obtain t where t: "pointers q (qtail q) = Some t" "nptr t = Some (last (node_addrs n (l # ls)))"
    using tail_node [OF sh] by blast
  have "last (node_addrs n (l # ls)) \<in> set (map link_node (l # ls))"
    by (rule last_node_in) simp
  moreover have "n \<notin> set (map link_node (l # ls))"
    using S(2) by (simp add: node_addrs_def)
  ultimately have "n \<noteq> last (node_addrs n (l # ls))"
    by metis
  moreover have "qhead q \<noteq> qtail q"
    using h t \<open>n \<noteq> last _\<close> by auto
  ultimately show ?thesis
    using h x t by (simp add: qpop_round_def qpop_recount_def get_pointer_def get_node_def Let_def)
qed

lemma qpop_single:
  assumes sh: "lf_shape q n [l]"
  shows "\<exists>q'. qpop q = Ret (link_val l, q') \<and> lf_shape q' (link_node l) []"
proof -
  note S = lf_shapeD [OF sh]
  let ?p = "link_ptr l" and ?m = "link_node l"
  obtain h where h: "pointers q (qhead q) = Some h" "nptr h = Some n" "pcount h = 1"
    using S(9) by blast
  obtain y x' where l: "nodes q n \<noteq> None" "pointers q ?p = Some y" "nptr y = Some ?m"
      "nodes q ?m = Some x'" "val x' = link_val l" "next_ptr x' = None"
    using S(1) by auto
  have ne: "n \<noteq> ?m" "qhead q \<noteq> ?p"
    using S(2,3) by (simp_all add: node_addrs_def ptr_addrs_def)
  let ?q' = "q\<lparr>nodes := (nodes q)(n := None),
    pointers := (pointers q)(qhead q \<mapsto> h\<lparr>nptr := Some ?m\<rparr>, ?p := None), qtail := qhead q\<rparr>"
  have "qpop_take ?p (Some ?p) q = Ret (Popped (link_val l), ?q')"
    using h l ne by (auto simp: qpop_take_def get_pointer_def get_node_def free_node_def
        free_pointer_def set_pointer_def)
  then have "qpop q = Ret (link_val l, ?q')"
    by (simp add: qpop_def qpop_loop.simps qpop_first_round [OF sh])
  moreover have "lf_shape ?q' ?m []"
    unfolding lf_shape_def
  proof (intro conjI)
    show "dom (nodes ?q') = set (node_addrs ?m [])"
      using S(5) ne by (auto simp: node_addrs_def)
    show "dom (pointers ?q') = set (ptr_addrs (qhead ?q') [])"
      using S(6) ne by (auto simp: ptr_addrs_def)
    have "?m < brk q" "qhead q < brk q"
      using S(7) [of ?m] S(8) [of "qhead q"] by (simp_all add: node_addrs_def ptr_addrs_def)
    then show "\<forall>a\<in>dom (nodes ?q') \<union> dom (pointers ?q'). a < brk ?q'"
      using S(5,6) by (auto simp: node_addrs_def ptr_addrs_def)
  qed (use h l ne in \<open>auto simp: node_addrs_def ptr_addrs_def\<close>)
  ultimately show ?thesis
    by blast
qed

lemma qpop_several:
  assumes sh: "lf_shape q n (l # k # ls)"
  shows "\<exists>q'. qpop q = Ret (link_val l, q') \<and> lf_shape q' n (k # ls)"
proof -
  note S = lf_shapeD [OF sh]
  let ?p = "link_ptr l" and ?m = "link_node l"
  obtain h where h: "pointers q (qhead q) = Some h" "nptr h = Some n" "pcount h = 1"
    using S(9) by blast
  obtain x y x' where l: "nodes q n = Some x" "next_ptr x = Some ?p" "pointers q ?p = Some y"
      "nptr y = Some ?m" "nodes q ?m = Some x'" "val x' = link_val l" "next_ptr x' = Some (link_ptr k)"
    using S(1) by auto
  have ne: "n \<noteq> ?m" "qhead q \<noteq> ?p" "?m \<notin> set (node_addrs n (k # ls))" "?p \<notin> set (ptr_addrs (qhead q) (k # ls))"
    using S(2,3) by (auto simp: node_addrs_def ptr_addrs_def)
  let ?nd = "(nodes q)(n \<mapsto> x\<lparr>next_ptr := Some (link_ptr k)\<rparr>, ?m := None)"
  let ?q' = "q\<lparr>nodes := ?nd, pointers := (pointers q)(?p := None)\<rparr>"
  have "qpop_take ?p (Some ?p) q = Ret (Popped (link_val l), ?q')"
    using h l ne(1,2) by (auto simp: qpop_take_def get_pointer_def get_node_def free_node_def
        free_pointer_def set_pointer_def set_node_def incr_count_def)
  then have "qpop q = Ret (link_val l, ?q')"
    by (simp add: qpop_def qpop_loop.simps qpop_first_round [OF sh])
  moreover have "lf_shape ?q' n (k # ls)"
    unfolding lf_shape_def
  proof (intro conjI)
    have "lchain ((nodes q)(n \<mapsto> x\<lparr>next_ptr := Some (link_ptr k)\<rparr>)) (pointers q) n (k # ls)"
      using S(1,2) l(1) by (intro lchain_relink [where nd = "nodes q" and n = ?m]) (auto simp: node_addrs_def)
    then show "lchain (nodes ?q') (pointers ?q') n (k # ls)"
      using lchain_other_node [OF ne(3)] lchain_other_ptr [of ?p "k # ls"] ne(4)
      by (simp del: lchain.simps add: ptr_addrs_def)
    have d: "dom (nodes ?q') = dom (nodes q) - {?m}"
      using l(1) ne(1) by auto
    have "dom (nodes q) = insert ?m (set (node_addrs n (k # ls)))"
      using S(5) by (auto simp: node_addrs_def)
    then show "dom (nodes ?q') = set (node_addrs n (k # ls))"
      unfolding d by (simp only: Diff_insert_absorb [OF ne(3)])
    show "dom (pointers ?q') = set (ptr_addrs (qhead ?q') (k # ls))"
    proof -
      have "dom (pointers q) = insert ?p (set (ptr_addrs (qhead q) (k # ls)))"
        using S(6) by (auto simp: ptr_addrs_def)
      then show ?thesis
        by (simp add: Diff_insert_absorb [OF ne(4)])
    qed
    show "\<forall>a\<in>dom (nodes ?q') \<union> dom (pointers ?q'). a < brk ?q'"
      using S(5-8) l(1) by auto
  qed (use S(2,3,4) h ne in \<open>auto simp: node_addrs_def ptr_addrs_def\<close>)
  ultimately show ?thesis
    by blast
qed

section \<open>The contract\<close>

interpretation lf: bounded_fifo lf_inv lf_list "\<lambda>v q. True" qpush qpop "\<lambda>v. True" K "\<lambda>q. B" for K B :: nat
proof
  fix q and v :: "nat option"
  assume "lf_inv q"
  then obtain n ls where sh: "lf_shape q n ls"
    by (auto simp: lf_inv_def)
  from qpush_ok [OF sh, of v] obtain q' l where q': "qpush v q = Ret q'" "lf_shape q' n (ls @ [l])" "link_val l = v"
    by blast
  then show "\<exists>q'. qpush v q = Ret q' \<and> lf_inv q' \<and> lf_list q' = lf_list q @ [v]"
    using lf_shape_list [OF sh] lf_shape_list [OF q'(2)] by (auto simp: lf_inv_def)
next
  fix q and v :: "nat option" and vs
  assume "lf_inv q" and vs: "lf_list q = v # vs"
  then obtain n ls where sh: "lf_shape q n ls"
    by (auto simp: lf_inv_def)
  obtain l ls' where ls: "ls = l # ls'" "link_val l = v" "map link_val ls' = vs"
    using lf_shape_list [OF sh] vs by (cases ls) auto
  have "\<exists>q' n'. qpop q = Ret (v, q') \<and> lf_shape q' n' ls'"
  proof (cases ls')
    case Nil
    with qpop_single [of q n l] sh ls show ?thesis by blast
  next
    case (Cons k ks)
    with qpop_several [of q n l k ks] sh ls show ?thesis by blast
  qed
  then show "\<exists>q'. qpop q = Ret (v, q') \<and> lf_inv q' \<and> lf_list q' = vs"
    using lf_shape_list ls(3) by (fastforce simp: lf_inv_def)
qed simp_all

lemma q_initialize_ok: "lf_inv q_initialize \<and> lf_list q_initialize = []"
  using q_initialize_shape lf_shape_list [OF q_initialize_shape] by (auto simp: lf_inv_def)

section \<open>queue\_free\<close>

text \<open>Blocks still allocated in the heap.\<close>

definition lf_blocks :: "lf_queue \<Rightarrow> nat" where
  "lf_blocks q = card (dom (nodes q)) + card (dom (pointers q))"

lemma lf_shape_blocks: "lf_shape q n ls \<Longrightarrow> lf_blocks q = 2 * (length ls + 1)"
  using lf_shapeD(2,3,5,6) [of q n ls] distinct_card [of "node_addrs n ls"]
    distinct_card [of "ptr_addrs (qhead q) ls"]
  by (simp add: lf_blocks_def node_addrs_def ptr_addrs_def)

lemma queue_free_shape:
  assumes sh: "lf_shape q n ls"
  shows "\<exists>q'. queue_free q = Ret q' \<and> lf_blocks q' = 2 * (length ls - 1)"
proof -
  note S = lf_shapeD [OF sh]
  obtain h where h: "pointers q (qhead q) = Some h" "nptr h = Some n"
    using S(9) by blast
  have fin: "finite (dom (nodes q))" "finite (dom (pointers q))"
    using S(5,6) by simp_all
  have c: "card (dom (nodes q)) = length ls + 1" "card (dom (pointers q)) = length ls + 1"
    using distinct_card [OF S(2)] distinct_card [OF S(3)] S(5,6) by (simp_all add: node_addrs_def ptr_addrs_def)
  have n: "n \<in> dom (nodes q)" "qhead q \<in> dom (pointers q)"
    using S(5,6) by (simp_all add: node_addrs_def ptr_addrs_def)
  show ?thesis
  proof (cases "ls = []")
    case True
    then have "qhead q = qtail q"
      using S(4) by (simp add: ptr_addrs_def)
    moreover have "dom (nodes q) = {n}" "dom (pointers q) = {qhead q}"
      using S(5,6) True by (simp_all add: node_addrs_def ptr_addrs_def)
    moreover obtain y where "nodes q n = Some y"
      using n(1) by blast
    ultimately show ?thesis
      using h True
      by (auto simp: queue_free_def get_pointer_def free_node_def free_pointer_def lf_blocks_def)
  next
    case False
    let ?e = "last (node_addrs n ls)"
    obtain t where t: "pointers q (qtail q) = Some t" "nptr t = Some ?e" "?e \<in> dom (nodes q)"
      using tail_node [OF sh] by blast
    have "?e \<in> set (map link_node ls)" "qtail q \<in> set (map link_ptr ls)"
      using last_node_in [OF False] last_ptr_in [OF False] by (simp_all only: S(4))
    moreover have "n \<notin> set (map link_node ls)" "qhead q \<notin> set (map link_ptr ls)"
      using S(2,3) by (simp_all add: node_addrs_def ptr_addrs_def)
    ultimately have ne: "n \<noteq> ?e" "qhead q \<noteq> qtail q"
      by metis+
    let ?q' = "q\<lparr>nodes := (nodes q)(n := None, ?e := None),
      pointers := (pointers q)(qhead q := None, qtail q := None)\<rparr>"
    have "card (dom (nodes q) - {n} - {?e}) = length ls - 1"
      "card (dom (pointers q) - {qhead q} - {qtail q}) = length ls - 1"
      using n t c ne fin by (simp_all add: card_Diff_singleton domI)
    moreover have "dom (nodes ?q') = dom (nodes q) - {n} - {?e}"
      "dom (pointers ?q') = dom (pointers q) - {qhead q} - {qtail q}"
      by auto
    ultimately have "lf_blocks ?q' = 2 * (length ls - 1)"
      unfolding lf_blocks_def by (simp only: mult_2)
    moreover have "queue_free q = Ret ?q'"
      using h n t ne by (auto simp: queue_free_def get_pointer_def free_node_def free_pointer_def)
    ultimately show ?thesis
      by blast
  qed
qed

section \<open>Properties\<close>

text \<open>C24: A new queue answers any sequence of pushes and pops of one caller like a list, every call returning
  and without ever touching a freed block; its heap holds exactly two blocks for every stored value and
  two for the dummy, and popping from the empty queue gives \<^verbatim>\<open>NULL\<close>.\<close>

theorem lockfree_refines:
  assumes "spec_run K cs [] = Some (outs, q')"
  shows "\<exists>s. impl_run qpush qpop cs q_initialize = Ret (outs, s) \<and> lf_list s = q'
    \<and> lf_blocks s = 2 * (length q' + 1) \<and> (q' = [] \<longrightarrow> qpop s = Ret (None, s))"
proof -
  obtain s where s: "impl_run qpush qpop cs q_initialize = Ret (outs, s)" "lf_inv s" "lf_list s = q'"
    using lf.run_refines [of q_initialize K cs outs q' "length (puts cs)"] q_initialize_ok assms
    by (auto simp: list_all_iff)
  then obtain n ls where "lf_shape s n ls"
    by (auto simp: lf_inv_def)
  then show ?thesis
    using s lf_shape_list [of s n ls] lf_shape_blocks [of s n ls] qpop_empty [of s n] by auto
qed

theorem lockfree_refines_witness:
  "\<exists>s. impl_run qpush qpop [Put (Some 4), Put (Some 2), Take, Put (Some 4), Take, Take] q_initialize
      = Ret ([Some 4, Some 2, Some 4], s) \<and> lf_blocks s = 2 \<and> qpop s = Ret (None, s)"
  using lockfree_refines [of 3 "[Put (Some 4), Put (Some 2), Take, Put (Some 4), Take, Take]"
      "[Some 4, Some 2, Some 4]" "[]"] by auto

text \<open>\<^verbatim>\<open>queue_free\<close> only frees the first and the last node with their pointers: of a queue of \<open>n\<close>
  values it leaves \<open>2 * (n - 1)\<close> blocks allocated, so that it is complete for at most one value.\<close>

theorem queue_free_leaks:
  assumes "spec_run K cs [] = Some (outs, q')"
  shows "\<exists>s s'. impl_run qpush qpop cs q_initialize = Ret (outs, s) \<and> queue_free s = Ret s'
    \<and> lf_blocks s' = 2 * (length q' - 1)"
proof -
  obtain s where s: "impl_run qpush qpop cs q_initialize = Ret (outs, s)" "lf_inv s" "lf_list s = q'"
    using lf.run_refines [of q_initialize K cs outs q' "length (puts cs)"] q_initialize_ok assms
    by (auto simp: list_all_iff)
  then obtain n ls where sh: "lf_shape s n ls"
    by (auto simp: lf_inv_def)
  then show ?thesis
    using s queue_free_shape [OF sh] lf_shape_list [OF sh] by auto
qed

theorem queue_free_leaks_witness:
  "\<exists>s s'. impl_run qpush qpop [Put (Some 4), Put (Some 2), Put (Some 3)] q_initialize = Ret ([], s)
    \<and> queue_free s = Ret s' \<and> lf_blocks s' = 4"
  using queue_free_leaks [of 3 "[Put (Some 4), Put (Some 2), Put (Some 3)]" "[]" "[Some 4, Some 2, Some 3]"] by auto

end
