(* ===== verification/Simple_Main.thy ===== *)
theory Simple_Main
  imports Bench_Loops Task_Queue Semi_Blocking Lock_Free Basic_Queue
begin

text \<open>
  \<^verbatim>\<open>SimpleQueueImpl/main.c\<close>: the tests of the five queues of that directory. Each fills a queue
  with \<^verbatim>\<open>NUM_TASKS\<close> tasks and empties it, storing the ticks of every call in two global arrays. The
  tests without threads are whole; of the tests with threads the thread functions are modelled, run by one
  thread at a time. \<open>n\<close> is \<^verbatim>\<open>NUM_TASKS\<close> (8 in the code) and both arrays have \<open>n\<close> elements there.
\<close>

definition NUM_TASKS :: nat where
  "NUM_TASKS = 8"

text \<open>The task the loops build for number \<open>i\<close>.\<close>

definition task :: "nat \<Rightarrow> task_desc" where
  "task i = \<lparr>task_id = of_nat i, task_type = 1, num_threads = 1, params = 5\<rparr>"

text \<open>\<^verbatim>\<open>for (\<dots>) { start=getticks(); \<dots>; end=getticks(); arr[ix] = end-start; }\<close>, where the operation
  also says which element is written.\<close>

primrec timed_into :: "(nat \<Rightarrow> 's \<Rightarrow> (int \<times> 's) outcome) \<Rightarrow> (nat \<Rightarrow> ticks) \<Rightarrow> nat \<Rightarrow> 's \<times> ticks list
    \<Rightarrow> ('s \<times> ticks list) outcome" where
  "timed_into op clk 0 sa = Ret sa"
| "timed_into op clk (Suc n) sa =
     bindO (timed_into op clk n sa) (\<lambda>(s, arr).
       let start_tick = clk (2 * n) in
       bindO (op n s) (\<lambda>(ix, s').
         let end_tick = clk (2 * n + 1) in
         bindO (arr_write arr ix (end_tick - start_tick)) (\<lambda>arr'. Ret (s', arr'))))"

definition into_slot :: "int \<Rightarrow> 's outcome \<Rightarrow> (int \<times> 's) outcome" where
  "into_slot ix r = bindO r (\<lambda>s. Ret (ix, s))"

text \<open>A dequeue whose result is dropped, and one whose result names the element.\<close>

definition value_slot :: "('a \<Rightarrow> int) \<Rightarrow> ('a \<times> 's) outcome \<Rightarrow> (int \<times> 's) outcome" where
  "value_slot pos r = bindO r (\<lambda>(x, s). Ret (pos x, s))"

lemma slot_simps [simp]:
  "into_slot ix (Ret s) = Ret (ix, s)" "into_slot ix (Fault e) = Fault e" "into_slot ix Hang = Hang"
  "value_slot pos (Ret (x, s)) = Ret (pos x, s)"
  by (simp_all add: into_slot_def value_slot_def)

section \<open>Tests without threads\<close>

text \<open>The result is the queue, which the tests leave allocated, and the two arrays.\<close>

definition fill_and_drain :: "(nat \<Rightarrow> 's \<Rightarrow> (int \<times> 's) outcome) \<Rightarrow> (nat \<Rightarrow> 's \<Rightarrow> (int \<times> 's) outcome)
    \<Rightarrow> (nat \<Rightarrow> ticks) \<Rightarrow> (nat \<Rightarrow> ticks) \<Rightarrow> nat \<Rightarrow> 's \<Rightarrow> ticks list \<Rightarrow> ticks list
    \<Rightarrow> ('s \<times> ticks list \<times> ticks list) outcome" where
  "fill_and_drain put get clk1 clk2 n q enq deq =
     bindO (timed_into put clk1 n (q, enq)) (\<lambda>(q1, enq').
     bindO (timed_into get clk2 n (q1, deq)) (\<lambda>(q2, deq'). Ret (q2, enq', deq')))"

definition testblockingqueue_singlethread :: "nat \<Rightarrow> task_desc list \<Rightarrow> (nat \<Rightarrow> ticks) \<Rightarrow> (nat \<Rightarrow> ticks)
    \<Rightarrow> nat \<Rightarrow> ticks list \<Rightarrow> ticks list \<Rightarrow> (task_queue \<times> ticks list \<times> ticks list) outcome" where
  "testblockingqueue_singlethread m mem clk1 clk2 n enq deq =
     fill_and_drain (\<lambda>i q. into_slot (int i) (enqueue m (task i) q))
       (\<lambda>i q. into_slot (int i) (run_state (dequeue m q))) clk1 clk2 n (create_queue m mem) enq deq"

definition testblocking_queue_singlethread :: "nat \<Rightarrow> task_desc list \<Rightarrow> (nat \<Rightarrow> ticks) \<Rightarrow> (nat \<Rightarrow> ticks)
    \<Rightarrow> nat \<Rightarrow> ticks list \<Rightarrow> ticks list \<Rightarrow> (task_queue \<times> ticks list \<times> ticks list) outcome" where
  "testblocking_queue_singlethread m mem clk1 clk2 n enq deq =
     fill_and_drain (\<lambda>i q. into_slot (int i) (enqueue_blocking m (task i) q))
       (\<lambda>i q. into_slot (int i) (run_state (dequeue_blocking m q))) clk1 clk2 n (create_queue_blocking m mem) enq deq"

text \<open>This one counts from 1 to \<^verbatim>\<open>NUM_TASKS\<close> and writes the elements of the same numbers.\<close>

definition testnonblocking_atomicqueue_singlethread :: "nat \<Rightarrow> task_desc list \<Rightarrow> (nat \<Rightarrow> ticks) \<Rightarrow> (nat \<Rightarrow> ticks)
    \<Rightarrow> nat \<Rightarrow> ticks list \<Rightarrow> ticks list \<Rightarrow> (task_queue \<times> ticks list \<times> ticks list) outcome" where
  "testnonblocking_atomicqueue_singlethread m mem clk1 clk2 n enq deq =
     fill_and_drain (\<lambda>i q. into_slot (int (Suc i)) (enqueue_atomic m (task (Suc i)) q))
       (\<lambda>i q. into_slot (int (Suc i)) (run_state (dequeue_atomic m q))) clk1 clk2 n (create_queue_atomic m mem) enq deq"

text \<open>\<^verbatim>\<open>malloc_aligned\<close> gives zeroed nodes: \<open>node i\<close> is the address of the \<open>i\<close>-th, \<open>item\<close> that of the
  extra node made before the loop.\<close>

definition testsemiblockingqueue_singlethread :: "(nat \<Rightarrow> nat) \<Rightarrow> nat \<Rightarrow> (nat \<Rightarrow> ticks) \<Rightarrow> (nat \<Rightarrow> ticks)
    \<Rightarrow> nat \<Rightarrow> (nat \<Rightarrow> ptr option) \<Rightarrow> ticks list \<Rightarrow> ticks list \<Rightarrow> (queue_root \<times> ticks list \<times> ticks list) outcome" where
  "testsemiblockingqueue_singlethread node item clk1 clk2 n h enq deq =
     bindO (INIT_QUEUE_HEAD (Addr item) (ALLOC_QUEUE_ROOT (h(item \<mapsto> NULL)))) (\<lambda>r.
       fill_and_drain
         (\<lambda>i r. into_slot (int i) (queue_put (Addr (node i)) (r\<lparr>nexts := (nexts r)(node i \<mapsto> NULL)\<rparr>)))
         (\<lambda>i r. into_slot (int i) (run_state (queue_get r))) clk1 clk2 n r enq deq)"

text \<open>The tasks are elements of one array; \<open>addr i\<close> is the address of its \<open>i\<close>-th.\<close>

definition testlockfreequeue_singlethread :: "(nat \<Rightarrow> nat) \<Rightarrow> (nat \<Rightarrow> ticks) \<Rightarrow> (nat \<Rightarrow> ticks)
    \<Rightarrow> nat \<Rightarrow> ticks list \<Rightarrow> ticks list \<Rightarrow> (lf_queue \<times> ticks list \<times> ticks list) outcome" where
  "testlockfreequeue_singlethread addr clk1 clk2 n enq deq =
     bindO (fill_and_drain (\<lambda>i q. into_slot (int i) (qpush (Some (addr i)) q))
       (\<lambda>i q. into_slot (int i) (run_state (qpop q))) clk1 clk2 n q_initialize enq deq) (\<lambda>(q, enq', deq').
     bindO (queue_free q) (\<lambda>q'. Ret (q', enq', deq')))"

section \<open>Thread functions\<close>

definition worker_handler_si :: "nat \<Rightarrow> nat \<Rightarrow> nat \<Rightarrow> (nat \<Rightarrow> ticks) \<Rightarrow> task_queue \<times> ticks list
    \<Rightarrow> (task_queue \<times> ticks list) outcome" where
  "worker_handler_si m n nt clk sa =
     bindO (per_thread n nt) (\<lambda>k.
       timed_into (\<lambda>i q. value_slot (\<lambda>t. sint (task_id t)) (dequeue_blocking m q)) clk k sa)"

definition atomicworker_handler :: "nat \<Rightarrow> nat \<Rightarrow> nat \<Rightarrow> (nat \<Rightarrow> ticks) \<Rightarrow> task_queue \<times> ticks list
    \<Rightarrow> (task_queue \<times> ticks list) outcome" where
  "atomicworker_handler m n nt clk sa =
     bindO (per_thread n nt) (\<lambda>k.
       timed_into (\<lambda>i q. value_slot (\<lambda>t. sint (task_id t) - 1) (dequeue_atomic m q)) clk k sa)"

definition enqueue_handler_si :: "nat \<Rightarrow> nat \<Rightarrow> (nat \<Rightarrow> ticks) \<Rightarrow> task_queue \<times> ticks list
    \<Rightarrow> (task_queue \<times> ticks list) outcome" where
  "enqueue_handler_si m n clk sa =
     timed_into (\<lambda>i q. into_slot (int i) (enqueue_atomic m (task (Suc i)) q)) clk n sa"

text \<open>The worker adds the ticks of every dequeue to the global \<^verbatim>\<open>dequeue_ticks\<close>.\<close>

definition basicworker_handler_si :: "nat \<Rightarrow> nat \<Rightarrow> (nat \<Rightarrow> ticks) \<Rightarrow> basicq \<times> ticks \<Rightarrow> (basicq \<times> ticks) outcome" where
  "basicworker_handler_si n nt clk qd =
     bindO (per_thread n nt) (\<lambda>k.
     bindO (latency_loop (\<lambda>i q. run_state (BasicDequeue_si q)) clk k (fst qd) 0) (\<lambda>(q, c, ts).
       Ret (q, snd qd + sum_list ts)))"

text \<open>\<^verbatim>\<open>main\<close> for \<^verbatim>\<open>TOTAL_THREADS = 1\<close>: the two averages it prints, and the queue it leaves.\<close>

definition main_si :: "nat \<Rightarrow> (nat \<Rightarrow> ticks) \<Rightarrow> (nat \<Rightarrow> ticks) \<Rightarrow> basicq \<times> ticks \<Rightarrow> (ticks \<times> ticks \<times> basicq) outcome" where
  "main_si n clk1 clk2 qd =
     (let start_tick = clk1 0 in
      bindO (repeat_op (\<lambda>i. BasicEnqueue_si (sample i)) n (InitBasicQueue_si (fst qd))) (\<lambda>q.
      let diff_tick = clk1 1 - start_tick in
      bindO (basicworker_handler_si n 1 clk2 (q, snd qd)) (\<lambda>(q', dequeue_ticks).
        if n = 0 then Fault DivByZero
        else Ret (diff_tick div of_nat n, dequeue_ticks div of_nat n, q'))))"

section \<open>Timed loops\<close>

lemma timed_into_fixed:
  "off + n \<le> length arr \<Longrightarrow>
   timed_into (\<lambda>i s. into_slot (int (off + i)) (f i s)) clk n (s, arr) =
     bindO (repeat_op f n s) (\<lambda>s'. Ret (s', take off arr
       @ map (\<lambda>i. clk (2 * i + 1) - clk (2 * i)) [0..<n] @ drop (off + n) arr))"
proof (induction n)
  case 0
  then show ?case by simp
next
  case (Suc n)
  then have IH: "timed_into (\<lambda>i s. into_slot (int (off + i)) (f i s)) clk n (s, arr) =
     bindO (repeat_op f n s) (\<lambda>s'. Ret (s', take off arr
       @ map (\<lambda>i. clk (2 * i + 1) - clk (2 * i)) [0..<n] @ drop (off + n) arr))"
    by simp
  have "drop (off + n) arr = arr ! (off + n) # drop (Suc (off + n)) arr"
    using Suc.prems by (simp add: Cons_nth_drop_Suc)
  then have wr: "arr_write (take off arr @ ts @ drop (off + n) arr) (int (off + n)) x
      = Ret (take off arr @ (ts @ [x]) @ drop (off + Suc n) arr)" if "length ts = n" for ts x
    using that Suc.prems by (simp add: arr_write_def nat_add_distrib list_update_append)
  show ?case
  proof (cases "repeat_op f n s")
    case (Ret s1)
    then show ?thesis
      by (cases "f n s1") (simp_all add: IH Let_def wr del: of_nat_add)
  qed (simp_all add: IH del: of_nat_add)
qed

text \<open>The loop that counts from 1 runs over the end of an array of \<open>n\<close> elements.\<close>

lemma timed_into_over:
  assumes "off + n = length arr" and "repeat_op f (Suc n) s = Ret s'"
  shows "timed_into (\<lambda>i s. into_slot (int (off + i)) (f i s)) clk (Suc n) (s, arr) = Fault BadIndex"
proof -
  obtain s1 where "repeat_op f n s = Ret s1" "f n s1 = Ret s'"
    using assms(2) by (auto simp: bindO_Ret_iff)
  then show ?thesis
    using assms(1) timed_into_fixed [of off n arr f clk s]
    by (simp add: Let_def arr_write_def nat_add_distrib del: of_nat_add)
qed

context fifo_queue begin

text \<open>Dequeues whose values name the element to write.\<close>

lemma timed_values:
  assumes "\<And>i. i < n \<Longrightarrow> pos (abs s ! i) = int i" and "inv s" and "n \<le> length (abs s)" and "n \<le> length arr"
  shows "\<exists>s'. timed_into (\<lambda>i s. value_slot pos (deq s)) clk n (s, arr)
      = Ret (s', map (\<lambda>i. clk (2 * i + 1) - clk (2 * i)) [0..<n] @ drop n arr) \<and> inv s' \<and> abs s' = drop n (abs s)"
  using assms
proof (induction n)
  case 0
  then show ?case by simp
next
  case (Suc n)
  then obtain s1 where s1: "timed_into (\<lambda>i s. value_slot pos (deq s)) clk n (s, arr)
      = Ret (s1, map (\<lambda>i. clk (2 * i + 1) - clk (2 * i)) [0..<n] @ drop n arr)" "inv s1" "abs s1 = drop n (abs s)"
    by auto
  have "abs s1 = abs s ! n # drop (Suc n) (abs s)"
    using Suc.prems(3) s1(3) by (simp add: Cons_nth_drop_Suc)
  then obtain s2 where s2: "deq s1 = Ret (abs s ! n, s2)" "inv s2" "abs s2 = drop (Suc n) (abs s)"
    using deq_law [OF s1(2)] by blast
  have "drop n arr = arr ! n # drop (Suc n) arr"
    using Suc.prems(4) by (simp add: Cons_nth_drop_Suc)
  then have "arr_write (map (\<lambda>i. clk (2 * i + 1) - clk (2 * i)) [0..<n] @ drop n arr) (int n) x
      = Ret (map (\<lambda>i. clk (2 * i + 1) - clk (2 * i)) [0..<n] @ [x] @ drop (Suc n) arr)" for x
    using Suc.prems(4) by (simp add: arr_write_def list_update_append)
  with s1(1) s2 Suc.prems(1) [of n] show ?case
    by (simp add: Let_def)
qed

end

section \<open>Properties\<close>

lemma fill_and_drain_ok:
  assumes "repeat_op f n q = Ret q1" and "repeat_op g n q1 = Ret q2" and "length enq = n" and "length deq = n"
  shows "fill_and_drain (\<lambda>i s. into_slot (int i) (f i s)) (\<lambda>i s. into_slot (int i) (g i s)) clk1 clk2 n q enq deq
    = Ret (q2, deltas clk1 n, deltas clk2 n)"
  using assms timed_into_fixed [of 0 n enq f clk1 q] timed_into_fixed [of 0 n deq g clk2 q1]
  by (simp add: fill_and_drain_def deltas_def)

lemma repeat_put_get:
  assumes "enq_all enq (map f [0..<n]) q = Ret q1" and "deq_n get n q1 = Ret (xs, q2)" and "length a = n" and "length b = n"
  shows "fill_and_drain (\<lambda>i s. into_slot (int i) (enq (f i) s)) (\<lambda>i s. into_slot (int i) (run_state (get s)))
    clk1 clk2 n q a b = Ret (q2, deltas clk1 n, deltas clk2 n)"
proof -
  have "repeat_op (\<lambda>i. enq (f i)) n q = Ret q1" "repeat_op (\<lambda>i s. run_state (get s)) n q1 = Ret q2"
    by (simp_all add: repeat_enq repeat_deq assms(1,2))
  then show ?thesis
    by (rule fill_and_drain_ok [OF _ _ assms(3,4)])
qed

text \<open>Allocating a node that is not in the queue does not change the queue.\<close>

lemma root_alloc:
  assumes "root_inv r" and "Addr a \<notin> set (root_list r)"
  shows "root_inv (r\<lparr>nexts := (nexts r)(a \<mapsto> p)\<rparr>) \<and> root_list (r\<lparr>nexts := (nexts r)(a \<mapsto> p)\<rparr>) = root_list r"
proof -
  have "lists_are (in_list r) (out_list r) (r\<lparr>nexts := (nexts r)(a \<mapsto> p)\<rparr>)"
  proof -
    have "a \<notin> set (in_list r)" "a \<notin> set (out_list r)"
      using assms(2) by (auto simp: root_list_def)
    then show ?thesis
      using assms(1) by (simp add: root_inv_def lists_are_def chain_update)
  qed
  then show ?thesis
    using root_invI [of "in_list r" "out_list r" "r\<lparr>nexts := (nexts r)(a \<mapsto> p)\<rparr>"] assms(1)
    by (simp add: root_inv_def root_list_def)
qed

lemma put_nodes:
  assumes "root_inv r" and "root_list r = []"
  shows "inj_on node {..<n} \<Longrightarrow> \<exists>r'. repeat_op (\<lambda>i r. queue_put (Addr (node i)) (r\<lparr>nexts := (nexts r)(node i \<mapsto> NULL)\<rparr>)) n r = Ret r'
    \<and> root_inv r' \<and> root_list r' = map (\<lambda>i. Addr (node i)) [0..<n]"
proof (induction n)
  case 0
  then show ?case using assms by simp
next
  case (Suc n)
  have "inj_on node {..<n}"
    using Suc.prems by (rule inj_on_subset) auto
  then obtain r' where r': "repeat_op (\<lambda>i r. queue_put (Addr (node i)) (r\<lparr>nexts := (nexts r)(node i \<mapsto> NULL)\<rparr>)) n r = Ret r'"
      "root_inv r'" "root_list r' = map (\<lambda>i. Addr (node i)) [0..<n]"
    using Suc.IH by blast
  have fresh: "Addr (node n) \<notin> set (root_list r')"
    using Suc.prems r'(3) by (auto dest: inj_onD)
  let ?r = "r'\<lparr>nexts := (nexts r')(node n \<mapsto> NULL)\<rparr>"
  note al = root_alloc [OF r'(2) fresh, of NULL]
  then have "root_ready (Addr (node n)) ?r"
    using fresh by (simp add: root_ready_def)
  then obtain r'' where "queue_put (Addr (node n)) ?r = Ret r''" "root_inv r''" "root_list r'' = root_list ?r @ [Addr (node n)]"
    using sb.enq_law al by blast
  then show ?case
    using r' al by (simp del: fun_upd_apply)
qed

text \<open>The single-threaded tests of the plain, blocking, semi-blocking and lock-free queues return with an
  empty queue and with every element of both arrays set to the ticks of its call; the lock-free test then
  frees its whole queue.\<close>

theorem single_thread_tests:
  assumes "0 < m" and "length mem = m" and "n \<le> m" and "n \<le> 2147483647" and "length enq = n" and "length deq = n"
    and "inj_on node {..<n}"
  shows "(\<exists>q. testblockingqueue_singlethread m mem c1 c2 n enq deq = Ret (q, deltas c1 n, deltas c2 n)
        \<and> task_list m q = [])
    \<and> (\<exists>q. testblocking_queue_singlethread m mem c1 c2 n enq deq = Ret (q, deltas c1 n, deltas c2 n)
        \<and> task_list m q = [])
    \<and> (\<exists>r. testsemiblockingqueue_singlethread node item c1 c2 n h enq deq = Ret (r, deltas c1 n, deltas c2 n)
        \<and> root_list r = [])
    \<and> (\<exists>q. testlockfreequeue_singlethread addr c1 c2 n enq deq = Ret (q, deltas c1 n, deltas c2 n)
        \<and> lf_blocks q = 0)"
proof (intro conjI)
  note new = create_queue_ok [OF assms(1,2)]
  obtain q1 where q1: "enq_all (enqueue m) (map task [0..<n]) (create_queue m mem) = Ret q1"
      "task_inv m q1" "task_list m q1 = map task [0..<n]"
    using tq.enq_all_ok [OF new(1), of "map task [0..<n]"] new(2,5) assms(3,4) by (auto simp: list_all_iff)
  then obtain q2 where q2: "deq_n (dequeue m) n q1 = Ret (map task [0..<n], q2)" "task_list m q2 = []"
    using tq.deq_some [OF q1(2), of n] by auto
  then show "\<exists>q. testblockingqueue_singlethread m mem c1 c2 n enq deq = Ret (q, deltas c1 n, deltas c2 n)
      \<and> task_list m q = []"
    using repeat_put_get [OF q1(1) q2(1) assms(5,6)] q2(2) by (simp add: testblockingqueue_singlethread_def)
  obtain b1 where b1: "enq_all (enqueue_blocking m) (map task [0..<n]) (create_queue_blocking m mem) = Ret b1"
      "blocking_inv m b1" "task_list m b1 = map task [0..<n]"
    using tb.enq_all_ok [OF new(3), of "map task [0..<n]"] new(4,6) assms(3,4) by (auto simp: list_all_iff)
  then obtain b2 where b2: "deq_n (dequeue_blocking m) n b1 = Ret (map task [0..<n], b2)" "task_list m b2 = []"
    using tb.deq_some [OF b1(2), of n] by auto
  then show "\<exists>q. testblocking_queue_singlethread m mem c1 c2 n enq deq = Ret (q, deltas c1 n, deltas c2 n)
      \<and> task_list m q = []"
    using repeat_put_get [OF b1(1) b2(1) assms(5,6)] b2(2) by (simp add: testblocking_queue_singlethread_def)
next
  let ?r0 = "ALLOC_QUEUE_ROOT (h(item \<mapsto> NULL))"
  let ?r1 = "?r0\<lparr>nexts := (nexts ?r0)(item \<mapsto> POISON)\<rparr>"
  have "root_inv ?r1 \<and> root_list ?r1 = []"
    using root_alloc [of ?r0 item POISON] ALLOC_QUEUE_ROOT_ok [of "h(item \<mapsto> NULL)"] by simp
  moreover have "INIT_QUEUE_HEAD (Addr item) ?r0 = Ret ?r1"
    by (simp add: INIT_QUEUE_HEAD_def write_next_def ALLOC_QUEUE_ROOT_def)
  moreover obtain r2 where r2: "repeat_op (\<lambda>i r. queue_put (Addr (node i)) (r\<lparr>nexts := (nexts r)(node i \<mapsto> NULL)\<rparr>)) n ?r1 = Ret r2"
      "root_inv r2" "root_list r2 = map (\<lambda>i. Addr (node i)) [0..<n]"
    using put_nodes [OF _ _ assms(7), of ?r1] calculation(1) by blast
  moreover obtain r3 where r3: "deq_n queue_get n r2 = Ret (root_list r2, r3)" "root_list r3 = []"
    using sb.deq_some [OF r2(2), of n] r2(3) by auto
  then have "repeat_op (\<lambda>i r. run_state (queue_get r)) n r2 = Ret r3"
    by (simp add: repeat_deq)
  ultimately show "\<exists>r. testsemiblockingqueue_singlethread node item c1 c2 n h enq deq = Ret (r, deltas c1 n, deltas c2 n)
      \<and> root_list r = []"
    using fill_and_drain_ok [OF r2(1) _ assms(5,6)] r3(2) by (simp add: testsemiblockingqueue_singlethread_def)
next
  let ?vs = "map (\<lambda>i. Some (addr i)) [0..<n]"
  obtain l1 where l1: "enq_all qpush ?vs q_initialize = Ret l1" "lf_inv l1" "lf_list l1 = ?vs"
    using lf.enq_all_ok [of q_initialize ?vs n n] q_initialize_ok by (auto simp: list_all_iff)
  then obtain l2 where l2: "deq_n qpop n l1 = Ret (?vs, l2)" "lf_inv l2" "lf_list l2 = []"
    using lf.deq_some [OF l1(2), of n] by auto
  then obtain k ls where sh: "lf_shape l2 k ls"
    by (auto simp: lf_inv_def)
  then obtain l3 where "queue_free l2 = Ret l3" "lf_blocks l3 = 0"
    using queue_free_shape [OF sh] lf_shape_list [OF sh] l2(3) by auto
  then show "\<exists>q. testlockfreequeue_singlethread addr c1 c2 n enq deq = Ret (q, deltas c1 n, deltas c2 n)
      \<and> lf_blocks q = 0"
    using repeat_put_get [OF l1(1) l2(1) assms(5,6)] by (simp add: testlockfreequeue_singlethread_def)
qed

theorem single_thread_tests_witness:
  "\<exists>q. testblockingqueue_singlethread 3 [task 5, task 5, task 5] (\<lambda>k. of_nat (k * k)) (\<lambda>k. of_nat k) 2 [0, 0] [0, 0]
    = Ret (q, [1, 5], [1, 1]) \<and> task_list 3 q = []"
  using single_thread_tests [of 3 "[task 5, task 5, task 5]" 2 "[0, 0]" "[0, 0]" id "\<lambda>k. of_nat (k * k)" "\<lambda>k. of_nat k"]
  by (simp add: deltas_def numeral_2_eq_2)

text \<open>The test of the atomic queue counts from 1 to \<^verbatim>\<open>NUM_TASKS\<close> and writes the array elements of
  the same numbers: its last enqueue stores behind an array of \<^verbatim>\<open>NUM_TASKS\<close> elements.\<close>

theorem atomic_test_overruns:
  assumes "0 < n" and "n \<le> m" and "n \<le> 2147483647" and "length enq = n"
  shows "testnonblocking_atomicqueue_singlethread m (replicate m EmptyTask) c1 c2 n enq deq = Fault BadIndex"
proof -
  obtain k where k: "n = Suc k"
    using assms(1) by (cases n) auto
  have m: "0 < m"
    using assms(1,2) by simp
  note new = create_queue_atomic_ok [OF m]
  have "task_id (task (Suc i)) \<noteq> 0" if "i < n" for i
    using sample_nonzero [of i] that assms(3) by (simp add: task_def sample_def)
  then have "list_all (\<lambda>x. task_id x \<noteq> 0) (map (\<lambda>i. task (Suc i)) [0..<n])"
    by (simp add: list_all_iff)
  then obtain q where "enq_all (enqueue_atomic m) (map (\<lambda>i. task (Suc i)) [0..<n])
      (create_queue_atomic m (replicate m EmptyTask)) = Ret q"
    using ta.enq_all_ok [OF new(1), of "map (\<lambda>i. task (Suc i)) [0..<n]"] new(2,3) assms(2,3) by auto
  then have "repeat_op (\<lambda>i. enqueue_atomic m (task (Suc i))) (Suc k) (create_queue_atomic m (replicate m EmptyTask)) = Ret q"
    unfolding k [symmetric] by (subst repeat_enq)
  from timed_into_over [OF _ this, of 1 enq c1] show ?thesis
    using assms(4) k by (simp add: testnonblocking_atomicqueue_singlethread_def fill_and_drain_def del: timed_into.simps)
qed

theorem atomic_test_overruns_witness:
  "testnonblocking_atomicqueue_singlethread 9 (replicate 9 EmptyTask) (\<lambda>_. 0) (\<lambda>_. 0) NUM_TASKS (replicate 8 0) [] = Fault BadIndex"
  by (rule atomic_test_overruns) (simp_all add: NUM_TASKS_def)

end
