(* ===== verification/Blocking_Conc.thy ===== *)
theory Blocking_Conc
  imports Task_Queue
begin

text \<open>
  The blocking queue of \<^verbatim>\<open>SimpleQueueImpl/blockingqueue.c\<close> under concurrency: any number of threads call
  \<^verbatim>\<open>enqueue_blocking\<close> and \<^verbatim>\<open>dequeue_blocking\<close>, each access to a semaphore, the mutex, a counter or a slot
  a step of its own. Waiting is having no step: a thread before a semaphore at 0 or a mutex that is held
  stays where it is. The micro-operations are those of the sequential model in \<open>Task_Queue\<close>.
\<close>

section \<open>Threads and steps\<close>

text \<open>A producer with the tasks it still has to enqueue, a consumer with the number of dequeues it still
  has to make, and the points within a call.\<close>

datatype bq_pc =
    Filling "task_desc list"
  | Permit task_desc "task_desc list"
  | Inserting task_desc "task_desc list"
  | Writing c_int task_desc "task_desc list"
  | Inserted "task_desc list"
  | Announcing "task_desc list"
  | Draining nat
  | Claim nat
  | Removing nat
  | Fetching c_int nat
  | Removed nat
  | Freeing nat
  | Aborted

record bq_system =
  bq :: task_queue
  bq_pcs :: "nat \<Rightarrow> bq_pc"
  put_log :: "task_desc list"
  got_log :: "task_desc list"

inductive bq_step :: "nat \<Rightarrow> nat \<Rightarrow> bq_system \<Rightarrow> bq_system \<Rightarrow> bool" for m n where
  put_wait: "i < n \<Longrightarrow> bq_pcs s i = Filling (x # xs) \<Longrightarrow> wait_spaces (bq s) = Ret q \<Longrightarrow>
    bq_step m n s (s\<lparr>bq := q, bq_pcs := (bq_pcs s)(i := Permit x xs)\<rparr>)"
| put_lock: "i < n \<Longrightarrow> bq_pcs s i = Permit x xs \<Longrightarrow> lock_queue (bq s) = Ret q \<Longrightarrow>
    bq_step m n s (s\<lparr>bq := q, bq_pcs := (bq_pcs s)(i := Inserting x xs)\<rparr>)"
| put_bump: "i < n \<Longrightarrow> bq_pcs s i = Inserting x xs \<Longrightarrow> c_incr (rear (bq s)) = Ret r \<Longrightarrow>
    bq_step m n s (s\<lparr>bq := (bq s)\<lparr>rear := r\<rparr>, bq_pcs := (bq_pcs s)(i := Writing r x xs)\<rparr>)"
| put_bump_fault: "i < n \<Longrightarrow> bq_pcs s i = Inserting x xs \<Longrightarrow> c_incr (rear (bq s)) = Fault e \<Longrightarrow>
    bq_step m n s (s\<lparr>bq_pcs := (bq_pcs s)(i := Aborted)\<rparr>)"
| put_write: "i < n \<Longrightarrow> bq_pcs s i = Writing r x xs \<Longrightarrow> put_task m r x (bq s) = Ret q \<Longrightarrow>
    bq_step m n s (s\<lparr>bq := q, bq_pcs := (bq_pcs s)(i := Inserted xs), put_log := put_log s @ [x]\<rparr>)"
| put_write_fault: "i < n \<Longrightarrow> bq_pcs s i = Writing r x xs \<Longrightarrow> put_task m r x (bq s) = Fault e \<Longrightarrow>
    bq_step m n s (s\<lparr>bq_pcs := (bq_pcs s)(i := Aborted)\<rparr>)"
| put_unlock: "i < n \<Longrightarrow> bq_pcs s i = Inserted xs \<Longrightarrow>
    bq_step m n s (s\<lparr>bq := (bq s)\<lparr>locked := False\<rparr>, bq_pcs := (bq_pcs s)(i := Announcing xs)\<rparr>)"
| put_post: "i < n \<Longrightarrow> bq_pcs s i = Announcing xs \<Longrightarrow>
    bq_step m n s (s\<lparr>bq := (bq s)\<lparr>task_sem := Suc (task_sem (bq s))\<rparr>, bq_pcs := (bq_pcs s)(i := Filling xs)\<rparr>)"
| get_wait: "i < n \<Longrightarrow> bq_pcs s i = Draining (Suc k) \<Longrightarrow> wait_tasks (bq s) = Ret q \<Longrightarrow>
    bq_step m n s (s\<lparr>bq := q, bq_pcs := (bq_pcs s)(i := Claim k)\<rparr>)"
| get_lock: "i < n \<Longrightarrow> bq_pcs s i = Claim k \<Longrightarrow> lock_queue (bq s) = Ret q \<Longrightarrow>
    bq_step m n s (s\<lparr>bq := q, bq_pcs := (bq_pcs s)(i := Removing k)\<rparr>)"
| get_bump: "i < n \<Longrightarrow> bq_pcs s i = Removing k \<Longrightarrow> c_incr (front (bq s)) = Ret f \<Longrightarrow>
    bq_step m n s (s\<lparr>bq := (bq s)\<lparr>front := f\<rparr>, bq_pcs := (bq_pcs s)(i := Fetching f k)\<rparr>)"
| get_bump_fault: "i < n \<Longrightarrow> bq_pcs s i = Removing k \<Longrightarrow> c_incr (front (bq s)) = Fault e \<Longrightarrow>
    bq_step m n s (s\<lparr>bq_pcs := (bq_pcs s)(i := Aborted)\<rparr>)"
| get_read: "i < n \<Longrightarrow> bq_pcs s i = Fetching f k \<Longrightarrow> get_task m f (bq s) = Ret x \<Longrightarrow>
    bq_step m n s (s\<lparr>bq_pcs := (bq_pcs s)(i := Removed k), got_log := got_log s @ [x]\<rparr>)"
| get_read_fault: "i < n \<Longrightarrow> bq_pcs s i = Fetching f k \<Longrightarrow> get_task m f (bq s) = Fault e \<Longrightarrow>
    bq_step m n s (s\<lparr>bq_pcs := (bq_pcs s)(i := Aborted)\<rparr>)"
| get_unlock: "i < n \<Longrightarrow> bq_pcs s i = Removed k \<Longrightarrow>
    bq_step m n s (s\<lparr>bq := (bq s)\<lparr>locked := False\<rparr>, bq_pcs := (bq_pcs s)(i := Freeing k)\<rparr>)"
| get_post: "i < n \<Longrightarrow> bq_pcs s i = Freeing k \<Longrightarrow>
    bq_step m n s (s\<lparr>bq := (bq s)\<lparr>spaces_sem := Suc (spaces_sem (bq s))\<rparr>, bq_pcs := (bq_pcs s)(i := Draining k)\<rparr>)"

text \<open>The threads start on a queue that nobody is using and that holds the tasks \<open>xs\<close>.\<close>

definition bq_start :: "task_queue \<Rightarrow> task_desc list \<Rightarrow> (nat \<Rightarrow> bq_pc) \<Rightarrow> bq_system" where
  "bq_start q xs p = \<lparr>bq = q, bq_pcs = p, put_log = xs, got_log = []\<rparr>"

fun outside :: "bq_pc \<Rightarrow> bool" where
  "outside (Filling xs) = True"
| "outside (Draining k) = True"
| "outside _ = False"

section \<open>What threads hold\<close>

text \<open>A place reserved but not yet written, a task written but not yet announced, a task claimed but not
  yet read, a place emptied but not yet freed; the mutex; a counter already moved.\<close>

fun holds_place :: "bq_pc \<Rightarrow> nat" where
  "holds_place (Permit x xs) = 1"
| "holds_place (Inserting x xs) = 1"
| "holds_place (Writing r x xs) = 1"
| "holds_place _ = 0"

fun unannounced :: "bq_pc \<Rightarrow> nat" where
  "unannounced (Inserted xs) = 1"
| "unannounced (Announcing xs) = 1"
| "unannounced _ = 0"

fun holds_claim :: "bq_pc \<Rightarrow> nat" where
  "holds_claim (Claim k) = 1"
| "holds_claim (Removing k) = 1"
| "holds_claim (Fetching f k) = 1"
| "holds_claim _ = 0"

fun unfreed :: "bq_pc \<Rightarrow> nat" where
  "unfreed (Removed k) = 1"
| "unfreed (Freeing k) = 1"
| "unfreed _ = 0"

fun holds_lock :: "bq_pc \<Rightarrow> nat" where
  "holds_lock (Inserting x xs) = 1"
| "holds_lock (Writing r x xs) = 1"
| "holds_lock (Inserted xs) = 1"
| "holds_lock (Removing k) = 1"
| "holds_lock (Fetching f k) = 1"
| "holds_lock (Removed k) = 1"
| "holds_lock _ = 0"

fun bumped_rear :: "bq_pc \<Rightarrow> nat" where
  "bumped_rear (Writing r x xs) = 1"
| "bumped_rear _ = 0"

fun bumped_front :: "bq_pc \<Rightarrow> nat" where
  "bumped_front (Fetching f k) = 1"
| "bumped_front _ = 0"

text \<open>What is left to do: tasks to write, tasks to read, steps.\<close>

fun to_put :: "bq_pc \<Rightarrow> task_desc list" where
  "to_put (Filling xs) = xs"
| "to_put (Permit x xs) = x # xs"
| "to_put (Inserting x xs) = x # xs"
| "to_put (Writing r x xs) = x # xs"
| "to_put (Inserted xs) = xs"
| "to_put (Announcing xs) = xs"
| "to_put _ = []"

fun to_get :: "bq_pc \<Rightarrow> nat" where
  "to_get (Draining k) = k"
| "to_get (Claim k) = Suc k"
| "to_get (Removing k) = Suc k"
| "to_get (Fetching f k) = Suc k"
| "to_get (Removed k) = k"
| "to_get (Freeing k) = k"
| "to_get _ = 0"

fun steps_left :: "bq_pc \<Rightarrow> nat" where
  "steps_left (Filling xs) = 6 * length xs"
| "steps_left (Permit x xs) = 6 * length xs + 5"
| "steps_left (Inserting x xs) = 6 * length xs + 4"
| "steps_left (Writing r x xs) = 6 * length xs + 3"
| "steps_left (Inserted xs) = 6 * length xs + 2"
| "steps_left (Announcing xs) = 6 * length xs + 1"
| "steps_left (Draining k) = 6 * k"
| "steps_left (Claim k) = 6 * k + 5"
| "steps_left (Removing k) = 6 * k + 4"
| "steps_left (Fetching f k) = 6 * k + 3"
| "steps_left (Removed k) = 6 * k + 2"
| "steps_left (Freeing k) = 6 * k + 1"
| "steps_left Aborted = 0"

text \<open>The sum over all threads, and how it changes when one of them moves.\<close>

definition over :: "(bq_pc \<Rightarrow> 'a :: comm_monoid_add) \<Rightarrow> nat \<Rightarrow> (nat \<Rightarrow> bq_pc) \<Rightarrow> 'a" where
  "over f n p = (\<Sum>j<n. f (p j))"

lemma over_upd: "i < n \<Longrightarrow> over f n (p(i := y)) + f (p i) = over f n p + f y"
  using sum_upd [of i n f y p] by (simp add: over_def fun_upd_def)

lemma over_member: "i < n \<Longrightarrow> f (p i) \<le> over f n p" for f :: "bq_pc \<Rightarrow> nat"
  unfolding over_def by (intro member_le_sum) auto

lemma over_two:
  fixes f :: "bq_pc \<Rightarrow> nat"
  assumes "i < n" and "j < n" and "i \<noteq> j"
  shows "f (p i) + f (p j) \<le> over f n p"
proof -
  have "(\<Sum>k\<in>{i, j}. f (p k)) \<le> (\<Sum>k<n. f (p k))"
    using assms(1,2) by (intro sum_mono2) auto
  then show ?thesis
    using assms(3) by (simp add: over_def)
qed

section \<open>The invariant\<close>

text \<open>\<open>B\<close> is the number of the slot that the first task of the log was written to.\<close>

definition bq_counts :: "nat \<Rightarrow> nat \<Rightarrow> nat \<Rightarrow> bq_system \<Rightarrow> bool" where
  "bq_counts m n B s \<longleftrightarrow>
     sint (rear (bq s)) + 1 = int (B + length (put_log s) + over bumped_rear n (bq_pcs s))
     \<and> sint (front (bq s)) + 1 = int (B + length (got_log s) + over bumped_front n (bq_pcs s))
     \<and> length (put_log s) = length (got_log s) + task_sem (bq s) + over unannounced n (bq_pcs s)
         + over holds_claim n (bq_pcs s)
     \<and> length (put_log s) + spaces_sem (bq s) + over holds_place n (bq_pcs s) + over unfreed n (bq_pcs s)
         = length (got_log s) + m
     \<and> over holds_lock n (bq_pcs s) = (if locked (bq s) then 1 else 0)"

definition bq_slots :: "nat \<Rightarrow> nat \<Rightarrow> bq_system \<Rightarrow> bool" where
  "bq_slots m B s \<longleftrightarrow> 0 < m \<and> length (tasks (bq s)) = m
     \<and> got_log s = take (length (got_log s)) (put_log s)
     \<and> window m (tasks (bq s)) (B + length (got_log s)) (B + length (put_log s))
         = drop (length (got_log s)) (put_log s)"

definition bq_local :: "nat \<Rightarrow> bq_system \<Rightarrow> bool" where
  "bq_local n s \<longleftrightarrow> (\<forall>i<n. bq_pcs s i \<noteq> Aborted
     \<and> (\<forall>r x xs. bq_pcs s i = Writing r x xs \<longrightarrow> r = rear (bq s))
     \<and> (\<forall>f k. bq_pcs s i = Fetching f k \<longrightarrow> f = front (bq s)))"

definition bq_work :: "nat \<Rightarrow> nat \<Rightarrow> task_desc multiset \<Rightarrow> nat \<Rightarrow> bq_system \<Rightarrow> bool" where
  "bq_work n B V D s \<longleftrightarrow>
     mset (put_log s) + over (\<lambda>p. mset (to_put p)) n (bq_pcs s) = V
     \<and> length (got_log s) + over to_get n (bq_pcs s) = D
     \<and> B + size V \<le> 2147483647 \<and> B + D \<le> 2147483647"

definition bq_inv :: "nat \<Rightarrow> nat \<Rightarrow> nat \<Rightarrow> task_desc multiset \<Rightarrow> nat \<Rightarrow> bq_system \<Rightarrow> bool" where
  "bq_inv m n B V D s \<longleftrightarrow> bq_counts m n B s \<and> bq_slots m B s \<and> bq_local n s \<and> bq_work n B V D s"

text \<open>A holder of the mutex is the only one.\<close>

lemma over_single:
  fixes f :: "bq_pc \<Rightarrow> nat"
  assumes "i < n" and "\<And>j. j < n \<Longrightarrow> j \<noteq> i \<Longrightarrow> f (p j) = 0"
  shows "over f n p = f (p i)"
proof -
  have "over f n p = (\<Sum>j\<in>{i}. f (p j))"
    unfolding over_def using assms by (intro sum.mono_neutral_right) auto
  then show ?thesis
    by simp
qed

lemma bumped_le: "bumped_rear p \<le> holds_lock p" "bumped_front p \<le> holds_lock p"
  by (cases p; simp)+

lemma lock_holder:
  assumes inv: "bq_inv m n B V D s" and i: "i < n" and h: "holds_lock (bq_pcs s i) = 1"
  shows "locked (bq s)" "j < n \<Longrightarrow> j \<noteq> i \<Longrightarrow> holds_lock (bq_pcs s j) = 0"
    "over bumped_rear n (bq_pcs s) = bumped_rear (bq_pcs s i)"
    "over bumped_front n (bq_pcs s) = bumped_front (bq_pcs s i)"
proof -
  have tot: "over holds_lock n (bq_pcs s) = (if locked (bq s) then 1 else 0)"
    using inv by (simp add: bq_inv_def bq_counts_def)
  then show l: "locked (bq s)"
    using over_member [OF i, of holds_lock "bq_pcs s"] h by (simp split: if_splits)
  show others: "holds_lock (bq_pcs s j) = 0" if "j < n" "j \<noteq> i" for j
    using over_two [OF i that(1), of holds_lock "bq_pcs s"] that(2) tot h l by simp
  then have "bumped_rear (bq_pcs s j) = 0 \<and> bumped_front (bq_pcs s j) = 0" if "j < n" "j \<noteq> i" for j
    using that bumped_le [of "bq_pcs s j"] by simp
  then show "over bumped_rear n (bq_pcs s) = bumped_rear (bq_pcs s i)"
    "over bumped_front n (bq_pcs s) = bumped_front (bq_pcs s i)"
    by (simp_all add: over_single [OF i])
qed

text \<open>Thread \<open>i\<close> moves from \<open>x\<close> to \<open>y\<close>: the invariant is kept if the change of the queue and the logs makes
  up for it.\<close>

lemma bq_move:
  assumes inv: "bq_inv m n B V D s" and i: "i < n" and pcs: "bq_pcs s i = x" "bq_pcs s' = (bq_pcs s)(i := y)"
    and rear: "sint (rear (bq s')) + int (length (put_log s) + bumped_rear x)
      = sint (rear (bq s)) + int (length (put_log s') + bumped_rear y)"
    and front: "sint (front (bq s')) + int (length (got_log s) + bumped_front x)
      = sint (front (bq s)) + int (length (got_log s') + bumped_front y)"
    and tsem: "length (put_log s') + length (got_log s) + task_sem (bq s) + unannounced x + holds_claim x
      = length (put_log s) + length (got_log s') + task_sem (bq s') + unannounced y + holds_claim y"
    and ssem: "length (put_log s') + length (got_log s) + spaces_sem (bq s') + holds_place y + unfreed y
      = length (put_log s) + length (got_log s') + spaces_sem (bq s) + holds_place x + unfreed x"
    and lock: "holds_lock y + (if locked (bq s) then 1 else 0) = holds_lock x + (if locked (bq s') then 1 else 0)"
    and puts: "mset (put_log s') + mset (to_put y) = mset (put_log s) + mset (to_put x)"
    and gets: "length (got_log s') + to_get y = length (got_log s) + to_get x"
    and slots: "bq_slots m B s'"
    and loc: "y \<noteq> Aborted" "\<And>r t xs. y = Writing r t xs \<Longrightarrow> r = rear (bq s')"
      "\<And>f k. y = Fetching f k \<Longrightarrow> f = front (bq s')"
    and alone: "rear (bq s') = rear (bq s) \<or> holds_lock x = 1" "front (bq s') = front (bq s) \<or> holds_lock x = 1"
    and todo: "Suc (steps_left y) = steps_left x"
  shows "bq_inv m n B V D s' \<and> Suc (over steps_left n (bq_pcs s')) = over steps_left n (bq_pcs s)"
proof -
  note U = over_upd [OF i, where p = "bq_pcs s" and y = y, unfolded pcs(1), folded pcs(2)]
  have C: "bq_counts m n B s" and L: "bq_local n s" and W: "bq_work n B V D s"
    using inv by (simp_all add: bq_inv_def)
  have "bq_counts m n B s'"
    unfolding bq_counts_def
  proof (intro conjI)
    show "sint (rear (bq s')) + 1 = int (B + length (put_log s') + over bumped_rear n (bq_pcs s'))"
      using C rear arg_cong [OF U [of bumped_rear], of int] by (simp add: bq_counts_def)
    show "sint (front (bq s')) + 1 = int (B + length (got_log s') + over bumped_front n (bq_pcs s'))"
      using C front arg_cong [OF U [of bumped_front], of int] by (simp add: bq_counts_def)
    show "length (put_log s') = length (got_log s') + task_sem (bq s') + over unannounced n (bq_pcs s')
        + over holds_claim n (bq_pcs s')"
      using C tsem U [of unannounced] U [of holds_claim] by (simp add: bq_counts_def)
    show "length (put_log s') + spaces_sem (bq s') + over holds_place n (bq_pcs s') + over unfreed n (bq_pcs s')
        = length (got_log s') + m"
      using C ssem U [of holds_place] U [of unfreed] by (simp add: bq_counts_def)
    show "over holds_lock n (bq_pcs s') = (if locked (bq s') then 1 else 0)"
      using C lock U [of holds_lock] by (simp add: bq_counts_def)
  qed
  moreover have "bq_work n B V D s'"
  proof -
    have "mset (put_log s') + over (\<lambda>p. mset (to_put p)) n (bq_pcs s') = V"
    proof -
      let ?P = "over (\<lambda>p. mset (to_put p)) n"
      have "mset (put_log s') + ?P (bq_pcs s') + mset (to_put x) = mset (put_log s') + (?P (bq_pcs s') + mset (to_put x))"
        by (simp only: add.assoc)
      also have "\<dots> = mset (put_log s') + mset (to_put y) + ?P (bq_pcs s)"
        using U [of "\<lambda>p. mset (to_put p)"] by (simp add: ac_simps)
      also have "\<dots> = mset (put_log s) + ?P (bq_pcs s) + mset (to_put x)"
        by (simp only: puts ac_simps)
      also have "\<dots> = V + mset (to_put x)"
        using W by (simp only: bq_work_def)
      finally show ?thesis
        by simp
    qed
    moreover have "length (got_log s') + over to_get n (bq_pcs s') = D"
      using W U [of to_get] gets unfolding bq_work_def by linarith
    ultimately show ?thesis
      using W by (simp add: bq_work_def)
  qed
  moreover have "bq_local n s'"
    unfolding bq_local_def
  proof (intro allI impI)
    fix j assume j: "j < n"
    have other: "holds_lock x = 1 \<Longrightarrow> j \<noteq> i \<Longrightarrow> holds_lock (bq_pcs s j) = 0"
      using lock_holder(2) [OF inv i _ j] pcs(1) by simp
    show "bq_pcs s' j \<noteq> Aborted \<and> (\<forall>r x xs. bq_pcs s' j = Writing r x xs \<longrightarrow> r = rear (bq s'))
        \<and> (\<forall>f k. bq_pcs s' j = Fetching f k \<longrightarrow> f = front (bq s'))"
      using L j loc alone other unfolding bq_local_def by (cases "j = i") (auto simp: pcs(2))
  qed
  moreover have "Suc (over steps_left n (bq_pcs s')) = over steps_left n (bq_pcs s)"
    using U [of steps_left] todo by linarith
  ultimately show ?thesis
    using slots by (simp add: bq_inv_def)
qed

section \<open>Every step keeps the invariant and is one step nearer to the end\<close>

lemma wait_spacesD: "wait_spaces q = Ret q' \<Longrightarrow> \<exists>k. spaces_sem q = Suc k \<and> q' = q\<lparr>spaces_sem := k\<rparr>"
  by (auto simp: wait_spaces_def split: nat.splits)

lemma wait_tasksD: "wait_tasks q = Ret q' \<Longrightarrow> \<exists>k. task_sem q = Suc k \<and> q' = q\<lparr>task_sem := k\<rparr>"
  by (auto simp: wait_tasks_def split: nat.splits)

lemma lock_queueD: "lock_queue q = Ret q' \<Longrightarrow> \<not> locked q \<and> q' = q\<lparr>locked := True\<rparr>"
  by (auto simp: lock_queue_def split: if_splits)

lemma c_incrD: "c_incr x = Ret y \<Longrightarrow> y = x + 1 \<and> sint y = sint x + 1"
  using sint_range [of x] sint_incr [of x] by (auto simp: c_incr_def split: if_splits)

lemma size_over: "size (over (\<lambda>p. mset (to_put p)) n p) = over (\<lambda>p. length (to_put p)) n p"
  by (induction n) (simp_all add: over_def)

lemma work_bounds:
  assumes "bq_inv m n B V D s" and "i < n"
  shows "B + length (put_log s) + length (to_put (bq_pcs s i)) \<le> 2147483647"
    "B + length (got_log s) + to_get (bq_pcs s i) \<le> 2147483647"
proof -
  have W: "mset (put_log s) + over (\<lambda>p. mset (to_put p)) n (bq_pcs s) = V"
      "length (got_log s) + over to_get n (bq_pcs s) = D" "B + size V \<le> 2147483647" "B + D \<le> 2147483647"
    using assms(1) by (simp_all add: bq_inv_def bq_work_def)
  have "size V = length (put_log s) + over (\<lambda>p. length (to_put p)) n (bq_pcs s)"
    unfolding W(1) [symmetric] by (simp only: size_union size_mset size_over)
  then show "B + length (put_log s) + length (to_put (bq_pcs s i)) \<le> 2147483647"
    using W(3) over_member [OF assms(2), of "\<lambda>p. length (to_put p)" "bq_pcs s"] by linarith
  show "B + length (got_log s) + to_get (bq_pcs s i) \<le> 2147483647"
    using W(2,4) over_member [OF assms(2), of to_get "bq_pcs s"] by linarith
qed

text \<open>The counters while thread \<open>i\<close> holds the mutex.\<close>

lemma held_counters:
  assumes "bq_inv m n B V D s" and "i < n" and "holds_lock (bq_pcs s i) = 1"
  shows "sint (rear (bq s)) + 1 = int (B + length (put_log s) + bumped_rear (bq_pcs s i))"
    "sint (front (bq s)) + 1 = int (B + length (got_log s) + bumped_front (bq_pcs s i))"
  using assms(1) lock_holder(3,4) [OF assms] by (simp_all add: bq_inv_def bq_counts_def)

text \<open>A place is left for a producer about to write, a task for a consumer about to read.\<close>

lemma room_to_write:
  assumes "bq_inv m n B V D s" and "i < n" and "holds_place (bq_pcs s i) = 1"
  shows "length (put_log s) < length (got_log s) + m"
  using assms(1,3) over_member [OF assms(2), of holds_place "bq_pcs s"] by (simp add: bq_inv_def bq_counts_def)

lemma task_to_read:
  assumes "bq_inv m n B V D s" and "i < n" and "holds_claim (bq_pcs s i) = 1"
  shows "length (got_log s) < length (put_log s)"
  using assms(1,3) over_member [OF assms(2), of holds_claim "bq_pcs s"] by (simp add: bq_inv_def bq_counts_def)

lemma got_le: "bq_slots m B s \<Longrightarrow> length (got_log s) \<le> length (put_log s)"
  unfolding bq_slots_def by (metis length_take min.cobounded1)

lemma put_write_ok:
  assumes inv: "bq_inv m n B V D s" and i: "i < n" and pc: "bq_pcs s i = Writing r x xs"
  shows "\<exists>q. put_task m r x (bq s) = Ret q"
    "put_task m r x (bq s) = Ret q \<Longrightarrow> \<exists>ts. q = bq s\<lparr>tasks := ts\<rparr>
      \<and> bq_slots m B (s\<lparr>bq := q, bq_pcs := p, put_log := put_log s @ [x]\<rparr>)"
proof -
  have S: "bq_slots m B s" and r: "r = rear (bq s)"
    using inv i pc by (auto simp: bq_inv_def bq_local_def)
  have at: "sint r = int (B + length (put_log s))"
    using held_counters(1) [OF inv i] pc r by simp
  have room: "B + length (put_log s) < B + length (got_log s) + m"
    using room_to_write [OF inv i] pc by simp
  have len: "0 < m" "length (tasks (bq s)) = m" "B + length (got_log s) \<le> B + length (put_log s)"
    using S got_le [OF S] by (simp_all add: bq_slots_def)
  note wr = put_task_ok [OF len(1,2) at, of x]
  then show "\<exists>q. put_task m r x (bq s) = Ret q"
    by blast
  assume "put_task m r x (bq s) = Ret q"
  then have q: "q = bq s\<lparr>tasks := (tasks (bq s))[(B + length (put_log s)) mod m := x]\<rparr>"
    using wr by simp
  show "\<exists>ts. q = bq s\<lparr>tasks := ts\<rparr> \<and> bq_slots m B (s\<lparr>bq := q, bq_pcs := p, put_log := put_log s @ [x]\<rparr>)"
    using S window_snoc [OF len room, of x] len by (auto simp: q bq_slots_def)
qed

lemma get_read_ok:
  assumes inv: "bq_inv m n B V D s" and i: "i < n" and pc: "bq_pcs s i = Fetching f k"
  shows "\<exists>x. get_task m f (bq s) = Ret x"
    "get_task m f (bq s) = Ret x \<Longrightarrow> bq_slots m B (s\<lparr>bq_pcs := p, got_log := got_log s @ [x]\<rparr>)"
proof -
  have S: "bq_slots m B s" and f: "f = front (bq s)"
    using inv i pc by (auto simp: bq_inv_def bq_local_def)
  have at: "sint f = int (B + length (got_log s))"
    using held_counters(2) [OF inv i] pc f by simp
  have lt: "length (got_log s) < length (put_log s)"
    using task_to_read [OF inv i] pc by simp
  have len: "0 < m" "length (tasks (bq s)) = m"
    using S by (simp_all add: bq_slots_def)
  note rd = get_task_ok [OF len at]
  then show "\<exists>x. get_task m f (bq s) = Ret x"
    by blast
  assume "get_task m f (bq s) = Ret x"
  then have x: "x = tasks (bq s) ! ((B + length (got_log s)) mod m)"
    using rd by simp
  have W: "window m (tasks (bq s)) (B + length (got_log s)) (B + length (put_log s))
      = x # window m (tasks (bq s)) (Suc (B + length (got_log s))) (B + length (put_log s))"
    using lt by (simp add: window_Cons x)
  have D: "drop (length (got_log s)) (put_log s) = put_log s ! length (got_log s) # drop (Suc (length (got_log s))) (put_log s)"
    using lt by (simp add: Cons_nth_drop_Suc)
  have eq: "x = put_log s ! length (got_log s)"
    "window m (tasks (bq s)) (Suc (B + length (got_log s))) (B + length (put_log s)) = drop (Suc (length (got_log s))) (put_log s)"
    using S W D by (simp_all add: bq_slots_def)
  have "got_log s @ [x] = take (Suc (length (got_log s))) (put_log s)"
    using S lt by (simp add: bq_slots_def eq(1) take_Suc_conv_app_nth)
  then show "bq_slots m B (s\<lparr>bq_pcs := p, got_log := got_log s @ [x]\<rparr>)"
    using S eq(2) Suc_leI [OF lt] by (simp add: bq_slots_def min_absorb2)
qed

lemma bq_step_inv:
  assumes st: "bq_step m n s s'" and inv: "bq_inv m n B V D s"
  shows "bq_inv m n B V D s' \<and> Suc (over steps_left n (bq_pcs s')) = over steps_left n (bq_pcs s)"
proof -
  have S: "bq_slots m B s"
    using inv by (simp add: bq_inv_def)
  then have keep: "bq_slots m B (s\<lparr>bq := q, bq_pcs := p\<rparr>)" if "tasks q = tasks (bq s)" for q p
    using that by (simp add: bq_slots_def)
  show ?thesis
    using st
  proof cases
    case (put_wait i x xs q)
    then show ?thesis
      using keep wait_spacesD [OF put_wait(4)] by (intro bq_move [OF inv put_wait(2,3)]) auto
  next
    case (put_lock i x xs q)
    then show ?thesis
      using keep lock_queueD [OF put_lock(4)] by (intro bq_move [OF inv put_lock(2,3)]) auto
  next
    case (put_bump i x xs r)
    then show ?thesis
      using keep c_incrD [OF put_bump(4)] by (intro bq_move [OF inv put_bump(2,3)]) auto
  next
    case (put_bump_fault i x xs e)
    then show ?thesis
      using held_counters(1) [OF inv put_bump_fault(2)] work_bounds(1) [OF inv put_bump_fault(2)]
      by (simp add: c_incr_def split: if_splits)
  next
    case (put_write i r x xs q)
    obtain ts where "q = bq s\<lparr>tasks := ts\<rparr>"
      using put_write_ok(2) [OF inv put_write(2,3,4)] by blast
    then show ?thesis
      using put_write put_write_ok(2) [OF inv put_write(2,3,4)]
      by (intro bq_move [OF inv put_write(2,3)]) auto
  next
    case (put_write_fault i r x xs e)
    then show ?thesis
      using put_write_ok(1) [OF inv put_write_fault(2,3)] by simp
  next
    case (put_unlock i xs)
    then have "locked (bq s)"
      using lock_holder(1) [OF inv put_unlock(2)] by simp
    then show ?thesis
      using put_unlock keep by (intro bq_move [OF inv put_unlock(2,3)]) auto
  next
    case (put_post i xs)
    then show ?thesis
      using keep by (intro bq_move [OF inv put_post(2,3)]) auto
  next
    case (get_wait i k q)
    then show ?thesis
      using keep wait_tasksD [OF get_wait(4)] by (intro bq_move [OF inv get_wait(2,3)]) auto
  next
    case (get_lock i k q)
    then show ?thesis
      using keep lock_queueD [OF get_lock(4)] by (intro bq_move [OF inv get_lock(2,3)]) auto
  next
    case (get_bump i k f)
    then show ?thesis
      using keep c_incrD [OF get_bump(4)] by (intro bq_move [OF inv get_bump(2,3)]) auto
  next
    case (get_bump_fault i k e)
    then show ?thesis
      using held_counters(2) [OF inv get_bump_fault(2)] work_bounds(2) [OF inv get_bump_fault(2)]
      by (simp add: c_incr_def split: if_splits)
  next
    case (get_read i f k x)
    then show ?thesis
      using get_read_ok(2) [OF inv get_read(2,3,4)]
      by (intro bq_move [OF inv get_read(2,3)]) auto
  next
    case (get_read_fault i f k e)
    then show ?thesis
      using get_read_ok(1) [OF inv get_read_fault(2,3)] by simp
  next
    case (get_unlock i k)
    then have "locked (bq s)"
      using lock_holder(1) [OF inv get_unlock(2)] by simp
    then show ?thesis
      using get_unlock keep by (intro bq_move [OF inv get_unlock(2,3)]) auto
  next
    case (get_post i k)
    then show ?thesis
      using keep by (intro bq_move [OF inv get_post(2,3)]) auto
  qed
qed

section \<open>Progress\<close>

text \<open>A thread inside a call that waits for nothing, and one that only waits for the mutex.\<close>

lemma step_here:
  assumes inv: "bq_inv m n B V D s" and i: "i < n" and out: "\<not> outside (bq_pcs s i)"
    and lock: "holds_lock (bq_pcs s i) = 1 \<or> \<not> locked (bq s)"
  shows "\<exists>s'. bq_step m n s s'"
proof -
  have free: "lock_queue (bq s) = Ret (bq s\<lparr>locked := True\<rparr>)" if "holds_lock (bq_pcs s i) = 0"
    using that lock by (simp add: lock_queue_def)
  show ?thesis
  proof (cases "bq_pcs s i")
    case (Permit x xs)
    then show ?thesis using bq_step.put_lock [OF i Permit free] by auto
  next
    case (Inserting x xs)
    then show ?thesis
      using bq_step.put_bump [OF i Inserting] bq_step.put_bump_fault [OF i Inserting]
      by (cases "c_incr (rear (bq s))") (auto simp: c_incr_def split: if_splits)
  next
    case (Writing r x xs)
    then show ?thesis
      using put_write_ok(1) [OF inv i Writing] bq_step.put_write [OF i Writing] by blast
  next
    case (Inserted xs)
    then show ?thesis using bq_step.put_unlock [OF i Inserted] by blast
  next
    case (Announcing xs)
    then show ?thesis using bq_step.put_post [OF i Announcing] by blast
  next
    case (Claim k)
    then show ?thesis using bq_step.get_lock [OF i Claim free] by auto
  next
    case (Removing k)
    then show ?thesis
      using bq_step.get_bump [OF i Removing] bq_step.get_bump_fault [OF i Removing]
      by (cases "c_incr (front (bq s))") (auto simp: c_incr_def split: if_splits)
  next
    case (Fetching f k)
    then show ?thesis
      using get_read_ok(1) [OF inv i Fetching] bq_step.get_read [OF i Fetching] by blast
  next
    case (Removed k)
    then show ?thesis using bq_step.get_unlock [OF i Removed] by blast
  next
    case (Freeing k)
    then show ?thesis using bq_step.get_post [OF i Freeing] by blast
  next
    case Aborted
    then show ?thesis using inv i by (simp add: bq_inv_def bq_local_def)
  qed (use out in simp_all)
qed

lemma over_zero: "(\<And>i. i < n \<Longrightarrow> f (p i) = 0) \<Longrightarrow> over f n p = 0"
  by (simp add: over_def)

lemma stuck_outside:
  assumes inv: "bq_inv m n B V D s" and stuck: "\<nexists>s'. bq_step m n s s'" and i: "i < n"
  shows "outside (bq_pcs s i)"
proof (rule ccontr)
  assume out: "\<not> outside (bq_pcs s i)"
  then have l: "locked (bq s)"
    using step_here [OF inv i out] stuck by blast
  then have "over holds_lock n (bq_pcs s) = 1"
    using inv by (simp add: bq_inv_def bq_counts_def)
  then obtain j where j: "j < n" "holds_lock (bq_pcs s j) \<noteq> 0"
    using over_zero [of n holds_lock "bq_pcs s"] by fastforce
  then have "holds_lock (bq_pcs s j) = 1" "\<not> outside (bq_pcs s j)"
    by (cases "bq_pcs s j"; simp)+
  then show False
    using step_here [OF inv j(1)] stuck by blast
qed

text \<open>Threads between calls hold nothing.\<close>

lemma outside_none:
  assumes "outside p"
  shows "holds_place p = 0" "unannounced p = 0" "holds_claim p = 0" "unfreed p = 0" "holds_lock p = 0"
    "bumped_rear p = 0" "bumped_front p = 0"
  using assms by (cases p; simp)+

lemma over_outside:
  assumes "\<And>i. i < n \<Longrightarrow> outside (p i)"
  shows "over holds_place n p = 0" "over unannounced n p = 0" "over holds_claim n p = 0" "over unfreed n p = 0"
    "over holds_lock n p = 0" "over bumped_rear n p = 0" "over bumped_front n p = 0"
  using outside_none [OF assms] by (simp_all add: over_zero)

text \<open>When nobody is inside a call, the two semaphores count what the queue holds.\<close>

lemma quiet:
  assumes inv: "bq_inv m n B V D s" and out: "\<And>i. i < n \<Longrightarrow> outside (bq_pcs s i)"
  shows "length (put_log s) = length (got_log s) + task_sem (bq s)"
    "length (put_log s) + spaces_sem (bq s) = length (got_log s) + m"
    "blocking_inv m (bq s)" "task_list m (bq s) = drop (length (got_log s)) (put_log s)"
proof -
  note Z = over_outside [of n "bq_pcs s", OF out]
  have C: "sint (rear (bq s)) + 1 = int (B + length (put_log s))" "sint (front (bq s)) + 1 = int (B + length (got_log s))"
      "\<not> locked (bq s)"
    using inv Z by (simp_all add: bq_inv_def bq_counts_def split: if_splits)
  show sem: "length (put_log s) = length (got_log s) + task_sem (bq s)"
    "length (put_log s) + spaces_sem (bq s) = length (got_log s) + m"
    using inv Z by (simp_all add: bq_inv_def bq_counts_def)
  have S: "0 < m" "length (tasks (bq s)) = m"
      "window m (tasks (bq s)) (B + length (got_log s)) (B + length (put_log s)) = drop (length (got_log s)) (put_log s)"
    using inv by (simp_all add: bq_inv_def bq_slots_def)
  have "next_in (bq s) = B + length (put_log s)" "next_out (bq s) = B + length (got_log s)"
    by (simp_all only: next_in_def next_out_def C(1,2) nat_int)
  then show L: "task_list m (bq s) = drop (length (got_log s)) (put_log s)"
    by (simp only: task_list_def S(3))
  have "- 1 \<le> sint (front (bq s))" "sint (front (bq s)) \<le> sint (rear (bq s))"
      "sint (rear (bq s)) - sint (front (bq s)) \<le> int m"
    using C(1,2) sem by linarith+
  then show "blocking_inv m (bq s)"
    using S(1,2) C(3) sem by (simp add: blocking_inv_def task_inv_def L)
qed

text \<open>Balanced work never gets stuck: the dequeues are no more than the tasks, and the tasks left over fit
  the queue.\<close>

lemma bq_progress:
  assumes inv: "bq_inv m n B V D s" and bal: "D \<le> size V" "size V \<le> D + m"
    and left: "over steps_left n (bq_pcs s) \<noteq> 0"
  shows "\<exists>s'. bq_step m n s s'"
proof (rule ccontr)
  assume stuck: "\<nexists>s'. bq_step m n s s'"
  note out = stuck_outside [OF inv stuck]
  note Q = quiet(1,2) [OF inv out]
  have W: "mset (put_log s) + over (\<lambda>p. mset (to_put p)) n (bq_pcs s) = V" "length (got_log s) + over to_get n (bq_pcs s) = D"
    using inv by (simp_all add: bq_inv_def bq_work_def)
  have V: "size V = length (put_log s) + over (\<lambda>p. length (to_put p)) n (bq_pcs s)"
    unfolding W(1) [symmetric] by (simp only: size_union size_mset size_over)
  have pos: "0 < m"
    using inv by (simp add: bq_inv_def bq_slots_def)
  have put: "to_put (bq_pcs s i) = []" if i: "i < n" and sem: "spaces_sem (bq s) \<noteq> 0" for i
  proof (rule ccontr)
    assume "to_put (bq_pcs s i) \<noteq> []"
    then obtain x xs where pc: "bq_pcs s i = Filling (x # xs)"
      using out [OF i] by (cases "bq_pcs s i"; cases "to_put (bq_pcs s i)") auto
    obtain k where "spaces_sem (bq s) = Suc k"
      using sem by (cases "spaces_sem (bq s)") auto
    then show False
      using bq_step.put_wait [OF i pc] stuck by (auto simp: wait_spaces_def)
  qed
  have get: "to_get (bq_pcs s i) = 0" if i: "i < n" and sem: "task_sem (bq s) \<noteq> 0" for i
  proof (rule ccontr)
    assume "to_get (bq_pcs s i) \<noteq> 0"
    then obtain k where pc: "bq_pcs s i = Draining (Suc k)"
      using out [OF i] by (cases "bq_pcs s i"; cases "to_get (bq_pcs s i)") auto
    obtain j where "task_sem (bq s) = Suc j"
      using sem by (cases "task_sem (bq s)") auto
    then show False
      using bq_step.get_wait [OF i pc] stuck by (auto simp: wait_tasks_def)
  qed
  have "over (\<lambda>p. length (to_put p)) n (bq_pcs s) = 0"
  proof (cases "spaces_sem (bq s) = 0")
    case True
    then have "task_sem (bq s) \<noteq> 0"
      using Q pos by linarith
    then have "over to_get n (bq_pcs s) = 0"
      using get by (simp add: over_zero)
    then show ?thesis
      using W(2) V Q True bal by linarith
  next
    case False
    then show ?thesis
      using put by (simp add: over_zero)
  qed
  moreover have "over to_get n (bq_pcs s) = 0"
  proof (cases "task_sem (bq s) = 0")
    case True
    then have "length (put_log s) = length (got_log s)"
      using Q by simp
    then show ?thesis
      using W(2) V bal calculation by linarith
  next
    case False
    then show ?thesis
      using get by (simp add: over_zero)
  qed
  ultimately have "to_put (bq_pcs s i) = [] \<and> to_get (bq_pcs s i) = 0" if "i < n" for i
    using over_member [OF that, of "\<lambda>p. length (to_put p)" "bq_pcs s"] over_member [OF that, of to_get "bq_pcs s"] by simp
  then have "steps_left (bq_pcs s i) = 0" if "i < n" for i
    using out [OF that] that by (cases "bq_pcs s i") force+
  then show False
    using left by (simp add: over_zero)
qed

section \<open>Properties\<close>

definition all_puts :: "nat \<Rightarrow> (nat \<Rightarrow> bq_pc) \<Rightarrow> task_desc multiset" where
  "all_puts n p = (\<Sum>i<n. mset (to_put (p i)))"

definition all_gets :: "nat \<Rightarrow> (nat \<Rightarrow> bq_pc) \<Rightarrow> nat" where
  "all_gets n p = (\<Sum>i<n. to_get (p i))"

lemma bq_start_inv:
  assumes "blocking_inv m q" and "task_list m q = xs" and "\<And>i. i < n \<Longrightarrow> outside (p i)"
    and "next_out q + length xs + size (all_puts n p) \<le> 2147483647" and "next_out q + all_gets n p \<le> 2147483647"
  shows "bq_inv m n (next_out q) (mset xs + all_puts n p) (all_gets n p) (bq_start q xs p)"
proof -
  have T: "task_inv m q" "\<not> locked q" "task_sem q = length xs" "spaces_sem q + length xs = m"
    using assms(1,2) by (auto simp: blocking_inv_def)
  note I = task_invD [OF T(1)]
  note Z = over_outside [of n p, OF assms(3)]
  have len: "length xs = next_in q - next_out q"
    using length_task_list [of m q] assms(2) by simp
  have "bq_counts m n (next_out q) (bq_start q xs p)"
    using T I(3-6) Z len by (simp add: bq_counts_def bq_start_def)
  moreover have "bq_slots m (next_out q) (bq_start q xs p)"
    using I assms(2) len by (simp add: bq_slots_def bq_start_def task_list_def)
  moreover have "bq_local n (bq_start q xs p)"
    using assms(3) by (force simp: bq_local_def bq_start_def)
  moreover have "bq_work n (next_out q) (mset xs + all_puts n p) (all_gets n p) (bq_start q xs p)"
    using assms(4,5) by (simp add: bq_work_def bq_start_def all_puts_def all_gets_def over_def)
  ultimately show ?thesis
    by (simp add: bq_inv_def)
qed

lemma bq_steps_inv:
  assumes "bq_inv m n B V D s"
  shows "(bq_step m n ^^ k) s s' \<Longrightarrow>
    bq_inv m n B V D s' \<and> k + over steps_left n (bq_pcs s') = over steps_left n (bq_pcs s)"
proof (induction k arbitrary: s')
  case 0
  then show ?case
    using assms by simp
next
  case (Suc k)
  then obtain t where "(bq_step m n ^^ k) s t" "bq_step m n t s'"
    by auto
  with Suc.IH [of t] bq_step_inv show ?case
    by fastforce
qed

lemma put_log_grows: "(bq_step m n ^^ k) s s' \<Longrightarrow> \<exists>ys. put_log s' = put_log s @ ys"
proof (induction k arbitrary: s')
  case (Suc k)
  then obtain t where t: "(bq_step m n ^^ k) s t" "bq_step m n t s'"
    by auto
  then obtain ys where "put_log t = put_log s @ ys"
    using Suc.IH by blast
  with t(2) show ?case
    by (auto elim: bq_step.cases)
qed simp

lemma balanced_run:
  assumes "blocking_inv m q" and "task_list m q = xs" and "\<And>i. i < n \<Longrightarrow> outside (p i)"
    and "next_out q + length xs + size (all_puts n p) \<le> 2147483647" and "next_out q + all_gets n p \<le> 2147483647"
    and "all_gets n p \<le> length xs + size (all_puts n p)" and "length xs + size (all_puts n p) \<le> all_gets n p + m"
    and "(bq_step m n ^^ k) (bq_start q xs p) s"
  defines "N \<equiv> 6 * (size (all_puts n p) + all_gets n p)"
  shows "k \<le> N \<and> (k < N \<longleftrightarrow> (\<exists>s'. bq_step m n s s'))
    \<and> (k = N \<longrightarrow> (\<forall>i<n. bq_pcs s i = Filling [] \<or> bq_pcs s i = Draining 0)
        \<and> mset (put_log s) = mset xs + all_puts n p \<and> got_log s = take (all_gets n p) (put_log s)
        \<and> blocking_inv m (bq s) \<and> task_list m (bq s) = drop (all_gets n p) (put_log s))
    \<and> (\<exists>ys. put_log s = xs @ ys)"
proof -
  let ?V = "mset xs + all_puts n p" and ?D = "all_gets n p"
  have run: "bq_inv m n (next_out q) ?V ?D s"
      "k + over steps_left n (bq_pcs s) = over steps_left n p"
    using bq_steps_inv [OF bq_start_inv [OF assms(1-5)] assms(8)] by (simp_all add: bq_start_def)
  have "steps_left r = 6 * (length (to_put r) + to_get r)" if "outside r" for r
    using that by (cases r) auto
  then have "over steps_left n p = (\<Sum>i<n. 6 * (length (to_put (p i)) + to_get (p i)))"
    using assms(3) by (simp add: over_def)
  also have "\<dots> = N"
    using size_over [of n p] by (simp add: N_def all_puts_def all_gets_def over_def sum.distrib flip: sum_distrib_left)
  finally have N: "k + over steps_left n (bq_pcs s) = N"
    using run(2) by simp
  have bal: "?D \<le> size ?V" "size ?V \<le> ?D + m"
    using assms(6,7) by simp_all
  show ?thesis
  proof (intro conjI impI)
    show "k \<le> N"
      using N by simp
    show "k < N \<longleftrightarrow> (\<exists>s'. bq_step m n s s')"
      using bq_progress [OF run(1) bal] bq_step_inv [OF _ run(1)] N by fastforce
    show "\<exists>ys. put_log s = xs @ ys"
      using put_log_grows [OF assms(8)] by (simp add: bq_start_def)
    assume "k = N"
    then have zero: "steps_left (bq_pcs s i) = 0" if "i < n" for i
      using N over_member [OF that, of steps_left "bq_pcs s"] by simp
    have fin: "bq_pcs s i = Filling [] \<or> bq_pcs s i = Draining 0" if "i < n" for i
      using zero [OF that] run(1) that by (cases "bq_pcs s i") (auto simp: bq_inv_def bq_local_def)
    then show "\<forall>i<n. bq_pcs s i = Filling [] \<or> bq_pcs s i = Draining 0"
      by blast
    have rest: "outside (bq_pcs s i)" "to_get (bq_pcs s i) = 0" "to_put (bq_pcs s i) = []" if "i < n" for i
      using fin [OF that] by auto
    then have "over to_get n (bq_pcs s) = 0" "over (\<lambda>p. mset (to_put p)) n (bq_pcs s) = 0"
      by (simp_all add: over_def)
    then have W: "mset (put_log s) = ?V" "length (got_log s) = ?D"
      using run(1) by (simp_all add: bq_inv_def bq_work_def)
    then show "mset (put_log s) = ?V"
      by blast
    have "got_log s = take (length (got_log s)) (put_log s)"
      using run(1) by (simp add: bq_inv_def bq_slots_def)
    then show "got_log s = take ?D (put_log s)"
      by (simp only: W(2))
    show "blocking_inv m (bq s)" "task_list m (bq s) = drop ?D (put_log s)"
      using quiet(3,4) [OF run(1) rest(1)] W(2) by simp_all
  qed
qed

text \<open>C7: Any number of threads calling the two operations of the blocking queue, from any state between
  calls and however they interleave: no access leaves the array or overflows as long as the counters
  can number the calls, at most one thread is between lock and unlock, the tasks read are those written,
  in the order of writing and each once, the queue never holds more than its capacity, and every task
  is either written or still to be written by its thread.\<close>

theorem blocking_conc_safety:
  assumes "blocking_inv m q" and "task_list m q = xs" and "\<And>i. i < n \<Longrightarrow> outside (p i)"
    and "next_out q + length xs + size (all_puts n p) \<le> 2147483647" and "next_out q + all_gets n p \<le> 2147483647"
    and "(bq_step m n)\<^sup>*\<^sup>* (bq_start q xs p) s"
  shows "(\<forall>i<n. bq_pcs s i \<noteq> Aborted)
    \<and> (\<forall>i<n. \<forall>j<n. holds_lock (bq_pcs s i) = 1 \<longrightarrow> holds_lock (bq_pcs s j) = 1 \<longrightarrow> i = j)
    \<and> got_log s = take (length (got_log s)) (put_log s)
    \<and> length (got_log s) \<le> length (put_log s) \<and> length (put_log s) \<le> length (got_log s) + m
    \<and> mset (put_log s) + all_puts n (bq_pcs s) = mset xs + all_puts n p"
proof -
  obtain k where "(bq_step m n ^^ k) (bq_start q xs p) s"
    using assms(6) rtranclp_power by metis
  then have inv: "bq_inv m n (next_out q) (mset xs + all_puts n p) (all_gets n p) s"
    using bq_steps_inv bq_start_inv [OF assms(1-5)] by blast
  have S: "bq_slots m (next_out q) s"
    using inv by (simp add: bq_inv_def)
  show ?thesis
  proof (intro conjI allI impI)
    fix i assume i: "i < n"
    then show "bq_pcs s i \<noteq> Aborted"
      using inv by (simp add: bq_inv_def bq_local_def)
    fix j assume "j < n" "holds_lock (bq_pcs s i) = 1" "holds_lock (bq_pcs s j) = 1"
    then show "i = j"
      using lock_holder(2) [OF inv i, of j] by fastforce
  next
    show "got_log s = take (length (got_log s)) (put_log s)"
      using S by (simp add: bq_slots_def)
    show "length (got_log s) \<le> length (put_log s)"
      using got_le [OF S] .
    show "length (put_log s) \<le> length (got_log s) + m"
      using inv by (simp add: bq_inv_def bq_counts_def)
    show "mset (put_log s) + all_puts n (bq_pcs s) = mset xs + all_puts n p"
      using inv by (simp add: bq_inv_def bq_work_def all_puts_def over_def)
  qed
qed

text \<open>Two producers and a consumer share a queue of one place.\<close>

definition demo_pcs :: "nat \<Rightarrow> bq_pc" where
  "demo_pcs i = (if i < 2 then Filling [demo_task i] else Draining 2)"

definition demo_bq :: bq_system where
  "demo_bq = bq_start (create_queue_blocking 1 [EmptyTask]) [] demo_pcs"

lemma demo_pcs_work:
  "all_puts 3 demo_pcs = {# demo_task 0, demo_task 1 #}" "all_gets 3 demo_pcs = 2" "i < 3 \<Longrightarrow> outside (demo_pcs i)"
  "over steps_left 3 demo_pcs = 24"
  by (simp_all add: all_puts_def all_gets_def demo_pcs_def eval_nat_numeral over_def)

lemma demo_bq_step: "\<exists>s. bq_step 1 3 demo_bq s \<and> bq_pcs s 0 = Permit (demo_task 0) []"
proof -
  have "bq_pcs demo_bq 0 = Filling [demo_task 0]"
    "wait_spaces (bq demo_bq) = Ret ((bq demo_bq)\<lparr>spaces_sem := 0\<rparr>)"
    by (simp_all add: demo_bq_def bq_start_def demo_pcs_def wait_spaces_def create_queue_blocking_def)
  from bq_step.put_wait [of 0 3, OF _ this] show ?thesis
    by fastforce
qed

theorem blocking_conc_safety_witness:
  "\<exists>s. (bq_step 1 3)\<^sup>*\<^sup>* demo_bq s \<and> bq_pcs s 0 = Permit (demo_task 0) [] \<and> bq_pcs s 2 \<noteq> Aborted
    \<and> length (put_log s) \<le> length (got_log s) + 1"
proof -
  obtain s where s: "bq_step 1 3 demo_bq s" "bq_pcs s 0 = Permit (demo_task 0) []"
    using demo_bq_step by blast
  then have "(bq_step 1 3)\<^sup>*\<^sup>* demo_bq s"
    by simp
  with blocking_conc_safety [of 1 "create_queue_blocking 1 [EmptyTask]" "[]" 3 demo_pcs s]
    create_queue_ok [of 1 "[EmptyTask]"] demo_pcs_work s(2)
  show ?thesis
    by (auto simp: next_out_def create_queue_blocking_def demo_bq_def)
qed

text \<open>C8: When the dequeues are no more than the tasks, the tasks left over fit the queue and the counters stay below
  \<open>2 ^ 31\<close>, every run ends:
  whatever the order of the steps it has exactly six for each call, no state before the end is stuck, and at
  the end all threads are done, the tasks dequeued are the first ones written and the queue is at rest with
  the others in it.\<close>

theorem blocking_conc_completes:
  assumes "blocking_inv m q" and "task_list m q = xs" and "\<And>i. i < n \<Longrightarrow> outside (p i)"
    and "next_out q + length xs + size (all_puts n p) \<le> 2147483647" and "next_out q + all_gets n p \<le> 2147483647"
    and "all_gets n p \<le> length xs + size (all_puts n p)" and "length xs + size (all_puts n p) \<le> all_gets n p + m"
    and "(bq_step m n ^^ k) (bq_start q xs p) s"
  shows "k \<le> 6 * (size (all_puts n p) + all_gets n p) \<and> (k < 6 * (size (all_puts n p) + all_gets n p) \<longleftrightarrow> (\<exists>s'. bq_step m n s s'))
    \<and> (k = 6 * (size (all_puts n p) + all_gets n p) \<longrightarrow> (\<forall>i<n. bq_pcs s i = Filling [] \<or> bq_pcs s i = Draining 0)
        \<and> mset (put_log s) = mset xs + all_puts n p \<and> got_log s = take (all_gets n p) (put_log s)
        \<and> blocking_inv m (bq s) \<and> task_list m (bq s) = drop (all_gets n p) (put_log s))"
  using balanced_run [OF assms] by blast

theorem blocking_conc_completes_witness:
  "\<exists>s. bq_step 1 3 demo_bq s"
  using blocking_conc_completes [of 1 "create_queue_blocking 1 [EmptyTask]" "[]" 3 demo_pcs 0 demo_bq]
    create_queue_ok [of 1 "[EmptyTask]"] demo_pcs_work
  by (simp add: next_out_def create_queue_blocking_def demo_bq_def)

end
