(* ===== verification/Simple_Threads.thy ===== *)
theory Simple_Threads
  imports Simple_Main Blocking_Conc
begin

text \<open>
  The multi-threaded test of the blocking queue in \<^verbatim>\<open>SimpleQueueImpl/main.c\<close>: the main thread fills the
  queue, then the workers empty it together. \<open>n\<close> is \<^verbatim>\<open>NUM_TASKS\<close>, \<open>nt\<close> is \<^verbatim>\<open>NUM_THREADS\<close>; each worker makes
  \<open>n div nt\<close> dequeues. The result is the system of the workers as \<^verbatim>\<open>pthread_create\<close> leaves it.
\<close>

definition testblockingqueue_multiplethreads :: "nat \<Rightarrow> task_desc list \<Rightarrow> (nat \<Rightarrow> ticks) \<Rightarrow> nat \<Rightarrow> nat
    \<Rightarrow> ticks list \<Rightarrow> (bq_system \<times> ticks list) outcome" where
  "testblockingqueue_multiplethreads m mem clk n nt enq =
     bindO (timed_into (\<lambda>i q. into_slot (int i) (enqueue_blocking m (task i) q)) clk n (create_queue m mem, enq))
       (\<lambda>(q, enq'). Ret (bq_start q (map task [0..<n]) (\<lambda>i. Draining (n div nt)), enq'))"

lemma create_blocking_same: "create_queue m mem = create_queue_blocking m mem"
  by (simp add: create_queue_def create_queue_blocking_def)

lemma draining_work: "all_puts nt (\<lambda>i. Draining k) = {#}" "all_gets nt (\<lambda>i. Draining k) = nt * k"
  by (simp_all add: all_puts_def all_gets_def)

lemma next_out_le:
  assumes "task_inv m q" and "length (task_list m q) = n" and "2147483647 \<le> n + task_budget q"
  shows "next_out q \<le> 1"
proof -
  note I = task_invD [OF assms(1)]
  have "sint (rear q) \<le> int n"
  proof -
    have "int (task_budget q) = INT_MAX - sint (rear q)"
      using sint_range [of "rear q"] by (simp add: task_budget_def)
    then show ?thesis
      using assms(3) by linarith
  qed
  then show ?thesis
    using I(4,5) assms(2) by (simp add: length_task_list)
qed

text \<open>C28: The multi-threaded test of the blocking queue: filling stores a sample for each task, and however
  the workers interleave they never get stuck and stop after their \<open>n div nt\<close> dequeues each; together they
  have then got the tasks \<open>0, 1, \<dots>\<close> in order, each once, and the remainder of the division is still in
  the queue.\<close>

theorem multi_thread_test:
  assumes "0 < m" and "length mem = m" and "n \<le> m" and "n < 2147483647" and "length enq = n" and "0 < nt"
  defines "r \<equiv> nt * (n div nt)"
  shows "\<exists>S. testblockingqueue_multiplethreads m mem clk n nt enq = Ret (S, deltas clk n)
    \<and> (\<forall>k s. (bq_step m nt ^^ k) S s \<longrightarrow> k \<le> 6 * r \<and> (k < 6 * r \<longleftrightarrow> (\<exists>s'. bq_step m nt s s'))
        \<and> (k = 6 * r \<longrightarrow> got_log s = map task [0..<r] \<and> task_list m (bq s) = map task [r..<n]))"
proof -
  let ?xs = "map task [0..<n]" and ?p = "\<lambda>i::nat. Draining (n div nt)"
  note new = create_queue_ok(3,4,6) [OF assms(1,2)]
  obtain q where q: "enq_all (enqueue_blocking m) ?xs (create_queue_blocking m mem) = Ret q"
      "blocking_inv m q" "task_list m q = ?xs" "2147483647 \<le> n + task_budget q"
    using tb.enq_all_budget [OF new(1), of ?xs] new(2,3) assms(3,4) by (auto simp: list_all_iff)
  have "next_out q \<le> 1"
    using next_out_le [of m q n] q(2-4) by (simp add: blocking_inv_def)
  moreover have r: "r \<le> n" "n \<le> r + m"
    using assms(3) by (simp_all add: r_def)
  ultimately have b: "next_out q + length ?xs + size (all_puts nt ?p) \<le> 2147483647"
      "next_out q + all_gets nt ?p \<le> 2147483647"
    using assms(4) by (simp_all add: draining_work flip: r_def)
  let ?S = "bq_start q ?xs ?p"
  have "repeat_op (\<lambda>i. enqueue_blocking m (task i)) n (create_queue m mem) = Ret q"
    by (simp add: repeat_enq q(1) create_blocking_same)
  then have "testblockingqueue_multiplethreads m mem clk n nt enq = Ret (?S, deltas clk n)"
    using timed_into_fixed [of 0 n enq "\<lambda>i. enqueue_blocking m (task i)" clk "create_queue m mem"] assms(5)
    by (simp add: testblockingqueue_multiplethreads_def deltas_def)
  moreover have "k \<le> 6 * r \<and> (k < 6 * r \<longleftrightarrow> (\<exists>s'. bq_step m nt s s'))
      \<and> (k = 6 * r \<longrightarrow> got_log s = map task [0..<r] \<and> task_list m (bq s) = map task [r..<n])"
    if run: "(bq_step m nt ^^ k) ?S s" for k s
  proof -
    have done6: "6 * (size (all_puts nt ?p) + all_gets nt ?p) = 6 * r"
      by (simp add: draining_work r_def)
    note C = balanced_run [OF q(2,3) _ b _ _ run, unfolded done6]
    have C': "k \<le> 6 * r" "k < 6 * r \<longleftrightarrow> (\<exists>s'. bq_step m nt s s')" "\<exists>ys. put_log s = ?xs @ ys"
      using C r by (simp_all add: draining_work flip: r_def)
    have "got_log s = map task [0..<r] \<and> task_list m (bq s) = map task [r..<n]" if "k = 6 * r"
    proof -
      have end_state: "mset (put_log s) = mset ?xs" "got_log s = take r (put_log s)" "task_list m (bq s) = drop r (put_log s)"
        using C r that by (simp_all add: draining_work flip: r_def)
      obtain ys where ys: "put_log s = ?xs @ ys"
        using C'(3) by blast
      then have "ys = []"
        using end_state(1) by simp
      then show ?thesis
        using end_state(2,3) ys r(1) by (simp add: take_map drop_map)
    qed
    then show ?thesis
      using C' by blast
  qed
  ultimately show ?thesis
    by blast
qed

theorem multi_thread_test_witness:
  "\<exists>S. testblockingqueue_multiplethreads 4 [EmptyTask, EmptyTask, EmptyTask, EmptyTask] (\<lambda>i. of_nat (3 * i)) 3 2 [0, 0, 0]
      = Ret (S, deltas (\<lambda>i. of_nat (3 * i)) 3) \<and> (\<exists>s. bq_step 4 2 S s)"
proof -
  let ?c = "\<lambda>i. of_nat (3 * i)"
  obtain S where S: "testblockingqueue_multiplethreads 4 [EmptyTask, EmptyTask, EmptyTask, EmptyTask] ?c 3 2 [0, 0, 0]
      = Ret (S, deltas ?c 3)" "\<forall>k s. (bq_step 4 2 ^^ k) S s \<longrightarrow> (k < 12 \<longleftrightarrow> (\<exists>s'. bq_step 4 2 s s'))"
    using multi_thread_test [of 4 "[EmptyTask, EmptyTask, EmptyTask, EmptyTask]" 3 "[0, 0, 0]" 2 ?c] by auto
  have "(bq_step 4 2 ^^ 0) S S"
    by simp
  with S show ?thesis
    by (metis zero_less_numeral)
qed

end
