(* ===== verification/Semi_Conc.thy ===== *)
theory Semi_Conc
  imports Semi_Blocking
begin

text \<open>
  The semi-blocking queue of \<^verbatim>\<open>SimpleQueueImpl/semiblockingqueue.c\<close> under concurrency: any number of threads
  in \<^verbatim>\<open>queue_put\<close>, which takes no lock, and in \<^verbatim>\<open>queue_get\<close>. Each access to the incoming list, to the
  \<^verbatim>\<open>next\<close> field of a node or to the mutex is a step of its own; the outgoing list is only used between lock and
  unlock, and its accesses belong to the step next to them. The micro-operations are those of the
  sequential model in \<open>Semi_Blocking\<close>.
\<close>

section \<open>Threads and steps\<close>

text \<open>
  A thread in \<^verbatim>\<open>queue_put\<close> holds the node, the incoming list it has read and the nodes it will put after
  this one; in \<^verbatim>\<open>queue_get\<close> it holds the local pointers of the code and the number of calls it will still
  make.
\<close>

datatype sb_pc =
    Putting "nat list"
  | Linking nat ptr "nat list"
  | Swapping nat ptr "nat list"
  | Getting nat
  | Testing nat
  | Loading nat
  | Taking ptr nat
  | Walking ptr nat
  | Relinking ptr ptr nat
  | Popping nat
  | Unlocking ptr nat
  | Crashed

text \<open>What a step amounts to: a put or a get takes effect, or a get returns.\<close>

datatype sb_event = Silent | DidPut nat | DidGet ptr | Returned ptr

text \<open>
  The step of one thread, \<open>None\<close> when it is done or waits for the mutex. A get whose lists are both empty
  takes effect when it reads \<^verbatim>\<open>NULL\<close> from \<^verbatim>\<open>root->in_queue\<close>; \<^verbatim>\<open>root->out_queue\<close>, which it returns then, was
  \<^verbatim>\<open>NULL\<close> before and has not changed, so that there is nothing to pop.
\<close>

fun sb_act :: "sb_pc \<Rightarrow> queue_root \<Rightarrow> (sb_pc \<times> queue_root \<times> sb_event) option" where
  "sb_act (Putting []) r = None"
| "sb_act (Putting (a # as)) r = Some (Linking a (in_queue r) as, r, Silent)"
| "sb_act (Linking a old as) r =
     (case write_next (Addr a) old r of
        Ret r1 \<Rightarrow> Some (Swapping a old as, r1, Silent) | _ \<Rightarrow> Some (Crashed, r, Silent))"
| "sb_act (Swapping a old as) r =
     (case cas_in old (Addr a) r of (ok, r1) \<Rightarrow>
        Some (if ok then (Putting as, r1, DidPut a) else (Putting (a # as), r1, Silent)))"
| "sb_act (Getting 0) r = None"
| "sb_act (Getting (Suc k)) r = (if root_lock r then None else Some (Testing k, r\<lparr>root_lock := True\<rparr>, Silent))"
| "sb_act (Testing k) r = Some (if out_queue r = NULL then Loading k else Popping k, r, Silent)"
| "sb_act (Loading k) r =
     Some (if in_queue r = NULL then (Unlocking (out_queue r) k, r, DidGet (out_queue r))
           else (Taking (in_queue r) k, r, Silent))"
| "sb_act (Taking head k) r =
     (case cas_in head NULL r of (ok, r1) \<Rightarrow> Some (if ok then Walking head k else Loading k, r1, Silent))"
| "sb_act (Walking head k) r =
     (case read_next head r of
        Ret nx \<Rightarrow> Some (Relinking head nx k, r, Silent) | _ \<Rightarrow> Some (Crashed, r, Silent))"
| "sb_act (Relinking head nx k) r =
     (case write_next head (out_queue r) r of
        Ret r1 \<Rightarrow> Some (if nx = NULL then Popping k else Walking nx k, r1\<lparr>out_queue := head\<rparr>, Silent)
      | _ \<Rightarrow> Some (Crashed, r, Silent))"
| "sb_act (Popping k) r =
     (if out_queue r = NULL then Some (Unlocking NULL k, r, DidGet NULL)
      else case read_next (out_queue r) r of
        Ret nx \<Rightarrow> Some (Unlocking (out_queue r) k, r\<lparr>out_queue := nx\<rparr>, DidGet (out_queue r))
      | _ \<Rightarrow> Some (Crashed, r, Silent))"
| "sb_act (Unlocking x k) r = Some (Getting k, r\<lparr>root_lock := False\<rparr>, Returned x)"
| "sb_act Crashed r = None"

text \<open>
  The calls in the order they take effect, the answers of the gets among them with their threads, and
  what each thread's calls have returned.
\<close>

record sb_system =
  sb_root :: queue_root
  sb_pcs :: "nat \<Rightarrow> sb_pc"
  effects :: "ptr qcall list"
  answers :: "(nat \<times> ptr) list"
  returned :: "nat \<Rightarrow> ptr list"

fun note_event :: "nat \<Rightarrow> sb_event \<Rightarrow> sb_system \<Rightarrow> sb_system" where
  "note_event i Silent s = s"
| "note_event i (DidPut a) s = s\<lparr>effects := effects s @ [Put (Addr a)]\<rparr>"
| "note_event i (DidGet x) s = s\<lparr>effects := effects s @ [Take], answers := answers s @ [(i, x)]\<rparr>"
| "note_event i (Returned x) s = s\<lparr>returned := (returned s)(i := returned s i @ [x])\<rparr>"

inductive sb_step :: "nat \<Rightarrow> sb_system \<Rightarrow> sb_system \<Rightarrow> bool" for n where
  sb_stepI: "i < n \<Longrightarrow> sb_act (sb_pcs s i) (sb_root s) = Some (pc, r, ev) \<Longrightarrow>
    sb_step n s (note_event i ev (s\<lparr>sb_root := r, sb_pcs := (sb_pcs s)(i := pc)\<rparr>))"

definition sb_start :: "(nat \<Rightarrow> ptr option) \<Rightarrow> (nat \<Rightarrow> sb_pc) \<Rightarrow> sb_system" where
  "sb_start h p = \<lparr>sb_root = ALLOC_QUEUE_ROOT h, sb_pcs = p, effects = [], answers = [], returned = (\<lambda>i. [])\<rparr>"

lemma note_event_simps [simp]:
  "sb_root (note_event i ev s) = sb_root s" "sb_pcs (note_event i ev s) = sb_pcs s"
  by (cases ev; simp)+

section \<open>The invariant\<close>

text \<open>The nodes a thread still has, whether it is between lock and unlock, and the answer it will return.\<close>

fun own_nodes :: "sb_pc \<Rightarrow> nat list" where
  "own_nodes (Putting as) = as"
| "own_nodes (Linking a old as) = a # as"
| "own_nodes (Swapping a old as) = a # as"
| "own_nodes _ = []"

fun in_mutex :: "sb_pc \<Rightarrow> bool" where
  "in_mutex (Testing k) = True"
| "in_mutex (Loading k) = True"
| "in_mutex (Taking p k) = True"
| "in_mutex (Walking p k) = True"
| "in_mutex (Relinking p q k) = True"
| "in_mutex (Popping k) = True"
| "in_mutex (Unlocking x k) = True"
| "in_mutex _ = False"

fun pending :: "sb_pc \<Rightarrow> ptr list" where
  "pending (Unlocking x k) = [x]"
| "pending _ = []"

text \<open>
  The nodes are in three lists: \<open>ins\<close>, \<open>outs\<close>, and \<open>mid\<close>, which a get has cut off and not yet
  reversed. What each point of the code knows of them:
\<close>

fun pc_ok :: "nat list \<Rightarrow> nat list \<Rightarrow> queue_root \<Rightarrow> sb_pc \<Rightarrow> bool" where
  "pc_ok mid outs r (Swapping a old as) = (nexts r a = Some old)"
| "pc_ok mid outs r (Testing k) = (mid = [])"
| "pc_ok mid outs r (Loading k) = (mid = [] \<and> outs = [])"
| "pc_ok mid outs r (Taking h k) = (mid = [] \<and> outs = [] \<and> h \<noteq> NULL)"
| "pc_ok mid outs r (Walking h k) = (mid \<noteq> [] \<and> chain (nexts r) mid h)"
| "pc_ok mid outs r (Relinking h nx k) = (\<exists>a as. mid = a # as \<and> h = Addr a \<and> chain (nexts r) as nx)"
| "pc_ok mid outs r (Popping k) = (mid = [] \<and> outs \<noteq> [])"
| "pc_ok mid outs r (Unlocking x k) = (mid = [])"
| "pc_ok mid outs r Crashed = False"
| "pc_ok mid outs r _ = True"

definition sb_lists :: "nat set \<Rightarrow> nat list \<Rightarrow> nat list \<Rightarrow> nat list \<Rightarrow> queue_root \<Rightarrow> bool" where
  "sb_lists A ins mid outs r \<longleftrightarrow> chain (nexts r) ins (in_queue r) \<and> chain (nexts r) outs (out_queue r)
     \<and> distinct (mid @ outs @ ins) \<and> set (mid @ outs @ ins) \<subseteq> A \<and> dom (nexts r) = A \<and> (root_lock r \<or> mid = [])"

definition sb_own :: "nat \<Rightarrow> nat set \<Rightarrow> nat set \<Rightarrow> (nat \<Rightarrow> sb_pc) \<Rightarrow> bool" where
  "sb_own n A L p \<longleftrightarrow> (\<forall>i<n. distinct (own_nodes (p i)) \<and> set (own_nodes (p i)) \<subseteq> A - L)
     \<and> (\<forall>i<n. \<forall>j<n. i \<noteq> j \<longrightarrow> set (own_nodes (p i)) \<inter> set (own_nodes (p j)) = {})"

definition sb_mutex :: "nat \<Rightarrow> bool \<Rightarrow> (nat \<Rightarrow> sb_pc) \<Rightarrow> bool" where
  "sb_mutex n l p \<longleftrightarrow> (l \<longleftrightarrow> (\<exists>i<n. in_mutex (p i)))
     \<and> (\<forall>i<n. \<forall>j<n. in_mutex (p i) \<longrightarrow> in_mutex (p j) \<longrightarrow> i = j)"

definition sb_hist :: "nat \<Rightarrow> nat set \<Rightarrow> ptr list \<Rightarrow> sb_system \<Rightarrow> bool" where
  "sb_hist n A q s \<longleftrightarrow> node_run A (effects s) [] = Some (map snd (answers s), q)
     \<and> (\<forall>i<n. map snd (filter (\<lambda>x. fst x = i) (answers s)) = returned s i @ pending (sb_pcs s i))"

definition sb_inv :: "nat \<Rightarrow> nat set \<Rightarrow> nat list \<Rightarrow> nat list \<Rightarrow> nat list \<Rightarrow> sb_system \<Rightarrow> bool" where
  "sb_inv n A ins mid outs s \<longleftrightarrow> sb_lists A ins mid outs (sb_root s)
     \<and> sb_own n A (set (mid @ outs @ ins)) (sb_pcs s)
     \<and> sb_mutex n (root_lock (sb_root s)) (sb_pcs s)
     \<and> (\<forall>i<n. pc_ok mid outs (sb_root s) (sb_pcs s i))
     \<and> sb_hist n A (map Addr (rev mid @ outs @ rev ins)) s"

text \<open>A thread outside the mutex only knows its own node.\<close>

lemma pc_ok_outside:
  assumes "\<not> in_mutex pc" and "pc_ok mid outs r pc" and "\<And>a. a \<in> set (own_nodes pc) \<Longrightarrow> nexts r' a = nexts r a"
  shows "pc_ok mid' outs' r' pc"
  using assms by (cases pc) auto

lemma node_run_snoc:
  "node_run A cs q = Some (xs, q') \<Longrightarrow> node_run A (cs @ [c]) q =
    (case c of Put p \<Rightarrow> if p \<in> Addr ` A \<and> p \<notin> set q' then Some (xs, q' @ [p]) else None
     | Take \<Rightarrow> Some (xs @ [case q' of [] \<Rightarrow> NULL | x # _ \<Rightarrow> x], tl q'))"
proof (induction A cs q arbitrary: xs rule: node_run.induct)
  case (1 A q)
  then show ?case by (cases c) auto
next
  case (2 A p cs q)
  then show ?case by (cases c) (auto split: if_splits)
next
  case (3 A cs q)
  then show ?case by (cases c) auto
qed

text \<open>What an event means for the queue's content.\<close>

fun ev_ok :: "nat set \<Rightarrow> sb_event \<Rightarrow> ptr list \<Rightarrow> ptr list \<Rightarrow> sb_pc \<Rightarrow> sb_pc \<Rightarrow> bool" where
  "ev_ok A Silent q q' x y = (q' = q \<and> pending y = pending x)"
| "ev_ok A (DidPut a) q q' x y = (a \<in> A \<and> Addr a \<notin> set q \<and> q' = q @ [Addr a] \<and> pending y = pending x)"
| "ev_ok A (DidGet p) q q' x y =
     (p = (case q of [] \<Rightarrow> NULL | z # _ \<Rightarrow> z) \<and> q' = tl q \<and> pending x = [] \<and> pending y = [p])"
| "ev_ok A (Returned p) q q' x y = (q' = q \<and> pending x = [p] \<and> pending y = [])"

lemma hist_event:
  assumes "sb_hist n A q s" and "i < n" and "ev_ok A ev q q' (sb_pcs s i) pc"
  shows "sb_hist n A q' (note_event i ev (s\<lparr>sb_root := r, sb_pcs := (sb_pcs s)(i := pc)\<rparr>))"
proof -
  have run: "node_run A (effects s) [] = Some (map snd (answers s), q)"
    and ret: "\<And>j. j < n \<Longrightarrow> map snd (filter (\<lambda>x. fst x = j) (answers s)) = returned s j @ pending (sb_pcs s j)"
    using assms(1) by (simp_all add: sb_hist_def)
  show ?thesis
    using assms(2,3) ret
    by (cases ev) (auto simp: sb_hist_def run node_run_snoc [OF run])
qed

lemma own_move:
  assumes own: "sb_own n A L p" and i: "i < n" and "L \<subseteq> A"
    and new: "distinct (own_nodes pc)" "set (own_nodes pc) \<union> L' \<subseteq> set (own_nodes (p i)) \<union> L"
      "set (own_nodes pc) \<inter> L' = {}"
  shows "sb_own n A L' (p(i := pc))"
proof -
  have "set (own_nodes (p i)) \<subseteq> A"
    using own i by (auto simp: sb_own_def)
  then have "set (own_nodes pc) \<subseteq> A - L'"
    using new(2,3) assms(3) by blast
  moreover have "set (own_nodes (p j)) \<inter> (set (own_nodes pc) \<union> L') = {}" if "j < n" "j \<noteq> i" for j
    using own that i new(2) unfolding sb_own_def by blast
  ultimately show ?thesis
    using own new(1) unfolding sb_own_def by (auto simp: fun_upd_def)
qed

lemma mutex_move:
  assumes "sb_mutex n l p" and "i < n"
    and "in_mutex pc = in_mutex (p i) \<Longrightarrow> l' = l"
    and "in_mutex pc \<noteq> in_mutex (p i) \<Longrightarrow> l' = in_mutex pc \<and> l = in_mutex (p i)"
  shows "sb_mutex n l' (p(i := pc))"
proof (cases "in_mutex pc = in_mutex (p i)")
  case True
  have same: "in_mutex ((p(i := pc)) j) = in_mutex (p j)" for j
    using True by simp
  show ?thesis
    using assms(1) unfolding assms(3) [OF True] sb_mutex_def same .
next
  case False
  note l = assms(4) [OF False]
  show ?thesis
  proof (cases "in_mutex pc")
    case True
    then have "\<not> in_mutex (p j)" if "j < n" for j
      using assms(1) l False that unfolding sb_mutex_def by auto
    then show ?thesis
      using True l assms(2) unfolding sb_mutex_def by auto
  next
    case out: False
    then have "j = i" if "j < n" "in_mutex (p j)" for j
      using assms(1,2) False that unfolding sb_mutex_def by blast
    then show ?thesis
      using out l assms(2) unfolding sb_mutex_def by auto
  qed
qed

lemma chain_cong: "(\<And>a. a \<in> set as \<Longrightarrow> h' a = h a) \<Longrightarrow> chain h' as p = chain h as p"
  by (induction as arbitrary: p) auto

lemma pc_ok_other:
  assumes "pc_ok mid outs r pc" and "\<And>a. a \<in> set (own_nodes pc) \<union> set mid \<Longrightarrow> nexts r' a = nexts r a"
  shows "pc_ok mid outs r' pc"
proof -
  have "chain (nexts r') mid p = chain (nexts r) mid p" for p
    using assms(2) by (intro chain_cong) simp
  moreover have "chain (nexts r') as p = chain (nexts r) as p" if "mid = a # as" for a as p
    using assms(2) that by (intro chain_cong) simp
  ultimately show ?thesis
    using assms by (cases pc) auto
qed

text \<open>A step keeps the invariant if it does so for the lists and for what its own thread knows.\<close>

lemma sb_move:
  assumes inv: "sb_inv n A ins mid outs s" and i: "i < n" and x: "sb_pcs s i = x"
    and lists: "sb_lists A ins' mid' outs' r" and ok: "pc_ok mid' outs' r pc"
    and own: "distinct (own_nodes pc)" "set (own_nodes pc) \<inter> set (mid' @ outs' @ ins') = {}"
      "set (own_nodes pc) \<union> set (mid' @ outs' @ ins') \<subseteq> set (own_nodes x) \<union> set (mid @ outs @ ins)"
    and lock: "in_mutex pc = in_mutex x \<Longrightarrow> root_lock r = root_lock (sb_root s)"
      "in_mutex pc \<noteq> in_mutex x \<Longrightarrow> root_lock r = in_mutex pc \<and> root_lock (sb_root s) = in_mutex x"
    and ev: "ev_ok A ev (map Addr (rev mid @ outs @ rev ins)) (map Addr (rev mid' @ outs' @ rev ins')) x pc"
    and frame: "\<And>a. a \<notin> set (own_nodes x) \<union> set mid \<Longrightarrow> nexts r a = nexts (sb_root s) a"
    and put: "\<not> in_mutex x \<Longrightarrow> mid' = mid \<and> outs' = outs \<and>
      (\<forall>a. a \<notin> set (own_nodes x) \<longrightarrow> nexts r a = nexts (sb_root s) a)"
  shows "sb_inv n A ins' mid' outs' (note_event i ev (s\<lparr>sb_root := r, sb_pcs := (sb_pcs s)(i := pc)\<rparr>))"
proof -
  let ?L = "set (mid @ outs @ ins)"
  have L: "sb_lists A ins mid outs (sb_root s)" and O: "sb_own n A ?L (sb_pcs s)"
    and M: "sb_mutex n (root_lock (sb_root s)) (sb_pcs s)"
    and P: "\<And>j. j < n \<Longrightarrow> pc_ok mid outs (sb_root s) (sb_pcs s j)"
    using inv by (simp_all add: sb_inv_def)
  have "pc_ok mid' outs' r (sb_pcs s j)" if j: "j < n" "j \<noteq> i" for j
  proof -
    have apart: "set (own_nodes (sb_pcs s j)) \<inter> (set (own_nodes x) \<union> ?L) = {}"
      using O i j x unfolding sb_own_def by blast
    show ?thesis
    proof (cases "in_mutex x")
      case True
      have out: "\<not> in_mutex (sb_pcs s j)"
        using M i j x True unfolding sb_mutex_def by blast
      have "nexts r a = nexts (sb_root s) a" if "a \<in> set (own_nodes (sb_pcs s j))" for a
        using frame apart that by auto
      then show ?thesis
        by (rule pc_ok_outside [OF out P [OF j(1)]])
    next
      case False
      have "set (own_nodes x) \<inter> set mid = {}"
        using O i x unfolding sb_own_def by auto
      then have "nexts r a = nexts (sb_root s) a" if "a \<in> set (own_nodes (sb_pcs s j)) \<union> set mid" for a
        using put [OF False] apart that by auto
      from pc_ok_other [OF P [OF j(1)] this] show ?thesis
        using put [OF False] by simp
    qed
  qed
  moreover have "sb_own n A (set (mid' @ outs' @ ins')) ((sb_pcs s)(i := pc))"
    using L own x by (intro own_move [OF O i]) (simp_all add: sb_lists_def)
  moreover have "sb_mutex n (root_lock r) ((sb_pcs s)(i := pc))"
    using lock x by (intro mutex_move [OF M i]) simp_all
  moreover have "sb_hist n A (map Addr (rev mid' @ outs' @ rev ins'))
      (note_event i ev (s\<lparr>sb_root := r, sb_pcs := (sb_pcs s)(i := pc)\<rparr>))"
    using inv ev x by (intro hist_event [OF _ i]) (auto simp: sb_inv_def)
  ultimately show ?thesis
    using lists ok by (simp add: sb_inv_def)
qed

section \<open>How far a run can go\<close>

text \<open>
  The steps a thread still makes when \<^verbatim>\<open>root->in_queue\<close> is \<open>q\<close> and nobody else changes it; up to three of
  them are lost to a change. How often it can change \<^verbatim>\<open>root->in_queue\<close> itself.
\<close>

fun work :: "ptr \<Rightarrow> sb_pc \<Rightarrow> nat" where
  "work q (Putting as) = 3 * length as"
| "work q (Linking a old as) = 3 * length as + (if old = q then 2 else 5)"
| "work q (Swapping a old as) = 3 * length as + (if old = q then 1 else 4)"
| "work q (Getting k) = 6 * k"
| "work q (Testing k) = 6 * k + 5"
| "work q (Loading k) = 6 * k + 4"
| "work q (Taking h k) = 6 * k + (if h = q then 3 else 5)"
| "work q (Walking h k) = 6 * k + 3"
| "work q (Relinking h nx k) = 6 * k + 2"
| "work q (Popping k) = 6 * k + 2"
| "work q (Unlocking x k) = 6 * k + 1"
| "work q Crashed = 0"

fun changes :: "sb_pc \<Rightarrow> nat" where
  "changes (Putting as) = length as"
| "changes (Linking a old as) = Suc (length as)"
| "changes (Swapping a old as) = Suc (length as)"
| "changes (Getting k) = k"
| "changes (Testing k) = Suc k"
| "changes (Loading k) = Suc k"
| "changes (Taking h k) = Suc k"
| "changes (Walking h k) = k"
| "changes (Relinking h nx k) = k"
| "changes (Popping k) = k"
| "changes (Unlocking x k) = k"
| "changes Crashed = 0"

definition total_of :: "nat \<Rightarrow> (sb_pc \<Rightarrow> nat) \<Rightarrow> (nat \<Rightarrow> sb_pc) \<Rightarrow> nat" where
  "total_of n f p = (\<Sum>j<n. f (p j))"

definition energy :: "nat \<Rightarrow> nat list \<Rightarrow> nat list \<Rightarrow> sb_system \<Rightarrow> nat" where
  "energy n ins mid s =
     (3 * n + 1) * total_of n changes (sb_pcs s) + total_of n (work (in_queue (sb_root s))) (sb_pcs s)
     + 2 * (total_of n (\<lambda>x. length (own_nodes x)) (sb_pcs s) + length ins + length mid)"

lemma total_upd: "i < n \<Longrightarrow> total_of n f (p(i := y)) + f (p i) = total_of n f p + f y"
  using sum_upd [of i n f y p] by (simp add: total_of_def fun_upd_def)

lemma work_change: "work q' x \<le> work q x + 3"
  by (cases x) auto

lemma total_work_change: "total_of n (work q') p \<le> total_of n (work q) p + 3 * n"
proof -
  have "total_of n (work q') p \<le> (\<Sum>j<n. work q (p j) + 3)"
    unfolding total_of_def by (intro sum_mono work_change)
  then show ?thesis
    by (simp add: total_of_def sum.distrib)
qed

text \<open>A step uses up work, or it changes \<^verbatim>\<open>root->in_queue\<close>.\<close>

definition spends :: "queue_root \<Rightarrow> nat list \<Rightarrow> nat list \<Rightarrow> sb_pc \<Rightarrow> queue_root \<Rightarrow> nat list \<Rightarrow> nat list \<Rightarrow> sb_pc \<Rightarrow> bool" where
  "spends r ins mid x r' ins' mid' y \<longleftrightarrow>
     in_queue r' = in_queue r \<and> changes y \<le> changes x
        \<and> work (in_queue r) y + 2 * (length (own_nodes y) + length ins' + length mid')
          < work (in_queue r) x + 2 * (length (own_nodes x) + length ins + length mid)
     \<or> Suc (changes y) = changes x \<and> work (in_queue r') y \<le> work (in_queue r') x
        \<and> length (own_nodes y) + length ins' + length mid' = length (own_nodes x) + length ins + length mid"

lemma spend_change:
  "a = b + (3 * n + 1) \<Longrightarrow> w' \<le> w + 3 * n \<Longrightarrow> l' = l \<Longrightarrow> b + w' + 2 * l' < a + w + 2 * l" for a b n w w' l l' :: nat
  by simp

lemma energy_less:
  assumes i: "i < n" and x: "sb_pcs s i = x" and p: "sb_pcs s' = (sb_pcs s)(i := y)"
    and less: "spends (sb_root s) ins mid x (sb_root s') ins' mid' y"
  shows "energy n ins' mid' s' < energy n ins mid s"
proof -
  let ?q = "in_queue (sb_root s)" and ?q' = "in_queue (sb_root s')"
  note U = total_upd [OF i, where p = "sb_pcs s" and y = y, folded p, unfolded x]
  note C = U [of changes] and W = U [of "work ?q'"] and N = U [of "\<lambda>x. length (own_nodes x)"]
  from less show ?thesis
    unfolding spends_def
  proof
    assume a: "?q' = ?q \<and> changes y \<le> changes x
      \<and> work ?q y + 2 * (length (own_nodes y) + length ins' + length mid')
        < work ?q x + 2 * (length (own_nodes x) + length ins + length mid)"
    then have "total_of n changes (sb_pcs s') \<le> total_of n changes (sb_pcs s)"
      using C by linarith
    then have "(3 * n + 1) * total_of n changes (sb_pcs s') \<le> (3 * n + 1) * total_of n changes (sb_pcs s)"
      by (rule mult_le_mono2)
    then show ?thesis
      using a W N unfolding energy_def by simp
  next
    assume a: "Suc (changes y) = changes x \<and> work ?q' y \<le> work ?q' x
      \<and> length (own_nodes y) + length ins' + length mid' = length (own_nodes x) + length ins + length mid"
    then have "total_of n changes (sb_pcs s) = Suc (total_of n changes (sb_pcs s'))"
      using C by linarith
    then have "(3 * n + 1) * total_of n changes (sb_pcs s) = (3 * n + 1) * total_of n changes (sb_pcs s') + (3 * n + 1)"
      by simp
    moreover have "total_of n (work ?q') (sb_pcs s') \<le> total_of n (work ?q) (sb_pcs s) + 3 * n"
      using W a total_work_change [of n ?q' "sb_pcs s" ?q] by linarith
    moreover have "total_of n (\<lambda>x. length (own_nodes x)) (sb_pcs s') + length ins' + length mid'
        = total_of n (\<lambda>x. length (own_nodes x)) (sb_pcs s) + length ins + length mid"
      using N a by linarith
    ultimately show ?thesis
      unfolding energy_def by (rule spend_change)
  qed
qed

section \<open>Every step keeps the invariant and uses up energy\<close>

definition step_ok :: "nat set \<Rightarrow> queue_root \<Rightarrow> nat list \<Rightarrow> nat list \<Rightarrow> nat list \<Rightarrow> sb_pc
    \<Rightarrow> queue_root \<Rightarrow> nat list \<Rightarrow> nat list \<Rightarrow> nat list \<Rightarrow> sb_pc \<Rightarrow> sb_event \<Rightarrow> bool" where
  "step_ok A r ins mid outs x r' ins' mid' outs' y ev \<longleftrightarrow> spends r ins mid x r' ins' mid' y \<and>
     sb_lists A ins' mid' outs' r' \<and> pc_ok mid' outs' r' y
     \<and> distinct (own_nodes y) \<and> set (own_nodes y) \<inter> set (mid' @ outs' @ ins') = {}
     \<and> set (own_nodes y) \<union> set (mid' @ outs' @ ins') \<subseteq> set (own_nodes x) \<union> set (mid @ outs @ ins)
     \<and> (if in_mutex y = in_mutex x then root_lock r' = root_lock r else root_lock r' = in_mutex y \<and> root_lock r = in_mutex x)
     \<and> ev_ok A ev (map Addr (rev mid @ outs @ rev ins)) (map Addr (rev mid' @ outs' @ rev ins')) x y
     \<and> (\<forall>a. a \<notin> set (own_nodes x) \<union> set mid \<longrightarrow> nexts r' a = nexts r a)
     \<and> (in_mutex x \<or> mid' = mid \<and> outs' = outs \<and> (\<forall>a. a \<notin> set (own_nodes x) \<longrightarrow> nexts r' a = nexts r a))"

lemma step_ok_inv:
  assumes "sb_inv n A ins mid outs s" and "i < n"
    and ok: "step_ok A (sb_root s) ins mid outs (sb_pcs s i) r ins' mid' outs' pc ev"
  shows "\<exists>ins' mid' outs'. sb_inv n A ins' mid' outs' (note_event i ev (s\<lparr>sb_root := r, sb_pcs := (sb_pcs s)(i := pc)\<rparr>))
    \<and> energy n ins' mid' (note_event i ev (s\<lparr>sb_root := r, sb_pcs := (sb_pcs s)(i := pc)\<rparr>)) < energy n ins mid s"
proof (intro exI conjI)
  note D = ok [unfolded step_ok_def]
  show "sb_inv n A ins' mid' outs' (note_event i ev (s\<lparr>sb_root := r, sb_pcs := (sb_pcs s)(i := pc)\<rparr>))"
    using D by (intro sb_move [OF assms(1,2) refl]) (simp_all split: if_splits)
  show "energy n ins' mid' (note_event i ev (s\<lparr>sb_root := r, sb_pcs := (sb_pcs s)(i := pc)\<rparr>)) < energy n ins mid s"
    using conjunct1 [OF D] by (intro energy_less [OF assms(2) refl]) simp_all
qed

text \<open>What the invariant says about one thread.\<close>

lemma sb_local:
  assumes "sb_inv n A ins mid outs s" and "i < n"
  shows "sb_lists A ins mid outs (sb_root s)" "pc_ok mid outs (sb_root s) (sb_pcs s i)"
    "distinct (own_nodes (sb_pcs s i))" "set (own_nodes (sb_pcs s i)) \<subseteq> A"
    "set (own_nodes (sb_pcs s i)) \<inter> set (mid @ outs @ ins) = {}"
    "in_mutex (sb_pcs s i) \<Longrightarrow> root_lock (sb_root s)"
proof -
  show "sb_lists A ins mid outs (sb_root s)" "pc_ok mid outs (sb_root s) (sb_pcs s i)"
    using assms by (simp_all add: sb_inv_def)
  show "distinct (own_nodes (sb_pcs s i))" "set (own_nodes (sb_pcs s i)) \<subseteq> A"
    "set (own_nodes (sb_pcs s i)) \<inter> set (mid @ outs @ ins) = {}"
    using assms unfolding sb_inv_def sb_own_def by blast+
  show "in_mutex (sb_pcs s i) \<Longrightarrow> root_lock (sb_root s)"
    using assms by (auto simp: sb_inv_def sb_mutex_def)
qed

lemma write_own: "a \<in> dom (nexts r) \<Longrightarrow> write_next (Addr a) p r = Ret (r\<lparr>nexts := (nexts r)(a \<mapsto> p)\<rparr>)"
  by (auto simp: write_next_def)

lemma put_steps_ok:
  assumes L: "sb_lists A ins mid outs r" and P: "pc_ok mid outs r x"
    and own: "distinct (own_nodes x)" "set (own_nodes x) \<subseteq> A" "set (own_nodes x) \<inter> set (mid @ outs @ ins) = {}"
    and put: "own_nodes x \<noteq> []" and act: "sb_act x r = Some (y, r', ev)"
  shows "\<exists>ins'. step_ok A r ins mid outs x r' ins' mid outs y ev"
proof (cases x)
  case (Putting as)
  then obtain a bs where "as = a # bs"
    using put by (cases as) auto
  then have "step_ok A r ins mid outs x r' ins mid outs y ev"
    using Putting L own act by (auto simp: step_ok_def spends_def)
  then show ?thesis ..
next
  case (Linking a old as)
  have "a \<in> dom (nexts r)"
    using Linking own(2) L by (simp add: sb_lists_def)
  then have y: "y = Swapping a old as" "r' = r\<lparr>nexts := (nexts r)(a \<mapsto> old)\<rparr>" "ev = Silent"
    using act by (simp_all add: Linking write_own)
  have "step_ok A r ins mid outs x r' ins mid outs y ev"
    using L own \<open>a \<in> dom (nexts r)\<close> by (auto simp: step_ok_def spends_def Linking y sb_lists_def chain_update)
  then show ?thesis ..
next
  case (Swapping a old as)
  show ?thesis
  proof (cases "in_queue r = old")
    case True
    then have y: "y = Putting as" "r' = r\<lparr>in_queue := Addr a\<rparr>" "ev = DidPut a"
      using act by (simp_all add: Swapping cas_in_def)
    have "step_ok A r ins mid outs x r' (a # ins) mid outs y ev"
      using L own P True by (auto simp: step_ok_def spends_def Swapping y sb_lists_def)
    then show ?thesis ..
  next
    case False
    then have y: "y = Putting (a # as)" "r' = r" "ev = Silent"
      using act by (simp_all add: Swapping cas_in_def)
    have "step_ok A r ins mid outs x r' ins mid outs y ev"
      using L own False by (auto simp: step_ok_def spends_def Swapping y)
    then show ?thesis ..
  qed
qed (use put in simp_all)

lemma chain_shape: "chain h as p \<Longrightarrow> p = NULL \<and> as = [] \<or> (\<exists>a bs q. p = Addr a \<and> as = a # bs \<and> h a = Some q \<and> chain h bs q)"
  by (cases as) auto

lemma get_steps_ok:
  assumes L: "sb_lists A ins mid outs r" and P: "pc_ok mid outs r x" and lock: "in_mutex x \<Longrightarrow> root_lock r"
    and act: "sb_act x r = Some (y, r', ev)" and get: "own_nodes x = []"
  shows "\<exists>ins' mid' outs'. step_ok A r ins mid outs x r' ins' mid' outs' y ev"
proof -
  have ci: "chain (nexts r) ins (in_queue r)" and co: "chain (nexts r) outs (out_queue r)"
    using L by (simp_all add: sb_lists_def)
  show ?thesis
  proof (cases x)
    case (Putting as)
    then show ?thesis
      using get act by simp
  next
    case (Getting k)
    then obtain k' where k: "k = Suc k'" "\<not> root_lock r" and y: "y = Testing k'" "r' = r\<lparr>root_lock := True\<rparr>" "ev = Silent"
      using act by (cases k) (auto split: if_splits)
    then have "step_ok A r ins mid outs x r' ins mid outs y ev"
      using L Getting by (auto simp: step_ok_def spends_def sb_lists_def)
    then show ?thesis by blast
  next
    case (Testing k)
    then have "step_ok A r ins mid outs x r' ins mid outs y ev"
      using L P act chain_shape [OF co] by (auto simp: step_ok_def spends_def)
    then show ?thesis by blast
  next
    case (Loading k)
    then have "step_ok A r ins mid outs x r' ins mid outs y ev"
      using L P act chain_shape [OF co] chain_shape [OF ci] by (auto simp: step_ok_def spends_def split: if_splits)
    then show ?thesis by blast
  next
    case (Taking h k)
    show ?thesis
    proof (cases "in_queue r = h")
      case True
      then have y: "y = Walking h k" "r' = r\<lparr>in_queue := NULL\<rparr>" "ev = Silent"
        using act by (simp_all add: Taking cas_in_def)
      have "step_ok A r ins mid outs x r' [] ins outs y ev"
        using L P True chain_shape [OF ci] lock by (auto simp: step_ok_def spends_def Taking y sb_lists_def)
      then show ?thesis by blast
    next
      case False
      then have y: "y = Loading k" "r' = r" "ev = Silent"
        using act by (simp_all add: Taking cas_in_def)
      have "step_ok A r ins mid outs x r' ins mid outs y ev"
        using L P False by (auto simp: step_ok_def spends_def Taking y)
      then show ?thesis by blast
    qed
  next
    case (Walking h k)
    then obtain a as q where m: "mid = a # as" "h = Addr a" "nexts r a = Some q" "chain (nexts r) as q"
      using P by (auto dest: chain_shape)
    then have y: "y = Relinking h q k" "r' = r" "ev = Silent"
      using act by (simp_all add: Walking read_next_def)
    have "step_ok A r ins mid outs x r' ins mid outs y ev"
      using L P m by (auto simp: step_ok_def spends_def Walking y)
    then show ?thesis by blast
  next
    case (Relinking h nx k)
    then obtain a as where m: "mid = a # as" "h = Addr a" "chain (nexts r) as nx"
      using P by auto
    have a: "a \<in> dom (nexts r)" "a \<notin> set as" "a \<notin> set outs" "a \<notin> set ins"
      using L m by (auto simp: sb_lists_def)
    then have y: "y = (if nx = NULL then Popping k else Walking nx k)"
        "r' = r\<lparr>nexts := (nexts r)(a \<mapsto> out_queue r), out_queue := h\<rparr>" "ev = Silent"
      using act m by (simp_all add: Relinking write_own)
    have "sb_lists A ins as (a # outs) r'"
      using L m a lock by (auto simp: sb_lists_def y chain_update Relinking)
    moreover have "pc_ok as (a # outs) r' y"
      using chain_shape [OF m(3)] m a by (auto simp: y chain_update)
    ultimately have "step_ok A r ins mid outs x r' ins as (a # outs) y ev"
      using m by (auto simp: step_ok_def spends_def Relinking y)
    then show ?thesis by blast
  next
    case (Popping k)
    then obtain a as q where m: "outs = a # as" "out_queue r = Addr a" "nexts r a = Some q" "chain (nexts r) as q"
      using P co by (auto dest: chain_shape)
    then have y: "y = Unlocking (Addr a) k" "r' = r\<lparr>out_queue := q\<rparr>" "ev = DidGet (Addr a)"
      using act by (simp_all add: Popping read_next_def)
    have "step_ok A r ins mid outs x r' ins mid as y ev"
      using L P m by (auto simp: step_ok_def spends_def Popping y sb_lists_def)
    then show ?thesis by blast
  next
    case (Unlocking p k)
    then have "step_ok A r ins mid outs x r' ins mid outs y ev"
      using L P act lock by (auto simp: step_ok_def spends_def sb_lists_def)
    then show ?thesis by blast
  qed (use get act in simp_all)
qed

lemma sb_step_inv:
  assumes "sb_step n s s'" and inv: "sb_inv n A ins mid outs s"
  shows "\<exists>ins' mid' outs'. sb_inv n A ins' mid' outs' s' \<and> energy n ins' mid' s' < energy n ins mid s"
  using assms(1)
proof cases
  case (sb_stepI i pc r ev)
  note S = sb_local [OF inv sb_stepI(2)]
  have "\<exists>ins' mid' outs'. step_ok A (sb_root s) ins mid outs (sb_pcs s i) r ins' mid' outs' pc ev"
    using put_steps_ok [OF S(1-5) _ sb_stepI(3)] get_steps_ok [OF S(1,2,6) sb_stepI(3)] by blast
  then show ?thesis
    unfolding sb_stepI(1) using step_ok_inv [OF inv sb_stepI(2)] by blast
qed

section \<open>Runs\<close>

lemma sb_run_inv:
  "(sb_step n ^^ k) s s' \<Longrightarrow> sb_inv n A ins mid outs s \<Longrightarrow>
   \<exists>ins' mid' outs'. sb_inv n A ins' mid' outs' s' \<and> energy n ins' mid' s' + k \<le> energy n ins mid s"
proof (induction k arbitrary: s')
  case 0
  then show ?case by auto
next
  case (Suc k)
  then obtain t where run: "(sb_step n ^^ k) s t" and st: "sb_step n t s'"
    by auto
  obtain ins1 mid1 outs1 where t: "sb_step n t s'" "sb_inv n A ins1 mid1 outs1 t"
      "energy n ins1 mid1 t + k \<le> energy n ins mid s"
    using Suc.IH [OF run Suc.prems(2)] st by blast
  then obtain ins' mid' outs' where "sb_inv n A ins' mid' outs' s'" "energy n ins' mid' s' < energy n ins1 mid1 t"
    using sb_step_inv by blast
  with t(3) have "sb_inv n A ins' mid' outs' s' \<and> energy n ins' mid' s' + Suc k \<le> energy n ins mid s"
    by linarith
  then show ?case by blast
qed

text \<open>A thread that has called nothing yet, or has returned; one that has returned from its last call.\<close>

fun between_calls :: "sb_pc \<Rightarrow> bool" where
  "between_calls (Putting as) = True"
| "between_calls (Getting k) = True"
| "between_calls _ = False"

fun finished :: "sb_pc \<Rightarrow> bool" where
  "finished (Putting as) = (as = [])"
| "finished (Getting k) = (k = 0)"
| "finished _ = False"

lemma mutex_acts: "in_mutex x \<Longrightarrow> \<exists>y. sb_act x r = Some y"
  by (cases x) (auto split: outcome.splits prod.splits)

lemma free_acts: "\<not> finished x \<Longrightarrow> x \<noteq> Crashed \<Longrightarrow> \<not> root_lock r \<Longrightarrow> \<exists>y. sb_act x r = Some y"
  using mutex_acts [of x r]
  by (cases x) (auto split: outcome.splits prod.splits simp: neq_Nil_conv gr0_conv_Suc)

lemma sb_progress:
  assumes inv: "sb_inv n A ins mid outs s" and i: "i < n" and "\<not> finished (sb_pcs s i)"
  shows "\<exists>s'. sb_step n s s'"
proof -
  have "\<exists>j<n. \<exists>y. sb_act (sb_pcs s j) (sb_root s) = Some y"
  proof (cases "root_lock (sb_root s)")
    case True
    then obtain j where "j < n" "in_mutex (sb_pcs s j)"
      using inv by (auto simp: sb_inv_def sb_mutex_def)
    then show ?thesis
      using mutex_acts by blast
  next
    case False
    moreover have "sb_pcs s i \<noteq> Crashed"
      using sb_local(2) [OF inv i] by auto
    ultimately show ?thesis
      using free_acts assms(2,3) by blast
  qed
  then show ?thesis
    using sb_step.intros by (metis prod_cases3)
qed

text \<open>What is put and taken so far, and what is left of it.\<close>

fun gets_left :: "sb_pc \<Rightarrow> nat" where
  "gets_left (Getting k) = k"
| "gets_left (Testing k) = Suc k"
| "gets_left (Loading k) = Suc k"
| "gets_left (Taking h k) = Suc k"
| "gets_left (Walking h k) = Suc k"
| "gets_left (Relinking h nx k) = Suc k"
| "gets_left (Popping k) = Suc k"
| "gets_left (Unlocking x k) = k"
| "gets_left _ = 0"

definition nodes_left :: "nat \<Rightarrow> (nat \<Rightarrow> sb_pc) \<Rightarrow> nat multiset" where
  "nodes_left n p = (\<Sum>i<n. mset (own_nodes (p i)))"

definition sb_tally :: "nat \<Rightarrow> nat multiset \<Rightarrow> nat \<Rightarrow> sb_system \<Rightarrow> bool" where
  "sb_tally n V D s \<longleftrightarrow> mset (puts (effects s)) + image_mset Addr (nodes_left n (sb_pcs s)) = image_mset Addr V
     \<and> length (answers s) + total_of n gets_left (sb_pcs s) = D"

lemma puts_append: "puts (cs @ ds) = puts cs @ puts ds"
  by (induction cs rule: puts.induct) auto

fun event_puts :: "sb_event \<Rightarrow> nat list" where
  "event_puts (DidPut a) = [a]"
| "event_puts _ = []"

fun event_gets :: "sb_event \<Rightarrow> nat" where
  "event_gets (DidGet x) = 1"
| "event_gets _ = 0"

lemma note_event_puts: "puts (effects (note_event i ev s)) = puts (effects s) @ map Addr (event_puts ev)"
  "length (answers (note_event i ev s)) = length (answers s) + event_gets ev"
  by (cases ev; simp add: puts_append)+

lemma act_tally:
  "sb_act x r = Some (y, r', ev) \<Longrightarrow> y \<noteq> Crashed \<Longrightarrow>
   mset (event_puts ev) + mset (own_nodes y) = mset (own_nodes x) \<and> event_gets ev + gets_left y = gets_left x"
  by (induction x r rule: sb_act.induct) (auto split: outcome.splits prod.splits if_splits)

lemma sb_step_tally:
  assumes "sb_step n s s'" and tally: "sb_tally n V D s" and inv: "sb_inv n A ins mid outs s'"
  shows "sb_tally n V D s'"
  using assms(1)
proof cases
  case (sb_stepI i pc r ev)
  have pcs: "sb_pcs s' = (sb_pcs s)(i := pc)"
    by (simp add: sb_stepI(1))
  then have "pc \<noteq> Crashed"
    using sb_local(2) [OF inv sb_stepI(2)] by auto
  note T = act_tally [OF sb_stepI(3) this]
  have "nodes_left n (sb_pcs s') + mset (own_nodes (sb_pcs s i)) = nodes_left n (sb_pcs s) + mset (own_nodes pc)"
    using sum_upd [OF sb_stepI(2), of "\<lambda>x. mset (own_nodes x)" pc "sb_pcs s"]
    by (simp add: nodes_left_def pcs fun_upd_def)
  then have "nodes_left n (sb_pcs s') + mset (event_puts ev) + mset (own_nodes pc)
      = nodes_left n (sb_pcs s) + mset (own_nodes pc)"
    unfolding conjunct1 [OF T, symmetric] by (simp only: add.assoc)
  then have "nodes_left n (sb_pcs s) = nodes_left n (sb_pcs s') + mset (event_puts ev)"
    by (metis add_right_cancel)
  moreover have "total_of n gets_left (sb_pcs s') + gets_left (sb_pcs s i) = total_of n gets_left (sb_pcs s) + gets_left pc"
    using total_upd [OF sb_stepI(2)] pcs by simp
  ultimately show ?thesis
    using tally conjunct2 [OF T]
    by (simp add: sb_tally_def note_event_puts sb_stepI(1) ac_simps)
qed

lemma sb_run_tally:
  "(sb_step n ^^ k) s s' \<Longrightarrow> sb_inv n A ins mid outs s \<Longrightarrow> sb_tally n V D s \<Longrightarrow> sb_tally n V D s'"
proof (induction k arbitrary: s')
  case (Suc k)
  then obtain t where t: "(sb_step n ^^ k) s t" "sb_step n t s'"
    by auto
  then obtain ins' mid' outs' where "sb_inv n A ins' mid' outs' s'"
    using sb_run_inv [OF Suc.prems(1,2)] by blast
  with t Suc show ?case
    using sb_step_tally by blast
qed simp

section \<open>Starting\<close>

text \<open>All threads are between calls; the nodes they will put are allocated and each is put once.\<close>

definition sb_ready :: "nat \<Rightarrow> (nat \<Rightarrow> ptr option) \<Rightarrow> (nat \<Rightarrow> sb_pc) \<Rightarrow> bool" where
  "sb_ready n h p \<longleftrightarrow> (\<forall>i<n. between_calls (p i))
     \<and> (let as = concat (map (\<lambda>i. own_nodes (p i)) [0..<n]) in distinct as \<and> set as \<subseteq> dom h)"

lemma part_of_concat: "i < n \<Longrightarrow> set (f i) \<subseteq> set (concat (map f [0..<n]))"
  by (auto intro!: bexI [of _ i])

lemma distinct_concat_parts:
  "distinct (concat (map f [0..<n])) \<Longrightarrow>
   (\<forall>i<n. distinct (f i)) \<and> (\<forall>i<n. \<forall>j<n. i \<noteq> j \<longrightarrow> set (f i) \<inter> set (f j) = {})"
proof (induction n)
  case (Suc n)
  then have new: "distinct (f n)" "set (concat (map f [0..<n])) \<inter> set (f n) = {}"
      and old: "distinct (concat (map f [0..<n]))"
    by simp_all
  have "set (f i) \<inter> set (f n) = {}" if "i < n" for i
    using new(2) part_of_concat [OF that, of f] by blast
  with new(1) Suc.IH [OF old] show ?case
    unfolding less_Suc_eq by (metis inf_commute)
qed simp

lemma between_outside: "between_calls x \<Longrightarrow> \<not> in_mutex x" "between_calls x \<Longrightarrow> pc_ok mid outs r x"
  "between_calls x \<Longrightarrow> pending x = []"
  by (cases x; simp)+

lemma sb_start_inv:
  assumes "sb_ready n h p"
  shows "sb_inv n (dom h) [] [] [] (sb_start h p)"
proof -
  have b: "\<And>i. i < n \<Longrightarrow> between_calls (p i)" and d: "distinct (concat (map (\<lambda>i. own_nodes (p i)) [0..<n]))"
    and all: "set (concat (map (\<lambda>i. own_nodes (p i)) [0..<n])) \<subseteq> dom h"
    using assms by (simp_all add: sb_ready_def Let_def)
  have sub: "set (own_nodes (p i)) \<subseteq> dom h" if "i < n" for i
    using part_of_concat [OF that, of "\<lambda>i. own_nodes (p i)"] all by (rule subset_trans)
  have "sb_lists (dom h) [] [] [] (ALLOC_QUEUE_ROOT h)"
    by (simp add: sb_lists_def ALLOC_QUEUE_ROOT_def)
  moreover have "sb_own n (dom h) {} p"
    using distinct_concat_parts [OF d] sub by (simp add: sb_own_def)
  moreover have "sb_mutex n (root_lock (ALLOC_QUEUE_ROOT h)) p"
    using between_outside(1) [OF b] by (auto simp: sb_mutex_def ALLOC_QUEUE_ROOT_def)
  moreover have "sb_hist n (dom h) [] (sb_start h p)"
    using between_outside(3) [OF b] by (simp add: sb_hist_def sb_start_def)
  ultimately show ?thesis
    using between_outside(2) [OF b] by (simp add: sb_inv_def sb_start_def)
qed

lemma between_costs:
  "between_calls x \<Longrightarrow> changes x = length (own_nodes x) + gets_left x"
  "between_calls x \<Longrightarrow> work q x = 3 * length (own_nodes x) + 6 * gets_left x"
  by (cases x; simp)+

lemma total_size: "total_of n (\<lambda>x. length (own_nodes x)) p = size (nodes_left n p)"
  by (induction n) (simp_all add: total_of_def nodes_left_def)

lemma start_energy:
  assumes "\<And>i. i < n \<Longrightarrow> between_calls (p i)"
  shows "energy n [] [] (sb_start h p)
    = (3 * n + 6) * size (nodes_left n p) + (3 * n + 7) * total_of n gets_left p"
proof -
  let ?P = "total_of n (\<lambda>x. length (own_nodes x)) p" and ?G = "total_of n gets_left p"
  have "total_of n changes p = ?P + ?G"
    using between_costs(1) [OF assms] by (simp add: total_of_def sum.distrib)
  moreover have "total_of n (work NULL) p = 3 * ?P + 6 * ?G"
    using between_costs(2) [OF assms, of _ NULL] by (simp add: total_of_def sum.distrib flip: sum_distrib_left)
  ultimately show ?thesis
    unfolding total_size [symmetric] by (simp add: energy_def sb_start_def ALLOC_QUEUE_ROOT_def algebra_simps)
qed

lemma start_tally: "sb_tally n (nodes_left n p) (total_of n gets_left p) (sb_start h p)"
  by (simp add: sb_tally_def sb_start_def)

section \<open>Properties\<close>

lemma sb_quiet:
  assumes "sb_inv n A ins mid outs s" and "\<And>i. i < n \<Longrightarrow> \<not> in_mutex (sb_pcs s i)"
  shows "root_inv (sb_root s)" "node_run A (effects s) [] = Some (map snd (answers s), root_list (sb_root s))"
proof -
  have L: "sb_lists A ins mid outs (sb_root s)" and "\<not> root_lock (sb_root s)"
    and run: "node_run A (effects s) [] = Some (map snd (answers s), map Addr (rev mid @ outs @ rev ins))"
    using assms by (auto simp: sb_inv_def sb_mutex_def sb_hist_def)
  then have "mid = []" "lists_are ins outs (sb_root s)" "\<not> root_lock (sb_root s)"
    by (auto simp: sb_lists_def lists_are_def)
  then show "root_inv (sb_root s)" "node_run A (effects s) [] = Some (map snd (answers s), root_list (sb_root s))"
    using root_invI [of ins outs "sb_root s"] run by simp_all
qed

text \<open>C9: Any number of threads in \<^verbatim>\<open>queue_put\<close> and \<^verbatim>\<open>queue_get\<close>, however their steps interleave, each
  node being put once: no thread reaches a pointer that is null, poisoned or not allocated; at most one is
  between lock and unlock; and the queue is linearizable: the calls take effect one after the other,
  within their own time, in an order in which the answers are those of a single list, first in, first out,
  with \<^verbatim>\<open>NULL\<close> only when that list is empty, and every get returns the answer it has in this order.\<close>

theorem semi_conc_linearizable:
  assumes "sb_ready n h p" and "(sb_step n)\<^sup>*\<^sup>* (sb_start h p) s"
  shows "(\<forall>i<n. sb_pcs s i \<noteq> Crashed)
    \<and> (\<forall>i<n. \<forall>j<n. in_mutex (sb_pcs s i) \<longrightarrow> in_mutex (sb_pcs s j) \<longrightarrow> i = j)
    \<and> (\<exists>q. node_run (dom h) (effects s) [] = Some (map snd (answers s), q)
        \<and> ((\<forall>i<n. \<not> in_mutex (sb_pcs s i)) \<longrightarrow> root_inv (sb_root s) \<and> root_list (sb_root s) = q))
    \<and> (\<forall>i<n. map snd (filter (\<lambda>x. fst x = i) (answers s)) = returned s i @ pending (sb_pcs s i))"
proof -
  obtain k where "(sb_step n ^^ k) (sb_start h p) s"
    using assms(2) rtranclp_power by metis
  then obtain ins mid outs where inv: "sb_inv n (dom h) ins mid outs s"
    using sb_run_inv [OF _ sb_start_inv [OF assms(1)]] by blast
  have H: "sb_hist n (dom h) (map Addr (rev mid @ outs @ rev ins)) s"
    using inv by (simp add: sb_inv_def)
  show ?thesis
  proof (intro conjI allI impI)
    fix i assume "i < n"
    then show "sb_pcs s i \<noteq> Crashed"
      using sb_local(2) [OF inv] by fastforce
  next
    fix i j assume "i < n" "j < n" "in_mutex (sb_pcs s i)" "in_mutex (sb_pcs s j)"
    then show "i = j"
      using inv by (simp add: sb_inv_def sb_mutex_def)
  next
    show "\<exists>q. node_run (dom h) (effects s) [] = Some (map snd (answers s), q)
        \<and> ((\<forall>i<n. \<not> in_mutex (sb_pcs s i)) \<longrightarrow> root_inv (sb_root s) \<and> root_list (sb_root s) = q)"
      using H sb_quiet [OF inv] by (auto simp: sb_hist_def)
  next
    fix i assume "i < n"
    then show "map snd (filter (\<lambda>x. fst x = i) (answers s)) = returned s i @ pending (sb_pcs s i)"
      using H by (simp add: sb_hist_def)
  qed
qed

text \<open>Two threads put two nodes, a third one gets twice.\<close>

definition demo_heap :: "nat \<Rightarrow> ptr option" where
  "demo_heap = [1 \<mapsto> POISON, 2 \<mapsto> POISON]"

definition demo_threads :: "nat \<Rightarrow> sb_pc" where
  "demo_threads i = (if i = 0 then Putting [1] else if i = 1 then Putting [2] else Getting 2)"

lemma demo_sb_ready: "sb_ready 3 demo_heap demo_threads"
  by (auto simp: sb_ready_def demo_threads_def demo_heap_def Let_def eval_nat_numeral)

lemma demo_sb_left: "nodes_left 3 demo_threads = {# 1, 2 #}" "total_of 3 gets_left demo_threads = 2"
  by (simp_all add: nodes_left_def total_of_def demo_threads_def eval_nat_numeral)

lemma demo_first_steps:
  "\<exists>s. (sb_step 3 ^^ 2) (sb_start demo_heap demo_threads) s \<and> sb_pcs s 0 = Linking 1 NULL []
    \<and> sb_pcs s 1 = Linking 2 NULL []"
proof -
  let ?s = "sb_start demo_heap demo_threads"
  let ?t = "?s\<lparr>sb_root := sb_root ?s, sb_pcs := (sb_pcs ?s)(0 := Linking 1 NULL [])\<rparr>"
  have "sb_step 3 ?s ?t"
    using sb_step.intros [of 0 3 ?s "Linking 1 NULL []" "sb_root ?s" Silent]
    by (simp add: sb_start_def demo_threads_def ALLOC_QUEUE_ROOT_def)
  moreover have "sb_step 3 ?t (?t\<lparr>sb_root := sb_root ?t, sb_pcs := (sb_pcs ?t)(1 := Linking 2 NULL [])\<rparr>)"
    using sb_step.intros [of 1 3 ?t "Linking 2 NULL []" "sb_root ?t" Silent]
    by (simp add: sb_start_def demo_threads_def ALLOC_QUEUE_ROOT_def)
  ultimately show ?thesis
    by (auto simp: numeral_2_eq_2 relcompp_apply)
qed

theorem semi_conc_linearizable_witness:
  "\<exists>s. (sb_step 3)\<^sup>*\<^sup>* (sb_start demo_heap demo_threads) s \<and> sb_pcs s 0 = Linking 1 NULL []
    \<and> sb_pcs s 1 = Linking 2 NULL [] \<and> sb_pcs s 2 \<noteq> Crashed"
proof -
  obtain s where s: "(sb_step 3 ^^ 2) (sb_start demo_heap demo_threads) s" "sb_pcs s 0 = Linking 1 NULL []"
      "sb_pcs s 1 = Linking 2 NULL []"
    using demo_first_steps by blast
  then have "(sb_step 3)\<^sup>*\<^sup>* (sb_start demo_heap demo_threads) s"
    using relpowp_imp_rtranclp by metis
  with s semi_conc_linearizable [OF demo_sb_ready this] show ?thesis
    by auto
qed

text \<open>C10: From a new queue every run of the threads ends, although a put retries whenever the list has changed
  under it: there is a bound on the number of steps, linear in the number of calls for a given number of
  threads. A run can only end when every call has returned; then every node has been put and every get
  answered, and the queue is at rest with what is left in it.\<close>

theorem semi_conc_completes:
  assumes "sb_ready n h p" and "(sb_step n ^^ k) (sb_start h p) s"
  shows "k \<le> (3 * n + 6) * size (nodes_left n p) + (3 * n + 7) * total_of n gets_left p
    \<and> ((\<nexists>s'. sb_step n s s') \<longrightarrow>
        (\<forall>i<n. sb_pcs s i = Putting [] \<or> sb_pcs s i = Getting 0)
        \<and> mset (puts (effects s)) = image_mset Addr (nodes_left n p) \<and> length (answers s) = total_of n gets_left p
        \<and> root_inv (sb_root s)
        \<and> node_run (dom h) (effects s) [] = Some (map snd (answers s), root_list (sb_root s)))"
proof -
  note start = sb_start_inv [OF assms(1)]
  obtain ins mid outs where inv: "sb_inv n (dom h) ins mid outs s"
      and E: "energy n ins mid s + k \<le> energy n [] [] (sb_start h p)"
    using sb_run_inv [OF assms(2) start] by blast
  have T: "sb_tally n (nodes_left n p) (total_of n gets_left p) s"
    by (rule sb_run_tally [OF assms(2) start start_tally])
  show ?thesis
  proof (intro conjI impI)
    show "k \<le> (3 * n + 6) * size (nodes_left n p) + (3 * n + 7) * total_of n gets_left p"
      using E start_energy [of n p h] assms(1) by (simp add: sb_ready_def)
  next
    assume "\<nexists>s'. sb_step n s s'"
    then have fin: "finished (sb_pcs s i)" if "i < n" for i
      using sb_progress [OF inv that] by blast
    then have ends: "sb_pcs s i = Putting [] \<or> sb_pcs s i = Getting 0" if "i < n" for i
      using that by (cases "sb_pcs s i") force+
    then show "\<forall>i<n. sb_pcs s i = Putting [] \<or> sb_pcs s i = Getting 0"
      by blast
    have zero: "own_nodes (sb_pcs s i) = []" "gets_left (sb_pcs s i) = 0" "\<not> in_mutex (sb_pcs s i)" if "i < n" for i
      using ends [OF that] by auto
    then have "nodes_left n (sb_pcs s) = {#}" "total_of n gets_left (sb_pcs s) = 0"
      by (simp_all add: nodes_left_def total_of_def)
    then show "mset (puts (effects s)) = image_mset Addr (nodes_left n p)" "length (answers s) = total_of n gets_left p"
      using T by (simp_all add: sb_tally_def)
    show "root_inv (sb_root s)"
      "node_run (dom h) (effects s) [] = Some (map snd (answers s), root_list (sb_root s))"
      using sb_quiet [OF inv zero(3)] by simp_all
  qed
qed

theorem semi_conc_completes_witness:
  "\<exists>s. (sb_step 3 ^^ 2) (sb_start demo_heap demo_threads) s \<and> (\<exists>s'. sb_step 3 s s') \<and> (2::nat) \<le> 62"
proof -
  obtain s where s: "(sb_step 3 ^^ 2) (sb_start demo_heap demo_threads) s" "sb_pcs s 0 = Linking 1 NULL []"
    using demo_first_steps by blast
  from semi_conc_completes [OF demo_sb_ready this(1)] s(2) have "\<exists>s'. sb_step 3 s s'" "(2::nat) \<le> 62"
    by (auto simp: demo_sb_left dest: spec [of _ 0])
  with s(1) show ?thesis
    by blast
qed

end
