(* ===== verification/Atomic_Conc.thy ===== *)
theory Atomic_Conc
  imports Simple_Main
begin

text \<open>
  The atomic task queue of \<^verbatim>\<open>SimpleQueueImpl/queue_atomic.c\<close> under concurrency, and the multi-threaded test
  on it. A ticket and an exchange on a slot are each one step. The queue has no capacity check, and a
  dequeue that finds a slot empty goes on to the next one; what holds is that no task is lost or handed out
  twice as long as the tasks fit the array and the tickets an \<^verbatim>\<open>int\<close>.
\<close>

section \<open>Threads and steps\<close>

text \<open>An enqueue holds its ticket, its task, the local \<^verbatim>\<open>emptyTask\<close> and the tasks it will enqueue later.\<close>

datatype at_pc =
    Offering "task_desc list"
  | Exchanging c_int task_desc task_desc "task_desc list"
  | Retrying task_desc task_desc "task_desc list"
  | Asking nat
  | Emptying c_int nat
  | Failed

datatype at_event = Quiet | Stored task_desc | Fetched task_desc

fun at_act :: "nat \<Rightarrow> at_pc \<Rightarrow> task_queue \<Rightarrow> (at_pc \<times> task_queue \<times> at_event) option" where
  "at_act m (Offering []) q = None"
| "at_act m (Offering (x # xs)) q =
     (let last_no = rear q + 1 in Some (Exchanging last_no x EmptyTask xs, q\<lparr>rear := last_no\<rparr>, Quiet))"
| "at_act m (Retrying x expected xs) q =
     (let last_no = rear q + 1 in Some (Exchanging last_no x expected xs, q\<lparr>rear := last_no\<rparr>, Quiet))"
| "at_act m (Exchanging last_no x expected xs) q =
     (case get_task m last_no q of
        Ret cur \<Rightarrow>
          if cur = expected
          then (case put_task m last_no x q of
                  Ret q1 \<Rightarrow> Some (Offering xs, q1, Stored x) | _ \<Rightarrow> Some (Failed, q, Quiet))
          else Some (Retrying x cur xs, q, Quiet)
      | _ \<Rightarrow> Some (Failed, q, Quiet))"
| "at_act m (Asking 0) q = None"
| "at_act m (Asking (Suc k)) q = (let first = front q + 1 in Some (Emptying first k, q\<lparr>front := first\<rparr>, Quiet))"
| "at_act m (Emptying first k) q =
     (case get_task m first q of
        Ret t \<Rightarrow>
          (case put_task m first EmptyTask q of
             Ret q1 \<Rightarrow> Some (if task_id t = 0 then (Asking (Suc k), q1, Quiet) else (Asking k, q1, Fetched t))
           | _ \<Rightarrow> Some (Failed, q, Quiet))
      | _ \<Rightarrow> Some (Failed, q, Quiet))"
| "at_act m Failed q = None"

record at_system =
  at_q :: task_queue
  at_pcs :: "nat \<Rightarrow> at_pc"
  stored :: "task_desc list"
  fetched :: "task_desc list"

fun log_event :: "at_event \<Rightarrow> at_system \<Rightarrow> at_system" where
  "log_event Quiet s = s"
| "log_event (Stored x) s = s\<lparr>stored := stored s @ [x]\<rparr>"
| "log_event (Fetched x) s = s\<lparr>fetched := fetched s @ [x]\<rparr>"

inductive at_step :: "nat \<Rightarrow> nat \<Rightarrow> at_system \<Rightarrow> at_system \<Rightarrow> bool" for m n where
  at_stepI: "i < n \<Longrightarrow> at_act m (at_pcs s i) (at_q s) = Some (pc, q, ev) \<Longrightarrow>
    at_step m n s (log_event ev (s\<lparr>at_q := q, at_pcs := (at_pcs s)(i := pc)\<rparr>))"

definition at_start :: "task_queue \<Rightarrow> (nat \<Rightarrow> at_pc) \<Rightarrow> at_system" where
  "at_start q p = \<lparr>at_q = q, at_pcs = p, stored = [], fetched = []\<rparr>"

text \<open>
  \<^verbatim>\<open>testatomicqueue_multiplethreads\<close>: thread 0 is the main thread, which enqueues the tasks 1 to \<open>n\<close>, the
  others are the \<open>nt\<close> workers with \<open>n div nt\<close> dequeues each.
\<close>

definition testatomicqueue_multiplethreads :: "nat \<Rightarrow> task_desc list \<Rightarrow> nat \<Rightarrow> nat \<Rightarrow> at_system" where
  "testatomicqueue_multiplethreads m mem n nt =
     at_start (create_queue_atomic m mem) (\<lambda>i. if i = 0 then Offering (map task [1..<Suc n]) else Asking (n div nt))"

lemma log_event_simps [simp]:
  "at_q (log_event ev s) = at_q s" "at_pcs (log_event ev s) = at_pcs s"
  by (cases ev; simp)+

section \<open>The invariant\<close>

fun offers :: "at_pc \<Rightarrow> task_desc list" where
  "offers (Offering xs) = xs"
| "offers (Exchanging last_no x e xs) = x # xs"
| "offers (Retrying x e xs) = x # xs"
| "offers _ = []"

fun tickets_left :: "at_pc \<Rightarrow> nat" where
  "tickets_left (Offering xs) = length xs"
| "tickets_left (Exchanging last_no x e xs) = length xs"
| "tickets_left (Retrying x e xs) = Suc (length xs)"
| "tickets_left _ = 0"

fun asks_left :: "at_pc \<Rightarrow> nat" where
  "asks_left (Asking k) = k"
| "asks_left (Emptying first k) = Suc k"
| "asks_left _ = 0"

fun ticket :: "at_pc \<Rightarrow> nat option" where
  "ticket (Exchanging last_no x e xs) = Some (nat (sint last_no))"
| "ticket _ = None"

abbreviation filled :: "task_desc \<Rightarrow> bool" where
  "filled t \<equiv> task_id t \<noteq> 0"

fun at_ok :: "nat \<Rightarrow> task_queue \<Rightarrow> at_pc \<Rightarrow> bool" where
  "at_ok T q (Offering xs) = list_all filled xs"
| "at_ok T q (Exchanging last_no x e xs) =
     (0 \<le> sint last_no \<and> nat (sint last_no) < T \<and> tasks q ! nat (sint last_no) = EmptyTask \<and> e = EmptyTask
      \<and> filled x \<and> list_all filled xs)"
| "at_ok T q (Asking k) = True"
| "at_ok T q (Emptying first k) = (0 \<le> sint first)"
| "at_ok T q _ = False"

definition sum_of :: "nat \<Rightarrow> (at_pc \<Rightarrow> 'a :: comm_monoid_add) \<Rightarrow> (nat \<Rightarrow> at_pc) \<Rightarrow> 'a" where
  "sum_of n f p = (\<Sum>j<n. f (p j))"

lemma sum_of_upd: "i < n \<Longrightarrow> sum_of n f (p(i := y)) + f (p i) = sum_of n f p + f y"
  using sum_upd [of i n f y p] by (simp add: sum_of_def fun_upd_def)

text \<open>\<open>T\<close> tickets are taken by enqueues, at most \<open>F\<close> by dequeues.\<close>

definition at_queue_ok :: "nat \<Rightarrow> nat \<Rightarrow> nat \<Rightarrow> task_queue \<Rightarrow> bool" where
  "at_queue_ok m T F q \<longleftrightarrow> 0 < m \<and> length (tasks q) = m \<and> sint (rear q) = int T - 1
     \<and> - 1 \<le> sint (front q) \<and> sint (front q) < int F
     \<and> (\<forall>k<m. tasks q ! k = EmptyTask \<or> k < T \<and> filled (tasks q ! k))"

definition at_threads_ok :: "nat \<Rightarrow> nat \<Rightarrow> task_queue \<Rightarrow> (nat \<Rightarrow> at_pc) \<Rightarrow> bool" where
  "at_threads_ok n T q p \<longleftrightarrow> (\<forall>i<n. at_ok T q (p i))
     \<and> (\<forall>i<n. \<forall>j<n. ticket (p i) \<noteq> None \<longrightarrow> ticket (p i) = ticket (p j) \<longrightarrow> i = j)"

definition at_tally :: "nat \<Rightarrow> task_desc multiset \<Rightarrow> nat \<Rightarrow> at_system \<Rightarrow> bool" where
  "at_tally n V D s \<longleftrightarrow> mset (stored s) + sum_of n (\<lambda>x. mset (offers x)) (at_pcs s) = V
     \<and> mset (fetched s) + mset (filter filled (tasks (at_q s))) = mset (stored s)
     \<and> length (fetched s) + sum_of n asks_left (at_pcs s) = D"

definition at_inv :: "nat \<Rightarrow> nat \<Rightarrow> task_desc multiset \<Rightarrow> nat \<Rightarrow> nat \<Rightarrow> nat \<Rightarrow> at_system \<Rightarrow> bool" where
  "at_inv m n V D T F s \<longleftrightarrow> at_queue_ok m T F (at_q s) \<and> at_threads_ok n T (at_q s) (at_pcs s)
     \<and> at_tally n V D s \<and> T + sum_of n tickets_left (at_pcs s) = size V \<and> size V \<le> m \<and> size V \<le> 2147483648"

lemma mset_filter_update:
  "k < length xs \<Longrightarrow> mset (filter P (xs[k := x])) + (if P (xs ! k) then {# xs ! k #} else {#})
    = mset (filter P xs) + (if P x then {# x #} else {#})"
proof -
  assume k: "k < length xs"
  then have "add_mset (xs ! k) (mset (xs[k := x])) = add_mset x (mset xs)"
    by (simp add: mset_update)
  then have "filter_mset P (add_mset (xs ! k) (mset (xs[k := x]))) = filter_mset P (add_mset x (mset xs))"
    by (rule arg_cong)
  then show ?thesis
    by (auto split: if_splits)
qed

fun logged_puts :: "at_event \<Rightarrow> task_desc list" where
  "logged_puts (Stored x) = [x]"
| "logged_puts _ = []"

fun logged_gets :: "at_event \<Rightarrow> task_desc list" where
  "logged_gets (Fetched x) = [x]"
| "logged_gets _ = []"

lemma log_event_lists:
  "stored (log_event ev s) = stored s @ logged_puts ev" "fetched (log_event ev s) = fetched s @ logged_gets ev"
  by (cases ev; simp)+

text \<open>A step keeps the invariant if it does so for the queue and its own thread, and leaves the slots others
  have tickets for empty.\<close>

lemma at_move:
  assumes inv: "at_inv m n V D T F s" and i: "i < n" and x: "at_pcs s i = x"
    and q: "at_queue_ok m T' F' q" and y: "at_ok T' q y" and T: "T \<le> T'" "T' + tickets_left y = T + tickets_left x"
    and slots: "\<And>k. Some k \<noteq> ticket x \<Longrightarrow> tasks (at_q s) ! k = EmptyTask \<Longrightarrow> tasks q ! k = EmptyTask"
    and tk: "ticket y = None \<or> ticket y = ticket x \<or> ticket y = Some T"
    and puts: "mset (logged_puts ev) + mset (offers y) = mset (offers x)"
    and gets: "length (logged_gets ev) + asks_left y = asks_left x"
    and flow: "mset (logged_gets ev) + mset (filter filled (tasks q)) = mset (filter filled (tasks (at_q s))) + mset (logged_puts ev)"
  shows "at_inv m n V D T' F' (log_event ev (s\<lparr>at_q := q, at_pcs := (at_pcs s)(i := y)\<rparr>))"
proof -
  let ?p = "(at_pcs s)(i := y)"
  note U = sum_of_upd [OF i, where p = "at_pcs s" and y = y, unfolded x]
  have O: "\<And>j. j < n \<Longrightarrow> at_ok T (at_q s) (at_pcs s j)"
    and uniq: "\<And>j k. j < n \<Longrightarrow> k < n \<Longrightarrow> ticket (at_pcs s j) \<noteq> None \<Longrightarrow> ticket (at_pcs s j) = ticket (at_pcs s k) \<Longrightarrow> j = k"
    and A: "at_tally n V D s" and N: "T + sum_of n tickets_left (at_pcs s) = size V" "size V \<le> m" "size V \<le> 2147483648"
    using inv by (simp_all add: at_inv_def at_threads_ok_def)
  have below: "t < T" if "j < n" "ticket (at_pcs s j) = Some t" for j t
    using O [OF that(1)] that(2) by (cases "at_pcs s j") auto
  have "at_ok T' q (at_pcs s j)" if j: "j < n" "j \<noteq> i" for j
  proof -
    have "ticket (at_pcs s j) \<noteq> ticket x \<or> ticket (at_pcs s j) = None"
      using uniq [OF j(1) i] j(2) unfolding x by blast
    then show ?thesis
      using O [OF j(1)] slots T(1) by (cases "at_pcs s j") force+
  qed
  moreover have "ticket y \<noteq> ticket (at_pcs s j)" if j: "j < n" "j \<noteq> i" "ticket y \<noteq> None" for j
    using tk uniq [OF i j(1)] below [OF j(1)] j(2,3) x by fastforce
  ultimately have "at_threads_ok n T' q ?p"
    using y uniq by (auto simp: at_threads_ok_def) metis+
  moreover have "T' + sum_of n tickets_left ?p = size V"
    using U [of tickets_left] T(2) N(1) by linarith
  moreover have "at_tally n V D (log_event ev (s\<lparr>at_q := q, at_pcs := ?p\<rparr>))"
  proof -
    let ?O = "sum_of n (\<lambda>x. mset (offers x))"
    have "?O ?p + (mset (logged_puts ev) + mset (offers y)) = ?O (at_pcs s) + mset (offers y)"
      using U [of "\<lambda>x. mset (offers x)"] by (simp only: puts)
    then have "?O (at_pcs s) = mset (logged_puts ev) + ?O ?p"
      by (simp add: ac_simps)
    moreover have "sum_of n asks_left (at_pcs s) = length (logged_gets ev) + sum_of n asks_left ?p"
      using U [of asks_left] gets by linarith
    moreover have "mset (fetched s) + (mset (logged_gets ev) + mset (filter filled (tasks q)))
        = mset (stored s) + mset (logged_puts ev)"
      using A unfolding flow at_tally_def by (simp only: add.assoc [symmetric])
    ultimately show ?thesis
      using A by (simp add: at_tally_def log_event_lists ac_simps)
  qed
  ultimately show ?thesis
    using q N(2,3) by (simp add: at_inv_def)
qed

section \<open>Every step keeps the invariant\<close>

lemma sum_of_member: "i < n \<Longrightarrow> f (p i) \<le> sum_of n f p" for f :: "at_pc \<Rightarrow> nat"
  unfolding sum_of_def by (intro member_le_sum) auto

lemma at_local:
  assumes "at_inv m n V D T F s" and "i < n"
  shows "at_queue_ok m T F (at_q s)" "at_ok T (at_q s) (at_pcs s i)"
    "T + tickets_left (at_pcs s i) \<le> size V" "size V \<le> m" "size V \<le> 2147483648"
  using assms sum_of_member [OF assms(2), of tickets_left "at_pcs s"] by (simp_all add: at_inv_def at_threads_ok_def)

text \<open>Taking a ticket for an enqueue.\<close>

lemma next_ticket_ok:
  assumes Q: "at_queue_ok m T F q" and T: "T < m" "T < 2147483648"
  shows "at_queue_ok m (Suc T) (Suc F) (q\<lparr>rear := rear q + 1\<rparr>)" "sint (rear q + 1) = int T" "tasks q ! T = EmptyTask"
proof -
  have "sint (rear q) < INT_MAX"
    using Q T(2) by (simp add: at_queue_ok_def)
  then show r: "sint (rear q + 1) = int T"
    using Q by (simp add: sint_incr at_queue_ok_def)
  show "at_queue_ok m (Suc T) (Suc F) (q\<lparr>rear := rear q + 1\<rparr>)"
    using Q r by (auto simp: at_queue_ok_def)
  show "tasks q ! T = EmptyTask"
    using Q T(1) by (auto simp: at_queue_ok_def)
qed

text \<open>The exchanges.\<close>

lemma store_ok:
  assumes Q: "at_queue_ok m T F q" and k: "0 \<le> sint i" "nat (sint i) < T" "T \<le> m"
    and e: "tasks q ! nat (sint i) = EmptyTask" and x: "filled x"
  defines "q' \<equiv> q\<lparr>tasks := (tasks q)[nat (sint i) := x]\<rparr>"
  shows "get_task m i q = Ret EmptyTask" "put_task m i x q = Ret q'" "at_queue_ok m T (Suc F) q'"
    "mset (filter filled (tasks q')) = mset (filter filled (tasks q)) + {# x #}"
proof -
  have len: "0 < m" "length (tasks q) = m" "sint i = int (nat (sint i))" "nat (sint i) mod m = nat (sint i)"
    using Q k by (simp_all add: at_queue_ok_def)
  show "get_task m i q = Ret EmptyTask" "put_task m i x q = Ret q'"
    using get_task_ok [OF len(1-3)] put_task_ok [OF len(1-3), of x] len(4) e by (simp_all add: q'_def)
  show "at_queue_ok m T (Suc F) q'"
    using Q k x by (auto simp: at_queue_ok_def q'_def nth_list_update)
  show "mset (filter filled (tasks q')) = mset (filter filled (tasks q)) + {# x #}"
    using mset_filter_update [of "nat (sint i)" "tasks q" filled x] k len(2) e x by (simp add: q'_def)
qed

lemma take_slot_ok:
  assumes Q: "at_queue_ok m T F q" and i: "0 \<le> sint i"
  defines "k \<equiv> nat (sint i) mod m"
  defines "q' \<equiv> q\<lparr>tasks := (tasks q)[k := EmptyTask]\<rparr>" and "t \<equiv> tasks q ! k"
  shows "get_task m i q = Ret t" "put_task m i EmptyTask q = Ret q'" "at_queue_ok m T (Suc F) q'"
    "mset (filter filled (tasks q')) + (if filled t then {# t #} else {#}) = mset (filter filled (tasks q))"
    "k < m" "length (tasks q) = m"
proof -
  have len: "0 < m" "length (tasks q) = m" "sint i = int (nat (sint i))"
    using Q i by (simp_all add: at_queue_ok_def)
  then show "get_task m i q = Ret t" "put_task m i EmptyTask q = Ret q'"
    using get_task_ok [OF len] put_task_ok [OF len, of EmptyTask] by (simp_all add: q'_def t_def k_def)
  show km: "k < m" and "length (tasks q) = m"
    using len by (simp_all add: k_def)
  show "at_queue_ok m T (Suc F) q'"
    using Q km by (auto simp: at_queue_ok_def q'_def nth_list_update)
  show "mset (filter filled (tasks q')) + (if filled t then {# t #} else {#}) = mset (filter filled (tasks q))"
    using mset_filter_update [of k "tasks q" filled EmptyTask] km len(2) by (auto simp: q'_def t_def split: if_splits)
qed

lemma queue_ok_Suc: "at_queue_ok m T F q \<Longrightarrow> at_queue_ok m T (Suc F) q"
  by (auto simp: at_queue_ok_def)

lemma at_step_inv:
  assumes "at_step m n s s'" and inv: "at_inv m n V D T F s" and F: "F < 2147483648"
  shows "\<exists>T'. at_inv m n V D T' (Suc F) s'"
  using assms(1)
proof cases
  case (at_stepI i pc q ev)
  note L = at_local [OF inv at_stepI(2)]
  note act = at_stepI(3)
  have len: "0 < m" "length (tasks (at_q s)) = m"
    using L(1) by (simp_all add: at_queue_ok_def)
  have "\<exists>T'. at_inv m n V D T' (Suc F) (log_event ev (s\<lparr>at_q := q, at_pcs := (at_pcs s)(i := pc)\<rparr>))"
  proof (cases "at_pcs s i")
    case (Offering xs)
    then obtain y ys where xs: "xs = y # ys"
      using act by (cases xs) auto
    then have "T < m" "T < 2147483648"
      using L(3-5) Offering by simp_all
    note K = next_ticket_ok [OF L(1) this]
    show ?thesis
      using act L(2) K Offering xs
      by (intro exI [of _ "Suc T"] at_move [OF inv at_stepI(2) Offering]) (auto simp: Let_def list_all_iff)
  next
    case (Exchanging no x e xs)
    have k: "0 \<le> sint no" "nat (sint no) < T" "T \<le> m" "tasks (at_q s) ! nat (sint no) = EmptyTask" "filled x"
        "e = EmptyTask" "list_all filled xs"
      using L(2-4) Exchanging by simp_all
    note S = store_ok [OF L(1) k(1-5)]
    have y: "pc = Offering xs" "q = at_q s\<lparr>tasks := (tasks (at_q s))[nat (sint no) := x]\<rparr>" "ev = Stored x"
      using act by (simp_all add: Exchanging S(1,2) k(6))
    show ?thesis
      using S(3,4) k
      by (intro exI [of _ T] at_move [OF inv at_stepI(2) Exchanging]) (auto simp: y nth_list_update)
  next
    case (Asking k)
    then obtain k' where k: "k = Suc k'"
      using act by (cases k) auto
    have "sint (front (at_q s)) < INT_MAX"
      using L(1) F by (simp add: at_queue_ok_def)
    then have f: "sint (front (at_q s) + 1) = sint (front (at_q s)) + 1"
      by (rule sint_incr)
    then have "at_queue_ok m T (Suc F) (at_q s\<lparr>front := front (at_q s) + 1\<rparr>)" "0 \<le> sint (front (at_q s) + 1)"
      using L(1) by (auto simp: at_queue_ok_def)
    then show ?thesis
      using act k Asking by (intro exI [of _ T] at_move [OF inv at_stepI(2) Asking]) (auto simp: Let_def)
  next
    case (Emptying first k)
    have "0 \<le> sint first"
      using L(2) Emptying by simp
    note S = take_slot_ok [OF L(1) this]
    let ?t = "tasks (at_q s) ! (nat (sint first) mod m)"
    have y: "pc = (if filled ?t then Asking k else Asking (Suc k))" "ev = (if filled ?t then Fetched ?t else Quiet)"
        "q = at_q s\<lparr>tasks := (tasks (at_q s))[nat (sint first) mod m := EmptyTask]\<rparr>"
      using act by (auto simp: Emptying S(1,2) split: if_splits)
    show ?thesis
    proof (intro exI [of _ T] at_move [OF inv at_stepI(2) Emptying])
      show "at_queue_ok m T (Suc F) q"
        using S(3) y(3) by simp
      show "mset (logged_gets ev) + mset (filter filled (tasks q))
          = mset (filter filled (tasks (at_q s))) + mset (logged_puts ev)"
        using S(4) by (auto simp: y ac_simps)
    qed (use S(5,6) in \<open>auto simp: y nth_list_update\<close>)
  qed (use L(2) in simp_all)
  then show ?thesis
    by (simp add: at_stepI(1))
qed

lemma at_run_inv:
  "(at_step m n ^^ k) s s' \<Longrightarrow> at_inv m n V D T F s \<Longrightarrow> F + k \<le> 2147483648 \<Longrightarrow>
   \<exists>T'. at_inv m n V D T' (F + k) s'"
proof (induction k arbitrary: s')
  case 0
  then show ?case by auto
next
  case (Suc k)
  then obtain t where run: "(at_step m n ^^ k) s t" and st: "at_step m n t s'"
    by auto
  obtain T' where "at_inv m n V D T' (F + k) t"
    using Suc.IH [OF run Suc.prems(2)] Suc.prems(3) by auto
  then show ?case
    using at_step_inv [OF st] Suc.prems(3) by fastforce
qed

section \<open>Properties\<close>

definition all_offers :: "nat \<Rightarrow> (nat \<Rightarrow> at_pc) \<Rightarrow> task_desc multiset" where
  "all_offers n p = (\<Sum>i<n. mset (offers (p i)))"

definition all_asks :: "nat \<Rightarrow> (nat \<Rightarrow> at_pc) \<Rightarrow> nat" where
  "all_asks n p = (\<Sum>i<n. asks_left (p i))"

text \<open>The threads start between calls, with tasks whose identifiers are not 0.\<close>

fun at_ready :: "at_pc \<Rightarrow> bool" where
  "at_ready (Offering xs) = list_all filled xs"
| "at_ready (Asking k) = True"
| "at_ready _ = False"

lemma at_readyD: "at_ready x \<Longrightarrow> at_ok T q x" "at_ready x \<Longrightarrow> ticket x = None" "at_ready x \<Longrightarrow> tickets_left x = length (offers x)"
  by (cases x; simp)+

lemma at_start_inv:
  assumes "0 < m" and "\<And>i. i < n \<Longrightarrow> at_ready (p i)" and "size (all_offers n p) \<le> m" "size (all_offers n p) \<le> 2147483648"
  shows "at_inv m n (all_offers n p) (all_asks n p) 0 0 (at_start (create_queue_atomic m (replicate m EmptyTask)) p)"
proof -
  have "sum_of n tickets_left p = size (all_offers n p)"
    using at_readyD(3) [OF assms(2)] by (simp add: sum_of_def all_offers_def size_multiset_sum)
  then show ?thesis
    using assms(1,3,4) at_readyD(1,2) [OF assms(2)]
    by (simp add: at_inv_def at_queue_ok_def at_threads_ok_def at_tally_def at_start_def create_queue_atomic_def
        all_offers_def all_asks_def sum_of_def)
qed

lemma at_run_facts:
  assumes "0 < m" and "\<And>i. i < n \<Longrightarrow> at_ready (p i)" and "size (all_offers n p) \<le> m" "size (all_offers n p) \<le> 2147483648"
    and "(at_step m n ^^ k) (at_start (create_queue_atomic m (replicate m EmptyTask)) p) s" and "k \<le> 2147483648"
  shows "(\<forall>i<n. at_pcs s i \<noteq> Failed \<and> (\<forall>x e xs. at_pcs s i \<noteq> Retrying x e xs))"
    "mset (stored s) + all_offers n (at_pcs s) = all_offers n p"
    "mset (fetched s) + mset (filter filled (tasks (at_q s))) = mset (stored s)"
    "length (fetched s) + all_asks n (at_pcs s) = all_asks n p"
proof -
  obtain T where inv: "at_inv m n (all_offers n p) (all_asks n p) T k s"
    using at_run_inv [OF assms(5) at_start_inv [OF assms(1-4)]] assms(6) by auto
  show "(\<forall>i<n. at_pcs s i \<noteq> Failed \<and> (\<forall>x e xs. at_pcs s i \<noteq> Retrying x e xs))"
    using at_local(2) [OF inv] by (metis at_ok.simps(5,6))
  show "mset (stored s) + all_offers n (at_pcs s) = all_offers n p"
    "mset (fetched s) + mset (filter filled (tasks (at_q s))) = mset (stored s)"
    "length (fetched s) + all_asks n (at_pcs s) = all_asks n p"
    using inv by (simp_all add: at_inv_def at_tally_def all_offers_def all_asks_def sum_of_def)
qed

text \<open>C11: Any number of threads in \<^verbatim>\<open>enqueue_atomic\<close> and \<^verbatim>\<open>dequeue_atomic\<close> on a new queue with zeroed slots, the
  tasks having non-zero identifiers and no more than the array has slots: however they interleave in their
  first \<open>2 ^ 31\<close> steps, no index leaves the array and every enqueue gets its slot at the first attempt; a task
  that is enqueued is at every moment either in exactly one slot or handed out exactly once, and nothing
  else is handed out.\<close>

theorem atomic_conc_conserves:
  assumes "0 < m" and "\<And>i. i < n \<Longrightarrow> at_ready (p i)" and "size (all_offers n p) \<le> m" "size (all_offers n p) \<le> 2147483648"
    and "(at_step m n ^^ k) (at_start (create_queue_atomic m (replicate m EmptyTask)) p) s" and "k \<le> 2147483648"
  shows "(\<forall>i<n. at_pcs s i \<noteq> Failed \<and> (\<forall>x e xs. at_pcs s i \<noteq> Retrying x e xs))
    \<and> mset (stored s) + all_offers n (at_pcs s) = all_offers n p
    \<and> mset (fetched s) + mset (filter filled (tasks (at_q s))) = mset (stored s)
    \<and> length (fetched s) + all_asks n (at_pcs s) = all_asks n p"
  using at_run_facts [OF assms] by blast

text \<open>A producer and a consumer that is ahead of it.\<close>

definition demo_at :: "nat \<Rightarrow> at_pc" where
  "demo_at i = (if i = 0 then Offering [demo_task 5] else Asking 1)"

definition demo_at_start :: at_system where
  "demo_at_start = at_start (create_queue_atomic 2 (replicate 2 EmptyTask)) demo_at"

lemma demo_at_facts: "i < 2 \<Longrightarrow> at_ready (demo_at i)" "all_offers 2 demo_at = {# demo_task 5 #}" "all_asks 2 demo_at = 1"
proof -
  have "filled (demo_task 5)"
    by (simp add: demo_task_def)
  then show "i < 2 \<Longrightarrow> at_ready (demo_at i)"
    by (simp add: demo_at_def)
  show "all_offers 2 demo_at = {# demo_task 5 #}" "all_asks 2 demo_at = 1"
    by (simp_all add: demo_at_def all_offers_def all_asks_def numeral_2_eq_2)
qed

lemma demo_at_step: "\<exists>s. at_step 2 2 demo_at_start s \<and> at_pcs s 1 = Emptying 0 0"
proof -
  have "at_act 2 (at_pcs demo_at_start 1) (at_q demo_at_start)
      = Some (Emptying 0 0, (at_q demo_at_start)\<lparr>front := 0\<rparr>, Quiet)"
    by (simp add: demo_at_start_def at_start_def demo_at_def create_queue_atomic_def)
  from at_step.intros [of 1 2 2, OF _ this] show ?thesis
    by fastforce
qed

theorem atomic_conc_conserves_witness:
  "\<exists>s. (at_step 2 2 ^^ 1) demo_at_start s \<and> at_pcs s 1 = Emptying 0 0
    \<and> mset (stored s) + all_offers 2 (at_pcs s) = {# demo_task 5 #}"
proof -
  obtain s where s: "(at_step 2 2 ^^ 1) demo_at_start s" "at_pcs s 1 = Emptying 0 0"
    using demo_at_step by auto
  have "mset (stored s) + all_offers 2 (at_pcs s) = all_offers 2 demo_at"
    using atomic_conc_conserves [of 2 2 demo_at 1 s, OF _ demo_at_facts(1)] s(1) demo_at_facts(2)
    by (simp add: demo_at_start_def)
  with s show ?thesis
    unfolding demo_at_facts(2) by blast
qed

text \<open>A thread has no step only when it is done.\<close>

lemma at_stuck: "at_act m x q = None \<Longrightarrow> x = Offering [] \<or> x = Asking 0 \<or> x = Failed"
  by (induction m x q rule: at_act.induct) (auto simp: Let_def split: outcome.splits if_splits)

lemma task_filled: "0 < i \<Longrightarrow> i \<le> 2147483648 \<Longrightarrow> filled (task i)"
proof -
  assume "0 < i" "i \<le> 2147483648"
  then have "unat (of_nat i :: c_int) = i"
    by (simp add: unat_of_nat)
  then show ?thesis
    using \<open>0 < i\<close> by (auto simp: task_def)
qed

abbreviation test_pcs :: "nat \<Rightarrow> nat \<Rightarrow> nat \<Rightarrow> at_pc" where
  "test_pcs n c \<equiv> (\<lambda>i. if i = 0 then Offering (map task [1..<Suc n]) else Asking c)"

lemma test_work:
  "all_offers (Suc nt) (test_pcs n c) = mset (map task [1..<Suc n])" "all_asks (Suc nt) (test_pcs n c) = nt * c"
proof -
  show "all_offers (Suc nt) (test_pcs n c) = mset (map task [1..<Suc n])"
    by (induction nt) (simp_all add: all_offers_def del: upt_Suc)
  show "all_asks (Suc nt) (test_pcs n c) = nt * c"
    by (induction nt) (simp_all add: all_asks_def del: upt_Suc)
qed

text \<open>The multi-threaded test of the atomic queue, with \<open>n\<close> tasks and \<open>nt\<close> workers: whenever it comes to an
  end within its first \<open>2 ^ 31\<close> steps, the workers have got \<open>n div nt\<close> tasks each, all of them different
  ones of the tasks 1 to \<open>n\<close>, and the remaining ones are still in the array; if \<open>nt\<close> divides \<open>n\<close>, every task has
  been dequeued exactly once.\<close>

theorem atomic_threads_test:
  assumes "0 < m" and "n \<le> m" and "n \<le> 2147483648" and "0 < nt"
    and "(at_step m (Suc nt) ^^ k) (testatomicqueue_multiplethreads m (replicate m EmptyTask) n nt) s" and "k \<le> 2147483648"
    and "\<nexists>s'. at_step m (Suc nt) s s'"
  shows "length (fetched s) = nt * (n div nt)
    \<and> mset (fetched s) + mset (filter filled (tasks (at_q s))) = mset (map task [1..<Suc n])
    \<and> (nt dvd n \<longrightarrow> mset (fetched s) = mset (map task [1..<Suc n]))"
proof -
  let ?p = "test_pcs n (n div nt)"
  have ready: "at_ready (?p i)" for i
    using task_filled assms(3) by (auto simp: list_all_iff)
  have size: "size (all_offers (Suc nt) ?p) \<le> m" "size (all_offers (Suc nt) ?p) \<le> 2147483648"
    using assms(2,3) by (simp_all only: test_work size_mset length_map) simp_all
  note F = at_run_facts [OF assms(1) ready size assms(5) [unfolded testatomicqueue_multiplethreads_def] assms(6), unfolded test_work]
  have "at_act m (at_pcs s i) (at_q s) = None" if "i < Suc nt" for i
    using assms(7) at_step.intros [OF that] by (metis option.exhaust prod_cases3)
  then have "at_pcs s i = Offering [] \<or> at_pcs s i = Asking 0" if "i < Suc nt" for i
    using at_stuck F(1) that by blast
  then have "offers (at_pcs s i) = [] \<and> asks_left (at_pcs s i) = 0" if "i < Suc nt" for i
    using that by fastforce
  then have "all_offers (Suc nt) (at_pcs s) = {#}" "all_asks (Suc nt) (at_pcs s) = 0"
    by (simp_all add: all_offers_def all_asks_def)
  then have st: "mset (stored s) = mset (map task [1..<Suc n])" and len: "length (fetched s) = nt * (n div nt)"
    using F(2,4) by simp_all
  moreover have "mset (fetched s) = mset (map task [1..<Suc n])" if "nt dvd n"
  proof -
    have "size (mset (stored s)) = n"
      by (simp only: st size_mset length_map length_upt diff_Suc_1)
    then have "size (mset (fetched s)) + size (mset (filter filled (tasks (at_q s)))) = n"
      unfolding F(3) [symmetric] by (simp only: size_union)
    moreover have "size (mset (fetched s)) = n"
      using len that by simp
    ultimately have "size (mset (filter filled (tasks (at_q s)))) = 0"
      by linarith
    then have "mset (filter filled (tasks (at_q s))) = {#}"
      by (simp only: size_eq_0_iff_empty)
    then show ?thesis
      using F(3) st by simp
  qed
  ultimately show ?thesis
    using F(3) by metis
qed

text \<open>One task and one worker: the producer takes its ticket and stores, then the worker takes its own.\<close>

definition at_exec :: "nat \<Rightarrow> nat \<Rightarrow> at_system \<Rightarrow> at_system" where
  "at_exec m i s =
     (case at_act m (at_pcs s i) (at_q s) of
        Some (pc, q, ev) \<Rightarrow> log_event ev (s\<lparr>at_q := q, at_pcs := (at_pcs s)(i := pc)\<rparr>) | None \<Rightarrow> s)"

lemma at_exec_step: "i < n \<Longrightarrow> at_act m (at_pcs s i) (at_q s) \<noteq> None \<Longrightarrow> at_step m n s (at_exec m i s)"
  by (auto simp: at_exec_def at_step.intros)

definition demo_test :: at_system where
  "demo_test = testatomicqueue_multiplethreads 2 (replicate 2 EmptyTask) 1 1"

definition demo_test_end :: at_system where
  "demo_test_end = fold (at_exec 2) [0, 0, 1, 1] demo_test"

lemma slots_of_two:
  "length (tasks q) = 2 \<Longrightarrow> get_task 2 0 q = Ret (tasks q ! 0)"
  "length (tasks q) = 2 \<Longrightarrow> put_task 2 0 x q = Ret (q\<lparr>tasks := (tasks q)[0 := x]\<rparr>)"
  using get_task_ok [of 2 q 0 0] put_task_ok [of 2 q 0 0 x] by simp_all

lemma demo_test_run:
  "(at_step 2 2 ^^ 4) demo_test demo_test_end \<and> at_pcs demo_test_end 0 = Offering [] \<and> at_pcs demo_test_end 1 = Asking 0"
proof -
  let ?q = "create_queue_atomic 2 (replicate 2 EmptyTask)"
  let ?p0 = "at_pcs demo_test"
  have f: "filled (task 1)"
    by (simp add: task_def)
  let ?s1 = "\<lparr>at_q = ?q\<lparr>rear := 0\<rparr>, at_pcs = ?p0(0 := Exchanging 0 (task 1) EmptyTask []), stored = [], fetched = []\<rparr>"
  let ?s2 = "\<lparr>at_q = ?q\<lparr>rear := 0, tasks := [task 1, EmptyTask]\<rparr>, at_pcs = ?p0(0 := Offering []), stored = [task 1], fetched = []\<rparr>"
  let ?s3 = "\<lparr>at_q = ?q\<lparr>rear := 0, front := 0, tasks := [task 1, EmptyTask]\<rparr>, at_pcs = ?p0(0 := Offering [], 1 := Emptying 0 0),
    stored = [task 1], fetched = []\<rparr>"
  let ?s4 = "\<lparr>at_q = ?q\<lparr>rear := 0, front := 0, tasks := [EmptyTask, EmptyTask]\<rparr>, at_pcs = ?p0(0 := Offering [], 1 := Asking 0),
    stored = [task 1], fetched = [task 1]\<rparr>"
  have p: "at_pcs demo_test 0 = Offering [task 1]" "at_pcs demo_test 1 = Asking 1"
    by (simp_all add: demo_test_def testatomicqueue_multiplethreads_def at_start_def)
  have q: "at_q demo_test = ?q" "stored demo_test = []" "fetched demo_test = []" "rear ?q = - 1" "front ?q = - 1"
      "tasks ?q = [EmptyTask, EmptyTask]"
    by (simp_all add: demo_test_def testatomicqueue_multiplethreads_def at_start_def create_queue_atomic_def eval_nat_numeral)
  have 1: "at_exec 2 0 demo_test = ?s1" "at_act 2 (at_pcs demo_test 0) (at_q demo_test) \<noteq> None"
    using q by (simp_all add: at_exec_def p Let_def)
  have 2: "at_exec 2 0 ?s1 = ?s2" "at_act 2 (at_pcs ?s1 0) (at_q ?s1) \<noteq> None"
    by (simp_all add: at_exec_def slots_of_two q)
  have 3: "at_exec 2 1 ?s2 = ?s3" "at_act 2 (at_pcs ?s2 1) (at_q ?s2) \<noteq> None"
    using p(2) by (simp_all add: at_exec_def Let_def q)
  have 4: "at_exec 2 1 ?s3 = ?s4" "at_act 2 (at_pcs ?s3 1) (at_q ?s3) \<noteq> None"
    using f by (simp_all add: at_exec_def slots_of_two q)
  have fin: "demo_test_end = ?s4"
    by (simp only: demo_test_end_def fold.simps comp_apply id_apply 1(1) 2(1) 3(1) 4(1))
  have "at_step 2 2 demo_test ?s1" "at_step 2 2 ?s1 ?s2" "at_step 2 2 ?s2 ?s3" "at_step 2 2 ?s3 ?s4"
    using at_exec_step [OF _ 1(2), of 2] at_exec_step [OF _ 2(2), of 2] at_exec_step [OF _ 3(2), of 2]
      at_exec_step [OF _ 4(2), of 2] unfolding 1(1) 2(1) 3(1) 4(1) by simp_all
  then have "(at_step 2 2 ^^ 4) demo_test ?s4"
    by (auto simp: eval_nat_numeral relcompp_apply simp del: fun_upd_apply)
  then show ?thesis
    unfolding fin by simp
qed

theorem atomic_threads_test_witness: "mset (fetched demo_test_end) = {# task 1 #}"
proof -
  have "at_act 2 (at_pcs demo_test_end i) (at_q demo_test_end) = None" if "i < 2" for i
    using demo_test_run that by (auto simp: less_2_cases_iff)
  then have "\<nexists>s'. at_step 2 2 demo_test_end s'"
    by (auto elim!: at_step.cases)
  then show ?thesis
    using atomic_threads_test [of 2 1 1 4 demo_test_end] demo_test_run
    by (simp add: demo_test_def numeral_2_eq_2)
qed

section \<open>A consumer alone\<close>

definition no_tasks :: "nat \<Rightarrow> task_queue \<Rightarrow> bool" where
  "no_tasks m q \<longleftrightarrow> 1 < m \<and> m \<le> 2147483648 \<and> length (tasks q) = m \<and> (\<forall>k<m. tasks q ! k = EmptyTask)"

lemma pass_slot:
  assumes q: "no_tasks m q" and k: "sint (front q + 1) = int k"
  shows "dequeue_atomic_loop m q = dequeue_atomic_loop m (q\<lparr>front := front q + 1\<rparr>)"
proof -
  let ?q = "q\<lparr>front := front q + 1\<rparr>"
  have m: "0 < m" "length (tasks ?q) = m" "tasks q ! (k mod m) = EmptyTask"
    using q by (simp_all add: no_tasks_def)
  then have "put_task m (front q + 1) EmptyTask ?q = Ret ?q"
    using put_task_ok [OF m(1,2) k, of EmptyTask] list_update_id [of "tasks q" "k mod m"] by simp
  then show ?thesis
    using get_task_ok [OF m(1,2) k] m(3) by (subst dequeue_atomic_loop.simps) (simp add: Let_def)
qed

text \<open>The counter runs up to the largest \<^verbatim>\<open>int\<close>.\<close>

lemma run_up:
  assumes "no_tasks m q" and "- 1 \<le> sint (front q)" and "sint (front q) + int j = INT_MAX"
  shows "\<exists>f. sint f = INT_MAX \<and> dequeue_atomic_loop m q = dequeue_atomic_loop m (q\<lparr>front := f\<rparr>)"
  using assms
proof (induction j arbitrary: q)
  case 0
  then show ?case
    by (intro exI [of _ "front q"]) simp
next
  case (Suc j)
  then have f: "sint (front q + 1) = sint (front q) + 1"
    by (intro sint_incr) simp
  then have "sint (front q + 1) = int (nat (sint (front q) + 1))"
    using Suc.prems(2) by simp
  note pass = pass_slot [OF Suc.prems(1) this]
  obtain g where "sint g = INT_MAX"
      "dequeue_atomic_loop m (q\<lparr>front := front q + 1\<rparr>) = dequeue_atomic_loop m (q\<lparr>front := front q + 1, front := g\<rparr>)"
    using Suc.IH [of "q\<lparr>front := front q + 1\<rparr>"] Suc.prems f by (auto simp: no_tasks_def)
  then show ?case
    unfolding pass by auto
qed

text \<open>Behind it the remainder is negative, at the latest one ticket later.\<close>

lemma negative_slot:
  assumes "sint i < 0" and "0 < m" and "(- sint i) mod int m \<noteq> 0"
  shows "get_task m i q = Fault BadIndex"
proof -
  have "0 \<le> (- sint i) mod int m"
    using assms(2) by simp
  then have "0 < (- sint i) mod int m"
    using assms(3) by linarith
  then have "sint i smod int m < 0"
    using assms(1,2) by (simp add: smod_neg)
  then show ?thesis
    using assms(2) by (simp add: get_task_def c_mod_def arr_read_def)
qed

lemma run_over:
  assumes q: "no_tasks m q" and f: "sint (front q) = INT_MAX"
  shows "dequeue_atomic_loop m q = Some (Fault BadIndex)"
proof (cases "2147483648 mod int m = 0")
  case False
  have "get_task m (front q + 1) (q\<lparr>front := front q + 1\<rparr>) = Fault BadIndex"
    using q False sint_wrap [OF f] by (intro negative_slot) (simp_all add: no_tasks_def)
  then show ?thesis
    by (subst dequeue_atomic_loop.simps) (simp add: Let_def)
next
  case True
  let ?q = "q\<lparr>front := front q + 1\<rparr>"
  have w: "sint (front q + 1) = INT_MIN"
    using f by (rule sint_wrap)
  have m: "0 < m" "length (tasks ?q) = m" "tasks q ! 0 = EmptyTask" "1 < m"
    using q by (simp_all add: no_tasks_def)
  have z: "c_mod (sint (front q + 1)) (int m) = Ret (int 0)"
    using True m(1) by (simp add: c_mod_def w smod_nonneg)
  have "get_task m (front q + 1) ?q = Ret EmptyTask"
    using m arr_read_ok [of 0 "tasks q"] by (simp add: get_task_def z del: of_nat_0)
  moreover have "put_task m (front q + 1) EmptyTask ?q = Ret ?q"
    using m arr_write_ok [of 0 "tasks q" EmptyTask] list_update_id [of "tasks q" 0]
    by (simp add: put_task_def z del: of_nat_0)
  ultimately have one: "dequeue_atomic_loop m q = dequeue_atomic_loop m ?q"
    by (subst dequeue_atomic_loop.simps) (simp add: Let_def)
  have s: "sint (front ?q + 1) = - 2147483647"
    using sint_incr [of "front q + 1"] w by simp
  have "2147483647 mod int m = int m - 1"
  proof -
    have "2147483647 mod int m = (2147483648 - 1) mod int m"
      by simp
    also have "\<dots> = (2147483648 mod int m - 1) mod int m"
      by (rule mod_diff_left_eq [symmetric])
    also have "\<dots> = (- 1) mod int m"
      by (simp only: True diff_0)
    also have "\<dots> = int m - 1"
      using m(4) by (simp add: zmod_minus1)
    finally show ?thesis .
  qed
  then have "get_task m (front ?q + 1) (?q\<lparr>front := front ?q + 1\<rparr>) = Fault BadIndex"
    using m s by (intro negative_slot) simp_all
  then have "dequeue_atomic_loop m ?q = Some (Fault BadIndex)"
    by (subst dequeue_atomic_loop.simps) (simp add: Let_def)
  then show ?thesis
    by (simp only: one)
qed

text \<open>\<^verbatim>\<open>dequeue_atomic\<close> on a queue that stays empty neither waits nor returns: it takes ticket after
  ticket until \<^verbatim>\<open>front\<close> has wrapped around to a negative number, and then accesses the array in front of its
  beginning, whatever the size of the array.\<close>

theorem atomic_dequeue_runs_out:
  assumes "no_tasks m q" and "- 1 \<le> sint (front q)"
  shows "dequeue_atomic m q = Fault BadIndex"
proof -
  have "sint (front q) + int (nat (INT_MAX - sint (front q))) = INT_MAX"
    using sint_range [of "front q"] by simp
  then obtain f where "sint f = INT_MAX" "dequeue_atomic_loop m q = dequeue_atomic_loop m (q\<lparr>front := f\<rparr>)"
    using run_up [OF assms] by blast
  then show ?thesis
    using run_over [of m "q\<lparr>front := f\<rparr>"] assms(1) by (simp add: dequeue_atomic_def no_tasks_def)
qed

theorem atomic_dequeue_runs_out_witness:
  "dequeue_atomic QUEUE_SIZE_si (create_queue_atomic QUEUE_SIZE_si (replicate QUEUE_SIZE_si EmptyTask)) = Fault BadIndex"
  by (rule atomic_dequeue_runs_out) (simp_all add: no_tasks_def create_queue_atomic_def QUEUE_SIZE_si_def)

end
