(* ===== verification/Lock_Free_Conc.thy ===== *)
theory Lock_Free_Conc
  imports Lock_Free
begin

text \<open>
  The queue of \<^verbatim>\<open>SimpleQueueImpl/lockfreequeue.c\<close> under any number of threads, on the heap of \<open>Lock_Free\<close>. \<^verbatim>\<open>qpush\<close>
  and \<^verbatim>\<open>qpop\<close> are written as code whose constructors are the single accesses to shared memory: a load through a
  pointer, a compare-and-swap, an atomic addition, a \<^verbatim>\<open>malloc\<close> or a \<^verbatim>\<open>free\<close>, each followed by the rest of the
  code as a function of what it has read. A step of the system is one access of one thread. Where C does not fix
  the order in which the arguments of a compare-and-swap are evaluated, the address comes first, then the
  expected value. A thread alone computes what the sequential model does; two threads in the queue suffice to make
  one of them follow \<^verbatim>\<open>NULL\<close> or free a block twice. \<^verbatim>\<open>malloc\<close> hands out addresses that were never used before, as one allocator may; what is
  shown of interleavings is that some exist, and in those of \<open>lockfree_races\<close> no block is allocated after one has been freed.
\<close>

section \<open>The code of the operations\<close>

text \<open>The loops are tags that unfold into their body: the \<^verbatim>\<open>while (1)\<close> of a push, that of a pop, and the two
  loops that repeat a compare-and-swap until it succeeds. A local \<^verbatim>\<open>Pointer*\<close> loaded from the queue is never \<^verbatim>\<open>NULL\<close>.\<close>

datatype lf_code =
    Return "nat option"
  | LoopPush nat
  | LoopPop "nat option"
  | SetTailNptr nat lf_code
  | SetHead lf_code
  | LoadHead "nat \<Rightarrow> lf_code"
  | LoadTail "nat \<Rightarrow> lf_code"
  | LoadCount nat "c_int \<Rightarrow> lf_code"
  | LoadNptr nat "nat option \<Rightarrow> lf_code"
  | LoadNext "nat option" "nat option \<Rightarrow> lf_code"
  | LoadValue "nat option" "nat option \<Rightarrow> lf_code"
  | AddCount nat lf_code
  | CasHead nat nat "bool \<Rightarrow> lf_code"
  | CasTail nat "nat option" "bool \<Rightarrow> lf_code"
  | CasCount nat c_int c_int "bool \<Rightarrow> lf_code"
  | CasNptr nat "nat option" "nat option" "bool \<Rightarrow> lf_code"
  | CasNext "nat option" "nat option" "nat option" "bool \<Rightarrow> lf_code"
  | NewNode lf_node "nat \<Rightarrow> lf_code"
  | NewPointer lf_pointer "nat \<Rightarrow> lf_code"
  | FreeNode "nat option" lf_code
  | FreePointer nat lf_code

definition push_body :: "nat \<Rightarrow> lf_code" where
  "push_body p =
     LoadHead (\<lambda>head. LoadTail (\<lambda>tail. LoadNptr tail (\<lambda>a. LoadNext a (\<lambda>next. LoadTail (\<lambda>tail'.
     if tail \<noteq> tail' then LoopPush p
     else case next of
       None \<Rightarrow> AddCount p (LoadNptr tail (\<lambda>a. CasNext a next (Some p) (\<lambda>linked.
         if linked then CasTail tail (Some p) (\<lambda>swung. if swung then Return None else LoopPush p)
         else LoopPush p)))
     | Some x \<Rightarrow> AddCount x (LoadNptr x (\<lambda>a. CasTail tail a (\<lambda>_. LoopPush p))))))))"

definition push_code :: "nat option \<Rightarrow> lf_code" where
  "push_code value =
     NewNode \<lparr>val = value, next_ptr = None\<rparr> (\<lambda>node. NewPointer \<lparr>pcount = 1, nptr = Some node\<rparr> LoopPush)"

text \<open>The end of a pop that has found a value behind \<open>x\<close>.\<close>

definition pop_take :: "nat \<Rightarrow> nat option \<Rightarrow> lf_code" where
  "pop_take x tmp =
     LoadNptr x (\<lambda>a. LoadValue a (\<lambda>v. LoadNptr x (\<lambda>a. LoadNext a (\<lambda>n.
     if n = None
     then LoadHead (\<lambda>h. LoadNptr h (\<lambda>a. FreeNode a (
          LoadHead (\<lambda>h. LoadHead (\<lambda>h'. LoadNptr h' (\<lambda>e. LoadNptr x (\<lambda>b. CasNptr h e b (\<lambda>moved.
          if moved then LoadTail (\<lambda>t. LoadHead (\<lambda>h. CasTail t (Some h) (\<lambda>_. FreePointer x (Return v))))
          else Return v))))))))
     else AddCount x (LoadHead (\<lambda>h. LoadNptr h (\<lambda>a. LoadNptr x (\<lambda>b. LoadNext b (\<lambda>n. CasNext a tmp n (\<lambda>unlinked.
          if unlinked then LoadNptr x (\<lambda>a. FreeNode a (FreePointer x (Return v)))
          else LoopPop (Some x)))))))))))"

definition pop_next :: "nat \<Rightarrow> nat \<Rightarrow> lf_code" where
  "pop_next head tail =
     LoadHead (\<lambda>h. LoadNptr h (\<lambda>a. LoadNext a (\<lambda>tmp.
     LoadHead (\<lambda>h. LoadNptr h (\<lambda>a. LoadNext a (\<lambda>next. LoadCount head (\<lambda>_.
     case next of
       None \<Rightarrow> Return None
     | Some x \<Rightarrow> LoadHead (\<lambda>h.
         if head \<noteq> h then LoopPop next
         else LoadNptr head (\<lambda>a. LoadNptr tail (\<lambda>b.
           if a = b then AddCount x (CasTail tail (Some x) (\<lambda>_. LoopPop next)) else pop_take x tmp))))))))))"

definition pop_body :: "nat option \<Rightarrow> lf_code" where
  "pop_body prev =
     LoadHead (\<lambda>head. LoadTail (\<lambda>tail.
     if head = tail then Return None
     else LoadHead (\<lambda>h. LoadCount h (\<lambda>c.
       if c = 0
       then LoadHead (\<lambda>h. CasNptr h prev prev (\<lambda>same.
         if same then Return None
         else NewNode \<lparr>val = None, next_ptr = None\<rparr> (\<lambda>node.
           LoadTail (\<lambda>t. LoadTail (\<lambda>t'. LoadCount t' (\<lambda>c. CasCount t c 0 (\<lambda>_.
           SetTailNptr node (SetHead (pop_next head tail)))))))))
       else pop_next head tail))))"

section \<open>One access\<close>

text \<open>An access reads or writes the bytes at its offset, whatever the block there was allocated for. Both kinds have 16 bytes: a node its
  \<^verbatim>\<open>value\<close> at 0 and its \<^verbatim>\<open>next\<close> at 8, a pointer its \<^verbatim>\<open>count\<close> in the four bytes at 0, four unused ones, and its \<^verbatim>\<open>nptr\<close> at 8. So the
  \<^verbatim>\<open>nptr\<close> of a node is its \<^verbatim>\<open>next\<close>, and its \<^verbatim>\<open>count\<close> the lower half of its \<^verbatim>\<open>value\<close>; the \<^verbatim>\<open>value\<close> of a pointer has the unused bytes in it.\<close>

definition word_of :: "nat option \<Rightarrow> nat" where
  "word_of v = (case v of None \<Rightarrow> 0 | Some n \<Rightarrow> n)"

definition with_count :: "nat option \<Rightarrow> c_int \<Rightarrow> nat option" where
  "with_count v c = (let w = word_of v div 2 ^ 32 * 2 ^ 32 + unat c in if w = 0 then None else Some w)"

definition load_count :: "nat \<Rightarrow> lf_queue \<Rightarrow> c_int outcome" where
  "load_count a q = (case pointers q a of Some x \<Rightarrow> Ret (pcount x)
     | None \<Rightarrow> (case nodes q a of Some x \<Rightarrow> Ret (of_nat (word_of (val x))) | None \<Rightarrow> Fault UseAfterFree))"

definition store_count :: "nat \<Rightarrow> c_int \<Rightarrow> lf_queue \<Rightarrow> lf_queue outcome" where
  "store_count a c q = (case pointers q a of Some x \<Rightarrow> Ret (q\<lparr>pointers := (pointers q)(a \<mapsto> x\<lparr>pcount := c\<rparr>)\<rparr>)
     | None \<Rightarrow> (case nodes q a of Some x \<Rightarrow> Ret (q\<lparr>nodes := (nodes q)(a \<mapsto> x\<lparr>val := with_count (val x) c\<rparr>)\<rparr>)
       | None \<Rightarrow> Fault UseAfterFree))"

definition load_nptr :: "nat \<Rightarrow> lf_queue \<Rightarrow> nat option outcome" where
  "load_nptr a q = (case pointers q a of Some x \<Rightarrow> Ret (nptr x)
     | None \<Rightarrow> (case nodes q a of Some x \<Rightarrow> Ret (next_ptr x) | None \<Rightarrow> Fault UseAfterFree))"

definition store_nptr :: "nat \<Rightarrow> nat option \<Rightarrow> lf_queue \<Rightarrow> lf_queue outcome" where
  "store_nptr a b q = (case pointers q a of Some x \<Rightarrow> Ret (q\<lparr>pointers := (pointers q)(a \<mapsto> x\<lparr>nptr := b\<rparr>)\<rparr>)
     | None \<Rightarrow> (case nodes q a of Some x \<Rightarrow> Ret (q\<lparr>nodes := (nodes q)(a \<mapsto> x\<lparr>next_ptr := b\<rparr>)\<rparr>) | None \<Rightarrow> Fault UseAfterFree))"

definition load_next :: "nat \<Rightarrow> lf_queue \<Rightarrow> nat option outcome" where
  "load_next a q = (case nodes q a of Some x \<Rightarrow> Ret (next_ptr x)
     | None \<Rightarrow> (case pointers q a of Some x \<Rightarrow> Ret (nptr x) | None \<Rightarrow> Fault UseAfterFree))"

definition store_next :: "nat \<Rightarrow> nat option \<Rightarrow> lf_queue \<Rightarrow> lf_queue outcome" where
  "store_next a b q = (case nodes q a of Some x \<Rightarrow> Ret (q\<lparr>nodes := (nodes q)(a \<mapsto> x\<lparr>next_ptr := b\<rparr>)\<rparr>)
     | None \<Rightarrow> (case pointers q a of Some x \<Rightarrow> Ret (q\<lparr>pointers := (pointers q)(a \<mapsto> x\<lparr>nptr := b\<rparr>)\<rparr>) | None \<Rightarrow> Fault UseAfterFree))"

definition load_value :: "nat \<Rightarrow> lf_queue \<Rightarrow> nat option outcome" where
  "load_value a q = (case nodes q a of Some x \<Rightarrow> Ret (val x)
     | None \<Rightarrow> (case pointers q a of Some _ \<Rightarrow> Fault Uninitialised | None \<Rightarrow> Fault UseAfterFree))"

text \<open>\<^verbatim>\<open>free\<close> does not ask what the block was for either.\<close>

definition free_as_node :: "nat \<Rightarrow> lf_queue \<Rightarrow> lf_queue outcome" where
  "free_as_node a q = (case nodes q a of Some _ \<Rightarrow> Ret (q\<lparr>nodes := (nodes q)(a := None)\<rparr>)
     | None \<Rightarrow> (case pointers q a of Some _ \<Rightarrow> Ret (q\<lparr>pointers := (pointers q)(a := None)\<rparr>) | None \<Rightarrow> Fault DoubleFree))"

definition free_as_pointer :: "nat \<Rightarrow> lf_queue \<Rightarrow> lf_queue outcome" where
  "free_as_pointer a q = (case pointers q a of Some _ \<Rightarrow> Ret (q\<lparr>pointers := (pointers q)(a := None)\<rparr>)
     | None \<Rightarrow> (case nodes q a of Some _ \<Rightarrow> Ret (q\<lparr>nodes := (nodes q)(a := None)\<rparr>) | None \<Rightarrow> Fault DoubleFree))"

definition deref :: "nat option \<Rightarrow> (nat \<Rightarrow> 'a outcome) \<Rightarrow> 'a outcome" where
  "deref a f = (case a of None \<Rightarrow> Fault NullPointer | Some b \<Rightarrow> f b)"

definition cas :: "'a outcome \<Rightarrow> 'a \<Rightarrow> lf_queue outcome \<Rightarrow> (bool \<Rightarrow> lf_code) \<Rightarrow> lf_queue \<Rightarrow> (lf_code \<times> lf_queue) outcome" where
  "cas cur e new f q = bindO cur (\<lambda>x. if x = e then bindO new (\<lambda>q1. Ret (f True, q1)) else Ret (f False, q))"

fun exec_code :: "lf_code \<Rightarrow> lf_queue \<Rightarrow> (lf_code \<times> lf_queue) outcome" where
  "exec_code (Return v) q = Ret (Return v, q)"
| "exec_code (LoopPush p) q = Ret (push_body p, q)"
| "exec_code (LoopPop prev) q = Ret (pop_body prev, q)"
| "exec_code (SetTailNptr a c) q = Ret (LoadTail (\<lambda>t. LoadTail (\<lambda>t'. LoadNptr t' (\<lambda>e. CasNptr t e (Some a) (\<lambda>ok.
     if ok then c else SetTailNptr a c)))), q)"
| "exec_code (SetHead c) q = Ret (LoadHead (\<lambda>e. LoadTail (\<lambda>t. CasHead e t (\<lambda>ok. if ok then c else SetHead c))), q)"
| "exec_code (LoadHead f) q = Ret (f (qhead q), q)"
| "exec_code (LoadTail f) q = Ret (f (qtail q), q)"
| "exec_code (LoadCount a f) q = bindO (load_count a q) (\<lambda>x. Ret (f x, q))"
| "exec_code (LoadNptr a f) q = bindO (load_nptr a q) (\<lambda>x. Ret (f x, q))"
| "exec_code (LoadNext a f) q = deref a (\<lambda>b. bindO (load_next b q) (\<lambda>x. Ret (f x, q)))"
| "exec_code (LoadValue a f) q = deref a (\<lambda>b. bindO (load_value b q) (\<lambda>x. Ret (f x, q)))"
| "exec_code (AddCount a c) q = bindO (load_count a q) (\<lambda>x. bindO (store_count a (x + 1) q) (\<lambda>q1. Ret (c, q1)))"
| "exec_code (CasHead e n f) q = cas (Ret (qhead q)) e (Ret (q\<lparr>qhead := n\<rparr>)) f q"
| "exec_code (CasTail e n f) q = deref n (\<lambda>m. cas (Ret (qtail q)) e (Ret (q\<lparr>qtail := m\<rparr>)) f q)"
| "exec_code (CasCount a e n f) q = cas (load_count a q) e (store_count a n q) f q"
| "exec_code (CasNptr a e n f) q = cas (load_nptr a q) e (store_nptr a n q) f q"
| "exec_code (CasNext a e n f) q = deref a (\<lambda>b. cas (load_next b q) e (store_next b n q) f q)"
| "exec_code (NewNode x f) q = (let (a, q1) = new_node x q in Ret (f a, q1))"
| "exec_code (NewPointer x f) q = (let (a, q1) = new_pointer x q in Ret (f a, q1))"
| "exec_code (FreeNode a c) q = (case a of None \<Rightarrow> Ret (c, q) | Some b \<Rightarrow> bindO (free_as_node b q) (\<lambda>q1. Ret (c, q1)))"
| "exec_code (FreePointer a c) q = bindO (free_as_pointer a q) (\<lambda>q1. Ret (c, q1))"

section \<open>Threads and steps\<close>

text \<open>A thread has the values it still has to push, or the number of pops it still has to make.\<close>

datatype lf_pc =
    Pushing "nat option list"
  | InPush lf_code "nat option list"
  | Pops nat
  | InPop lf_code nat
  | Broken fault

definition after_access :: "(lf_code \<Rightarrow> lf_pc) \<Rightarrow> (lf_code \<times> lf_queue) outcome \<Rightarrow> lf_queue \<Rightarrow> lf_pc \<times> lf_queue \<times> nat option list" where
  "after_access pc r q = (case r of Ret (c, q1) \<Rightarrow> (pc c, q1, []) | Fault e \<Rightarrow> (Broken e, q, []) | Hang \<Rightarrow> (Broken BadPointer, q, []))"

text \<open>A step of a thread, with what a call returns in it; \<open>None\<close> when the thread is done.\<close>

fun lf_act :: "lf_pc \<Rightarrow> lf_queue \<Rightarrow> (lf_pc \<times> lf_queue \<times> nat option list) option" where
  "lf_act (Pushing []) q = None"
| "lf_act (Pushing (v # vs)) q = Some (InPush (push_code v) vs, q, [])"
| "lf_act (InPush c vs) q = Some (case c of Return _ \<Rightarrow> (Pushing vs, q, [])
     | _ \<Rightarrow> after_access (\<lambda>c. InPush c vs) (exec_code c q) q)"
| "lf_act (Pops 0) q = None"
| "lf_act (Pops (Suc k)) q = Some (InPop (LoopPop None) k, q, [])"
| "lf_act (InPop c k) q = Some (case c of Return v \<Rightarrow> (Pops k, q, [v])
     | _ \<Rightarrow> after_access (\<lambda>c. InPop c k) (exec_code c q) q)"
| "lf_act (Broken e) q = None"

record lf_system =
  lf_q :: lf_queue
  lf_pcs :: "nat \<Rightarrow> lf_pc"
  lf_results :: "nat \<Rightarrow> nat option list"

definition lf_apply :: "nat \<Rightarrow> lf_pc \<times> lf_queue \<times> nat option list \<Rightarrow> lf_system \<Rightarrow> lf_system" where
  "lf_apply i a s = (case a of (pc, q, rs) \<Rightarrow>
     \<lparr>lf_q = q, lf_pcs = (lf_pcs s)(i := pc), lf_results = (lf_results s)(i := lf_results s i @ rs)\<rparr>)"

inductive lf_step :: "nat \<Rightarrow> lf_system \<Rightarrow> lf_system \<Rightarrow> bool" for n where
  lf_stepI: "i < n \<Longrightarrow> lf_act (lf_pcs s i) (lf_q s) = Some a \<Longrightarrow> lf_step n s (lf_apply i a s)"

definition lf_start :: "lf_queue \<Rightarrow> lf_pc list \<Rightarrow> lf_system" where
  "lf_start q pcs = \<lparr>lf_q = q, lf_pcs = (\<lambda>i. if i < length pcs then pcs ! i else Pops 0), lf_results = (\<lambda>i. [])\<rparr>"

section \<open>A call without interference\<close>

inductive code_step :: "lf_code \<times> lf_queue \<Rightarrow> lf_code \<times> lf_queue \<Rightarrow> bool" where
  code_stepI: "\<forall>v. c \<noteq> Return v \<Longrightarrow> exec_code c q = Ret (c', q') \<Longrightarrow> code_step (c, q) (c', q')"

inductive_simps code_step_iff: "code_step (c, q) x"

text \<open>A call that finds in every access a block of the kind it expects.\<close>

definition typed_access :: "lf_code \<Rightarrow> lf_queue \<Rightarrow> bool" where
  "typed_access c q = (case c of
       LoadCount a f \<Rightarrow> a \<in> dom (pointers q) | LoadNptr a f \<Rightarrow> a \<in> dom (pointers q) | AddCount a c \<Rightarrow> a \<in> dom (pointers q)
     | CasCount a e m f \<Rightarrow> a \<in> dom (pointers q) | CasNptr a e m f \<Rightarrow> a \<in> dom (pointers q)
     | LoadNext a f \<Rightarrow> a \<in> Some ` dom (nodes q) | LoadValue a f \<Rightarrow> a \<in> Some ` dom (nodes q)
     | CasNext a e m f \<Rightarrow> a \<in> Some ` dom (nodes q) | FreeNode a c \<Rightarrow> a = None \<or> a \<in> Some ` dom (nodes q)
     | FreePointer a c \<Rightarrow> a \<in> dom (pointers q) | _ \<Rightarrow> True)"

inductive typed_step :: "lf_code \<times> lf_queue \<Rightarrow> lf_code \<times> lf_queue \<Rightarrow> bool" where
  typed_stepI: "typed_access c q \<Longrightarrow> code_step (c, q) x \<Longrightarrow> typed_step (c, q) x"

inductive_simps typed_step_iff: "typed_step (c, q) x"

definition runs :: "lf_code \<Rightarrow> lf_queue \<Rightarrow> nat option \<Rightarrow> lf_queue \<Rightarrow> bool" where
  "runs c q v q' \<longleftrightarrow> typed_step\<^sup>*\<^sup>* (c, q) (Return v, q')"

lemma runs_code: "runs c q v q' \<Longrightarrow> code_step\<^sup>*\<^sup>* (c, q) (Return v, q')"
  unfolding runs_def by (rule rtranclp_mono [THEN predicate2D, rotated]) (auto elim: typed_step.cases)

lemma runs_Return: "runs (Return v) q w q' \<longleftrightarrow> w = v \<and> q' = q"
  by (auto simp: runs_def typed_step_iff code_step_iff elim: converse_rtranclpE)

lemma runs_step: "\<forall>v. c \<noteq> Return v \<Longrightarrow>
  runs c q v q' \<longleftrightarrow> typed_access c q \<and> (\<exists>c1 q1. exec_code c q = Ret (c1, q1) \<and> runs c1 q1 v q')"
proof
  assume c: "\<forall>v. c \<noteq> Return v" and r: "runs c q v q'"
  obtain z where "typed_step (c, q) z" "typed_step\<^sup>*\<^sup>* z (Return v, q')"
    using r c unfolding runs_def by (metis converse_rtranclpE prod.inject)
  then show "typed_access c q \<and> (\<exists>c1 q1. exec_code c q = Ret (c1, q1) \<and> runs c1 q1 v q')"
    by (auto simp: runs_def typed_step_iff code_step_iff)
next
  assume "\<forall>v. c \<noteq> Return v" and "typed_access c q \<and> (\<exists>c1 q1. exec_code c q = Ret (c1, q1) \<and> runs c1 q1 v q')"
  then show "runs c q v q'"
    unfolding runs_def by (metis typed_stepI code_stepI converse_rtranclp_into_rtranclp)
qed

lemmas block_defs = load_count_def store_count_def load_nptr_def store_nptr_def load_next_def store_next_def load_value_def
  free_as_node_def free_as_pointer_def deref_def cas_def

text \<open>The blocks of the heap, with their updates.\<close>

lemma heap_iff:
  "get_pointer (Some b) q = Ret y \<longleftrightarrow> pointers q b = Some y"
  "set_pointer (Some b) g q = Ret q' \<longleftrightarrow> (\<exists>y. pointers q b = Some y \<and> q' = q\<lparr>pointers := (pointers q)(b \<mapsto> g y)\<rparr>)"
  "get_node d q = Ret x \<longleftrightarrow> (\<exists>a. d = Some a \<and> nodes q a = Some x)"
  "set_node d f q = Ret q' \<longleftrightarrow> (\<exists>a x. d = Some a \<and> nodes q a = Some x \<and> q' = q\<lparr>nodes := (nodes q)(a \<mapsto> f x)\<rparr>)"
  "free_node d q = Ret q' \<longleftrightarrow> d = None \<and> q' = q \<or> (\<exists>a x. d = Some a \<and> nodes q a = Some x \<and> q' = q\<lparr>nodes := (nodes q)(a := None)\<rparr>)"
  "free_pointer (Some b) q = Ret q' \<longleftrightarrow> (\<exists>y. pointers q b = Some y \<and> q' = q\<lparr>pointers := (pointers q)(b := None)\<rparr>)"
  "incr_count (Some b) q = Ret q' \<longleftrightarrow> (\<exists>y. pointers q b = Some y \<and> q' = q\<lparr>pointers := (pointers q)(b \<mapsto> y\<lparr>pcount := pcount y + 1\<rparr>)\<rparr>)"
  by (auto simp: get_pointer_def set_pointer_def get_node_def set_node_def free_node_def free_pointer_def incr_count_def
      bindO_Ret_iff split: option.splits)

lemma runs_simps [simp]:
  "runs (Return v) q w q' \<longleftrightarrow> w = v \<and> q' = q"
  "runs (SetTailNptr a c) q w q' \<longleftrightarrow> runs (LoadTail (\<lambda>t. LoadTail (\<lambda>t'. LoadNptr t' (\<lambda>e. CasNptr t e (Some a) (\<lambda>ok.
     if ok then c else SetTailNptr a c))))) q w q'"
  "runs (SetHead c) q w q' \<longleftrightarrow> runs (LoadHead (\<lambda>e. LoadTail (\<lambda>t. CasHead e t (\<lambda>ok. if ok then c else SetHead c)))) q w q'"
  "runs (LoadHead f) q w q' \<longleftrightarrow> runs (f (qhead q)) q w q'"
  "runs (LoadTail f) q w q' \<longleftrightarrow> runs (f (qtail q)) q w q'"
  "runs (LoadCount b g) q w q' \<longleftrightarrow> (\<exists>x. pointers q b = Some x \<and> runs (g (pcount x)) q w q')"
  "runs (LoadNptr b h) q w q' \<longleftrightarrow> (\<exists>x. pointers q b = Some x \<and> runs (h (nptr x)) q w q')"
  "runs (LoadNext (Some a) h) q w q' \<longleftrightarrow> (\<exists>x. nodes q a = Some x \<and> runs (h (next_ptr x)) q w q')"
  "runs (LoadValue (Some a) h) q w q' \<longleftrightarrow> (\<exists>x. nodes q a = Some x \<and> runs (h (val x)) q w q')"
  "runs (AddCount b c) q w q' \<longleftrightarrow> (\<exists>y. pointers q b = Some y \<and> runs c (q\<lparr>pointers := (pointers q)(b \<mapsto> y\<lparr>pcount := pcount y + 1\<rparr>)\<rparr>) w q')"
  "runs (NewNode y f) q w q' \<longleftrightarrow> runs (f (fst (new_node y q))) (snd (new_node y q)) w q'"
  "runs (NewPointer z f) q w q' \<longleftrightarrow> runs (f (fst (new_pointer z q))) (snd (new_pointer z q)) w q'"
  "runs (FreeNode (Some a) c) q w q' \<longleftrightarrow> (\<exists>x. nodes q a = Some x) \<and> runs c (q\<lparr>nodes := (nodes q)(a := None)\<rparr>) w q'"
  "runs (FreeNode None c) q w q' \<longleftrightarrow> runs c q w q'"
  "runs (FreePointer b c) q w q' \<longleftrightarrow> (\<exists>y. pointers q b = Some y) \<and> runs c (q\<lparr>pointers := (pointers q)(b := None)\<rparr>) w q'"
  "runs (CasHead b e j) q w q' \<longleftrightarrow> (if qhead q = b then runs (j True) (q\<lparr>qhead := e\<rparr>) w q' else runs (j False) q w q')"
  "runs (CasTail b (Some e) j) q w q' \<longleftrightarrow> (if qtail q = b then runs (j True) (q\<lparr>qtail := e\<rparr>) w q' else runs (j False) q w q')"
  "runs (CasCount b m k j) q w q' \<longleftrightarrow> (\<exists>x. pointers q b = Some x \<and> (if pcount x = m
     then runs (j True) (q\<lparr>pointers := (pointers q)(b \<mapsto> x\<lparr>pcount := k\<rparr>)\<rparr>) w q' else runs (j False) q w q'))"
  "runs (CasNptr b o1 o2 j) q w q' \<longleftrightarrow> (\<exists>x. pointers q b = Some x \<and> (if nptr x = o1
     then runs (j True) (q\<lparr>pointers := (pointers q)(b \<mapsto> x\<lparr>nptr := o2\<rparr>)\<rparr>) w q' else runs (j False) q w q'))"
  "runs (CasNext (Some a) o1 o2 j) q w q' \<longleftrightarrow> (\<exists>x. nodes q a = Some x \<and> (if next_ptr x = o1
     then runs (j True) (q\<lparr>nodes := (nodes q)(a \<mapsto> x\<lparr>next_ptr := o2\<rparr>)\<rparr>) w q' else runs (j False) q w q'))"
proof -
  show "runs (Return v) q w q' \<longleftrightarrow> w = v \<and> q' = q"
    by (rule runs_Return)
qed (subst runs_step, blast, fastforce simp: typed_access_def block_defs bindO_Ret_iff split_beta)+

lemma runs_push_round:
  assumes "qpush_round p q = Ret (stop, q1)" and "if stop then v = None \<and> q' = q1 else runs (LoopPush p) q1 v q'"
  shows "runs (LoopPush p) q v q'"
proof -
  obtain t a n where t: "pointers q (qtail q) = Some t" "nptr t = Some a" "nodes q a = Some n"
    using assms(1) by (auto simp: qpush_round_def Let_def bindO_Ret_iff heap_iff)
  have "runs (push_body p) q v q'"
  proof (cases "next_ptr n")
    case None
    then show ?thesis
      using assms t by (auto simp: qpush_round_def push_body_def Let_def bindO_Ret_iff heap_iff)
  next
    case (Some x)
    then show ?thesis
      using assms t by (auto simp: qpush_round_def push_body_def Let_def bindO_Ret_iff heap_iff split: option.splits)
  qed
  then show ?thesis
    by (simp add: runs_step typed_access_def)
qed

text \<open>What follows the end of a round of a pop.\<close>

definition pop_goes_on :: "pop_end \<Rightarrow> lf_queue \<Rightarrow> nat option \<Rightarrow> lf_queue \<Rightarrow> bool" where
  "pop_goes_on e q v q' \<longleftrightarrow> (case e of Popped w \<Rightarrow> v = w \<and> q' = q | Again prev \<Rightarrow> runs (LoopPop prev) q v q')"

lemma runs_pop_take:
  assumes "qpop_take x tmp q = Ret (e, q1)" and "pop_goes_on e q1 v q'"
  shows "runs (pop_take x tmp) q v q'"
proof -
  obtain y a n h where y: "pointers q x = Some y" "nptr y = Some a" "nodes q a = Some n" "pointers q (qhead q) = Some h"
    using assms(1) by (auto simp: qpop_take_def bindO_Ret_iff heap_iff)
  show ?thesis
  proof (cases "next_ptr n")
    case None
    show ?thesis
    proof (cases "nptr h")
      case (Some b)
      then show ?thesis
        using assms y None by (auto simp: qpop_take_def pop_take_def pop_goes_on_def bindO_Ret_iff heap_iff)
    qed (use assms y None in \<open>auto simp: qpop_take_def pop_take_def pop_goes_on_def bindO_Ret_iff heap_iff\<close>)
  next
    case (Some z)
    then obtain b hn where "nptr h = Some b" "nodes q b = Some hn"
      using assms(1) y by (auto simp: qpop_take_def bindO_Ret_iff heap_iff split: if_splits)
    then show ?thesis
      using assms y Some by (auto simp: qpop_take_def pop_take_def pop_goes_on_def bindO_Ret_iff heap_iff split: if_splits)
  qed
qed

lemma runs_pop_next:
  assumes "bindO (get_pointer (Some (qhead q)) q) (\<lambda>h. bindO (get_node (nptr h) q) (\<lambda>hn.
      bindO (get_pointer (Some head) q) (\<lambda>h0. case next_ptr hn of None \<Rightarrow> Ret (Popped None, q)
      | Some nx \<Rightarrow>
          if head \<noteq> qhead q then Ret (Again (Some nx), q)
          else bindO (get_pointer (Some tail) q) (\<lambda>t.
               if nptr h0 = nptr t
               then bindO (incr_count (Some nx) q) (\<lambda>q2.
                 Ret (Again (Some nx), if qtail q2 = tail then q2\<lparr>qtail := nx\<rparr> else q2))
               else qpop_take nx (next_ptr hn) q)))) = Ret (e, q1)" and "pop_goes_on e q1 v q'"
  shows "runs (pop_next head tail) q v q'"
proof -
  obtain h a hn h0 where h: "pointers q (qhead q) = Some h" "nptr h = Some a" "nodes q a = Some hn" "pointers q head = Some h0"
    using assms(1) by (auto simp: bindO_Ret_iff heap_iff)
  show ?thesis
  proof (cases "next_ptr hn")
    case None
    then show ?thesis
      using assms h by (auto simp: pop_next_def pop_goes_on_def bindO_Ret_iff heap_iff)
  next
    case (Some nx)
    show ?thesis
    proof (cases "head = qhead q")
      case False
      then show ?thesis
        using assms h Some by (auto simp: pop_next_def pop_goes_on_def bindO_Ret_iff heap_iff)
    next
      case True
      then obtain t where t: "pointers q tail = Some t"
        using assms h Some by (auto simp: bindO_Ret_iff heap_iff)
      show ?thesis
      proof (cases "nptr h0 = nptr t")
        case same: True
        then obtain y where y: "pointers q nx = Some y" "e = Again (Some nx)"
            "q1 = (let q2 = q\<lparr>pointers := (pointers q)(nx \<mapsto> y\<lparr>pcount := pcount y + 1\<rparr>)\<rparr> in if qtail q = tail then q2\<lparr>qtail := nx\<rparr> else q2)"
          using assms(1) h Some True t by (auto simp: bindO_Ret_iff heap_iff Let_def)
        have "runs (LoopPop (Some nx)) q1 v q'"
          using assms(2) y(2) by (simp add: pop_goes_on_def)
        then show ?thesis
          using h Some True t same y(1) unfolding y(3) by (simp add: pop_next_def Let_def split: if_splits)
      next
        case other: False
        then have "qpop_take nx (next_ptr hn) q = Ret (e, q1)"
          using assms(1) h Some True t by (auto simp: bindO_Ret_iff heap_iff)
        from runs_pop_take [OF this assms(2)] show ?thesis
          using h Some True t other by (simp add: pop_next_def)
      qed
    qed
  qed
qed

lemma runs_pop_round:
  assumes "qpop_round prev q = Ret (e, q1)" and "pop_goes_on e q1 v q'"
  shows "runs (LoopPop prev) q v q'"
proof -
  have "runs (pop_body prev) q v q'"
  proof (cases "qhead q = qtail q")
    case True
    then show ?thesis
      using assms by (auto simp: qpop_round_def pop_body_def pop_goes_on_def)
  next
    case False
    then obtain stop q2 where r: "qpop_recount prev q = Ret (stop, q2)"
      using assms by (auto simp: qpop_round_def Let_def bindO_Ret_iff)
    have "runs (pop_next (qhead q) (qtail q)) q2 v q'" if "\<not> stop"
      using assms False r that by (simp add: qpop_round_def Let_def runs_pop_next)
    moreover have "v = None \<and> q' = q2" if stop
      using assms False r that by (auto simp: qpop_round_def Let_def pop_goes_on_def)
    ultimately have goal: "if stop then v = None \<and> q' = q2 else runs (pop_next (qhead q) (qtail q)) q2 v q'"
      by simp
    obtain h where h: "pointers q (qhead q) = Some h"
      using r by (auto simp: qpop_recount_def bindO_Ret_iff heap_iff)
    consider (go) "pcount h \<noteq> 0" | (same) "pcount h = 0" "nptr h = prev" | (recount) "pcount h = 0" "nptr h \<noteq> prev"
      by blast
    then show ?thesis
    proof cases
      case go
      then show ?thesis
        using False r h goal by (auto simp: pop_body_def qpop_recount_def bindO_Ret_iff heap_iff)
    next
      case same
      then show ?thesis
        using False r h goal by (auto simp: pop_body_def qpop_recount_def bindO_Ret_iff heap_iff fun_upd_idem)
    next
      case recount
      define q3 where "q3 = snd (new_node \<lparr>val = None, next_ptr = None\<rparr> q)"
      have q3: "new_node \<lparr>val = None, next_ptr = None\<rparr> q = (brk q, q3)" "pointers q3 = pointers q" "qtail q3 = qtail q" "qhead q3 = qhead q"
        by (simp_all add: q3_def new_node_def)
      obtain t where t: "pointers q (qtail q) = Some t"
        using r h recount q3 by (auto simp: qpop_recount_def bindO_Ret_iff heap_iff)
      then have "\<not> stop" "q2 = q3\<lparr>pointers := (pointers q)(qtail q \<mapsto> t\<lparr>pcount := 0, nptr := Some (brk q)\<rparr>), qhead := qtail q\<rparr>"
        using r h recount q3 by (auto simp: qpop_recount_def bindO_Ret_iff heap_iff)
      then show ?thesis
        using False h recount goal q3 t by (simp add: pop_body_def)
    qed
  qed
  then show ?thesis
    by (simp add: runs_step typed_access_def)
qed

lemma runs_push_loop:
  assumes "qpush_loop p q = Some (Ret q')"
  shows "runs (LoopPush p) q None q'"
proof -
  have "r = Ret q' \<longrightarrow> runs (LoopPush p) q None q'" if "qpush_loop p q = Some r" for r
  proof (rule qpush_loop.raw_induct [OF _ that])
    fix loop p q r
    assume IH: "\<And>p q r. loop p q = Some r \<Longrightarrow> r = Ret q' \<longrightarrow> runs (LoopPush p) q None q'"
      and r: "(case qpush_round p q of Ret (stop, q1) \<Rightarrow> if stop then Some (Ret q1) else loop p q1
        | Fault e \<Rightarrow> Some (Fault e) | Hang \<Rightarrow> Some Hang) = Some r"
    show "r = Ret q' \<longrightarrow> runs (LoopPush p) q None q'"
    proof
      assume "r = Ret q'"
      with r obtain stop q1 where s: "qpush_round p q = Ret (stop, q1)" "if stop then q1 = q' else loop p q1 = Some (Ret q')"
        by (auto split: outcome.splits if_splits)
      then show "runs (LoopPush p) q None q'"
        using IH [of p q1 "Ret q'"] by (intro runs_push_round [OF s(1)]) auto
    qed
  qed
  with assms show ?thesis
    by blast
qed

lemma runs_pop_loop:
  assumes "qpop_loop prev q = Some (Ret (v, q'))"
  shows "runs (LoopPop prev) q v q'"
proof -
  have "r = Ret (v, q') \<longrightarrow> runs (LoopPop prev) q v q'" if "qpop_loop prev q = Some r" for r
  proof (rule qpop_loop.raw_induct [OF _ that])
    fix loop prev q r
    assume IH: "\<And>prev q r. loop prev q = Some r \<Longrightarrow> r = Ret (v, q') \<longrightarrow> runs (LoopPop prev) q v q'"
      and r: "(case qpop_round prev q of
          Ret (e, q1) \<Rightarrow> (case e of Popped v \<Rightarrow> Some (Ret (v, q1)) | Again nx \<Rightarrow> loop nx q1)
        | Fault e \<Rightarrow> Some (Fault e) | Hang \<Rightarrow> Some Hang) = Some r"
    show "r = Ret (v, q') \<longrightarrow> runs (LoopPop prev) q v q'"
    proof
      assume "r = Ret (v, q')"
      with r obtain e q1 where s: "qpop_round prev q = Ret (e, q1)"
          "case e of Popped w \<Rightarrow> w = v \<and> q1 = q' | Again nx \<Rightarrow> loop nx q1 = Some (Ret (v, q'))"
        by (auto split: outcome.splits pop_end.splits)
      then show "runs (LoopPop prev) q v q'"
        using IH [of _ q1 "Ret (v, q')"] by (intro runs_pop_round [OF s(1)]) (cases e; auto simp: pop_goes_on_def)
    qed
  qed
  with assms show ?thesis
    by blast
qed

lemma runs_push:
  assumes "qpush v q = Ret q'"
  shows "runs (push_code v) q None q'"
  using assms runs_push_loop by (auto simp: qpush_def push_code_def split_beta Let_def split: option.splits)

lemma runs_pop:
  assumes "qpop q = Ret (v, q')"
  shows "runs (LoopPop None) q v q'"
  using assms by (intro runs_pop_loop) (simp add: qpop_def split: option.splits)

text \<open>What a call does alone a thread can do in the system.\<close>

lemma lf_apply_simps [simp]:
  "lf_q (lf_apply i (pc, q, rs) s) = q" "lf_pcs (lf_apply i (pc, q, rs) s) = (lf_pcs s)(i := pc)"
  "lf_results (lf_apply i (pc, q, rs) s) = (lf_results s)(i := lf_results s i @ rs)"
  by (simp_all add: lf_apply_def)

lemma lf_apply_twice: "lf_apply i (pc2, q2, rs2) (lf_apply i (pc1, q1, rs1) s) = lf_apply i (pc2, q2, rs1 @ rs2) s"
  by (simp add: lf_apply_def)

text \<open>\<open>pc c\<close> is a thread inside a call.\<close>

definition in_call :: "(lf_code \<Rightarrow> lf_pc) \<Rightarrow> bool" where
  "in_call pc \<longleftrightarrow> (\<exists>vs. pc = (\<lambda>c. InPush c vs)) \<or> (\<exists>k. pc = (\<lambda>c. InPop c k))"

lemma call_act:
  assumes "in_call pc" and "code_step (c, q) (c1, q1)"
  shows "lf_act (pc c) q = Some (pc c1, q1, [])"
  using assms by (auto simp: in_call_def code_step_iff after_access_def split: lf_code.splits)

lemma call_runs:
  assumes "code_step\<^sup>*\<^sup>* (c, q) (c', q')" and "in_call pc" and "i < n" and "lf_pcs s i = pc c" and "lf_q s = q"
  shows "(lf_step n)\<^sup>*\<^sup>* s (lf_apply i (pc c', q', []) s)"
  using assms(1,4,5)
proof (induction "(c, q)" arbitrary: c q s rule: converse_rtranclp_induct)
  case base
  then have "s = lf_apply i (pc c', q', []) s"
    by (cases s) (auto simp: lf_apply_def)
  then show ?case
    by simp
next
  case (step z)
  obtain c1 q1 where z: "z = (c1, q1)"
    by (cases z)
  have "lf_step n s (lf_apply i (pc c1, q1, []) s)"
    using call_act [OF assms(2), of c q c1 q1] step.hyps(1) step.prems z assms(3) by (intro lf_stepI) auto
  moreover have "(lf_step n)\<^sup>*\<^sup>* (lf_apply i (pc c1, q1, []) s) (lf_apply i (pc c', q', []) (lf_apply i (pc c1, q1, []) s))"
    by (rule step.hyps(3) [OF z]) simp_all
  ultimately show ?case
    by (simp add: lf_apply_twice converse_rtranclp_into_rtranclp)
qed

lemma push_alone:
  assumes "qpush v (lf_q s) = Ret q" and "i < n" and "lf_pcs s i = Pushing (v # vs)"
  shows "(lf_step n)\<^sup>*\<^sup>* s (lf_apply i (Pushing vs, q, []) s)"
proof -
  let ?s1 = "lf_apply i (InPush (push_code v) vs, lf_q s, []) s" and ?s2 = "lf_apply i (InPush (Return None) vs, q, []) s"
  have "lf_step n s ?s1"
    using assms(2,3) by (intro lf_stepI) simp_all
  moreover have "(lf_step n)\<^sup>*\<^sup>* ?s1 ?s2"
    using call_runs [of "push_code v" "lf_q s" "Return None" q "\<lambda>c. InPush c vs" i n ?s1] runs_code [OF runs_push [OF assms(1)]] assms(2)
    by (simp add: in_call_def lf_apply_twice) blast
  moreover have "lf_step n ?s2 (lf_apply i (Pushing vs, q, []) ?s2)"
    using assms(2) by (intro lf_stepI) simp_all
  ultimately show ?thesis
    by (simp add: lf_apply_twice)
qed

lemma pop_alone:
  assumes "qpop (lf_q s) = Ret (v, q)" and "i < n" and "lf_pcs s i = Pops (Suc k)"
  shows "(lf_step n)\<^sup>*\<^sup>* s (lf_apply i (Pops k, q, [v]) s)"
proof -
  let ?s1 = "lf_apply i (InPop (LoopPop None) k, lf_q s, []) s" and ?s2 = "lf_apply i (InPop (Return v) k, q, []) s"
  have "lf_step n s ?s1"
    using assms(2,3) by (intro lf_stepI) simp_all
  moreover have "(lf_step n)\<^sup>*\<^sup>* ?s1 ?s2"
    using call_runs [of "LoopPop None" "lf_q s" "Return v" q "\<lambda>c. InPop c k" i n ?s1] runs_code [OF runs_pop [OF assms(1)]] assms(2)
    by (simp add: in_call_def lf_apply_twice) blast
  moreover have "lf_step n ?s2 (lf_apply i (Pops k, q, [v]) ?s2)"
    using assms(2) by (intro lf_stepI) simp_all
  ultimately show ?thesis
    by (simp add: lf_apply_twice)
qed

section \<open>Systems\<close>

text \<open>A number of steps of one thread.\<close>

fun lf_iter :: "nat \<Rightarrow> lf_pc \<Rightarrow> lf_queue \<Rightarrow> (lf_pc \<times> lf_queue \<times> nat option list) option" where
  "lf_iter 0 pc q = Some (pc, q, [])"
| "lf_iter (Suc n) pc q =
     (case lf_act pc q of None \<Rightarrow> None
      | Some (pc1, q1, r) \<Rightarrow> (case lf_iter n pc1 q1 of None \<Rightarrow> None | Some (pc2, q2, rs) \<Rightarrow> Some (pc2, q2, r @ rs)))"

lemmas lf_eval = new_node_def new_pointer_def block_defs after_access_def Let_def

lemmas lf_bodies = push_code_def push_body_def pop_body_def pop_next_def pop_take_def

lemma iter_runs:
  assumes "i < n"
  shows "lf_iter m (lf_pcs s i) (lf_q s) = Some (pc, q, rs) \<Longrightarrow> (lf_step n)\<^sup>*\<^sup>* s (lf_apply i (pc, q, rs) s)"
proof (induction m arbitrary: s rs)
  case 0
  then have "s = lf_apply i (pc, q, rs) s"
    by (cases s) (auto simp: lf_apply_def)
  then show ?case
    by (metis rtranclp.rtrancl_refl)
next
  case (Suc m)
  then obtain pc1 q1 r rs1 where a: "lf_act (lf_pcs s i) (lf_q s) = Some (pc1, q1, r)"
      "lf_iter m pc1 q1 = Some (pc, q, rs1)" "rs = r @ rs1"
    by (auto split: option.splits)
  have st: "lf_step n s (lf_apply i (pc1, q1, r) s)"
    using a(1) assms by (intro lf_stepI) auto
  have "lf_iter m (lf_pcs (lf_apply i (pc1, q1, r) s) i) (lf_q (lf_apply i (pc1, q1, r) s)) = Some (pc, q, rs1)"
    using a by simp
  from Suc.IH [OF this] show ?case
    using st a(3) by (simp add: lf_apply_twice converse_rtranclp_into_rtranclp)
qed

lemma pushes_alone:
  assumes "lf_inv (lf_q s)" "i < n" "lf_pcs s i = Pushing (v # vs)"
  shows "\<exists>s'. (lf_step n)\<^sup>*\<^sup>* s s' \<and> lf_pcs s' = (lf_pcs s)(i := Pushing vs) \<and> lf_results s' = lf_results s
    \<and> lf_inv (lf_q s') \<and> lf_list (lf_q s') = lf_list (lf_q s) @ [v]"
proof -
  obtain q where q: "qpush v (lf_q s) = Ret q" "lf_inv q" "lf_list q = lf_list (lf_q s) @ [v]"
    using lf.enq_law [of "lf_q s" v] assms(1) by auto
  then show ?thesis
    using push_alone [OF q(1) assms(2,3)] by (intro exI [of _ "lf_apply i (Pushing vs, q, []) s"]) (simp add: fun_upd_idem)
qed

lemma pops_alone:
  assumes "lf_inv (lf_q s)" "i < n" "lf_pcs s i = Pops (Suc k)"
  shows "\<exists>s'. (lf_step n)\<^sup>*\<^sup>* s s' \<and> lf_pcs s' = (lf_pcs s)(i := Pops k) \<and> lf_inv (lf_q s')
    \<and> (case lf_list (lf_q s) of
          [] \<Rightarrow> lf_results s' = (lf_results s)(i := lf_results s i @ [None]) \<and> lf_list (lf_q s') = []
        | v # vs \<Rightarrow> lf_results s' = (lf_results s)(i := lf_results s i @ [v]) \<and> lf_list (lf_q s') = vs)"
proof -
  obtain v q where q: "qpop (lf_q s) = Ret (v, q)" "lf_inv q"
      "case lf_list (lf_q s) of [] \<Rightarrow> v = None \<and> lf_list q = [] | w # vs \<Rightarrow> v = w \<and> lf_list q = vs"
  proof (cases "lf_list (lf_q s)")
    case Nil
    then obtain m where "lf_shape (lf_q s) m []"
      using assms(1) lf_shape_list by (fastforce simp: lf_inv_def)
    then show ?thesis
      using qpop_empty that assms(1) Nil by simp
  next
    case (Cons w ws)
    then show ?thesis
      using lf.deq_law [of "lf_q s" w ws] assms(1) that by auto
  qed
  then show ?thesis
    using pop_alone [OF q(1) assms(2,3)] by (intro exI [of _ "lf_apply i (Pops k, q, [v]) s"]) (simp split: list.splits)
qed

section \<open>Two threads in the queue\<close>

definition last_in_queue :: "lf_queue \<Rightarrow> nat \<Rightarrow> nat option \<Rightarrow> bool" where
  "last_in_queue q a nx \<longleftrightarrow> (\<exists>t x. pointers q (qtail q) = Some t \<and> nptr t = Some a \<and> nodes q a = Some x \<and> next_ptr x = nx)
     \<and> qtail q < brk q \<and> a < brk q \<and> (\<forall>b\<ge>brk q. nodes q b = None \<and> pointers q b = None)"

abbreviation swing_tail :: "nat \<Rightarrow> nat \<Rightarrow> lf_code" where
  "swing_tail tail p \<equiv> CasTail tail (Some p) (\<lambda>swung. if swung then Return None else LoopPush p)"

text \<open>A push up to the link, with its new node and pointer.\<close>

lemma push_links:
  assumes "last_in_queue q a None"
  shows "\<exists>q1. lf_iter 12 (Pushing (v # vs)) q = Some (InPush (swing_tail (qtail q) (Suc (brk q))) vs, q1, [])
    \<and> last_in_queue q1 a (Some (Suc (brk q))) \<and> qtail q1 = qtail q \<and> pointers q1 (brk q) = None
    \<and> (\<exists>x. nodes q1 (brk q) = Some x \<and> next_ptr x = None) \<and> (\<exists>y. pointers q1 (Suc (brk q)) = Some y \<and> nptr y = Some (brk q))"
proof -
  obtain t x where q: "pointers q (qtail q) = Some t" "nptr t = Some a" "nodes q a = Some x" "next_ptr x = None"
      "qtail q < brk q" "a < brk q" "\<And>b. brk q \<le> b \<Longrightarrow> nodes q b = None" "\<And>b. brk q \<le> b \<Longrightarrow> pointers q b = None"
    using assms by (auto simp: last_in_queue_def)
  from q(5,6) have ne: "qtail q \<noteq> brk q" "qtail q \<noteq> Suc (brk q)" "a \<noteq> brk q" "a \<noteq> Suc (brk q)"
    by simp_all
  show ?thesis
    using q ne by (simp add: lf_eval lf_bodies eval_nat_numeral last_in_queue_def cong: if_cong)
qed

text \<open>A push that finds a link behind the tail swings the tail to the node of that link.\<close>

lemma push_swings:
  assumes "last_in_queue q a (Some p)" and "pointers q p = Some y" and "nptr y = Some b" and "pointers q b = None"
    and "nodes q b = Some z" and "next_ptr z = None"
  shows "\<exists>q1. lf_iter 12 (Pushing (w # ws)) q = Some (InPush (LoopPush (Suc (brk q))) ws, q1, [])
    \<and> qtail q1 = b \<and> pointers q1 b = None \<and> nodes q1 b = Some z"
proof -
  obtain t x where q: "pointers q (qtail q) = Some t" "nptr t = Some a" "nodes q a = Some x" "next_ptr x = Some p"
      "qtail q < brk q" "a < brk q" "\<And>b. brk q \<le> b \<Longrightarrow> nodes q b = None" "\<And>b. brk q \<le> b \<Longrightarrow> pointers q b = None"
    using assms(1) by (auto simp: last_in_queue_def)
  have "p < brk q" "b < brk q"
    using q(7) [of b] q(8) [of p] assms(2,5) by (force simp: not_less [symmetric])+
  with q(5,6) have ne: "qtail q \<noteq> brk q" "qtail q \<noteq> Suc (brk q)" "a \<noteq> brk q" "a \<noteq> Suc (brk q)" "p \<noteq> brk q" "p \<noteq> Suc (brk q)"
      "b \<noteq> brk q" "b \<noteq> Suc (brk q)"
    by simp_all
  have "p \<noteq> b"
    using assms(2,4) by auto
  then show ?thesis
    using q ne assms(2-6) by (simp add: lf_eval lf_bodies eval_nat_numeral)
qed

text \<open>A push whose tail is a node without a link takes the node's link for a node, and follows \<^verbatim>\<open>NULL\<close>.\<close>

lemma push_follows_null:
  assumes "pointers q (qtail q) = None" and "nodes q (qtail q) = Some z" and "next_ptr z = None"
  shows "lf_iter 5 (InPush (LoopPush p) vs) q = Some (Broken NullPointer, q, [])"
    and "tail \<noteq> qtail q \<Longrightarrow> lf_iter 6 (InPush (swing_tail tail p) vs) q = Some (Broken NullPointer, q, [])"
  using assms by (simp_all add: lf_eval lf_bodies eval_nat_numeral)

text \<open>A pop of the only value up to the free.\<close>

lemma pop_to_free:
  assumes "lf_shape q d [(x, a, v)]"
  shows "\<exists>f. lf_iter 22 (Pops (Suc k)) q = Some (InPop (FreeNode (Some d) f) k, q, [])"
proof -
  obtain h dn t an where "pointers q (qhead q) = Some h" "nptr h = Some d" "pcount h = 1" "nodes q d = Some dn" "next_ptr dn = Some x"
      "pointers q x = Some t" "nptr t = Some a" "nodes q a = Some an" "next_ptr an = None" "qhead q \<noteq> x" "qtail q = x" "d \<noteq> a"
    using assms by (auto simp: lf_shape_def node_addrs_def ptr_addrs_def)
  then show ?thesis
    by (simp add: lf_eval lf_bodies eval_nat_numeral)
qed

lemma shape_last:
  assumes "lf_inv q"
  shows "\<exists>a. last_in_queue q a None"
proof -
  obtain m ls where sh: "lf_shape q m ls"
    using assms by (auto simp: lf_inv_def)
  then have chain: "lchain (nodes q) (pointers q) m ls" "qtail q = last (ptr_addrs (qhead q) ls)"
      and low: "\<And>b. b \<in> dom (nodes q) \<union> dom (pointers q) \<Longrightarrow> b < brk q"
    by (auto simp: lf_shape_def)
  let ?a = "last (node_addrs m ls)"
  obtain x where x: "nodes q ?a = Some x" "next_ptr x = None"
    using lchain_last_node [OF chain(1)] by blast
  obtain t where t: "pointers q (qtail q) = Some t" "nptr t = Some ?a"
  proof (cases "ls = []")
    case True
    then show thesis
      using sh that by (auto simp: lf_shape_def ptr_addrs_def node_addrs_def)
  next
    case False
    then show thesis
      using lchain_last_ptr [OF chain(1) False, of "qhead q"] chain(2) that by auto
  qed
  have "nodes q b = None \<and> pointers q b = None" if "brk q \<le> b" for b
    using low [of b] that by (cases "nodes q b"; cases "pointers q b") auto
  moreover have "?a < brk q" "qtail q < brk q"
    using low x(1) t(1) by (auto intro: low)
  ultimately show ?thesis
    using x t by (auto simp: last_in_queue_def)
qed

section \<open>Properties\<close>

text \<open>C14: Without interference the steps of a call add up to a call of the queue: from a well-formed queue, whatever the other
  threads are about to do, a thread alone reaches the end of its push with the value appended, and the end of
  its pop with the oldest value, or with \<^verbatim>\<open>NULL\<close> when the queue is empty; the queue is well-formed again.\<close>

theorem lockfree_calls_alone:
  assumes "lf_inv (lf_q s)" and "i < n" and "lf_pcs s i = Pushing (v # vs) \<or> lf_pcs s i = Pops (Suc k)"
  shows "\<exists>s'. (lf_step n)\<^sup>*\<^sup>* s s' \<and> lf_inv (lf_q s')
    \<and> (if lf_pcs s i = Pops (Suc k)
       then lf_pcs s' = (lf_pcs s)(i := Pops k)
         \<and> (case lf_list (lf_q s) of
              [] \<Rightarrow> lf_results s' = (lf_results s)(i := lf_results s i @ [None]) \<and> lf_list (lf_q s') = []
            | w # ws \<Rightarrow> lf_results s' = (lf_results s)(i := lf_results s i @ [w]) \<and> lf_list (lf_q s') = ws)
       else lf_pcs s' = (lf_pcs s)(i := Pushing vs) \<and> lf_results s' = lf_results s
         \<and> lf_list (lf_q s') = lf_list (lf_q s) @ [v])"
  using assms(3)
proof
  assume "lf_pcs s i = Pushing (v # vs)"
  then show ?thesis
    using pushes_alone [OF assms(1,2)] by fastforce
next
  assume "lf_pcs s i = Pops (Suc k)"
  then show ?thesis
    using pops_alone [OF assms(1,2)] by fastforce
qed

text \<open>C15: Two threads in a well-formed queue, in whatever state the others are. When both are about to push any values, there is an
  interleaving in which one runs between the link and the swing of the other, which makes the queue's tail a node where it should be a
  pointer; from there either of them can be the first to take the node's empty link for a node and follow \<^verbatim>\<open>NULL\<close>. When both are about to
  pop the only value, there is an interleaving in which both free the same node.\<close>

theorem lockfree_races:
  assumes "lf_inv (lf_q s)" and "i < n" and "j < n" and "i \<noteq> j"
  shows "(lf_pcs s i = Pushing (v # vs) \<and> lf_pcs s j = Pushing (w # ws) \<longrightarrow>
      (\<exists>s1. (lf_step n)\<^sup>*\<^sup>* s s1 \<and> pointers (lf_q s1) (qtail (lf_q s1)) = None \<and> nodes (lf_q s1) (qtail (lf_q s1)) \<noteq> None
        \<and> (\<exists>s2. (lf_step n)\<^sup>*\<^sup>* s1 s2 \<and> lf_pcs s2 i = Broken NullPointer) \<and> (\<exists>s2. (lf_step n)\<^sup>*\<^sup>* s1 s2 \<and> lf_pcs s2 j = Broken NullPointer)))
    \<and> (lf_pcs s i = Pops (Suc k) \<and> lf_pcs s j = Pops (Suc l) \<and> length (lf_list (lf_q s)) = 1
        \<and> dom (nodes (lf_q s)) \<inter> dom (pointers (lf_q s)) = {} \<longrightarrow>
      (\<exists>s1. (lf_step n)\<^sup>*\<^sup>* s s1 \<and> lf_pcs s1 j = Broken DoubleFree))"
proof (intro conjI impI)
  let ?q = "lf_q s"
  assume pcs: "lf_pcs s i = Pushing (v # vs) \<and> lf_pcs s j = Pushing (w # ws)"
  obtain a where "last_in_queue ?q a None"
    using shape_last [OF assms(1)] by blast
  from push_links [OF this, of v vs] obtain q1 x y where
      q1: "lf_iter 12 (Pushing (v # vs)) ?q = Some (InPush (swing_tail (qtail ?q) (Suc (brk ?q))) vs, q1, [])"
        "last_in_queue q1 a (Some (Suc (brk ?q)))" "qtail q1 = qtail ?q" "pointers q1 (brk ?q) = None"
        "nodes q1 (brk ?q) = Some x" "next_ptr x = None" "pointers q1 (Suc (brk ?q)) = Some y" "nptr y = Some (brk ?q)"
    by blast
  from push_swings [OF q1(2,7,8,4,5,6), of w ws] obtain q2 where
      q2: "lf_iter 12 (Pushing (w # ws)) q1 = Some (InPush (LoopPush (Suc (brk q1))) ws, q2, [])"
        "qtail q2 = brk ?q" "pointers q2 (brk ?q) = None" "nodes q2 (brk ?q) = Some x"
    by blast
  define s1 where "s1 = lf_apply i (InPush (swing_tail (qtail ?q) (Suc (brk ?q))) vs, q1, []) s"
  define s2 where "s2 = lf_apply j (InPush (LoopPush (Suc (brk q1))) ws, q2, []) s1"
  have "(lf_step n)\<^sup>*\<^sup>* s s1"
    unfolding s1_def using pcs q1(1) by (intro iter_runs [OF assms(2), of 12]) simp
  moreover have "(lf_step n)\<^sup>*\<^sup>* s1 s2"
    unfolding s2_def using pcs q2(1) assms(4) by (intro iter_runs [OF assms(3), of 12]) (simp add: s1_def)
  ultimately have run: "(lf_step n)\<^sup>*\<^sup>* s s2"
    by simp
  have s2: "lf_q s2 = q2" "lf_pcs s2 i = InPush (swing_tail (qtail ?q) (Suc (brk ?q))) vs" "lf_pcs s2 j = InPush (LoopPush (Suc (brk q1))) ws"
    using assms(4) by (simp_all add: s2_def s1_def)
  have "qtail ?q < brk ?q"
    using \<open>last_in_queue ?q a None\<close> by (simp add: last_in_queue_def)
  then have tail: "qtail ?q \<noteq> qtail q2" "pointers q2 (qtail q2) = None" "nodes q2 (qtail q2) = Some x"
    using q2(2-4) by simp_all
  note null = push_follows_null [OF tail(2,3) q1(6)]
  have "(lf_step n)\<^sup>*\<^sup>* s2 (lf_apply i (Broken NullPointer, q2, []) s2)"
    using null(2) [OF tail(1)] by (intro iter_runs [OF assms(2), of 6]) (simp add: s2)
  moreover have "(lf_step n)\<^sup>*\<^sup>* s2 (lf_apply j (Broken NullPointer, q2, []) s2)"
    using null(1) by (intro iter_runs [OF assms(3), of 5]) (simp add: s2)
  moreover have "lf_pcs (lf_apply i (Broken NullPointer, q2, []) s2) i = Broken NullPointer"
    "lf_pcs (lf_apply j (Broken NullPointer, q2, []) s2) j = Broken NullPointer"
    by simp_all
  moreover have "pointers (lf_q s2) (qtail (lf_q s2)) = None" "nodes (lf_q s2) (qtail (lf_q s2)) \<noteq> None"
    using tail by (simp_all add: s2)
  ultimately show "\<exists>s1. (lf_step n)\<^sup>*\<^sup>* s s1 \<and> pointers (lf_q s1) (qtail (lf_q s1)) = None \<and> nodes (lf_q s1) (qtail (lf_q s1)) \<noteq> None
      \<and> (\<exists>s2. (lf_step n)\<^sup>*\<^sup>* s1 s2 \<and> lf_pcs s2 i = Broken NullPointer) \<and> (\<exists>s2. (lf_step n)\<^sup>*\<^sup>* s1 s2 \<and> lf_pcs s2 j = Broken NullPointer)"
    using run by blast
next
  let ?q = "lf_q s"
  assume a: "lf_pcs s i = Pops (Suc k) \<and> lf_pcs s j = Pops (Suc l) \<and> length (lf_list ?q) = 1 \<and> dom (nodes ?q) \<inter> dom (pointers ?q) = {}"
  obtain d ls where "lf_shape ?q d ls"
    using assms(1) by (auto simp: lf_inv_def)
  moreover from this have "length ls = 1"
    using a lf_shape_list by fastforce
  ultimately obtain x b u where sh: "lf_shape ?q d [(x, b, u)]"
    by (cases ls) auto
  from pop_to_free [OF this] obtain f g where
      f: "lf_iter 22 (Pops (Suc k)) ?q = Some (InPop (FreeNode (Some d) f) k, ?q, [])"
      and g: "lf_iter 22 (Pops (Suc l)) ?q = Some (InPop (FreeNode (Some d) g) l, ?q, [])"
    by blast
  obtain dn where d: "nodes ?q d = Some dn"
    using sh by (auto simp: lf_shape_def)
  then have no: "pointers ?q d = None"
    using a by (auto simp: domIff)
  define s1 where "s1 = lf_apply i (InPop (FreeNode (Some d) f) k, ?q, []) s"
  define s2 where "s2 = lf_apply j (InPop (FreeNode (Some d) g) l, ?q, []) s1"
  define s3 where "s3 = lf_apply i (InPop f k, ?q\<lparr>nodes := (nodes ?q)(d := None)\<rparr>, []) s2"
  have "(lf_step n)\<^sup>*\<^sup>* s s1"
    unfolding s1_def using a f by (intro iter_runs [OF assms(2), of 22]) simp
  moreover have "(lf_step n)\<^sup>*\<^sup>* s1 s2"
    unfolding s2_def using a g assms(4) by (intro iter_runs [OF assms(3), of 22]) (simp add: s1_def)
  moreover have "lf_step n s2 s3"
    unfolding s3_def using assms(2,4) d by (intro lf_stepI) (simp_all add: s2_def s1_def after_access_def free_as_node_def)
  moreover have "lf_step n s3 (lf_apply j (Broken DoubleFree, ?q\<lparr>nodes := (nodes ?q)(d := None)\<rparr>, []) s3)"
    using assms(3,4) no by (intro lf_stepI) (simp_all add: s3_def s2_def s1_def after_access_def free_as_node_def)
  ultimately have "(lf_step n)\<^sup>*\<^sup>* s (lf_apply j (Broken DoubleFree, ?q\<lparr>nodes := (nodes ?q)(d := None)\<rparr>, []) s3)"
    by (meson rtranclp.rtrancl_into_rtrancl rtranclp_trans)
  moreover have "lf_pcs (lf_apply j (Broken DoubleFree, ?q\<lparr>nodes := (nodes ?q)(d := None)\<rparr>, []) s3) j = Broken DoubleFree"
    by simp
  ultimately show "\<exists>s1. (lf_step n)\<^sup>*\<^sup>* s s1 \<and> lf_pcs s1 j = Broken DoubleFree"
    by blast
qed

definition demo_one_value :: lf_queue where
  "demo_one_value = \<lparr>qhead = 1, qtail = 3, nodes = [0 \<mapsto> \<lparr>val = None, next_ptr = Some 3\<rparr>, 2 \<mapsto> \<lparr>val = Some 7, next_ptr = None\<rparr>],
     pointers = [1 \<mapsto> \<lparr>pcount = 1, nptr = Some 0\<rparr>, 3 \<mapsto> \<lparr>pcount = 2, nptr = Some 2\<rparr>], brk = 4\<rparr>"

theorem lockfree_races_witness:
  "(\<exists>s. (lf_step 2)\<^sup>*\<^sup>* (lf_start demo_one_value [Pushing [Some 1], Pushing [Some 2]]) s \<and> lf_pcs s 1 = Broken NullPointer)
    \<and> (\<exists>s. (lf_step 3)\<^sup>*\<^sup>* (lf_start demo_one_value [Pushing [Some 1], Pops 4, Pops 2]) s \<and> lf_pcs s 2 = Broken DoubleFree)"
proof -
  have sh: "lf_shape demo_one_value 0 [(3, 2, Some 7)]"
    by (auto simp: lf_shape_def demo_one_value_def node_addrs_def ptr_addrs_def)
  then have inv: "lf_inv demo_one_value" "length (lf_list demo_one_value) = 1"
    by (auto simp: lf_inv_def lf_shape_list [OF sh])
  have apart: "dom (nodes demo_one_value) \<inter> dom (pointers demo_one_value) = {}"
    by (auto simp: demo_one_value_def)
  have pushes: "\<exists>s1. (lf_step 2)\<^sup>*\<^sup>* (lf_start demo_one_value [Pushing [Some 1], Pushing [Some 2]]) s1
      \<and> (\<exists>s2. (lf_step 2)\<^sup>*\<^sup>* s1 s2 \<and> lf_pcs s2 1 = Broken NullPointer)"
    using lockfree_races [of "lf_start demo_one_value [Pushing [Some 1], Pushing [Some 2]]" 0 2 1 "Some 1" "[]" "Some 2" "[]"] inv
    by (auto simp: lf_start_def)
  have "\<exists>s. (lf_step 3)\<^sup>*\<^sup>* (lf_start demo_one_value [Pushing [Some 1], Pops 4, Pops 2]) s \<and> lf_pcs s 2 = Broken DoubleFree"
    using lockfree_races [of "lf_start demo_one_value [Pushing [Some 1], Pops 4, Pops 2]" 1 3 2 _ _ _ _ 3 1] inv apart
    by (auto simp: lf_start_def eval_nat_numeral)
  then show ?thesis
    using pushes by (meson rtranclp_trans)
qed

theorem lockfree_calls_alone_witness:
  "\<exists>s'. (lf_step 2)\<^sup>*\<^sup>* (lf_start q_initialize [Pushing [Some 5], Pops 1]) s' \<and> lf_list (lf_q s') = [Some 5]"
  using lockfree_calls_alone [of "lf_start q_initialize [Pushing [Some 5], Pops 1]" 0 2 "Some 5" "[]" 0] q_initialize_ok
  by (auto simp: lf_start_def)

end
