(* ===== verification/Stl_Queue.thy ===== *)
theory Stl_Queue
  imports Summary
begin

text \<open>
  \<^verbatim>\<open>stlqueue/src/stlqueue.cpp\<close>: the latency and throughput benchmark of Boost's lock-free queue. The queue is
  a parameter (\<^verbatim>\<open>push\<close> and \<^verbatim>\<open>pop\<close>, which say whether they succeeded). The program's own parts are modelled:
  the counters, its exchange sort, the summary, the producer and consumer functions with their retry loops
  and the round of \<^verbatim>\<open>main\<close>. \<open>N\<close> is \<^verbatim>\<open>NUM_SAMPLES\<close>, \<open>T\<close> is \<^verbatim>\<open>NUM_THREADS\<close>, a constant 1 in the code.
\<close>

section \<open>Globals\<close>

record stl =
  stl_enq :: "ticks list"
  stl_deq :: "ticks list"
  stl_numEnq :: nat
  stl_numDeq :: nat
  stl_enqCreated :: nat
  stl_deqCreated :: nat
  stl_enqRate :: c_int
  stl_deqRate :: c_int

definition ResetCounters_stl :: "stl \<Rightarrow> stl" where
  "ResetCounters_stl s = s\<lparr>stl_numEnq := 0, stl_numDeq := 0, stl_enqCreated := 0, stl_deqCreated := 0\<rparr>"

section \<open>The exchange sort\<close>

function sort_inner :: "nat \<Rightarrow> nat \<Rightarrow> nat \<Rightarrow> ticks list \<Rightarrow> ticks list outcome" where
  "sort_inner n i j xs =
     (if j < n
      then bindO (arr_read xs (int i)) (\<lambda>x.
           bindO (arr_read xs (int j)) (\<lambda>y.
             if x > y
             then bindO (arr_write xs (int i) y) (\<lambda>xs1.
                  bindO (arr_write xs1 (int j) x) (\<lambda>xs2. sort_inner n i (Suc j) xs2))
             else sort_inner n i (Suc j) xs))
      else Ret xs)"
  by pat_completeness auto
termination
  by (relation "measure (\<lambda>(n, i, j, xs). n - j)") auto

declare sort_inner.simps [simp del]

function sort_outer :: "nat \<Rightarrow> nat \<Rightarrow> ticks list \<Rightarrow> ticks list outcome" where
  "sort_outer n i xs =
     (if i < n then bindO (sort_inner n i (Suc i) xs) (\<lambda>ys. sort_outer n (Suc i) ys) else Ret xs)"
  by pat_completeness auto
termination
  by (relation "measure (\<lambda>(n, i, xs). n - i)") auto

declare sort_outer.simps [simp del]

definition SortTicks_stl :: "nat \<Rightarrow> ticks list \<Rightarrow> ticks list outcome" where
  "SortTicks_stl n numTicks = sort_outer n 0 numTicks"

text \<open>The inner loop leaves the smallest of the elements from \<open>i\<close> on at \<open>i\<close>.\<close>

lemma mset_swap_tail:
  assumes "i < j" and "j < length xs"
  shows "take i (xs[i := xs ! j, j := xs ! i]) = take i xs"
    "mset (drop i (xs[i := xs ! j, j := xs ! i])) = mset (drop i xs)"
proof -
  show "take i (xs[i := xs ! j, j := xs ! i]) = take i xs"
    using assms(1) by simp
  have "drop i (xs[i := xs ! j, j := xs ! i]) = (drop i xs)[0 := drop i xs ! (j - i), j - i := drop i xs ! 0]"
    using assms by (simp add: drop_update_swap)
  then show "mset (drop i (xs[i := xs ! j, j := xs ! i])) = mset (drop i xs)"
    using assms by (simp only: mset_swap length_drop zero_less_diff diff_less_mono less_imp_le less_trans)
qed

lemma sort_inner_ok:
  assumes "length xs = n" and "i < j" and "j \<le> n" and "\<And>k. i < k \<Longrightarrow> k < j \<Longrightarrow> xs ! i \<le> xs ! k"
  shows "\<exists>ys. sort_inner n i j xs = Ret ys \<and> length ys = n \<and> take i ys = take i xs
    \<and> mset (drop i ys) = mset (drop i xs) \<and> (\<forall>k. i < k \<and> k < n \<longrightarrow> ys ! i \<le> ys ! k)"
  using assms
proof (induction n i j xs rule: sort_inner.induct)
  case (1 n i j xs)
  show ?case
  proof (cases "j < n")
    case False
    then show ?thesis
      using "1.prems" by (subst sort_inner.simps) auto
  next
    case True
    then have rd: "arr_read xs (int i) = Ret (xs ! i)" "arr_read xs (int j) = Ret (xs ! j)"
      using "1.prems"(1,2) by (simp_all add: arr_read_ok)
    show ?thesis
    proof (cases "xs ! i > xs ! j")
      case gt: True
      let ?ys = "xs[i := xs ! j, j := xs ! i]"
      have wr: "arr_write xs (int i) (xs ! j) = Ret (xs[i := xs ! j])"
          "arr_write (xs[i := xs ! j]) (int j) (xs ! i) = Ret ?ys"
        using True "1.prems"(1,2) by (simp_all add: arr_write_ok)
      have "?ys ! i \<le> ?ys ! k" if "i < k" "k < Suc j" for k
        using that gt True "1.prems" by (cases "k = j") (auto simp: nth_list_update intro: order_trans [OF less_imp_le])
      then have "\<exists>zs. sort_inner n i (Suc j) ?ys = Ret zs \<and> length zs = n \<and> take i zs = take i ?ys
          \<and> mset (drop i zs) = mset (drop i ?ys) \<and> (\<forall>k. i < k \<and> k < n \<longrightarrow> zs ! i \<le> zs ! k)"
        using "1.prems"(1-3) True by (intro "1.IH"(1) [OF True gt]) auto
      then show ?thesis
        using mset_swap_tail [of i j xs] True "1.prems"(1,2)
        by (subst sort_inner.simps) (simp add: rd wr gt)
    next
      case False
      then have "xs ! i \<le> xs ! k" if "i < k" "k < Suc j" for k
        using that "1.prems"(4) by (cases "k = j") auto
      then have "\<exists>zs. sort_inner n i (Suc j) xs = Ret zs \<and> length zs = n \<and> take i zs = take i xs
          \<and> mset (drop i zs) = mset (drop i xs) \<and> (\<forall>k. i < k \<and> k < n \<longrightarrow> zs ! i \<le> zs ! k)"
        using "1.prems"(1-3) True by (intro "1.IH"(2) [OF True False]) auto
      then show ?thesis
        using True False by (subst sort_inner.simps) (simp add: rd)
    qed
  qed
qed

text \<open>The outer loop: the prefix is sorted and none of its elements is above any of the rest.\<close>

lemma sort_outer_ok:
  assumes "length xs = n" and "i \<le> n" and "sorted (take i xs)"
    and "\<And>x y. x \<in> set (take i xs) \<Longrightarrow> y \<in> set (drop i xs) \<Longrightarrow> x \<le> y"
  shows "\<exists>ys. sort_outer n i xs = Ret ys \<and> sorted ys \<and> mset ys = mset xs"
  using assms
proof (induction n i xs rule: sort_outer.induct)
  case (1 n i xs)
  show ?case
  proof (cases "i < n")
    case False
    then show ?thesis
      using "1.prems" by (subst sort_outer.simps) simp
  next
    case True
    obtain ys where ys: "sort_inner n i (Suc i) xs = Ret ys" "length ys = n" "take i ys = take i xs"
        "mset (drop i ys) = mset (drop i xs)" "\<And>k. i < k \<Longrightarrow> k < n \<Longrightarrow> ys ! i \<le> ys ! k"
      using sort_inner_ok [of xs n i "Suc i"] "1.prems"(1) True by auto
    have tk: "take (Suc i) ys = take i xs @ [ys ! i]" and dr: "drop i ys = ys ! i # drop (Suc i) ys"
      using ys(2,3) True by (simp_all add: take_Suc_conv_app_nth Cons_nth_drop_Suc)
    have rest: "set (drop i ys) = set (drop i xs)"
      using ys(4) by (metis set_mset_mset)
    have low: "ys ! i \<le> y" if "y \<in> set (drop (Suc i) ys)" for y
      using that ys(2,5) by (auto simp: in_set_conv_nth)
    have "ys ! i \<in> set (drop i xs)"
      using rest dr by (metis list.set_intros(1))
    then have "sorted (take (Suc i) ys)"
      using "1.prems"(3,4) by (simp add: tk sorted_append)
    moreover have "x \<le> y" if "x \<in> set (take (Suc i) ys)" "y \<in> set (drop (Suc i) ys)" for x y
      using that "1.prems"(4) rest dr low by (auto simp: tk)
    ultimately have "\<exists>zs. sort_outer n (Suc i) ys = Ret zs \<and> sorted zs \<and> mset zs = mset ys"
      using True ys(2) by (intro "1.IH") auto
    moreover have "mset ys = mset xs"
      using ys(3,4) by (metis append_take_drop_id mset_append)
    ultimately show ?thesis
      using True ys(1) by (subst sort_outer.simps) simp
  qed
qed

lemma SortTicks_stl_sort:
  assumes "length xs = n"
  shows "SortTicks_stl n xs = Ret (sort xs)"
proof -
  obtain ys where "SortTicks_stl n xs = Ret ys" "sorted ys" "mset ys = mset xs"
    using sort_outer_ok [OF assms, of 0] by (auto simp: SortTicks_stl_def)
  then show ?thesis
    by (metis properties_for_sort)
qed

section \<open>The summary\<close>

definition summarize_side_stl :: "real \<Rightarrow> int \<Rightarrow> nat \<Rightarrow> ticks list \<Rightarrow> side_summary outcome" where
  "summarize_side_stl clockFreq rdtsc_overhead n arr =
     bindO (arr_read arr 0) (\<lambda>_.
     if length arr < n then Fault BadIndex
     else let nticks = map (\<lambda>t. t - word_of_int rdtsc_overhead) (take n arr); ticks_sum = sum_list nticks in
     bindO (SortTicks_stl n nticks) (side_stats clockFreq n ticks_sum))"

datatype stl_report =
    StlLatency int int nat side_summary side_summary
  | StlThroughput nat int c_int c_int

definition ComputeSummary_stl :: "build \<Rightarrow> int \<Rightarrow> int \<Rightarrow> real \<Rightarrow> int \<Rightarrow> nat \<Rightarrow> stl \<Rightarrow> stl_report outcome" where
  "ComputeSummary_stl bd type numThreads clockFreq rdtsc_overhead n s =
     (case bd of
        LATENCY \<Rightarrow>
          bindO (summarize_side_stl clockFreq rdtsc_overhead n (stl_enq s)) (\<lambda>e.
          bindO (summarize_side_stl clockFreq rdtsc_overhead n (stl_deq s)) (\<lambda>d.
            Ret (StlLatency type numThreads n e d)))
      | THROUGHPUT \<Rightarrow> Ret (StlThroughput n numThreads (stl_enqRate s) (stl_deqRate s)))"

text \<open>The clock frequency in GHz over \<open>us\<close> microseconds: both operands are integers, so it is a whole number.\<close>

definition stl_clockFreq :: "ticks \<Rightarrow> ticks \<Rightarrow> ticks \<Rightarrow> real outcome" where
  "stl_clockFreq cycles0 cycles1 us =
     (if us * 1000 = 0 then Fault DivByZero else Ret (real (unat ((cycles1 - cycles0) div (us * 1000)))))"

text \<open>With \<^verbatim>\<open>CALIBRATE\<close>: the average difference of two consecutive readings.\<close>

definition stl_overhead :: "(nat \<Rightarrow> ticks) \<Rightarrow> nat \<Rightarrow> int outcome" where
  "stl_overhead clk n =
     (if n = 0 then Fault DivByZero
      else Ret (sint (ucast ((\<Sum>i\<leftarrow>[0..<n]. clk (2 * i + 1) - clk (2 * i)) div of_nat n) :: c_int)))"

section \<open>Producer and consumer\<close>

text \<open>\<^verbatim>\<open>while (!queue.push(i));\<close> and \<^verbatim>\<open>while(!queue.pop(value));\<close>\<close>

partial_function (option) push_until :: "(c_int \<Rightarrow> 'q \<Rightarrow> bool \<times> 'q) \<Rightarrow> c_int \<Rightarrow> 'q \<Rightarrow> 'q option" where
  "push_until push v q = (case push v q of (ok, q') \<Rightarrow> if ok then Some q' else push_until push v q')"

partial_function (option) pop_until :: "('q \<Rightarrow> c_int option \<times> 'q) \<Rightarrow> 'q \<Rightarrow> (c_int \<times> 'q) option" where
  "pop_until pop q = (case pop q of (Some v, q') \<Rightarrow> Some (v, q') | (None, q') \<Rightarrow> pop_until pop q')"

definition returns :: "'a option \<Rightarrow> 'a outcome" where
  "returns r = (case r of None \<Rightarrow> Hang | Some x \<Rightarrow> Ret x)"

definition put_stl :: "(c_int \<Rightarrow> 'q \<Rightarrow> bool \<times> 'q) \<Rightarrow> nat \<Rightarrow> 'q \<Rightarrow> 'q outcome" where
  "put_stl push i q = returns (push_until push (of_nat i) q)"

definition take_stl :: "('q \<Rightarrow> c_int option \<times> 'q) \<Rightarrow> 'q \<Rightarrow> (c_int \<times> 'q) outcome" where
  "take_stl pop q = returns (pop_until pop q)"

text \<open>The \<^verbatim>\<open>LATENCY\<close> loops write straight into the global arrays.\<close>

primrec producer_loop :: "(c_int \<Rightarrow> 'q \<Rightarrow> bool \<times> 'q) \<Rightarrow> (nat \<Rightarrow> ticks) \<Rightarrow> nat \<Rightarrow> 'q \<times> stl \<Rightarrow> ('q \<times> stl) outcome" where
  "producer_loop push clk 0 qs = Ret qs"
| "producer_loop push clk (Suc i) qs =
     bindO (producer_loop push clk i qs) (\<lambda>(q, s).
       let start_tick = clk (2 * i) in
       bindO (put_stl push i q) (\<lambda>q'.
         let end_tick = clk (2 * i + 1) in
         bindO (arr_write (stl_enq s) (int (stl_numEnq s)) (end_tick - start_tick)) (\<lambda>a.
           Ret (q', s\<lparr>stl_enq := a, stl_numEnq := Suc (stl_numEnq s)\<rparr>))))"

primrec consumer_loop :: "('q \<Rightarrow> c_int option \<times> 'q) \<Rightarrow> (nat \<Rightarrow> ticks) \<Rightarrow> nat \<Rightarrow> 'q \<times> stl \<Rightarrow> ('q \<times> stl) outcome" where
  "consumer_loop pop clk 0 qs = Ret qs"
| "consumer_loop pop clk (Suc i) qs =
     bindO (consumer_loop pop clk i qs) (\<lambda>(q, s).
       let start_tick = clk (2 * i) in
       bindO (take_stl pop q) (\<lambda>(v, q').
         let end_tick = clk (2 * i + 1) in
         bindO (arr_write (stl_deq s) (int (stl_numDeq s)) (end_tick - start_tick)) (\<lambda>a.
           Ret (q', s\<lparr>stl_deq := a, stl_numDeq := Suc (stl_numDeq s)\<rparr>))))"

text \<open>\<^verbatim>\<open>(int)(n/elapsed)\<close>: no division by an elapsed time of 0, no result outside \<^verbatim>\<open>int\<close>.\<close>

definition stl_rate :: "nat \<Rightarrow> ticks \<Rightarrow> real \<Rightarrow> c_int outcome" where
  "stl_rate n diff_tick clockFreq =
     (let elapsed = real (unat diff_tick) / 10 ^ 9 / clockFreq in
      if elapsed = 0 then Fault SignedOverflow
      else let x = real n / elapsed; t = (if x < 0 then \<lceil>x\<rceil> else \<lfloor>x\<rfloor>) in
        if INT_MIN \<le> t \<and> t \<le> INT_MAX then Ret (word_of_int t) else Fault SignedOverflow)"

definition producer_stl :: "build \<Rightarrow> (c_int \<Rightarrow> 'q \<Rightarrow> bool \<times> 'q) \<Rightarrow> (nat \<Rightarrow> ticks) \<Rightarrow> real \<Rightarrow> nat \<Rightarrow> nat
    \<Rightarrow> 'q \<times> stl \<Rightarrow> ('q \<times> stl) outcome" where
  "producer_stl bd push clk clockFreq N T qs =
     bindO (per_thread N T) (\<lambda>n.
       case bd of
         LATENCY \<Rightarrow> producer_loop push clk n qs
       | THROUGHPUT \<Rightarrow> bindO (repeat_op (put_stl push) n (fst qs)) (\<lambda>q.
           bindO (stl_rate n (clk 1 - clk 0) clockFreq) (\<lambda>r.
             Ret (q, (snd qs)\<lparr>stl_enqRate := stl_enqRate (snd qs) + r\<rparr>))))"

definition consumer_stl :: "build \<Rightarrow> ('q \<Rightarrow> c_int option \<times> 'q) \<Rightarrow> (nat \<Rightarrow> ticks) \<Rightarrow> real \<Rightarrow> nat \<Rightarrow> nat
    \<Rightarrow> 'q \<times> stl \<Rightarrow> ('q \<times> stl) outcome" where
  "consumer_stl bd pop clk clockFreq N T qs =
     bindO (per_thread N T) (\<lambda>n.
       case bd of
         LATENCY \<Rightarrow> consumer_loop pop clk n qs
       | THROUGHPUT \<Rightarrow> bindO (repeat_op (\<lambda>i q. run_state (take_stl pop q)) n (fst qs)) (\<lambda>q.
           bindO (stl_rate n (clk 1 - clk 0) clockFreq) (\<lambda>r.
             Ret (q, (snd qs)\<lparr>stl_deqRate := stl_deqRate (snd qs) + r\<rparr>))))"

section \<open>The round of main\<close>

text \<open>
  \<^verbatim>\<open>main\<close> for one entry \<open>threads\<close> of the thread list (it returns after the first): both arrays zeroed,
  \<open>threads div 2\<close> producers and as many consumers, all waiting for a barrier of \<open>threads\<close>, here one
  after the other, and the summary. Without any thread nobody waits.
\<close>

definition stl_init :: "nat \<Rightarrow> stl" where
  "stl_init N = \<lparr>stl_enq = replicate N 0, stl_deq = replicate N 0, stl_numEnq = 0, stl_numDeq = 0,
     stl_enqCreated = 0, stl_deqCreated = 0, stl_enqRate = 0, stl_deqRate = 0\<rparr>"

definition stl_round :: "build \<Rightarrow> (c_int \<Rightarrow> 'q \<Rightarrow> bool \<times> 'q) \<Rightarrow> ('q \<Rightarrow> c_int option \<times> 'q)
    \<Rightarrow> (nat \<Rightarrow> nat \<Rightarrow> ticks) \<Rightarrow> (nat \<Rightarrow> nat \<Rightarrow> ticks) \<Rightarrow> real \<Rightarrow> int \<Rightarrow> nat \<Rightarrow> nat \<Rightarrow> nat \<Rightarrow> int \<Rightarrow> 'q
    \<Rightarrow> (stl_report \<times> 'q) outcome" where
  "stl_round bd push pop pclk cclk clockFreq ov N T threads type q =
     (let c = threads div 2 in
      if c \<noteq> 0 \<and> 2 * c \<noteq> threads then Hang
      else
        bindO (repeat_op (\<lambda>i. producer_stl bd push (pclk i) clockFreq N T) c (q, stl_init N)) (\<lambda>qs1.
        bindO (repeat_op (\<lambda>i. consumer_stl bd pop (cclk i) clockFreq N T) c qs1) (\<lambda>(q2, s2).
        bindO (ComputeSummary_stl bd type (int c) clockFreq ov N s2) (\<lambda>r. Ret (r, q2)))))"

section \<open>What the rounds do\<close>

text \<open>The documented behaviour of the queue for one caller: a push succeeds and appends, a pop takes the
  oldest element.\<close>

definition boost_queue :: "('q \<Rightarrow> c_int list) \<Rightarrow> (c_int \<Rightarrow> 'q \<Rightarrow> bool \<times> 'q) \<Rightarrow> ('q \<Rightarrow> c_int option \<times> 'q) \<Rightarrow> bool" where
  "boost_queue contents push pop \<longleftrightarrow>
     (\<forall>v q. \<exists>q'. push v q = (True, q') \<and> contents q' = contents q @ [v])
     \<and> (\<forall>q x xs. contents q = x # xs \<longrightarrow> (\<exists>q'. pop q = (Some x, q') \<and> contents q' = xs))"

lemma put_stl_ok: "boost_queue contents push pop \<Longrightarrow> \<exists>q'. put_stl push i q = Ret q' \<and> contents q' = contents q @ [of_nat i]"
  unfolding put_stl_def
  by (subst push_until.simps) (auto simp: boost_queue_def returns_def dest!: spec [of _ "of_nat i"] spec [of _ q])

lemma take_stl_ok:
  assumes "boost_queue contents push pop" and "contents q = x # xs"
  shows "\<exists>q'. take_stl pop q = Ret (x, q') \<and> contents q' = xs"
proof -
  obtain q' where "pop q = (Some x, q')" "contents q' = xs"
    using assms unfolding boost_queue_def by blast
  then show ?thesis
    unfolding take_stl_def by (subst pop_until.simps) (simp add: returns_def)
qed

lemma deltas_Suc: "deltas clk (Suc n) = deltas clk n @ [clk (2 * n + 1) - clk (2 * n)]"
  by (simp add: deltas_def)

lemma length_deltas [simp]: "length (deltas clk n) = n"
  by (simp add: deltas_def)

text \<open>One more sample after those already in the array.\<close>

lemma store_sample:
  assumes "a + n < length xs" and "length ts = n"
  shows "arr_write (take a xs @ ts @ drop (a + n) xs) (int (a + n)) x
    = Ret (take a xs @ (ts @ [x]) @ drop (a + Suc n) xs)"
proof -
  have "drop (a + n) xs = xs ! (a + n) # drop (a + Suc n) xs"
    using assms(1) by (simp add: Cons_nth_drop_Suc)
  then show ?thesis
    using assms by (simp add: arr_write_def list_update_append nat_add_distrib)
qed

lemma producer_loop_ok:
  assumes "boost_queue contents push pop" and "stl_numEnq s + n \<le> length (stl_enq s)"
  shows "\<exists>q'. producer_loop push clk n (q, s) = Ret (q', s\<lparr>stl_enq := take (stl_numEnq s) (stl_enq s) @ deltas clk n
      @ drop (stl_numEnq s + n) (stl_enq s), stl_numEnq := stl_numEnq s + n\<rparr>)
    \<and> contents q' = contents q @ map of_nat [0..<n]"
  using assms(2)
proof (induction n)
  case 0
  then show ?case by (simp add: deltas_def)
next
  case (Suc n)
  then obtain q1 where q1: "producer_loop push clk n (q, s) = Ret (q1, s\<lparr>stl_enq := take (stl_numEnq s) (stl_enq s)
        @ deltas clk n @ drop (stl_numEnq s + n) (stl_enq s), stl_numEnq := stl_numEnq s + n\<rparr>)"
      "contents q1 = contents q @ map of_nat [0..<n]"
    by auto
  obtain q2 where "put_stl push n q1 = Ret q2" "contents q2 = contents q1 @ [of_nat n]"
    using put_stl_ok [OF assms(1)] by blast
  then show ?case
    using q1 store_sample [of "stl_numEnq s" n "stl_enq s" "deltas clk n"] Suc.prems
    by (simp add: deltas_Suc Let_def del: of_nat_add)
qed

lemma consumer_loop_ok:
  assumes "boost_queue contents push pop" and "stl_numDeq s + n \<le> length (stl_deq s)" and "n \<le> length (contents q)"
  shows "\<exists>q'. consumer_loop pop clk n (q, s) = Ret (q', s\<lparr>stl_deq := take (stl_numDeq s) (stl_deq s) @ deltas clk n
      @ drop (stl_numDeq s + n) (stl_deq s), stl_numDeq := stl_numDeq s + n\<rparr>)
    \<and> contents q' = drop n (contents q)"
  using assms(2,3)
proof (induction n)
  case 0
  then show ?case by (simp add: deltas_def)
next
  case (Suc n)
  then obtain q1 where q1: "consumer_loop pop clk n (q, s) = Ret (q1, s\<lparr>stl_deq := take (stl_numDeq s) (stl_deq s)
        @ deltas clk n @ drop (stl_numDeq s + n) (stl_deq s), stl_numDeq := stl_numDeq s + n\<rparr>)"
      "contents q1 = drop n (contents q)"
    by auto
  have "contents q1 = contents q ! n # drop (Suc n) (contents q)"
    using Suc.prems(2) q1(2) by (simp add: Cons_nth_drop_Suc)
  then obtain q2 where "take_stl pop q1 = Ret (contents q ! n, q2)" "contents q2 = drop (Suc n) (contents q)"
    using take_stl_ok [OF assms(1)] by blast
  then show ?case
    using q1 store_sample [of "stl_numDeq s" n "stl_deq s" "deltas clk n"] Suc.prems
    by (simp add: deltas_Suc Let_def del: of_nat_add)
qed

lemma summarize_side_stl_describes:
  assumes n: "0 < n" "n \<le> 2147483647" "length arr = n" and ok: "list_all (measurable ov) arr"
  shows "\<exists>r. summarize_side_stl f ov n arr = Ret r \<and> describes f (corrected ov arr) r"
proof -
  let ?ys = "map (\<lambda>t. t - word_of_int ov) arr"
  have small: "y < 2147483648" if "y \<in> set ?ys" for y
    using that ok measurable_corrected(2) by (auto simp: list_all_iff)
  have cs: "map unat ?ys = corrected ov arr" and len: "length ?ys = n"
    using ok n(3) measurable_corrected(1) by (auto simp: corrected_def list_all_iff)
  have "arr_read arr 0 = Ret (arr ! 0)"
    using arr_read_ok [of 0 arr] n by (cases arr) simp_all
  then have "summarize_side_stl f ov n arr = side_stats f n (sum_list ?ys) (sort ?ys)"
    using n(3) SortTicks_stl_sort [of ?ys n] by (simp add: summarize_side_stl_def Let_def)
  then show ?thesis
    using side_stats_ok [OF n(1,2) len small, of f] by (simp only: cs)
qed

section \<open>Properties\<close>

text \<open>C32: The exchange sort of \<^verbatim>\<open>stlqueue.cpp\<close> sorts any ticks, and for ticks below \<open>2 ^ 31\<close>, where the
  comparison of \<^verbatim>\<open>QueueBenchmarks\<close> is right, it computes what \<^verbatim>\<open>qsort\<close> with that comparison does.\<close>

theorem stl_sort_equivalent:
  "SortTicks_stl (length xs) xs = Ret (sort xs)
    \<and> (qsort_contract qs \<and> (\<forall>t\<in>set xs. t < 2147483648) \<longrightarrow> SortTicks_stl (length xs) xs = SortTicks qs xs)"
  using SortTicks_stl_sort [of xs "length xs"] SortTicks_sort [of qs xs] by auto

theorem stl_sort_equivalent_witness:
  "SortTicks_stl 3 [4294967297, 5, 1] = Ret [1, 5, 4294967297] \<and> SortTicks_stl 3 [9, 5, 1] = SortTicks sort_by [9, 5, 1]"
proof -
  have s: "sort [4294967297, 5, 1 :: ticks] = [1, 5, 4294967297]" "\<forall>t\<in>set [9, 5, 1 :: ticks]. t < 2147483648"
    by code_simp+
  have l: "length [4294967297, 5, 1 :: ticks] = 3" "length [9, 5, 1 :: ticks] = 3"
    by simp_all
  show ?thesis
    using conjunct1 [OF stl_sort_equivalent [of "[4294967297, 5, 1]" sort_by]]
      mp [OF conjunct2 [OF stl_sort_equivalent [of "[9, 5, 1]" sort_by]] conjI [OF sort_by_contract s(2)]]
    by (simp only: s(1) l simp_thms)
qed

text \<open>C31: The Boost benchmark over any queue that keeps its promise to one caller: with two threads, the producer
  and then the consumer return with the queue as it was before, and the summary describes the samples of
  every push and pop. With any larger even number, each thread still makes all \<^verbatim>\<open>NUM_SAMPLES\<close> calls, as
  the divisor is the constant 1, and the second producer writes behind the array. With an odd number above
  1 the barrier never opens.\<close>

theorem stl_rounds:
  assumes "boost_queue contents push pop" and "contents q = []" and "0 < N" and "N \<le> 2147483647"
    and "list_all (measurable ov) (deltas (pclk 0) N)" and "list_all (measurable ov) (deltas (cclk 0) N)"
  shows "(\<exists>e d q'. stl_round LATENCY push pop pclk cclk f ov N 1 2 type q = Ret (StlLatency type 1 N e d, q')
      \<and> describes f (corrected ov (deltas (pclk 0) N)) e \<and> describes f (corrected ov (deltas (cclk 0) N)) d
      \<and> contents q' = [])
    \<and> stl_round LATENCY push pop pclk cclk f ov N 1 (2 * (c + 2)) type q = Fault BadIndex
    \<and> stl_round LATENCY push pop pclk cclk f ov N 1 (2 * c + 3) type q = Hang"
proof (intro conjI)
  have pt: "per_thread N 1 = Ret N" "per_thread N (Suc 0) = Ret N"
    by (simp_all add: per_thread_def)
  obtain q1 where q1: "producer_loop push (pclk 0) N (q, stl_init N) = Ret (q1, (stl_init N)\<lparr>stl_enq := deltas (pclk 0) N, stl_numEnq := N\<rparr>)"
      "contents q1 = map of_nat [0..<N]"
    using producer_loop_ok [OF assms(1), of "stl_init N" N "pclk 0" q] assms(2) by (auto simp: stl_init_def)
  let ?s1 = "(stl_init N)\<lparr>stl_enq := deltas (pclk 0) N, stl_numEnq := N\<rparr>"
  obtain q2 where q2: "consumer_loop pop (cclk 0) N (q1, ?s1) = Ret (q2, ?s1\<lparr>stl_deq := deltas (cclk 0) N, stl_numDeq := N\<rparr>)"
      "contents q2 = []"
    using consumer_loop_ok [OF assms(1), of ?s1 N q1 "cclk 0"] q1(2) by (auto simp: stl_init_def)
  obtain e where e: "summarize_side_stl f ov N (deltas (pclk 0) N) = Ret e" "describes f (corrected ov (deltas (pclk 0) N)) e"
    using summarize_side_stl_describes [OF assms(3,4) _ assms(5), of f] by auto
  obtain d where d: "summarize_side_stl f ov N (deltas (cclk 0) N) = Ret d" "describes f (corrected ov (deltas (cclk 0) N)) d"
    using summarize_side_stl_describes [OF assms(3,4) _ assms(6), of f] by auto
  show "\<exists>e d q'. stl_round LATENCY push pop pclk cclk f ov N 1 2 type q = Ret (StlLatency type 1 N e d, q')
      \<and> describes f (corrected ov (deltas (pclk 0) N)) e \<and> describes f (corrected ov (deltas (cclk 0) N)) d
      \<and> contents q' = []"
    using pt q1(1) q2 e d
    by (simp add: stl_round_def producer_stl_def consumer_stl_def ComputeSummary_stl_def)
  have "producer_loop push clk (Suc k) (q1, ?s1) = Fault BadIndex" for clk k
  proof (induction k)
    case 0
    obtain q3 where "put_stl push 0 q1 = Ret q3"
      using put_stl_ok [OF assms(1)] by blast
    then show ?case
      by (simp add: arr_write_def)
  next
    case (Suc k)
    then show ?case
      by (subst producer_loop.simps) simp
  qed
  then have "producer_loop push clk N (q1, ?s1) = Fault BadIndex" for clk
    using assms(3) by (cases N) auto
  then have two: "repeat_op (\<lambda>i. producer_stl LATENCY push (pclk i) f N 1) (Suc (Suc k)) (q, stl_init N) = Fault BadIndex" for k
    by (induction k) (simp_all add: producer_stl_def pt q1(1))
  then show "stl_round LATENCY push pop pclk cclk f ov N 1 (2 * (c + 2)) type q = Fault BadIndex"
    using two [of c] by (simp add: stl_round_def)
  show "stl_round LATENCY push pop pclk cclk f ov N 1 (2 * c + 3) type q = Hang"
  proof -
    have "(2 * c + 3) div 2 = c + 1" "2 * (c + 1) \<noteq> 2 * c + 3"
      by presburger+
    then show ?thesis
      by (simp add: stl_round_def)
  qed
qed

text \<open>A list is such a queue.\<close>

definition list_push :: "c_int \<Rightarrow> c_int list \<Rightarrow> bool \<times> c_int list" where
  "list_push v q = (True, q @ [v])"

fun list_pop :: "c_int list \<Rightarrow> c_int option \<times> c_int list" where
  "list_pop [] = (None, [])"
| "list_pop (x # xs) = (Some x, xs)"

theorem stl_rounds_witness:
  "(\<exists>e d. stl_round LATENCY list_push list_pop (\<lambda>i k. of_nat (7 * k)) (\<lambda>i k. of_nat (9 * k)) 2 1 3 1 2 5 []
      = Ret (StlLatency 5 1 3 e d, []) \<and> describes 2 [6, 6, 6] e \<and> describes 2 [8, 8, 8] d)
    \<and> stl_round LATENCY list_push list_pop (\<lambda>i k. of_nat (7 * k)) (\<lambda>i k. of_nat (9 * k)) 2 1 3 1 4 5 [] = Fault BadIndex"
proof -
  have "boost_queue (\<lambda>q. q) list_push list_pop"
    by (simp add: boost_queue_def list_push_def)
  moreover have "deltas (\<lambda>k. of_nat (7 * k)) 3 = [7, 7, 7]" "deltas (\<lambda>k. of_nat (9 * k)) 3 = [9, 9, 9]"
    by (simp_all add: deltas_def eval_nat_numeral)
  moreover have "corrected 1 [7, 7, 7] = [6, 6, 6]" "corrected 1 [9, 9, 9] = [8, 8, 8]"
    by (simp_all add: corrected_def)
  ultimately show ?thesis
    using stl_rounds [of "\<lambda>q. q" list_push list_pop "[]" 3 1 "\<lambda>i k. of_nat (7 * k)" "\<lambda>i k. of_nat (9 * k)" 2 5 0]
    by (auto simp: measurable_def)
qed

end
