(* ===== verification/Spin_Locks.thy ===== *)
theory Spin_Locks
  imports Bench_Loops
begin

text \<open>
  \<^verbatim>\<open>locks/locks.c\<close>: threads increment one global counter under a lock. The spin lock is a word
  that \<^verbatim>\<open>spinlock\<close> sets with a compare-and-swap and \<^verbatim>\<open>spinunlock\<close> clears. Thread \<open>i\<close> locks the word
  \<open>cell i\<close>: the code declares \<^verbatim>\<open>int lock\<close> inside the thread function, so every thread has a
  word of its own (\<open>cell = id\<close>); a lock shared by all threads, like the global \<^verbatim>\<open>olock\<close>, is a
  constant \<open>cell\<close>. The increment \<^verbatim>\<open>counter++\<close> is a read and a write of the memory.
\<close>

section \<open>Steps of the threads\<close>

datatype lock_pc =
    Idle nat
  | Holding nat
  | Loaded nat c_int
  | Releasing nat
  | Broken

record lock_state =
  counter :: c_int
  lock_word :: "nat \<Rightarrow> c_int"
  pcs :: "nat \<Rightarrow> lock_pc"

text \<open>\<^verbatim>\<open>__sync_bool_compare_and_swap(lock, 0, 1)\<close> and \<^verbatim>\<open>*lock = 0\<close>.\<close>

definition try_lock :: "nat \<Rightarrow> lock_state \<Rightarrow> bool \<times> lock_state" where
  "try_lock c s = (if lock_word s c = 0 then (True, s\<lparr>lock_word := (lock_word s)(c := 1)\<rparr>) else (False, s))"

definition spinunlock :: "nat \<Rightarrow> lock_state \<Rightarrow> lock_state" where
  "spinunlock c s = s\<lparr>lock_word := (lock_word s)(c := 0)\<rparr>"

inductive lock_step :: "(nat \<Rightarrow> nat) \<Rightarrow> nat \<Rightarrow> lock_state \<Rightarrow> lock_state \<Rightarrow> bool" for cell n where
  acquire: "i < n \<Longrightarrow> pcs s i = Idle (Suc k) \<Longrightarrow> try_lock (cell i) s = (True, s') \<Longrightarrow>
    lock_step cell n s (s'\<lparr>pcs := (pcs s')(i := Holding k)\<rparr>)"
| spin: "i < n \<Longrightarrow> pcs s i = Idle (Suc k) \<Longrightarrow> try_lock (cell i) s = (False, s') \<Longrightarrow>
    lock_step cell n s s'"
| load: "i < n \<Longrightarrow> pcs s i = Holding k \<Longrightarrow>
    lock_step cell n s (s\<lparr>pcs := (pcs s)(i := Loaded k (counter s))\<rparr>)"
| store: "i < n \<Longrightarrow> pcs s i = Loaded k v \<Longrightarrow> c_incr v = Ret v' \<Longrightarrow>
    lock_step cell n s (s\<lparr>counter := v', pcs := (pcs s)(i := Releasing k)\<rparr>)"
| overflow: "i < n \<Longrightarrow> pcs s i = Loaded k v \<Longrightarrow> c_incr v = Fault e \<Longrightarrow>
    lock_step cell n s (s\<lparr>pcs := (pcs s)(i := Broken)\<rparr>)"
| unlock: "i < n \<Longrightarrow> pcs s i = Releasing k \<Longrightarrow>
    lock_step cell n s ((spinunlock (cell i) s)\<lparr>pcs := (pcs s)(i := Idle k)\<rparr>)"

text \<open>All threads start with \<open>k\<close> rounds to do, the locks free and the counter at 0.\<close>

definition lock_start :: "nat \<Rightarrow> lock_state" where
  "lock_start k = \<lparr>counter = 0, lock_word = (\<lambda>_. 0), pcs = (\<lambda>_. Idle k)\<rparr>"

definition lock_runs :: "(nat \<Rightarrow> nat) \<Rightarrow> nat \<Rightarrow> lock_state \<Rightarrow> lock_state \<Rightarrow> bool" where
  "lock_runs cell n = (lock_step cell n)\<^sup>*\<^sup>*"

fun in_section :: "lock_pc \<Rightarrow> bool" where
  "in_section (Holding k) = True"
| "in_section (Loaded k v) = True"
| "in_section (Releasing k) = True"
| "in_section _ = False"

fun rounds_left :: "lock_pc \<Rightarrow> nat" where
  "rounds_left (Idle k) = k"
| "rounds_left (Holding k) = Suc k"
| "rounds_left (Loaded k v) = Suc k"
| "rounds_left (Releasing k) = k"
| "rounds_left Broken = 0"

section \<open>One shared lock\<close>

definition all_rounds :: "nat \<Rightarrow> lock_state \<Rightarrow> nat" where
  "all_rounds n s = (\<Sum>i<n. rounds_left (pcs s i))"

text \<open>
  With one lock word \<open>c\<close> for all threads: at most one thread is inside and then the word is taken, what
  it read is still the counter, and the counter and the rounds left add up to the total.
\<close>

definition lock_inv :: "nat \<Rightarrow> nat \<Rightarrow> nat \<Rightarrow> lock_state \<Rightarrow> bool" where
  "lock_inv c n tot s \<longleftrightarrow>
     (\<forall>i<n. in_section (pcs s i) \<longrightarrow> lock_word s c \<noteq> 0)
     \<and> (\<forall>i<n. \<forall>j<n. in_section (pcs s i) \<longrightarrow> in_section (pcs s j) \<longrightarrow> i = j)
     \<and> (\<forall>i<n. \<forall>k v. pcs s i = Loaded k v \<longrightarrow> v = counter s)
     \<and> (\<forall>i<n. pcs s i \<noteq> Broken)
     \<and> sint (counter s) + int (all_rounds n s) = int tot \<and> tot \<le> 2147483647"

lemma all_rounds_upd:
  "i < n \<Longrightarrow> rounds_left x + d = rounds_left (pcs s i) \<Longrightarrow>
   (\<Sum>j<n. rounds_left (((pcs s)(i := x)) j)) + d = all_rounds n s"
  using sum_change [of i n "\<lambda>j. rounds_left (((pcs s)(i := x)) j)" "\<lambda>j. rounds_left (pcs s j)"]
  by (simp add: all_rounds_def)

lemma all_rounds_pos: "i < n \<Longrightarrow> rounds_left (pcs s i) \<le> all_rounds n s"
  unfolding all_rounds_def by (intro member_le_sum) auto

lemma lock_start_inv: "n * k \<le> 2147483647 \<Longrightarrow> lock_inv c n (n * k) (lock_start k)"
  by (simp add: lock_inv_def lock_start_def all_rounds_def)

lemma lock_step_inv:
  assumes "lock_step cell n s s'" and "\<And>i. cell i = c" and "lock_inv c n tot s"
  shows "lock_inv c n tot s'"
  using assms(1)
proof cases
  case (acquire i k s1)
  then have s1: "lock_word s c = 0" "s1 = s\<lparr>lock_word := (lock_word s)(c := 1)\<rparr>"
    using assms(2) by (auto simp: try_lock_def split: if_splits)
  then have "\<not> in_section (pcs s j)" if "j < n" for j
    using assms(3) that by (auto simp: lock_inv_def)
  then show ?thesis
    using acquire s1 assms(3) all_rounds_upd [of i n "Holding k" 0 s]
    by (auto simp: lock_inv_def all_rounds_def)
next
  case (spin i k)
  then show ?thesis
    using assms(3) by (auto simp: try_lock_def split: if_splits)
next
  case (load i k)
  then show ?thesis
    using assms(3) all_rounds_upd [of i n "Loaded k (counter s)" 0 s]
    by (auto simp: lock_inv_def all_rounds_def split: if_splits)
next
  case (store i k v v')
  then have v: "v = counter s" and in_i: "in_section (pcs s i)"
    using assms(3) by (auto simp: lock_inv_def)
  then have other: "\<not> in_section (pcs s j)" if "j < n" "j \<noteq> i" for j
    using assms(3) store(2) that by (auto simp: lock_inv_def)
  have r: "(\<Sum>j<n. rounds_left (((pcs s)(i := Releasing k)) j)) + 1 = all_rounds n s"
    using all_rounds_upd [of i n "Releasing k" 1 s] store by simp
  then have "sint (counter s) < INT_MAX"
    using assms(3) by (simp add: lock_inv_def)
  then have "sint v' = sint (counter s) + 1"
    using store(4) v sint_incr [of "counter s"] by (auto simp: c_incr_ok)
  moreover have "sint (counter s) + int (all_rounds n s) = int tot" "tot \<le> 2147483647"
    using assms(3) by (simp_all add: lock_inv_def)
  ultimately have sum: "sint v' + int (\<Sum>j<n. rounds_left (((pcs s)(i := Releasing k)) j)) = int tot"
    using r by linarith
  have "lock_word s c \<noteq> 0" "\<forall>j<n. pcs s j \<noteq> Broken"
    using assms(3) in_i store(2) by (auto simp: lock_inv_def)
  moreover have "in_section (((pcs s)(i := Releasing k)) j) \<longleftrightarrow> j = i" if "j < n" for j
    using other that by simp
  moreover have "((pcs s)(i := Releasing k)) j \<noteq> Loaded k' w" if "j < n" for j k' w
    using other [OF that] by (cases "j = i") auto
  ultimately show ?thesis
    using sum \<open>tot \<le> 2147483647\<close> unfolding lock_inv_def all_rounds_def store(1)
    by (simp del: fun_upd_apply) simp
next
  case (overflow i k v e)
  then have "sint (counter s) = INT_MAX"
    using assms(3) by (auto simp: lock_inv_def c_incr_def split: if_splits)
  moreover have "0 < all_rounds n s"
    using all_rounds_pos [of i n s] overflow by simp
  ultimately show ?thesis
    using assms(3) by (simp add: lock_inv_def)
next
  case (unlock i k)
  then have in_i: "in_section (pcs s i)"
    by simp
  then have other: "\<not> in_section (pcs s j)" if "j < n" "j \<noteq> i" for j
    using assms(3) unlock(2) that by (auto simp: lock_inv_def)
  have "(\<Sum>j<n. rounds_left (((pcs s)(i := Idle k)) j)) = all_rounds n s"
    using all_rounds_upd [of i n "Idle k" 0 s] unlock by simp
  moreover have "sint (counter s) + int (all_rounds n s) = int tot" "tot \<le> 2147483647"
      "\<forall>j<n. pcs s j \<noteq> Broken"
    using assms(3) by (simp_all add: lock_inv_def)
  moreover have "\<not> in_section (((pcs s)(i := Idle k)) j)" if "j < n" for j
    using other that by simp
  moreover have "((pcs s)(i := Idle k)) j \<noteq> Loaded k' w" if "j < n" for j k' w
    using other [OF that] by (cases "j = i") auto
  ultimately show ?thesis
    unfolding lock_inv_def all_rounds_def unlock(1) spinunlock_def by (simp del: fun_upd_apply) simp
qed

lemma lock_runs_inv:
  assumes "lock_runs cell n s s'" and "\<And>i. cell i = c" and "lock_inv c n tot s"
  shows "lock_inv c n tot s'"
  using assms(1) [unfolded lock_runs_def] assms(3)
  by (induction rule: rtranclp_induct) (auto intro: lock_step_inv [OF _ assms(2)])

text \<open>The word is taken only while a thread is inside, so that it never stays taken.\<close>

lemma lock_step_held:
  assumes "lock_step cell n s s'" and "\<And>i. cell i = c" and "lock_inv c n tot s"
    and "lock_word s c \<noteq> 0 \<longrightarrow> (\<exists>i<n. in_section (pcs s i))"
  shows "lock_word s' c \<noteq> 0 \<longrightarrow> (\<exists>i<n. in_section (pcs s' i))"
  using assms(1)
proof cases
  case (acquire i k s1)
  then show ?thesis by auto
next
  case (spin i k)
  then show ?thesis
    using assms(4) by (auto simp: try_lock_def split: if_splits)
next
  case (load i k)
  then show ?thesis by auto
next
  case (store i k v v')
  then show ?thesis by auto
next
  case (overflow i k v e)
  then have "sint (counter s) = INT_MAX"
    using assms(3) by (auto simp: lock_inv_def c_incr_def split: if_splits)
  moreover have "0 < all_rounds n s"
    using all_rounds_pos [of i n s] overflow by simp
  ultimately show ?thesis
    using assms(3) by (simp add: lock_inv_def)
next
  case (unlock i k)
  then show ?thesis
    using assms(2) by (simp add: spinunlock_def)
qed

lemma lock_runs_held:
  assumes "lock_runs cell n s s'" and "\<And>i. cell i = c" and "lock_inv c n tot s"
    and "lock_word s c \<noteq> 0 \<longrightarrow> (\<exists>i<n. in_section (pcs s i))"
  shows "lock_word s' c \<noteq> 0 \<longrightarrow> (\<exists>i<n. in_section (pcs s' i))"
  using assms(1) [unfolded lock_runs_def]
proof (induction rule: rtranclp_induct)
  case base
  then show ?case by (rule assms(4))
next
  case (step s1 s2)
  moreover have "lock_inv c n tot s1"
    using step(1) by (intro lock_runs_inv [OF _ assms(2,3)]) (simp add: lock_runs_def)
  ultimately show ?case
    using lock_step_held [OF step(2) assms(2)] by blast
qed

lemma moves_pc: "lock_step cell n s t \<Longrightarrow> pcs s i \<noteq> x \<Longrightarrow> pcs t = (pcs s)(i := x)
  \<Longrightarrow> \<exists>s'. lock_step cell n s s' \<and> s' \<noteq> s"
  by (metis fun_upd_same)

text \<open>A thread with work to do can make the system move.\<close>

lemma lock_moves:
  assumes "\<And>i. cell i = c" and "lock_inv c n tot s"
    and "lock_word s c \<noteq> 0 \<longrightarrow> (\<exists>i<n. in_section (pcs s i))"
    and "i < n" and "pcs s i \<noteq> Idle 0"
  shows "\<exists>s'. lock_step cell n s s' \<and> s' \<noteq> s"
proof -
  have moves: "\<exists>s'. lock_step cell n s s' \<and> s' \<noteq> s" if "j < n" "in_section (pcs s j)" for j
  proof (cases "pcs s j")
    case (Holding k)
    show ?thesis
      by (rule moves_pc [OF lock_step.load [OF that(1) Holding], where i = j and x = "Loaded k (counter s)"])
        (simp_all add: spinunlock_def Holding)
  next
    case (Loaded k v)
    show ?thesis
    proof (cases "c_incr v")
      case (Ret v')
      show ?thesis
        by (rule moves_pc [OF lock_step.store [OF that(1) Loaded Ret], where i = j and x = "Releasing k"])
          (simp_all add: Loaded)
    next
      case (Fault e)
      show ?thesis
        by (rule moves_pc [OF lock_step.overflow [OF that(1) Loaded Fault], where i = j and x = Broken])
          (simp_all add: Loaded)
    qed (simp add: c_incr_def split: if_splits)
  next
    case (Releasing k)
    show ?thesis
      by (rule moves_pc [OF lock_step.unlock [OF that(1) Releasing], where i = j and x = "Idle k"])
        (simp_all add: spinunlock_def Releasing)
  qed (use that in simp_all)
  show ?thesis
  proof (cases "\<exists>j<n. in_section (pcs s j)")
    case True
    then show ?thesis using moves by blast
  next
    case False
    then have free: "try_lock (cell i) s = (True, s\<lparr>lock_word := (lock_word s)(c := 1)\<rparr>)"
      using assms(1,3) by (auto simp: try_lock_def)
    have "\<not> in_section (pcs s i)" "pcs s i \<noteq> Broken"
      using False assms(2,4) by (auto simp: lock_inv_def)
    then obtain k where "pcs s i = Idle (Suc k)"
      using assms(5) by (cases "pcs s i"; cases "rounds_left (pcs s i)") auto
    from lock_step.acquire [where cell = cell, OF assms(4) this free] show ?thesis
      by (rule moves_pc [where i = i and x = "Holding k"]) (simp_all add: \<open>pcs s i = Idle (Suc k)\<close>)
  qed
qed

section \<open>A lock of its own for every thread\<close>

text \<open>The run in which all threads read the counter before any writes it: after \<open>i\<close> threads have entered
  and read, after \<open>i\<close> have written, and after \<open>i\<close> have left.\<close>

definition entered :: "nat \<Rightarrow> lock_state" where
  "entered i = \<lparr>counter = 0, lock_word = (\<lambda>j. if j < i then 1 else 0),
     pcs = (\<lambda>j. if j < i then Loaded 0 0 else Idle 1)\<rparr>"

definition written :: "nat \<Rightarrow> nat \<Rightarrow> lock_state" where
  "written n i = (entered n)\<lparr>counter := (if i = 0 then 0 else 1),
     pcs := (\<lambda>j. if j < i then Releasing 0 else pcs (entered n) j)\<rparr>"

definition left :: "nat \<Rightarrow> nat \<Rightarrow> lock_state" where
  "left n i = (written n n)\<lparr>lock_word := (\<lambda>j. if i \<le> j \<and> j < n then 1 else 0),
     pcs := (\<lambda>j. if j < i then Idle 0 else pcs (written n n) j)\<rparr>"

lemma below_Suc: "(\<lambda>j. if j < Suc i then x else f j) = (\<lambda>j. if j < i then x else f j)(i := x)"
  by auto

lemma enter_step: "i < n \<Longrightarrow> lock_runs id n (entered i) (entered (Suc i))"
proof -
  assume i: "i < n"
  let ?s1 = "(entered i)\<lparr>lock_word := (lock_word (entered i))(i := 1)\<rparr>"
  let ?s2 = "?s1\<lparr>pcs := (pcs ?s1)(i := Holding 0)\<rparr>"
  have "lock_step id n (entered i) ?s2"
    using i by (intro lock_step.acquire) (auto simp: entered_def try_lock_def)
  moreover have "lock_step id n ?s2 (?s2\<lparr>pcs := (pcs ?s2)(i := Loaded 0 (counter ?s2))\<rparr>)"
    using i by (intro lock_step.load) simp_all
  moreover have "?s2\<lparr>pcs := (pcs ?s2)(i := Loaded 0 (counter ?s2))\<rparr> = entered (Suc i)"
    by (simp add: entered_def below_Suc)
  ultimately show ?thesis
    unfolding lock_runs_def by (metis (no_types, lifting) r_into_rtranclp rtranclp.rtrancl_into_rtrancl)
qed

lemma write_step: "i < n \<Longrightarrow> lock_step id n (written n i) (written n (Suc i))"
proof -
  assume i: "i < n"
  let ?s = "written n i"
  have "pcs ?s i = Loaded 0 0" "c_incr 0 = Ret 1"
    using i by (simp_all add: written_def entered_def c_incr_def)
  from lock_step.store [OF i this] show ?thesis
    by (simp add: written_def below_Suc)
qed

lemma leave_step: "i < n \<Longrightarrow> lock_step id n (left n i) (left n (Suc i))"
proof -
  assume i: "i < n"
  let ?s = "left n i"
  have "pcs ?s i = Releasing 0"
    using i by (simp add: left_def written_def)
  from lock_step.unlock [OF i this, of id] moreover have
    "(spinunlock (id i) ?s)\<lparr>pcs := (pcs ?s)(i := Idle 0)\<rparr> = left n (Suc i)"
    using i by (auto simp: left_def spinunlock_def below_Suc fun_eq_iff)
  ultimately show ?thesis
    by simp
qed

lemma steps_chain:
  assumes "\<And>i. i < n \<Longrightarrow> lock_runs cell m (f i) (f (Suc i))"
  shows "lock_runs cell m (f 0) (f n)"
  using assms
proof (induction n)
  case 0
  then show ?case by (simp add: lock_runs_def)
next
  case (Suc n)
  then have "lock_runs cell m (f 0) (f n)" "lock_runs cell m (f n) (f (Suc n))"
    by auto
  then show ?case
    unfolding lock_runs_def by (rule rtranclp_trans)
qed

lemma step_runs: "lock_step cell n s s' \<Longrightarrow> lock_runs cell n s s'"
  by (simp add: lock_runs_def r_into_rtranclp)

section \<open>Properties\<close>

text \<open>C25: When all threads use one spin lock and \<open>n * k\<close> is an \<^verbatim>\<open>int\<close>, at most one is between \<^verbatim>\<open>spinlock\<close> and
  \<^verbatim>\<open>spinunlock\<close> in every reachable state, the system can move as long as any thread has rounds to do,
  and when all \<open>n\<close> threads have done their \<open>k\<close> rounds the counter is exactly \<open>n * k\<close>.\<close>

theorem shared_lock_counts:
  assumes "lock_runs (\<lambda>_. c) n (lock_start k) s" and "n * k \<le> 2147483647"
  shows "(\<forall>i<n. \<forall>j<n. in_section (pcs s i) \<longrightarrow> in_section (pcs s j) \<longrightarrow> i = j)
    \<and> ((\<exists>i<n. pcs s i \<noteq> Idle 0) \<longrightarrow> (\<exists>s'. lock_step (\<lambda>_. c) n s s' \<and> s' \<noteq> s))
    \<and> ((\<forall>i<n. pcs s i = Idle 0) \<longrightarrow> sint (counter s) = int (n * k))"
proof -
  have inv: "lock_inv c n (n * k) s"
    by (rule lock_runs_inv [OF assms(1) refl lock_start_inv [OF assms(2)]])
  have held: "lock_word s c \<noteq> 0 \<longrightarrow> (\<exists>i<n. in_section (pcs s i))"
    by (rule lock_runs_held [OF assms(1) refl lock_start_inv [OF assms(2)]]) (simp add: lock_start_def)
  have "sint (counter s) = int (n * k)" if "\<forall>i<n. pcs s i = Idle 0"
    using inv that by (simp add: lock_inv_def all_rounds_def)
  then show ?thesis
    using inv lock_moves [OF refl inv held] by (auto simp: lock_inv_def)
qed

theorem shared_lock_counts_witness:
  "\<exists>s'. lock_step (\<lambda>_. 7) 2 (lock_start 3) s' \<and> s' \<noteq> lock_start 3"
proof -
  have "lock_runs (\<lambda>_. 7) 2 (lock_start 3) (lock_start 3)" "pcs (lock_start 3) 1 \<noteq> Idle 0"
    by (simp_all add: lock_runs_def lock_start_def)
  then show ?thesis
    using shared_lock_counts [of 7 2 3 "lock_start 3"] by (auto intro: exI [where x = 1])
qed

text \<open>C26: With a lock word per thread, as \<^verbatim>\<open>int lock\<close> in the thread function makes it, the lock excludes
  nobody: any number of threads can be past their reading of the counter at once, and from there all
  finish their single round with the counter at 1.\<close>

theorem own_locks_lose_updates:
  "\<exists>s s'. lock_runs id (Suc n) (lock_start 1) s \<and> (\<forall>i<Suc n. in_section (pcs s i))
    \<and> lock_runs id (Suc n) s s' \<and> (\<forall>i<Suc n. pcs s' i = Idle 0) \<and> counter s' = 1"
proof (intro exI conjI)
  have "lock_runs id (Suc n) (entered 0) (entered (Suc n))"
    by (rule steps_chain) (rule enter_step)
  moreover have "entered 0 = lock_start 1"
    by (simp add: entered_def lock_start_def)
  ultimately show "lock_runs id (Suc n) (lock_start 1) (entered (Suc n))"
    by simp
  have "lock_runs id (Suc n) (written (Suc n) 0) (written (Suc n) (Suc n))"
    by (rule steps_chain) (rule step_runs [OF write_step])
  moreover have "lock_runs id (Suc n) (left (Suc n) 0) (left (Suc n) (Suc n))"
    by (rule steps_chain) (rule step_runs [OF leave_step])
  moreover have "written (Suc n) 0 = entered (Suc n)" "left (Suc n) 0 = written (Suc n) (Suc n)"
    by (simp_all add: written_def left_def entered_def)
  ultimately show "lock_runs id (Suc n) (entered (Suc n)) (left (Suc n) (Suc n))"
    unfolding lock_runs_def by simp
qed (simp_all add: entered_def left_def written_def)

text \<open>Three threads, at the same time in the section, count to 1.\<close>

lemma own_locks_lose_updates_witness:
  "\<exists>s s'. lock_runs id 3 (lock_start 1) s \<and> in_section (pcs s 0) \<and> in_section (pcs s 1)
    \<and> in_section (pcs s 2) \<and> lock_runs id 3 s s' \<and> counter s' = 1"
proof -
  have "Suc 2 = (3::nat)"
    by simp
  then show ?thesis
    using own_locks_lose_updates [of 2] by (metis less_numeral_extra(1) zero_less_numeral one_less_numeral_iff
        semiring_norm(77) lessI numeral_2_eq_2 numeral_3_eq_3 less_Suc_eq)
qed

end
