(* ===== verification/Lock_Stats.thy ===== *)
theory Lock_Stats
  imports Spin_Locks Summary
begin

text \<open>
  The rest of \<^verbatim>\<open>locks/locks.c\<close>: the seven kinds of increment that \<^verbatim>\<open>worker_handler\<close> times, the statistics it
  computes from the time stamps, which it prints only when \<^verbatim>\<open>NUM_THREADS\<close> is 0, and the rounds of \<^verbatim>\<open>main\<close>, with the threads of a round one after the
  other (their interleavings are in \<open>Spin_Locks\<close>). \<open>N\<close> is \<^verbatim>\<open>NUM_SAMPLES\<close>; the readings of the counter by one
  thread are a stream, of which the first three only serve to measure the empty loop.
\<close>

definition NUM_SAMPLES_lk :: nat where
  "NUM_SAMPLES_lk = 1000001"

definition TOTAL_THREADS_lk :: nat where
  "TOTAL_THREADS_lk = 4"

record lock_globals =
  lk_counter :: c_int
  lk_dequeue_ticks :: ticks

section \<open>The timed operation\<close>

text \<open>
  On the global counter and the local one. A caller alone always gets the mutex, the spin lock and the
  OpenMP lock; the semaphore is used without \<^verbatim>\<open>sem_init\<close>.
\<close>

definition lock_op :: "nat \<Rightarrow> c_int \<times> c_int \<Rightarrow> (c_int \<times> c_int) outcome" where
  "lock_op run cl =
     (if run = 0 then Ret (fst cl + 1, snd cl)
      else if run = 1 then Fault Uninitialised
      else if run = 5 then bindO (c_incr (snd cl)) (\<lambda>l. Ret (fst cl, l))
      else bindO (c_incr (fst cl)) (\<lambda>c. Ret (c, snd cl)))"

section \<open>The statistics\<close>

text \<open>A difference of time stamps less \<^verbatim>\<open>diff_tick_per_iter\<close>, a \<^verbatim>\<open>double\<close> that is 0, back in \<^verbatim>\<open>ticks\<close>.\<close>

definition via_double :: "ticks \<Rightarrow> ticks" where
  "via_double t = of_nat (double_of_nat (unat t))"

primrec stats_loop :: "ticks list \<Rightarrow> nat \<Rightarrow> ticks list \<times> ticks \<times> ticks \<times> ticks
    \<Rightarrow> (ticks list \<times> ticks \<times> ticks \<times> ticks) outcome" where
  "stats_loop ts 0 acc = Ret acc"
| "stats_loop ts (Suc i) acc =
     bindO (stats_loop ts i acc) (\<lambda>(numTicks, totalTicks, tickMax, tickMin).
     bindO (arr_read ts (int (Suc i))) (\<lambda>b.
     bindO (arr_read ts (int i)) (\<lambda>a.
       let t = via_double (b - a) in
       Ret (numTicks @ [t], totalTicks + t, if t > tickMax then t else tickMax, if t < tickMin then t else tickMin))))"

record lock_report =
  lockMin :: ticks
  lockMax :: ticks
  lockAvg :: real
  lockStdDev :: real

definition lock_stats :: "nat \<Rightarrow> ticks list \<Rightarrow> (lock_report \<times> ticks) outcome" where
  "lock_stats n ts =
     bindO (arr_read ts 1) (\<lambda>b.
     bindO (arr_read ts 0) (\<lambda>a.
     bindO (stats_loop ts (n - 1) ([], 0, via_double (b - a), via_double (b - a))) (\<lambda>(numTicks, totalTicks, tickMax, tickMin).
       let tickAverage = real (double_of_nat (unat totalTicks)) / real (n - 1);
           variance = (\<Sum>t\<leftarrow>numTicks. (real (unat t) - tickAverage) ^ 2) / real (n - 1) in
       Ret (\<lparr>lockMin = tickMin, lockMax = tickMax, lockAvg = tickAverage, lockStdDev = sqrt variance\<rparr>,
            totalTicks div of_nat (n - 1)))))"

text \<open>The lines of output: those of a thread, and \<open>Round_line\<close>, the one of \<^verbatim>\<open>main\<close> for a round (the name of its kind, the samples,
  \<^verbatim>\<open>dequeue_ticks/NUM_THREADS\<close> and the threads).\<close>

datatype lock_line =
    Need_line real
  | Loop_line real
  | Samples_line nat
  | Min_line ticks
  | Average_line nat real nat
  | Max_line ticks
  | StdDev_line real
  | Round_line string nat ticks nat

text \<open>\<^verbatim>\<open>if (NUM_THREADS == 0)\<close> guards everything a thread prints.\<close>

definition need_lines :: "nat \<Rightarrow> nat \<Rightarrow> lock_line list" where
  "need_lines nt n = (if nt = 0 then [Need_line (real (8 * n) * 2 / (1024 * 1024 * 1024))] else [])"

definition stats_lines :: "nat \<Rightarrow> nat \<Rightarrow> nat \<Rightarrow> lock_report \<Rightarrow> lock_line list" where
  "stats_lines nt run n r =
     (if nt = 0
      then [Loop_line 0, Samples_line (n - 1), Min_line (lockMin r), Average_line run (lockAvg r) nt, Max_line (lockMax r), StdDev_line (lockStdDev r)]
      else [])"

definition worker_handler_lk :: "nat \<Rightarrow> nat \<Rightarrow> nat \<Rightarrow> (nat \<Rightarrow> ticks) \<Rightarrow> lock_globals \<Rightarrow> (lock_line list \<times> lock_globals) outcome" where
  "worker_handler_lk nt run n clk g =
     bindO (repeat_op (\<lambda>i. lock_op run) n (lk_counter g, 0)) (\<lambda>(c, l).
     bindO (lock_stats n (map (\<lambda>i. clk (3 + i)) [0..<n])) (\<lambda>(r, avg).
       Ret (need_lines nt n @ stats_lines nt run n r, g\<lparr>lk_counter := c, lk_dequeue_ticks := lk_dequeue_ticks g + avg\<rparr>)))"

definition runName :: "nat \<Rightarrow> string" where
  "runName run = [''atomic'', ''semaphor'', ''mutex'', ''spinlock'', ''vanila shared'', ''vanilla unique'', ''omp lock''] ! run"

text \<open>A round of \<open>k\<close> threads, and what it prints.\<close>

definition locks_round :: "nat \<Rightarrow> nat \<Rightarrow> (nat \<Rightarrow> nat \<Rightarrow> ticks) \<Rightarrow> nat \<Rightarrow> lock_globals \<Rightarrow> (lock_line list \<times> lock_globals) outcome" where
  "locks_round run n clks k g =
     bindO (repeat_op (\<lambda>i (out, g). bindO (worker_handler_lk k run n (clks i) g) (\<lambda>(ls, g'). Ret (out @ ls, g'))) k
              ([], g\<lparr>lk_dequeue_ticks := 0\<rparr>)) (\<lambda>(out, g').
       if k = 0 then Fault DivByZero
       else Ret (out @ [Round_line (runName run) (n - 1) (lk_dequeue_ticks g' div of_nat k) k], g'))"

text \<open>\<^verbatim>\<open>main\<close>: rounds with 1, 2, 4, \<open>\<dots>\<close> threads, all of kind 6, between its first and its last line, which are constant.\<close>

function main_locks :: "nat \<Rightarrow> (nat \<Rightarrow> nat \<Rightarrow> nat \<Rightarrow> ticks) \<Rightarrow> nat \<Rightarrow> nat \<Rightarrow> lock_globals \<Rightarrow> (lock_line list \<times> lock_globals) outcome" where
  "main_locks n clks tot k g =
     (if 0 < k \<and> k \<le> tot
      then bindO (locks_round 6 n (clks k) k g) (\<lambda>(lines, g').
           bindO (main_locks n clks tot (k * 2) g') (\<lambda>(out, g''). Ret (lines @ out, g'')))
      else Ret ([], g))"
  by pat_completeness auto
termination
  by (relation "measure (\<lambda>(n, clks, tot, k, g). Suc tot - k)") auto

declare main_locks.simps [simp del]

section \<open>What they compute\<close>

lemma via_double_id: "unat t < 2 ^ 53 \<Longrightarrow> via_double t = t"
  by (simp add: via_double_def double_of_nat_def)

definition steps_of :: "ticks list \<Rightarrow> nat \<Rightarrow> ticks list" where
  "steps_of ts n = map (\<lambda>i. ts ! Suc i - ts ! i) [0..<n]"

lemma steps_of_Suc: "steps_of ts (Suc n) = steps_of ts n @ [ts ! Suc n - ts ! n]"
  by (simp add: steps_of_def)

lemma sum_steps: "sum_list (steps_of ts n) = ts ! n - ts ! 0"
  by (induction n) (simp_all add: steps_of_Suc, simp add: steps_of_def)

lemma stats_loop_ok:
  assumes "n < length ts" and "\<And>i. i < n \<Longrightarrow> unat (ts ! Suc i - ts ! i) < 2 ^ 53"
  shows "stats_loop ts n ([], 0, d, d) =
    Ret (steps_of ts n, sum_list (steps_of ts n), Max (insert d (set (steps_of ts n))), Min (insert d (set (steps_of ts n))))"
  using assms
proof (induction n)
  case 0
  then show ?case by (simp add: steps_of_def)
next
  case (Suc n)
  let ?t = "ts ! Suc n - ts ! n"
  have t: "via_double ?t = ?t"
    using Suc.prems(2) by (intro via_double_id) simp
  have rd: "arr_read ts (int (Suc n)) = Ret (ts ! Suc n)" "arr_read ts (int n) = Ret (ts ! n)"
    using Suc.prems(1) by (intro arr_read_ok; simp)+
  have IH: "stats_loop ts n ([], 0, d, d) = Ret (steps_of ts n, sum_list (steps_of ts n),
      Max (insert d (set (steps_of ts n))), Min (insert d (set (steps_of ts n))))"
    using Suc by simp
  have "Max (insert d (set (steps_of ts (Suc n)))) = max ?t (Max (insert d (set (steps_of ts n))))"
    "Min (insert d (set (steps_of ts (Suc n)))) = min ?t (Min (insert d (set (steps_of ts n))))"
    by (simp_all only: steps_of_Suc set_append list.set Un_insert_right Un_empty_right insert_commute [of d]
        Max_insert Min_insert finite_insert finite_set insert_not_empty not_False_eq_True simp_thms)
  moreover have "(if M < t then t else M) = max t M" "(if t < M then t else M) = min t M" for t M :: ticks
    by (simp_all add: max_def min_def not_less [symmetric]) (metis less_le not_less)+
  ultimately show ?case
    by (simp only: stats_loop.simps IH bindO.simps prod.case rd t Let_def) (simp add: steps_of_Suc)
qed

text \<open>The ideal statistics of a thread's \<open>n\<close> time stamps.\<close>

definition lock_report_of :: "ticks list \<Rightarrow> nat \<Rightarrow> lock_report" where
  "lock_report_of ts n =
     (let ds = steps_of ts (n - 1); avg = real (unat (ts ! (n - 1) - ts ! 0)) / real (n - 1) in
      \<lparr>lockMin = Min (set ds), lockMax = Max (set ds), lockAvg = avg,
       lockStdDev = sqrt ((\<Sum>t\<leftarrow>ds. (real (unat t) - avg) ^ 2) / real (n - 1))\<rparr>)"

lemma lock_stats_ok:
  assumes "2 \<le> n" and "length ts = n" and small: "\<And>i. i < n - 1 \<Longrightarrow> unat (ts ! Suc i - ts ! i) < 2 ^ 53"
    and tot: "unat (ts ! (n - 1) - ts ! 0) < 2 ^ 53"
  shows "lock_stats n ts = Ret (lock_report_of ts n, (ts ! (n - 1) - ts ! 0) div of_nat (n - 1))"
proof -
  let ?d = "ts ! 1 - ts ! 0"
  have rd: "arr_read ts 1 = Ret (ts ! 1)" "arr_read ts 0 = Ret (ts ! 0)"
    using assms(1,2) arr_read_ok [of 1 ts] arr_read_ok [of 0 ts] by auto
  have d: "via_double ?d = ?d"
    using small [of 0] assms(1) by (intro via_double_id) simp
  have "steps_of ts (n - 1) ! 0 = ?d" "0 < length (steps_of ts (n - 1))"
    using assms(1) by (simp_all add: steps_of_def)
  then have "?d \<in> set (steps_of ts (n - 1))"
    by (metis nth_mem)
  then have ins: "insert ?d (set (steps_of ts (n - 1))) = set (steps_of ts (n - 1))"
    by (rule insert_absorb)
  have loop: "stats_loop ts (n - 1) ([], 0, ?d, ?d) = Ret (steps_of ts (n - 1), ts ! (n - 1) - ts ! 0,
      Max (set (steps_of ts (n - 1))), Min (set (steps_of ts (n - 1))))"
    using stats_loop_ok [of "n - 1" ts ?d] small assms(1,2) by (simp only: ins sum_steps)
  have "double_of_nat (unat (ts ! (n - 1) - ts ! 0)) = unat (ts ! (n - 1) - ts ! 0)"
    using tot by (simp add: double_of_nat_def)
  then show ?thesis
    by (simp only: lock_stats_def lock_report_of_def rd bindO.simps d loop prod.case Let_def)
qed

definition plus_rounds :: "nat \<Rightarrow> nat \<Rightarrow> c_int \<Rightarrow> c_int" where
  "plus_rounds run n c = (if run = 5 then c else c + of_nat n)"

lemma sint_plus_nat: "0 \<le> sint c \<Longrightarrow> sint c + int n \<le> INT_MAX \<Longrightarrow> sint (c + of_nat n :: c_int) = sint c + int n"
proof (induction n)
  case (Suc n)
  then have "sint (c + of_nat n + 1) = sint c + int n + 1"
    using sint_incr [of "c + of_nat n"] by simp
  then show ?case
    by (simp add: ac_simps)
qed simp

lemma lock_op_rounds:
  assumes "run \<noteq> 1" and "0 \<le> sint c" and "sint c + int n \<le> INT_MAX"
  shows "repeat_op (\<lambda>i. lock_op run) n (c, 0) = Ret (plus_rounds run n c, if run = 5 then of_nat n else 0)"
  using assms(3)
proof (induction n)
  case 0
  then show ?case by (simp add: plus_rounds_def)
next
  case (Suc n)
  have "sint (c + of_nat n) < INT_MAX" "sint (0 + of_nat n :: c_int) < INT_MAX"
    using Suc.prems assms(2) sint_plus_nat [of c n] sint_plus_nat [of 0 n] by simp_all
  then have "c_incr (c + of_nat n) = Ret (c + of_nat n + 1)" "c_incr (of_nat n) = Ret (of_nat n + 1)"
    using c_incr_ok by simp_all
  then show ?case
    using Suc assms(1) by (simp add: lock_op_def plus_rounds_def ac_simps)
qed

definition readings_ok :: "nat \<Rightarrow> (nat \<Rightarrow> ticks) \<Rightarrow> bool" where
  "readings_ok n clk \<longleftrightarrow> (\<forall>i<n - 1. unat (clk (4 + i) - clk (3 + i)) < 2 ^ 53) \<and> unat (clk (2 + n) - clk 3) < 2 ^ 53"

abbreviation stamps :: "nat \<Rightarrow> (nat \<Rightarrow> ticks) \<Rightarrow> ticks list" where
  "stamps n clk \<equiv> map (\<lambda>i. clk (3 + i)) [0..<n]"

lemma worker_lk_ok:
  assumes "run \<noteq> 1" and "2 \<le> n" and "0 \<le> sint (lk_counter g)" and "sint (lk_counter g) + int n \<le> INT_MAX"
    and "readings_ok n clk"
  shows "worker_handler_lk nt run n clk g = Ret (need_lines nt n @ stats_lines nt run n (lock_report_of (stamps n clk) n),
    g\<lparr>lk_counter := plus_rounds run n (lk_counter g),
      lk_dequeue_ticks := lk_dequeue_ticks g + (clk (2 + n) - clk 3) div of_nat (n - 1)\<rparr>)"
proof -
  have last: "3 + (n - 1) = 2 + n"
    using assms(2) by simp
  have nth: "stamps n clk ! (n - 1) = clk (2 + n)" "stamps n clk ! 0 = clk 3"
    using assms(2) last by simp_all
  have "lock_stats n (stamps n clk) = Ret (lock_report_of (stamps n clk) n, (stamps n clk ! (n - 1) - stamps n clk ! 0) div of_nat (n - 1))"
  proof (rule lock_stats_ok [OF assms(2)])
    fix i assume "i < n - 1"
    then have "i < n" "Suc i < n" "i < n - 1"
      by simp_all
    then show "unat (stamps n clk ! Suc i - stamps n clk ! i) < 2 ^ 53"
      using assms(5) by (simp add: readings_ok_def add.commute)
  next
    show "unat (stamps n clk ! (n - 1) - stamps n clk ! 0) < 2 ^ 53"
      using assms(5) by (simp only: nth readings_ok_def)
  qed simp
  then show ?thesis
    using lock_op_rounds [OF assms(1,3,4)] by (simp only: worker_handler_lk_def bindO.simps prod.case nth)
qed

lemma sint_plus_rounds:
  "0 \<le> sint c \<Longrightarrow> sint c + int n \<le> INT_MAX \<Longrightarrow>
   0 \<le> sint (plus_rounds run n c) \<and> sint (plus_rounds run n c) \<le> sint c + int n"
  by (simp add: plus_rounds_def sint_plus_nat)

lemma rounds_lk_ok:
  assumes "run \<noteq> 1" and "2 \<le> n" and "0 \<le> sint (lk_counter g)" and "\<And>j. j < k \<Longrightarrow> readings_ok n (clks j)"
    and "0 < nt"
  shows "sint (lk_counter g) + int (k * n) \<le> INT_MAX \<Longrightarrow>
    repeat_op (\<lambda>i (out, g). bindO (worker_handler_lk nt run n (clks i) g) (\<lambda>(ls, g'). Ret (out @ ls, g'))) k ([], g) = Ret ([], g\<lparr>lk_counter := plus_rounds run (k * n) (lk_counter g),
      lk_dequeue_ticks := lk_dequeue_ticks g + (\<Sum>j\<leftarrow>[0..<k]. (clks j (2 + n) - clks j 3) div of_nat (n - 1))\<rparr>)"
  using assms(4)
proof (induction k)
  case 0
  then show ?case by (simp add: plus_rounds_def)
next
  case (Suc k)
  let ?c = "plus_rounds run (k * n) (lk_counter g)"
  have b: "sint (lk_counter g) + int (k * n) \<le> INT_MAX"
    using Suc.prems(1) by simp
  then have "0 \<le> sint ?c" "sint ?c + int n \<le> INT_MAX"
    using sint_plus_rounds [OF assms(3) b, of run] Suc.prems(1) by simp_all
  moreover have "plus_rounds run n ?c = plus_rounds run (Suc k * n) (lk_counter g)"
    by (simp add: plus_rounds_def)
  ultimately show ?case
    using Suc.IH [OF b Suc.prems(2)] worker_lk_ok [OF assms(1,2), of "g\<lparr>lk_counter := ?c, lk_dequeue_ticks := d\<rparr>" "clks k" nt for d]
      Suc.prems(2) [of k] assms(5) by (simp add: need_lines_def stats_lines_def)
qed

section \<open>Properties\<close>

text \<open>C33: A thread of the lock benchmark, run alone with any kind of increment but the semaphore: it counts its
  \<^verbatim>\<open>NUM_SAMPLES\<close> rounds on the shared counter (or on its own in kind 5), and adds the mean of the times between consecutive stamps, which is
  the time from the first to the last stamp over their number, rounded down, to \<^verbatim>\<open>dequeue_ticks\<close>. It computes their minimum, maximum, mean
  and standard deviation as well, but prints them, and the memory it needs, only if \<^verbatim>\<open>NUM_THREADS\<close> is 0; with one thread or more, as in every round of
  \<^verbatim>\<open>main\<close>, it prints nothing. With the semaphore it uses uninitialised memory.\<close>

theorem lock_worker_reports:
  assumes "2 \<le> n" and "0 \<le> sint (lk_counter g)" and "sint (lk_counter g) + int n \<le> INT_MAX" and "readings_ok n clk"
    and "r = lock_report_of (stamps n clk) n"
  shows "worker_handler_lk nt run n clk g =
    (if run = 1 then Fault Uninitialised
     else Ret (if nt = 0
       then [Need_line (real (16 * n) / 2 ^ 30), Loop_line 0, Samples_line (n - 1), Min_line (lockMin r), Average_line run (lockAvg r) 0,
         Max_line (lockMax r), StdDev_line (lockStdDev r)] else [],
       g\<lparr>lk_counter := if run = 5 then lk_counter g else lk_counter g + of_nat n,
         lk_dequeue_ticks := lk_dequeue_ticks g + (clk (2 + n) - clk 3) div of_nat (n - 1)\<rparr>))"
proof (cases "run = 1")
  case True
  have "repeat_op (\<lambda>i. lock_op 1) (Suc k) cl = Fault Uninitialised" for k cl
    by (induction k) (simp_all add: lock_op_def)
  then have "repeat_op (\<lambda>i. lock_op 1) n cl = Fault Uninitialised" for cl
    using assms(1) by (cases n) auto
  then show ?thesis
    by (simp only: True worker_handler_lk_def bindO.simps if_True simp_thms)
next
  case False
  then show ?thesis
    using worker_lk_ok [OF False assms(1-4)] by (simp add: plus_rounds_def need_lines_def stats_lines_def assms(5))
qed

theorem lock_worker_reports_witness:
  "worker_handler_lk 2 3 4 (\<lambda>i. of_nat (5 * i)) \<lparr>lk_counter = 6, lk_dequeue_ticks = 100\<rparr>
      = Ret ([], \<lparr>lk_counter = 10, lk_dequeue_ticks = 105\<rparr>)
    \<and> (\<exists>l1 l2 sd. worker_handler_lk 0 3 4 (\<lambda>i. of_nat (5 * i)) \<lparr>lk_counter = 6, lk_dequeue_ticks = 100\<rparr>
      = Ret ([l1, l2, Samples_line 3, Min_line 5, Average_line 3 5 0, Max_line 5, sd], \<lparr>lk_counter = 10, lk_dequeue_ticks = 105\<rparr>))"
proof -
  let ?c = "\<lambda>i. of_nat (5 * i) :: ticks"
  have st: "steps_of (map (\<lambda>i. 15 + 5 * of_nat i) [0..<4]) 3 = [5, 5, 5]"
    by (simp add: eval_nat_numeral steps_of_def)
  have "?c (4 + i) - ?c (3 + i) = 5" "?c (2 + 4) - ?c 3 = 15" for i
    by (simp_all add: algebra_simps)
  then have "readings_ok 4 ?c"
    unfolding readings_ok_def by (simp only:) simp
  then show ?thesis
    using lock_worker_reports [of 4 "\<lparr>lk_counter = 6, lk_dequeue_ticks = 100\<rparr>" ?c _ 2 3, OF _ _ _ _ refl]
      lock_worker_reports [of 4 "\<lparr>lk_counter = 6, lk_dequeue_ticks = 100\<rparr>" ?c _ 0 3, OF _ _ _ _ refl]
    by (simp add: st lock_report_of_def Let_def)
qed

text \<open>C34: The program \<^verbatim>\<open>locks\<close>: starting with the counter at 0, and with the threads of a round one after the
  other (they increment the counter under the OpenMP lock and add to \<^verbatim>\<open>dequeue_ticks\<close> atomically), \<^verbatim>\<open>main\<close> runs rounds of 1, 2 and 4 threads and ends. Between its first and last line it prints one line for each round, with the mean
  over its threads of their mean times, and nothing else: no thread prints its statistics. The counter ends at 7 times
  \<^verbatim>\<open>NUM_SAMPLES\<close>, as it is never reset.\<close>

theorem locks_main_output:
  assumes "2 \<le> n" and "7 * n \<le> 2147483647" and "\<And>k j. readings_ok n (clks k j)" and "lk_counter g = 0"
  shows "\<exists>d. main_locks n clks 4 1 g =
    Ret (map (\<lambda>k. Round_line ''omp lock'' (n - 1) ((\<Sum>j\<leftarrow>[0..<k]. (clks k j (2 + n) - clks k j 3) div of_nat (n - 1)) div of_nat k) k) [1, 2, 4],
         \<lparr>lk_counter = of_nat (7 * n), lk_dequeue_ticks = d\<rparr>)"
proof -
  define total_avg where "total_avg k = (\<Sum>j\<leftarrow>[0..<k]. (clks k j (2 + n) - clks k j 3) div of_nat (n - 1))" for k
  define line where "line k = Round_line ''omp lock'' (n - 1) (total_avg k div of_nat k) k" for k
  have round: "locks_round 6 n (clks k) k \<lparr>lk_counter = of_nat c, lk_dequeue_ticks = d\<rparr>
      = Ret ([line k], \<lparr>lk_counter = of_nat (c + k * n), lk_dequeue_ticks = total_avg k\<rparr>)"
    if k: "0 < k" "c + k * n \<le> 2147483647" for k c d
  proof -
    have c: "sint (of_nat c :: c_int) = int c"
      using k(2) sint_plus_nat [of 0 c] by simp
    have "repeat_op (\<lambda>i (out, g). bindO (worker_handler_lk k 6 n (clks k i) g) (\<lambda>(ls, g'). Ret (out @ ls, g'))) k
          ([], \<lparr>lk_counter = of_nat c, lk_dequeue_ticks = 0\<rparr>)
        = Ret ([], \<lparr>lk_counter = of_nat c + of_nat (k * n), lk_dequeue_ticks = total_avg k\<rparr>)"
      using rounds_lk_ok [of 6 n "\<lparr>lk_counter = of_nat c, lk_dequeue_ticks = 0\<rparr>" k "clks k"] assms(1,3) k c
      by (simp add: plus_rounds_def total_avg_def del: of_nat_mult)
    then show ?thesis
      using k(1) by (simp add: locks_round_def line_def runName_def eval_nat_numeral)
  qed
  have four: "main_locks n clks 4 k g' = (if 0 < k \<and> k \<le> 4
      then bindO (locks_round 6 n (clks k) k g') (\<lambda>(lines, g'').
           bindO (main_locks n clks 4 (k * 2) g'') (\<lambda>(out, g''). Ret (lines @ out, g''))) else Ret ([], g'))" for k g'
    by (rule main_locks.simps)
  obtain d where g: "g = \<lparr>lk_counter = of_nat 0, lk_dequeue_ticks = d\<rparr>"
    using assms(4) by (cases g) simp
  have "main_locks n clks 4 8 g' = Ret ([], g')" for g'
    by (subst four) simp
  then have r4: "main_locks n clks 4 4 \<lparr>lk_counter = of_nat (3 * n), lk_dequeue_ticks = d\<rparr>
      = Ret ([line 4], \<lparr>lk_counter = of_nat (3 * n + 4 * n), lk_dequeue_ticks = total_avg 4\<rparr>)" for d
    using assms(2) by (subst four) (simp add: round del: of_nat_mult of_nat_add of_nat_numeral)
  have r2: "main_locks n clks 4 2 \<lparr>lk_counter = of_nat n, lk_dequeue_ticks = d\<rparr>
      = Ret ([line 2, line 4], \<lparr>lk_counter = of_nat (3 * n + 4 * n), lk_dequeue_ticks = total_avg 4\<rparr>)" for d
    using assms(2) r4 by (subst four) (simp add: round del: of_nat_mult of_nat_add of_nat_numeral)
  have "main_locks n clks 4 1 g = Ret ([line 1, line 2, line 4], \<lparr>lk_counter = of_nat (3 * n + 4 * n), lk_dequeue_ticks = total_avg 4\<rparr>)"
    using assms(2) r2 round [of 1 0 d] by (subst four) (simp add: g del: of_nat_mult of_nat_add of_nat_numeral)
  moreover have "3 * n + 4 * n = 7 * n"
    by simp
  ultimately show ?thesis
    by (simp only: list.map line_def total_avg_def) blast
qed

theorem locks_main_output_witness:
  "\<exists>d. main_locks 3 (\<lambda>k j i. of_nat (5 * i)) 4 1 \<lparr>lk_counter = 0, lk_dequeue_ticks = 9\<rparr>
    = Ret ([Round_line ''omp lock'' 2 5 1, Round_line ''omp lock'' 2 5 2, Round_line ''omp lock'' 2 5 4], \<lparr>lk_counter = 21, lk_dequeue_ticks = d\<rparr>)"
proof -
  let ?c = "\<lambda>i. of_nat (5 * i) :: ticks"
  have d: "?c (4 + i) - ?c (3 + i) = 5" "?c (2 + 3) - ?c 3 = 10" for i
    by (simp_all add: algebra_simps)
  then have "readings_ok 3 ?c"
    unfolding readings_ok_def by (simp only:) simp
  moreover have "[0..<4] = [0, 1, 2, 3::nat]" "[0..<2] = [0, 1::nat]" "[0..<1] = [0::nat]"
    by (simp_all add: eval_nat_numeral)
  ultimately show ?thesis
    using locks_main_output [of 3 "\<lambda>k j. ?c" "\<lparr>lk_counter = 0, lk_dequeue_ticks = 9\<rparr>"]
    by simp
qed

end
