(* ===== verification/Mpi_Main.thy ===== *)
theory Mpi_Main
  imports XTask_Ring Summary
begin

text \<open>
  \<^verbatim>\<open>mpi_queue/main.c\<close>: every process fills its incoming queue; process 0 answers requests, one dequeue
  each, the others send requests and enqueue the count they have reached. The MPI library is not part of
  the repository: what \<^verbatim>\<open>MPI_Recv\<close> delivers is a parameter, \<open>req k\<close> the \<open>k\<close>-th request
  with its source, \<open>reply c\<close> the answer to the request \<open>c\<close>.
\<close>

definition NUM_SAMPLES_mpi :: nat where
  "NUM_SAMPLES_mpi = 16"

definition MAX_SIZE_mpi :: nat where
  "MAX_SIZE_mpi = NUM_SAMPLES_mpi * 1000"

section \<open>Filling the queue\<close>

definition fill_incoming :: "nat \<Rightarrow> nat \<Rightarrow> nat \<Rightarrow> ringbuf \<Rightarrow> ringbuf outcome" where
  "fill_incoming m num_samples world_size q =
     repeat_op (\<lambda>i q. run_state (EnqueueToQ_mpi m (sample i) q)) (num_samples * (world_size - 1)) q"

section \<open>Server and worker\<close>

text \<open>The server after \<open>n\<close> requests: the incoming queue, what it printed, what it sent and to whom.\<close>

record server_state =
  incoming :: ringbuf
  printed :: "atom list"
  sent :: "(nat \<times> c_int) list"

definition answer_request :: "nat \<Rightarrow> c_int \<times> nat \<Rightarrow> server_state \<Rightarrow> server_state outcome" where
  "answer_request m req s =
     (let (cnt, source) = req in
      bindO (DequeueFromQ_mpi m (incoming s)) (\<lambda>(ret, q).
        Ret (s\<lparr>incoming := q, printed := printed s @ [ret], sent := sent s @ [(source, cnt)]\<rparr>)))"

primrec server_loop :: "nat \<Rightarrow> (nat \<Rightarrow> c_int \<times> nat) \<Rightarrow> nat \<Rightarrow> server_state \<Rightarrow> server_state outcome" where
  "server_loop m req 0 s = Ret s"
| "server_loop m req (Suc n) s = bindO (server_loop m req n s) (answer_request m (req n))"

definition server :: "nat \<Rightarrow> nat \<Rightarrow> (nat \<Rightarrow> c_int \<times> nat) \<Rightarrow> nat \<Rightarrow> server_state \<Rightarrow> server_state outcome" where
  "server m num_samples req world_size s = server_loop m req (num_samples * (world_size - 1)) s"

text \<open>The worker's loop ends when the count it was sent back, plus one, has reached the bound.\<close>

definition take_reply :: "nat \<Rightarrow> c_int \<Rightarrow> ringbuf \<Rightarrow> (c_int \<times> ringbuf) outcome" where
  "take_reply m cnt q =
     bindO (c_incr cnt) (\<lambda>cnt'. bindO (run_state (EnqueueToQ_mpi m cnt' q)) (\<lambda>q'. Ret (cnt', q')))"

partial_function (option) worker_loop :: "nat \<Rightarrow> nat \<Rightarrow> (c_int \<Rightarrow> c_int) \<Rightarrow> c_int \<Rightarrow> ringbuf
    \<Rightarrow> ringbuf outcome option" where
  "worker_loop m num_samples reply cnt q =
     (if sint cnt < int num_samples
      then (case take_reply m (reply cnt) q of
              Fault e \<Rightarrow> Some (Fault e)
            | Hang \<Rightarrow> Some Hang
            | Ret (cnt', q') \<Rightarrow> worker_loop m num_samples reply cnt' q')
      else Some (Ret q))"

definition worker :: "nat \<Rightarrow> nat \<Rightarrow> (c_int \<Rightarrow> c_int) \<Rightarrow> ringbuf \<Rightarrow> ringbuf outcome" where
  "worker m num_samples reply q =
     (case worker_loop m num_samples reply 0 q of None \<Rightarrow> Hang | Some r \<Rightarrow> r)"

section \<open>ComputeSummary\<close>

definition SortTicks_mpi :: "sorter \<Rightarrow> ticks list \<Rightarrow> ticks list outcome" where
  "SortTicks_mpi qs numTicks = qs cmpfunc numTicks"

text \<open>The average it prints, an integer quotient; the minimum and maximum are computed and dropped.\<close>

definition ComputeSummary_mpi :: "sorter \<Rightarrow> nat \<Rightarrow> ticks list \<Rightarrow> ticks list \<Rightarrow> ticks outcome" where
  "ComputeSummary_mpi qs n starttimestamp endtimestamp =
     (if length starttimestamp < n \<or> length endtimestamp < n \<or> n = 0 then Fault BadIndex
      else let numTicks = map (\<lambda>i. endtimestamp ! i - starttimestamp ! i) [0..<n];
               totalTicks = sum_list numTicks in
        bindO (SortTicks_mpi qs numTicks) (\<lambda>sorted.
        bindO (arr_read sorted 0) (\<lambda>tickMin.
        bindO (arr_read sorted (int n - 1)) (\<lambda>tickMax.
          Ret (totalTicks div of_nat n)))))"

section \<open>What the loops do\<close>

lemma fill_incoming_ok:
  assumes "ring_inv m q" and "ring_list m q = []" and "k = num_samples * (world_size - 1)"
    and "k \<le> m" and "k \<le> ring_budget q"
  shows "\<exists>q'. fill_incoming m num_samples world_size q = Ret q' \<and> ring_inv m q'
    \<and> ring_list m q' = map sample [0..<k]"
proof -
  have "k \<le> 2147483648"
    using assms(5) ring_invD(4) [OF assms(1)] by (simp add: ring_budget_def)
  then have "\<exists>q'. enq_all (\<lambda>x q. run_state (EnqueueToQ_mpi m x q)) (map sample [0..<k]) q = Ret q'
      \<and> ring_inv m q' \<and> ring_list m q' = map sample [0..<k]"
    using xm.enq_all_ok [of m q "map sample [0..<k]"] assms(1,2,4,5) samples_nonzero [of k] by simp
  moreover have "fill_incoming m num_samples world_size q
      = enq_all (\<lambda>x q. run_state (EnqueueToQ_mpi m x q)) (map sample [0..<k]) q"
    unfolding fill_incoming_def assms(3) by (rule repeat_enq)
  ultimately show ?thesis
    by (simp only:)
qed

text \<open>The server prints what the queue holds, in order, and echoes the requests to their sources.\<close>

lemma server_loop_deq:
  "server_loop m req n s = bindO (deq_n (DequeueFromQ_mpi m) n (incoming s)) (\<lambda>(xs, q).
     Ret (s\<lparr>incoming := q, printed := printed s @ xs,
       sent := sent s @ map (\<lambda>i. (snd (req i), fst (req i))) [0..<n]\<rparr>))"
proof (induction n)
  case 0
  then show ?case by simp
next
  case (Suc n)
  show ?case
  proof (cases "deq_n (DequeueFromQ_mpi m) n (incoming s)")
    case (Ret p)
    then obtain xs q where p: "deq_n (DequeueFromQ_mpi m) n (incoming s) = Ret (xs, q)"
      by (cases p) auto
    show ?thesis
      by (cases "DequeueFromQ_mpi m q"; cases "req n")
        (auto simp: deq_n_snoc Suc p answer_request_def Let_def simp del: deq_n.simps(2))
  qed (simp_all add: deq_n_snoc Suc del: deq_n.simps(2))
qed

text \<open>With an honest server a worker goes through all counts.\<close>

lemma worker_loop_ok:
  assumes "\<And>c. reply c = c" and "n < 2147483648"
  shows "k \<le> n \<Longrightarrow> sint c = int (n - k) \<Longrightarrow> ring_inv m q \<Longrightarrow> length (ring_list m q) + k \<le> m
    \<Longrightarrow> k \<le> ring_budget q \<Longrightarrow> \<exists>q'. worker_loop m n reply c q = Some (Ret q') \<and> ring_inv m q'
      \<and> ring_list m q' = ring_list m q @ map sample [n - k..<n]"
proof (induction k arbitrary: c q)
  case 0
  then show ?case
    by (subst worker_loop.simps) simp
next
  case (Suc k)
  have lt: "sint c < INT_MAX" "sint c < int n"
    using Suc.prems(1,2) assms(2) by linarith+
  have c: "c_incr (reply c) = Ret (c + 1)" "sint (c + 1) = int (n - k)"
    using lt Suc.prems(1,2) by (simp_all add: assms(1) c_incr_ok sint_incr)
  have "c = word_of_int (sint c)"
    by simp
  also have "\<dots> = of_nat (n - Suc k)"
    unfolding Suc.prems(2) by simp
  finally have s: "c + 1 = sample (n - Suc k)"
    by (simp add: sample_def)
  have "c + 1 \<noteq> 0"
    unfolding s using Suc.prems(1) assms(2) by (intro sample_nonzero) simp
  then obtain q1 where q1: "run_state (EnqueueToQ_mpi m (c + 1) q) = Ret q1" "ring_inv m q1"
      "ring_list m q1 = ring_list m q @ [c + 1]" "ring_budget q \<le> Suc (ring_budget q1)"
    using xm.enq_room [of m q "c + 1"] Suc.prems(3-5) by auto
  then obtain q' where "worker_loop m n reply (c + 1) q1 = Some (Ret q')" "ring_inv m q'"
      "ring_list m q' = ring_list m q1 @ map sample [n - k..<n]"
    using Suc.IH [of "c + 1" q1] Suc.prems(1,4,5) c(2) by auto
  moreover have "[n - Suc k..<n] = (n - Suc k) # [n - k..<n]"
    using Suc.prems(1) by (simp add: upt_conv_Cons Suc_diff_Suc)
  ultimately show ?case
    using lt(2) c(1) q1(1,3) s by (subst worker_loop.simps) (simp add: take_reply_def)
qed

section \<open>Properties\<close>

text \<open>A process that has filled its incoming queue and then serves \<^verbatim>\<open>NUM_SAMPLES\<close> requests of each of
  the other processes prints the elements \<open>1, 2, \<dots>\<close> in order, leaves the queue empty and has returned
  every count to the process it came from; a worker whose counts come back unchanged returns with
  \<open>1, \<dots>\<close>, \<^verbatim>\<open>NUM_SAMPLES\<close> in its results.\<close>

theorem server_and_worker:
  assumes "0 < m" and "length mem = m" and "InitXTaskQueue_mpi m mem q0 = Ret q"
    and "n * (ws - 1) \<le> m" and "n \<le> m" and "m \<le> 2147483647"
  shows "(\<exists>q1 q2. fill_incoming m n ws q = Ret q1
      \<and> server m n req ws \<lparr>incoming = q1, printed = [], sent = []\<rparr>
        = Ret \<lparr>incoming = q2, printed = map sample [0..<n * (ws - 1)],
            sent = map (\<lambda>i. (snd (req i), fst (req i))) [0..<n * (ws - 1)]\<rparr>
      \<and> ring_list m q2 = [])
    \<and> (\<exists>q'. worker m n (\<lambda>c. c) q = Ret q' \<and> ring_list m q' = map sample [0..<n])"
proof
  note new = init_xtask [OF assms(1-3)]
  obtain q1 where q1: "fill_incoming m n ws q = Ret q1" "ring_inv m q1" "ring_list m q1 = map sample [0..<n * (ws - 1)]"
    using fill_incoming_ok [of m q "n * (ws - 1)" n ws] new assms(4,6) by auto
  obtain q2 where "deq_n (DequeueFromQ_mpi m) (n * (ws - 1)) q1 = Ret (ring_list m q1, q2)" "ring_list m q2 = []"
    using xm.deq_some [OF q1(2), of "n * (ws - 1)"] q1(3) by auto
  then show "\<exists>q1 q2. fill_incoming m n ws q = Ret q1
      \<and> server m n req ws \<lparr>incoming = q1, printed = [], sent = []\<rparr>
        = Ret \<lparr>incoming = q2, printed = map sample [0..<n * (ws - 1)],
            sent = map (\<lambda>i. (snd (req i), fst (req i))) [0..<n * (ws - 1)]\<rparr>
      \<and> ring_list m q2 = []"
    using q1 by (auto simp: server_def server_loop_deq)
next
  note new = init_xtask [OF assms(1-3)]
  have "n < 2147483648"
    using assms(5,6) by simp
  from worker_loop_ok [where reply = "\<lambda>c. c", OF refl this, of n 0 m q] obtain q' where "worker_loop m n (\<lambda>c. c) 0 q = Some (Ret q')"
      "ring_list m q' = map sample [0..<n]"
    using new assms(5,6) by auto
  then show "\<exists>q'. worker m n (\<lambda>c. c) q = Ret q' \<and> ring_list m q' = map sample [0..<n]"
    by (simp add: worker_def)
qed

theorem server_and_worker_witness:
  "\<exists>q1 q2. fill_incoming 4 2 3 \<lparr>head = - 1, tail = - 1, data = [0, 0, 0, 0]\<rparr> = Ret q1
    \<and> server 4 2 (\<lambda>i. (of_nat (i div 2), if even i then 7 else 8)) 3 \<lparr>incoming = q1, printed = [], sent = []\<rparr>
      = Ret \<lparr>incoming = q2, printed = [1, 2, 3, 4], sent = [(7, 0), (8, 0), (7, 1), (8, 1)]\<rparr>"
proof -
  have "InitXTaskQueue_mpi 4 [8, 8, 8, 8] \<lparr>head = 0, tail = 0, data = []\<rparr>
      = Ret \<lparr>head = - 1, tail = - 1, data = [0, 0, 0, 0]\<rparr>"
    by (simp add: InitXTaskQueue_mpi_def eval_nat_numeral arr_write_def)
  moreover have "map sample [0..<4] = [1, 2, 3, 4]" "[0..<4] = [0, 1, 2, 3]"
    by (simp_all add: sample_def eval_nat_numeral)
  ultimately show ?thesis
    using server_and_worker [of 4 "[8, 8, 8, 8]" "\<lparr>head = 0, tail = 0, data = []\<rparr>"
        "\<lparr>head = - 1, tail = - 1, data = [0, 0, 0, 0]\<rparr>" 2 3 "\<lambda>i. (of_nat (i div 2), if even i then 7 else 8)"]
    by simp blast
qed

end
