(* ===== verification/Mpi_System.thy ===== *)
theory Mpi_System
  imports Mpi_Main
begin

text \<open>
  All processes of \<^verbatim>\<open>mpi_queue/main.c\<close> together, from the barrier on: the server, process 0, and \<open>n\<close>
  workers that exchange messages with it. A step is what one process does between two communications.
  \<^verbatim>\<open>MPI_Send\<close> is buffered and \<^verbatim>\<open>MPI_Recv\<close> with \<^verbatim>\<open>MPI_ANY_SOURCE\<close> takes the pending
  request of any worker, so the order of the steps is the scheduler's and the network's. A worker waits for
  its reply before it sends again: at most one message per direction is pending.
\<close>

section \<open>Steps\<close>

datatype worker_pc = Ready c_int | Waiting | Finished

record mpi_state =
  handled :: nat
  server_side :: server_state
  requests :: "nat \<Rightarrow> c_int option"
  replies :: "nat \<Rightarrow> c_int option"
  workers :: "nat \<Rightarrow> worker_pc"
  results :: "nat \<Rightarrow> ringbuf"
  failed :: bool

inductive mpi_step :: "nat \<Rightarrow> nat \<Rightarrow> nat \<Rightarrow> mpi_state \<Rightarrow> mpi_state \<Rightarrow> bool" for m ns n where
  request: "w < n \<Longrightarrow> workers s w = Ready c \<Longrightarrow> sint c < int ns \<Longrightarrow>
    mpi_step m ns n s (s\<lparr>requests := (requests s)(w \<mapsto> c), workers := (workers s)(w := Waiting)\<rparr>)"
| finish: "w < n \<Longrightarrow> workers s w = Ready c \<Longrightarrow> \<not> sint c < int ns \<Longrightarrow>
    mpi_step m ns n s (s\<lparr>workers := (workers s)(w := Finished)\<rparr>)"
| answer: "w < n \<Longrightarrow> handled s < ns * n \<Longrightarrow> requests s w = Some c \<Longrightarrow>
    answer_request m (c, Suc w) (server_side s) = Ret side \<Longrightarrow>
    mpi_step m ns n s (s\<lparr>handled := Suc (handled s), server_side := side,
      requests := (requests s)(w := None), replies := (replies s)(w \<mapsto> c)\<rparr>)"
| answer_fails: "w < n \<Longrightarrow> handled s < ns * n \<Longrightarrow> requests s w = Some c \<Longrightarrow>
    \<nexists>side. answer_request m (c, Suc w) (server_side s) = Ret side \<Longrightarrow>
    mpi_step m ns n s (s\<lparr>failed := True\<rparr>)"
| reply: "w < n \<Longrightarrow> workers s w = Waiting \<Longrightarrow> replies s w = Some c \<Longrightarrow>
    take_reply m c (results s w) = Ret (c', q) \<Longrightarrow>
    mpi_step m ns n s (s\<lparr>replies := (replies s)(w := None), results := (results s)(w := q),
      workers := (workers s)(w := Ready c')\<rparr>)"
| reply_fails: "w < n \<Longrightarrow> workers s w = Waiting \<Longrightarrow> replies s w = Some c \<Longrightarrow>
    \<nexists>p. take_reply m c (results s w) = Ret p \<Longrightarrow>
    mpi_step m ns n s (s\<lparr>failed := True\<rparr>)"

text \<open>At the barrier the server holds its filled queue \<open>q\<close>, worker \<open>w\<close> its empty results \<open>rs w\<close>.\<close>

definition mpi_start :: "ringbuf \<Rightarrow> (nat \<Rightarrow> ringbuf) \<Rightarrow> mpi_state" where
  "mpi_start q rs = \<lparr>handled = 0, server_side = \<lparr>incoming = q, printed = [], sent = []\<rparr>,
     requests = (\<lambda>_. None), replies = (\<lambda>_. None), workers = (\<lambda>_. Ready 0), results = rs, failed = False\<rparr>"

section \<open>The invariant\<close>

definition received :: "nat \<Rightarrow> mpi_state \<Rightarrow> nat \<Rightarrow> nat" where
  "received m s w = length (ring_list m (results s w))"

definition answered :: "nat \<Rightarrow> mpi_state \<Rightarrow> nat \<Rightarrow> nat" where
  "answered m s w = received m s w + (if replies s w = None then 0 else 1)"

text \<open>Steps worker \<open>w\<close> and the server still have to do for it.\<close>

definition remaining :: "nat \<Rightarrow> nat \<Rightarrow> mpi_state \<Rightarrow> nat \<Rightarrow> nat" where
  "remaining m ns s w =
     (case workers s w of
        Ready c \<Rightarrow> 3 * (ns - received m s w) + 1
      | Waiting \<Rightarrow> 3 * (ns - received m s w) - (if replies s w = None then 0 else 1)
      | Finished \<Rightarrow> 0)"

definition worker_inv :: "nat \<Rightarrow> nat \<Rightarrow> mpi_state \<Rightarrow> nat \<Rightarrow> bool" where
  "worker_inv m ns s w \<longleftrightarrow>
     received m s w \<le> ns \<and> ring_inv m (results s w)
     \<and> ring_list m (results s w) = map sample [0..<received m s w]
     \<and> ns \<le> received m s w + ring_budget (results s w)
     \<and> (case workers s w of
          Ready c \<Rightarrow> sint c = int (received m s w) \<and> requests s w = None \<and> replies s w = None
        | Waiting \<Rightarrow> received m s w < ns \<and> (\<exists>c. sint c = int (received m s w)
            \<and> (requests s w = Some c \<and> replies s w = None \<or> requests s w = None \<and> replies s w = Some c))
        | Finished \<Rightarrow> received m s w = ns \<and> requests s w = None \<and> replies s w = None)"

definition server_inv :: "nat \<Rightarrow> nat \<Rightarrow> nat \<Rightarrow> mpi_state \<Rightarrow> bool" where
  "server_inv m ns n s \<longleftrightarrow>
     handled s = (\<Sum>w<n. answered m s w) \<and> ring_inv m (incoming (server_side s))
     \<and> ring_list m (incoming (server_side s)) = map sample [handled s..<ns * n]
     \<and> printed (server_side s) = map sample [0..<handled s]"

definition mpi_inv :: "nat \<Rightarrow> nat \<Rightarrow> nat \<Rightarrow> mpi_state \<Rightarrow> bool" where
  "mpi_inv m ns n s \<longleftrightarrow> (\<forall>w<n. worker_inv m ns s w) \<and> server_inv m ns n s \<and> \<not> failed s"

lemmas worker_defs = worker_inv_def received_def answered_def remaining_def

text \<open>The worker's share of a state, and the sums over the workers when only one has moved.\<close>

lemma other_worker:
  assumes "workers s' w = workers s w" and "requests s' w = requests s w" and "replies s' w = replies s w"
    and "results s' w = results s w"
  shows "worker_inv m ns s' w = worker_inv m ns s w" "answered m s' w = answered m s w"
    "remaining m ns s' w = remaining m ns s w"
proof -
  have "received m s' w = received m s w"
    using assms(4) by (simp add: received_def)
  then show "worker_inv m ns s' w = worker_inv m ns s w" "answered m s' w = answered m s w"
    "remaining m ns s' w = remaining m ns s w"
    by (simp_all only: worker_inv_def answered_def remaining_def assms)
qed

lemma worker_inv_bounds:
  assumes "worker_inv m ns s w"
  shows "answered m s w \<le> ns" "requests s w \<noteq> None \<Longrightarrow> answered m s w < ns"
  using assms by (auto simp: worker_inv_def answered_def split: worker_pc.splits)

lemma mpi_move:
  assumes inv: "mpi_inv m ns n s" and w: "w < n"
    and others: "\<And>v. v \<noteq> w \<Longrightarrow> workers s' v = workers s v" "\<And>v. v \<noteq> w \<Longrightarrow> requests s' v = requests s v"
      "\<And>v. v \<noteq> w \<Longrightarrow> replies s' v = replies s v" "\<And>v. v \<noteq> w \<Longrightarrow> results s' v = results s v"
    and wi: "worker_inv m ns s' w" and rem: "Suc (remaining m ns s' w) = remaining m ns s w"
    and cnt: "handled s' + answered m s w = handled s + answered m s' w"
    and side: "ring_inv m (incoming (server_side s'))"
      "ring_list m (incoming (server_side s')) = map sample [handled s'..<ns * n]"
      "printed (server_side s') = map sample [0..<handled s']" and nf: "\<not> failed s'"
  shows "mpi_inv m ns n s' \<and> Suc (\<Sum>v<n. remaining m ns s' v) = (\<Sum>v<n. remaining m ns s v)"
proof -
  note same = other_worker [OF others(1) others(2) others(3) others(4)]
  have "worker_inv m ns s' v" if "v < n" for v
    using inv that wi same(1) by (cases "v = w") (auto simp: mpi_inv_def)
  moreover have "handled s' = (\<Sum>v<n. answered m s' v)"
    using sum_change [OF w, of "answered m s'" "answered m s"] same(2) cnt inv
    by (simp add: mpi_inv_def server_inv_def)
  moreover have "(\<Sum>v<n. remaining m ns s' v) + remaining m ns s w = (\<Sum>v<n. remaining m ns s v) + remaining m ns s' w"
    using sum_change [OF w, of "remaining m ns s'" "remaining m ns s"] same(3) by simp
  ultimately show ?thesis
    using side nf rem by (simp add: mpi_inv_def server_inv_def)
qed

text \<open>What the queue operations give a worker and the server that satisfy the invariant.\<close>

lemma answer_request_ok:
  assumes "mpi_inv m ns n s" and "handled s < ns * n"
  shows "\<exists>q. answer_request m (c, v) (server_side s)
      = Ret \<lparr>incoming = q, printed = printed (server_side s) @ [sample (handled s)],
             sent = sent (server_side s) @ [(v, c)]\<rparr>
    \<and> ring_inv m q \<and> ring_list m q = map sample [Suc (handled s)..<ns * n]"
proof -
  have inv: "ring_inv m (incoming (server_side s))"
      "ring_list m (incoming (server_side s)) = sample (handled s) # map sample [Suc (handled s)..<ns * n]"
    using assms by (simp_all add: mpi_inv_def server_inv_def upt_conv_Cons)
  from xm.deq_law [OF inv] obtain q where "DequeueFromQ_mpi m (incoming (server_side s)) = Ret (sample (handled s), q)"
      "ring_inv m q" "ring_list m q = map sample [Suc (handled s)..<ns * n]"
    by blast
  then show ?thesis
    by (cases "server_side s") (simp add: answer_request_def)
qed

lemma take_reply_ok:
  assumes "worker_inv m ns s w" and "received m s w < ns" and "sint c = int (received m s w)"
    and "ns \<le> m" and "ns < 2147483648"
  shows "\<exists>q. take_reply m c (results s w) = Ret (c + 1, q) \<and> sint (c + 1) = int (Suc (received m s w))
    \<and> ring_inv m q \<and> ring_list m q = map sample [0..<Suc (received m s w)] \<and> ring_budget (results s w) \<le> Suc (ring_budget q)"
proof -
  let ?k = "received m s w" and ?q = "results s w"
  have q: "ring_inv m ?q" "ring_list m ?q = map sample [0..<?k]" "0 < ring_budget ?q" "length (ring_list m ?q) < m"
    using assms(1,2,4) by (auto simp: worker_inv_def received_def)
  have lt: "sint c < INT_MAX"
    using assms(2,3,5) by linarith
  have "c = word_of_int (sint c)"
    by simp
  then have "c + 1 = sample ?k"
    using assms(3) by (simp add: sample_def)
  moreover have "sample ?k \<noteq> 0"
    using assms(2,5) by (intro sample_nonzero) simp
  ultimately obtain q where "run_state (EnqueueToQ_mpi m (c + 1) ?q) = Ret q" "ring_inv m q"
      "ring_list m q = ring_list m ?q @ [sample ?k]" "ring_budget ?q \<le> Suc (ring_budget q)"
    using xm.enq_room [OF q(1,4,3), of "c + 1"] by auto
  then show ?thesis
    using lt assms(3) q(2) by (simp add: take_reply_def c_incr_ok sint_incr)
qed

section \<open>Every step keeps the invariant and is one step nearer to the end\<close>

lemma mpi_step_inv:
  assumes st: "mpi_step m ns n s s'" and inv: "mpi_inv m ns n s" and b: "ns \<le> m" "ns < 2147483648"
  shows "mpi_inv m ns n s' \<and> Suc (\<Sum>v<n. remaining m ns s' v) = (\<Sum>v<n. remaining m ns s v)"
  using st
proof cases
  case (request w c)
  have wi: "worker_inv m ns s w"
    using inv request(2) by (simp add: mpi_inv_def)
  have srv: "server_inv m ns n s" "\<not> failed s"
    using inv by (simp_all add: mpi_inv_def)
  show ?thesis
  proof (rule mpi_move [OF inv request(2)])
    show "worker_inv m ns s' w" "Suc (remaining m ns s' w) = remaining m ns s w"
      "handled s' + answered m s w = handled s + answered m s' w"
      using wi request by (simp_all add: worker_defs)
  qed (use request srv in \<open>simp_all add: server_inv_def\<close>)
next
  case (finish w c)
  have wi: "worker_inv m ns s w"
    using inv finish(2) by (simp add: mpi_inv_def)
  then have r: "received m s w = ns" "received m s' w = ns"
    using finish by (auto simp: worker_inv_def received_def)
  have srv: "server_inv m ns n s" "\<not> failed s"
    using inv by (simp_all add: mpi_inv_def)
  show ?thesis
  proof (rule mpi_move [OF inv finish(2)])
    show "worker_inv m ns s' w" "Suc (remaining m ns s' w) = remaining m ns s w"
      "handled s' + answered m s w = handled s + answered m s' w"
      using wi finish r by (simp_all add: worker_inv_def answered_def remaining_def)
  qed (use finish srv in \<open>simp_all add: server_inv_def\<close>)
next
  case (answer w c side)
  have wi: "worker_inv m ns s w"
    using inv answer(2) by (simp add: mpi_inv_def)
  then have wt: "workers s w = Waiting" "replies s w = None"
    using answer(4) by (auto simp: worker_inv_def split: worker_pc.splits)
  obtain q where side: "side = \<lparr>incoming = q, printed = printed (server_side s) @ [sample (handled s)],
        sent = sent (server_side s) @ [(Suc w, c)]\<rparr>"
      and q: "ring_inv m q" "ring_list m q = map sample [Suc (handled s)..<ns * n]"
    using answer_request_ok [OF inv answer(3), of c "Suc w"] answer(5) by auto
  have srv: "printed (server_side s) = map sample [0..<handled s]" "\<not> failed s"
    using inv by (simp_all add: mpi_inv_def server_inv_def)
  show ?thesis
  proof (rule mpi_move [OF inv answer(2)])
    show "worker_inv m ns s' w" "Suc (remaining m ns s' w) = remaining m ns s w"
      "handled s' + answered m s w = handled s + answered m s' w"
      using wi answer wt by (simp_all add: worker_defs)
  qed (use answer side q srv in simp_all)
next
  case (answer_fails w c)
  then show ?thesis
    using answer_request_ok [OF inv answer_fails(3), of c "Suc w"] by auto
next
  case (reply w c c' q)
  have wi: "worker_inv m ns s w"
    using inv reply(2) by (simp add: mpi_inv_def)
  then have c: "received m s w < ns" "sint c = int (received m s w)" "requests s w = None"
    using reply by (auto simp: worker_inv_def)
  from take_reply_ok [OF wi c(1,2) b] reply(5) have q: "sint c' = int (Suc (received m s w))" "ring_inv m q"
      "ring_list m q = map sample [0..<Suc (received m s w)]" "ring_budget (results s w) \<le> Suc (ring_budget q)"
    by auto
  have srv: "server_inv m ns n s" "\<not> failed s"
    using inv by (simp_all add: mpi_inv_def)
  have r: "received m s' w = Suc (received m s w)"
    using reply(1) q(3) by (simp add: received_def)
  show ?thesis
  proof (rule mpi_move [OF inv reply(2)])
    show "worker_inv m ns s' w" "Suc (remaining m ns s' w) = remaining m ns s w"
      "handled s' + answered m s w = handled s + answered m s' w"
      using wi c q reply r by (simp_all add: worker_inv_def answered_def remaining_def)
  qed (use reply srv in \<open>simp_all add: server_inv_def\<close>)
next
  case (reply_fails w c)
  have wi: "worker_inv m ns s w"
    using inv reply_fails(2) by (simp add: mpi_inv_def)
  then have "received m s w < ns" "sint c = int (received m s w)"
    using reply_fails by (auto simp: worker_inv_def)
  then show ?thesis
    using take_reply_ok [OF wi _ _ b] reply_fails(5) by blast
qed

lemma mpi_progress:
  assumes inv: "mpi_inv m ns n s" and b: "ns \<le> m" "ns < 2147483648" and w: "w < n" and u: "workers s w \<noteq> Finished"
  shows "\<exists>s'. mpi_step m ns n s s'"
proof (cases "workers s w")
  case (Ready c)
  then show ?thesis
    using mpi_step.request [OF w Ready, of ns m] mpi_step.finish [OF w Ready, of ns m] by blast
next
  case Waiting
  have wi: "worker_inv m ns s w"
    using inv w by (simp add: mpi_inv_def)
  then obtain c where c: "received m s w < ns" "sint c = int (received m s w)"
      "requests s w = Some c \<or> replies s w = Some c"
    using Waiting by (auto simp: worker_inv_def)
  show ?thesis
  proof (cases "requests s w")
    case None
    then obtain c' q where "take_reply m c (results s w) = Ret (c', q)" "replies s w = Some c"
      using take_reply_ok [OF wi c(1,2) b] c(3) by auto
    then show ?thesis
      using mpi_step.reply [OF w Waiting] by blast
  next
    case (Some c')
    have "handled s < ns * n"
    proof -
      have "answered m s v \<le> ns" if "v < n" for v
        using inv that worker_inv_bounds(1) by (simp add: mpi_inv_def)
      moreover have "answered m s w < ns"
        using worker_inv_bounds(2) [OF wi] Some by simp
      ultimately have "(\<Sum>v<n. answered m s v) < (\<Sum>v<n. ns)"
        using w by (intro sum_strict_mono_ex1) auto
      then show ?thesis
        using inv by (simp add: mpi_inv_def server_inv_def mult.commute)
    qed
    then obtain side where "answer_request m (c', Suc w) (server_side s) = Ret side"
      using answer_request_ok [OF inv, of c' "Suc w"] by auto
    then show ?thesis
      using mpi_step.answer [OF w \<open>handled s < ns * n\<close> Some] by blast
  qed
qed (use u in simp)

lemma mpi_start_inv:
  assumes "ring_inv m q" and "ring_list m q = map sample [0..<ns * n]"
    and "\<And>w. w < n \<Longrightarrow> ring_inv m (rs w) \<and> ring_list m (rs w) = [] \<and> ns \<le> ring_budget (rs w)"
  shows "mpi_inv m ns n (mpi_start q rs)" "(\<Sum>w<n. remaining m ns (mpi_start q rs) w) = n * (3 * ns + 1)"
proof -
  have "received m (mpi_start q rs) w = 0" if "w < n" for w
    using assms(3) [OF that] by (simp add: received_def mpi_start_def)
  then show "(\<Sum>w<n. remaining m ns (mpi_start q rs) w) = n * (3 * ns + 1)"
    and "mpi_inv m ns n (mpi_start q rs)"
    using assms by (simp_all add: mpi_inv_def worker_inv_def server_inv_def answered_def remaining_def mpi_start_def)
qed

lemma mpi_steps_inv:
  assumes b: "ns \<le> m" "ns < 2147483648" and inv: "mpi_inv m ns n s"
  shows "(mpi_step m ns n ^^ k) s s' \<Longrightarrow>
    mpi_inv m ns n s' \<and> k + (\<Sum>v<n. remaining m ns s' v) = (\<Sum>v<n. remaining m ns s v)"
proof (induction k arbitrary: s')
  case 0
  then show ?case
    using inv by simp
next
  case (Suc k)
  then obtain t where "(mpi_step m ns n ^^ k) s t" "mpi_step m ns n t s'"
    by auto
  with Suc.IH [of t] mpi_step_inv [OF _ _ b] show ?case
    by fastforce
qed

lemma remaining_zero: "worker_inv m ns s w \<Longrightarrow> remaining m ns s w = 0 \<longleftrightarrow> workers s w = Finished"
  by (cases "workers s w") (auto simp: remaining_def worker_inv_def)

section \<open>Properties\<close>

text \<open>All processes together, one server with its filled queue and \<open>n\<close> workers: whatever the order of
  the messages, every run makes exactly \<open>n * (3 * NUM_SAMPLES + 1)\<close> steps. No operation fails on the way,
  what the server has printed is always the sequence \<open>1, 2, \<dots>\<close>, one element for each request; only when
  all workers have finished is there no step left, and then the server has printed all its elements and
  every worker holds \<open>1, \<dots>\<close>, \<^verbatim>\<open>NUM_SAMPLES\<close>.\<close>

theorem mpi_system_completes:
  assumes "0 < m" and "length mem = m" and "InitXTaskQueue_mpi m mem q0 = Ret r" and "fill_incoming m ns (Suc n) r = Ret q"
    and "ns * n \<le> m" and "ns \<le> m" and "m \<le> 2147483647" and "(mpi_step m ns n ^^ k) (mpi_start q (\<lambda>_. r)) s"
  shows "\<not> failed s \<and> printed (server_side s) = map sample [0..<handled s] \<and> k \<le> n * (3 * ns + 1)
    \<and> (k < n * (3 * ns + 1) \<longleftrightarrow> (\<exists>s'. mpi_step m ns n s s'))
    \<and> (k = n * (3 * ns + 1) \<longrightarrow> handled s = ns * n
        \<and> (\<forall>w<n. workers s w = Finished \<and> ring_list m (results s w) = map sample [0..<ns]))"
proof -
  note new = init_xtask [OF assms(1-3)]
  have q: "ring_inv m q" "ring_list m q = map sample [0..<ns * n]"
    using fill_incoming_ok [of m r "ns * n" ns "Suc n"] new assms(4,5,7) by auto
  have "ring_inv m r \<and> ring_list m r = [] \<and> ns \<le> ring_budget r"
    using new assms(6,7) by simp
  note start = mpi_start_inv [OF q, of "\<lambda>_. r", OF this]
  have b: "ns < 2147483648"
    using assms(6,7) by simp
  note run = mpi_steps_inv [OF assms(6) b start(1) assms(8)]
  have wi: "worker_inv m ns s w" if "w < n" for w
    using run that by (simp add: mpi_inv_def)
  have sum: "k + (\<Sum>w<n. remaining m ns s w) = n * (3 * ns + 1)"
    using run start(2) by simp
  show ?thesis
  proof (intro conjI impI)
    show "\<not> failed s" "printed (server_side s) = map sample [0..<handled s]" "k \<le> n * (3 * ns + 1)"
      using run sum by (simp_all add: mpi_inv_def server_inv_def)
    show "k < n * (3 * ns + 1) \<longleftrightarrow> (\<exists>s'. mpi_step m ns n s s')"
    proof
      assume "k < n * (3 * ns + 1)"
      then have "(\<Sum>w<n. remaining m ns s w) \<noteq> 0"
        using sum by linarith
      then obtain w where w: "w < n" "remaining m ns s w \<noteq> 0"
        by auto
      then have "workers s w \<noteq> Finished"
        by (auto simp: remaining_def)
      then show "\<exists>s'. mpi_step m ns n s s'"
        using run mpi_progress [OF _ assms(6) b w(1)] by blast
    next
      assume "\<exists>s'. mpi_step m ns n s s'"
      then show "k < n * (3 * ns + 1)"
        using run mpi_step_inv [OF _ _ assms(6) b, of n s] sum by fastforce
    qed
    assume "k = n * (3 * ns + 1)"
    then have "remaining m ns s w = 0" if "w < n" for w
      using sum that by simp
    then have fin: "workers s w = Finished \<and> received m s w = ns \<and> replies s w = None" if "w < n" for w
      using wi [OF that] remaining_zero [OF wi [OF that]] that by (simp add: worker_inv_def)
    then show "\<forall>w<n. workers s w = Finished \<and> ring_list m (results s w) = map sample [0..<ns]"
      using wi by (auto simp: worker_inv_def)
    show "handled s = ns * n"
      using run fin by (simp add: mpi_inv_def server_inv_def answered_def mult.commute)
  qed
qed

theorem mpi_system_completes_witness:
  "\<exists>r q s. InitXTaskQueue_mpi 4 [8, 8, 8, 8] \<lparr>head = 0, tail = 0, data = []\<rparr> = Ret r
    \<and> fill_incoming 4 2 3 r = Ret q \<and> mpi_step 4 2 2 (mpi_start q (\<lambda>_. r)) s"
proof -
  let ?r = "\<lparr>head = - 1, tail = - 1, data = [0, 0, 0, 0]\<rparr> :: ringbuf"
  have r: "InitXTaskQueue_mpi 4 [8, 8, 8, 8] \<lparr>head = 0, tail = 0, data = []\<rparr> = Ret ?r"
    by (simp add: InitXTaskQueue_mpi_def eval_nat_numeral arr_write_def)
  have new: "ring_inv 4 ?r" "ring_list 4 ?r = []" "4 \<le> ring_budget ?r"
    using init_xtask [OF _ _ r] by simp_all
  obtain q where q: "fill_incoming 4 2 (Suc 2) ?r = Ret q"
    using fill_incoming_ok [OF new(1,2) _ _ new(3), of 2 "Suc 2"] by auto
  have "(mpi_step 4 2 2 ^^ 0) (mpi_start q (\<lambda>_. ?r)) (mpi_start q (\<lambda>_. ?r))"
    by simp
  from mpi_system_completes [OF _ _ r q _ _ _ this] have "\<exists>s. mpi_step 4 2 2 (mpi_start q (\<lambda>_. ?r)) s"
    by simp
  then obtain s where "mpi_step 4 2 2 (mpi_start q (\<lambda>_. ?r)) s"
    by blast
  moreover have "fill_incoming 4 2 3 ?r = Ret q"
    using q by (simp only: Suc_numeral add_num_simps)
  ultimately show ?thesis
    using r by (intro exI [of _ ?r] exI [of _ q] exI [of _ s] conjI)
qed

end
