(* ===== verification/Mpi_Program.thy ===== *)
theory Mpi_Program
  imports Mpi_System
begin

text \<open>
  \<^verbatim>\<open>main\<close> of \<^verbatim>\<open>mpi_queue/main.c\<close> in all processes together: process 0, the server, and the workers, process \<open>p\<close> being
  worker \<open>p - 1\<close>. Each initialises its two queues and fills the incoming one, waits at the first barrier, serves or
  works, waits at the second barrier and prints a line. A barrier lets a process through as soon as all have reached it.
\<close>

section \<open>The processes\<close>

text \<open>What the processes find in the memory they allocate, and their clocks: the first reading is the one before the
  work, the second that behind it.\<close>

record mpi_inputs =
  incoming_mem :: "nat \<Rightarrow> atom list"
  results_mem :: "nat \<Rightarrow> atom list"
  start_mem :: "nat \<Rightarrow> ticks list"
  end_mem :: "nat \<Rightarrow> ticks list"
  rdtscp :: "nat \<Rightarrow> nat \<Rightarrow> ticks"
  mono :: "nat \<Rightarrow> nat \<Rightarrow> int \<times> int"

datatype mpi_phase = Launched | FirstBarrier | Serving | SecondBarrier | Exited

datatype mpi_line = AverageLatency ticks | ProcessRate nat real

record mpi_program =
  phase :: "nat \<Rightarrow> mpi_phase"
  world :: mpi_state
  starttimestamp :: "nat \<Rightarrow> ticks list"
  endtimestamp :: "nat \<Rightarrow> ticks list"
  last_line :: "nat \<Rightarrow> mpi_line outcome option"
  aborted :: bool

definition zero_queue :: ringbuf where
  "zero_queue = \<lparr>head = 0, tail = 0, data = []\<rparr>"

definition set_up :: "nat \<Rightarrow> nat \<Rightarrow> nat \<Rightarrow> mpi_inputs \<Rightarrow> nat \<Rightarrow> (ringbuf \<times> ringbuf) outcome" where
  "set_up m ns world_size i p =
     bindO (InitXTaskQueue_mpi m (incoming_mem i p) zero_queue) (\<lambda>inc.
     bindO (InitXTaskQueue_mpi m (results_mem i p) zero_queue) (\<lambda>res.
     bindO (fill_incoming m ns world_size inc) (\<lambda>inc'. Ret (inc', res))))"

text \<open>Of its two queues the server uses the one and a worker the other.\<close>

definition own_queue :: "nat \<Rightarrow> ringbuf \<times> ringbuf \<Rightarrow> mpi_state \<Rightarrow> mpi_state" where
  "own_queue p qs w =
     (case p of 0 \<Rightarrow> w\<lparr>server_side := (server_side w)\<lparr>incoming := fst qs\<rparr>\<rparr>
      | Suc v \<Rightarrow> w\<lparr>results := (results w)(v := snd qs)\<rparr>)"

text \<open>\<^verbatim>\<open>token\<close> is 0 all the time; the server takes no time stamps.\<close>

definition take_stamp :: "build \<Rightarrow> nat \<Rightarrow> ticks \<Rightarrow> ticks list \<Rightarrow> ticks list outcome" where
  "take_stamp bd p t ts = (if bd = LATENCY \<and> p \<noteq> 0 then arr_write ts 0 t else Ret ts)"

definition part_done :: "nat \<Rightarrow> nat \<Rightarrow> nat \<Rightarrow> mpi_state \<Rightarrow> bool" where
  "part_done ns n p w = (case p of 0 \<Rightarrow> \<not> handled w < ns * n | Suc v \<Rightarrow> workers w v = Finished)"

definition print_line :: "sorter \<Rightarrow> build \<Rightarrow> nat \<Rightarrow> mpi_inputs \<Rightarrow> nat \<Rightarrow> ticks list \<Rightarrow> ticks list \<Rightarrow> mpi_line outcome" where
  "print_line qs bd ns i p ss es =
     (if bd = LATENCY then bindO (ComputeSummary_mpi qs ns ss es) (\<lambda>a. Ret (AverageLatency a))
      else Ret (ProcessRate p (real ns / elapsed (mono i p 0) (mono i p 1))))"

text \<open>\<open>active s w\<close>: only processes between the two barriers communicate.\<close>

definition active :: "nat \<Rightarrow> mpi_program \<Rightarrow> mpi_state \<Rightarrow> bool" where
  "active n s w \<longleftrightarrow> (handled w \<noteq> handled (world s) \<longrightarrow> phase s 0 = Serving)
     \<and> (\<forall>v<n. workers w v \<noteq> workers (world s) v \<longrightarrow> phase s (Suc v) = Serving)"

inductive mpi_main :: "sorter \<Rightarrow> build \<Rightarrow> nat \<Rightarrow> nat \<Rightarrow> nat \<Rightarrow> mpi_inputs \<Rightarrow> mpi_program \<Rightarrow> mpi_program \<Rightarrow> bool" for qs bd m ns n i where
  launch: "p \<le> n \<Longrightarrow> phase s p = Launched \<Longrightarrow> set_up m ns (Suc n) i p = Ret pair \<Longrightarrow>
    mpi_main qs bd m ns n i s (s\<lparr>phase := (phase s)(p := FirstBarrier), world := own_queue p pair (world s),
      starttimestamp := (starttimestamp s)(p := start_mem i p), endtimestamp := (endtimestamp s)(p := end_mem i p)\<rparr>)"
| launch_fails: "p \<le> n \<Longrightarrow> phase s p = Launched \<Longrightarrow> \<nexists>pair. set_up m ns (Suc n) i p = Ret pair \<Longrightarrow>
    mpi_main qs bd m ns n i s (s\<lparr>aborted := True\<rparr>)"
| begin_work: "p \<le> n \<Longrightarrow> phase s p = FirstBarrier \<Longrightarrow> \<forall>q\<le>n. phase s q \<noteq> Launched \<Longrightarrow>
    take_stamp bd p (rdtscp i p 0) (starttimestamp s p) = Ret ts \<Longrightarrow>
    mpi_main qs bd m ns n i s (s\<lparr>phase := (phase s)(p := Serving), starttimestamp := (starttimestamp s)(p := ts)\<rparr>)"
| begin_fails: "p \<le> n \<Longrightarrow> phase s p = FirstBarrier \<Longrightarrow> \<forall>q\<le>n. phase s q \<noteq> Launched \<Longrightarrow>
    \<nexists>ts. take_stamp bd p (rdtscp i p 0) (starttimestamp s p) = Ret ts \<Longrightarrow>
    mpi_main qs bd m ns n i s (s\<lparr>aborted := True\<rparr>)"
| work: "mpi_step m ns n (world s) w \<Longrightarrow> active n s w \<Longrightarrow> mpi_main qs bd m ns n i s (s\<lparr>world := w\<rparr>)"
| end_work: "p \<le> n \<Longrightarrow> phase s p = Serving \<Longrightarrow> part_done ns n p (world s) \<Longrightarrow>
    take_stamp bd p (rdtscp i p 1) (endtimestamp s p) = Ret ts \<Longrightarrow>
    mpi_main qs bd m ns n i s (s\<lparr>phase := (phase s)(p := SecondBarrier), endtimestamp := (endtimestamp s)(p := ts)\<rparr>)"
| end_fails: "p \<le> n \<Longrightarrow> phase s p = Serving \<Longrightarrow> part_done ns n p (world s) \<Longrightarrow>
    \<nexists>ts. take_stamp bd p (rdtscp i p 1) (endtimestamp s p) = Ret ts \<Longrightarrow>
    mpi_main qs bd m ns n i s (s\<lparr>aborted := True\<rparr>)"
| report: "p \<le> n \<Longrightarrow> phase s p = SecondBarrier \<Longrightarrow> \<forall>q\<le>n. phase s q = SecondBarrier \<or> phase s q = Exited \<Longrightarrow>
    mpi_main qs bd m ns n i s (s\<lparr>phase := (phase s)(p := Exited),
      last_line := (last_line s)(p \<mapsto> print_line qs bd ns i p (starttimestamp s p) (endtimestamp s p))\<rparr>)"

definition mpi_launched :: mpi_program where
  "mpi_launched = \<lparr>phase = \<lambda>_. Launched, world = mpi_start zero_queue (\<lambda>_. zero_queue), starttimestamp = \<lambda>_. [],
     endtimestamp = \<lambda>_. [], last_line = \<lambda>_. None, aborted = False\<rparr>"

section \<open>The invariant\<close>

definition stamped :: "build \<Rightarrow> nat \<Rightarrow> ticks \<Rightarrow> ticks list \<Rightarrow> ticks list" where
  "stamped bd p t ts = (if bd = LATENCY \<and> p \<noteq> 0 then ts[0 := t] else ts)"

lemma length_stamped [simp]: "length (stamped bd p t ts) = length ts"
  by (simp add: stamped_def)

lemma take_stamp_ok: "ts \<noteq> [] \<Longrightarrow> take_stamp bd p t ts = Ret (stamped bd p t ts)"
  by (simp add: take_stamp_def stamped_def arr_write_def)

definition starts :: "build \<Rightarrow> mpi_inputs \<Rightarrow> nat \<Rightarrow> ticks list" where
  "starts bd i p = stamped bd p (rdtscp i p 0) (start_mem i p)"

definition ends :: "build \<Rightarrow> mpi_inputs \<Rightarrow> nat \<Rightarrow> ticks list" where
  "ends bd i p = stamped bd p (rdtscp i p 1) (end_mem i p)"

definition process_inv :: "sorter \<Rightarrow> build \<Rightarrow> nat \<Rightarrow> nat \<Rightarrow> mpi_inputs \<Rightarrow> mpi_program \<Rightarrow> nat \<Rightarrow> bool" where
  "process_inv qs bd ns n i s p \<longleftrightarrow>
     (case phase s p of
        Launched \<Rightarrow> True
      | FirstBarrier \<Rightarrow> starttimestamp s p = start_mem i p \<and> endtimestamp s p = end_mem i p
      | Serving \<Rightarrow> starttimestamp s p = starts bd i p \<and> endtimestamp s p = end_mem i p
      | SecondBarrier \<Rightarrow> starttimestamp s p = starts bd i p \<and> endtimestamp s p = ends bd i p \<and> part_done ns n p (world s)
      | Exited \<Rightarrow> last_line s p = Some (print_line qs bd ns i p (starts bd i p) (ends bd i p)) \<and> part_done ns n p (world s))"

text \<open>\<open>q\<close> is a filled queue, \<open>r\<close> a new one.\<close>

definition launching :: "nat \<Rightarrow> mpi_program \<Rightarrow> bool" where
  "launching n s \<longleftrightarrow> (\<exists>p\<le>n. phase s p = Launched)"

definition program_inv :: "ringbuf \<Rightarrow> ringbuf \<Rightarrow> sorter \<Rightarrow> build \<Rightarrow> nat \<Rightarrow> nat \<Rightarrow> nat \<Rightarrow> mpi_inputs \<Rightarrow> mpi_program \<Rightarrow> bool" where
  "program_inv q r qs bd m ns n i s \<longleftrightarrow> \<not> aborted s \<and> (\<forall>p\<le>n. process_inv qs bd ns n i s p)
     \<and> (if launching n s
        then (\<forall>p\<le>n. phase s p = Launched \<or> phase s p = FirstBarrier)
          \<and> world s = mpi_start (if phase s 0 = FirstBarrier then q else zero_queue)
              (\<lambda>w. if phase s (Suc w) = FirstBarrier then r else zero_queue)
        else mpi_inv m ns n (world s))"

text \<open>The steps that are left.\<close>

definition phases_left :: "mpi_phase \<Rightarrow> nat" where
  "phases_left f = (case f of Launched \<Rightarrow> 4 | FirstBarrier \<Rightarrow> 3 | Serving \<Rightarrow> 2 | SecondBarrier \<Rightarrow> 1 | Exited \<Rightarrow> 0)"

definition program_left :: "nat \<Rightarrow> nat \<Rightarrow> nat \<Rightarrow> mpi_program \<Rightarrow> nat" where
  "program_left m ns n s = (\<Sum>p\<le>n. phases_left (phase s p))
     + (if launching n s then n * (3 * ns + 1) else (\<Sum>w<n. remaining m ns (world s) w))"

lemma phases_left_simps [simp]:
  "phases_left Launched = 4" "phases_left FirstBarrier = 3" "phases_left Serving = 2" "phases_left SecondBarrier = 1"
  "phases_left Exited = 0"
  by (simp_all add: phases_left_def)

lemma phases_left_move:
  assumes "p \<le> n" and "Suc (phases_left f) = phases_left (phase s p)"
  shows "Suc (\<Sum>v\<le>n. phases_left (((phase s)(p := f)) v)) = (\<Sum>v\<le>n. phases_left (phase s v))"
proof -
  have "(\<Sum>v\<in>{..n} - {p}. phases_left (((phase s)(p := f)) v)) = (\<Sum>v\<in>{..n} - {p}. phases_left (phase s v))"
    by (rule sum.cong) auto
  then show ?thesis
    using assms by (simp add: sum.remove [of "{..n}" p])
qed

lemma own_queue_start:
  "own_queue p (q, r) (mpi_start (if phase s 0 = FirstBarrier then q else z) (\<lambda>w. if phase s (Suc w) = FirstBarrier then r else z))
    = mpi_start (if ((phase s)(p := FirstBarrier)) 0 = FirstBarrier then q else z)
        (\<lambda>w. if ((phase s)(p := FirstBarrier)) (Suc w) = FirstBarrier then r else z)"
  by (cases p) (auto simp: own_queue_def mpi_start_def fun_eq_iff)

section \<open>Every step keeps the invariant\<close>

lemma set_up_ok:
  assumes "0 < m" "length (incoming_mem i p) = m" "length (results_mem i p) = m"
  shows "set_up m ns ws i p = bindO (fill_incoming m ns ws \<lparr>head = - 1, tail = - 1, data = replicate m 0\<rparr>)
    (\<lambda>inc. Ret (inc, \<lparr>head = - 1, tail = - 1, data = replicate m 0\<rparr>))"
  using assms by (simp add: set_up_def InitXTaskQueue_mpi_def zero_queue_def)

text \<open>What the fixed parts of the inputs have to satisfy, and the two queues of a process at the first barrier.\<close>

definition sized :: "nat \<Rightarrow> nat \<Rightarrow> nat \<Rightarrow> mpi_inputs \<Rightarrow> bool" where
  "sized m ns n i \<longleftrightarrow> 0 < m \<and> 0 < ns \<and> ns * n \<le> m \<and> ns \<le> m \<and> m \<le> 2147483647
     \<and> (\<forall>p\<le>n. length (incoming_mem i p) = m \<and> length (results_mem i p) = m
        \<and> length (start_mem i p) = ns \<and> length (end_mem i p) = ns)"

definition ready_queues :: "nat \<Rightarrow> nat \<Rightarrow> nat \<Rightarrow> mpi_inputs \<Rightarrow> ringbuf \<Rightarrow> ringbuf \<Rightarrow> bool" where
  "ready_queues m ns n i q r \<longleftrightarrow> (\<forall>p\<le>n. set_up m ns (Suc n) i p = Ret (q, r))
     \<and> ring_inv m q \<and> ring_list m q = map sample [0..<ns * n]
     \<and> ring_inv m r \<and> ring_list m r = [] \<and> ns \<le> ring_budget r"

lemma ready_queues_exist:
  assumes "sized m ns n i"
  shows "\<exists>q r. ready_queues m ns n i q r"
proof -
  let ?r = "\<lparr>head = - 1, tail = - 1, data = replicate m 0\<rparr> :: ringbuf"
  note s = assms [unfolded sized_def]
  have r: "ring_inv m ?r" "ring_list m ?r = []" "ring_budget ?r = 2147483648"
    using empty_ring [of m] s by simp_all
  then obtain q where q: "fill_incoming m ns (Suc n) ?r = Ret q" "ring_inv m q" "ring_list m q = map sample [0..<ns * n]"
    using fill_incoming_ok [of m ?r "ns * n" ns "Suc n"] s by auto
  have "\<forall>p\<le>n. set_up m ns (Suc n) i p = Ret (q, ?r)"
    using s q(1) by (simp add: set_up_ok)
  then have "ready_queues m ns n i q ?r"
    using q(2,3) r s by (simp add: ready_queues_def)
  then show ?thesis
    by blast
qed

lemma ready_world:
  assumes "ready_queues m ns n i q r" and "\<forall>p\<le>n. phase s p = FirstBarrier"
    and "w = mpi_start (if phase s 0 = FirstBarrier then q else z) (\<lambda>v. if phase s (Suc v) = FirstBarrier then r else z)"
  shows "mpi_inv m ns n w" "(\<Sum>v<n. remaining m ns w v) = n * (3 * ns + 1)"
proof -
  have q: "ring_inv m q" "ring_list m q = map sample [0..<ns * n]"
    using assms(1) by (simp_all add: ready_queues_def)
  have r: "ring_inv m (if phase s (Suc v) = FirstBarrier then r else z)
      \<and> ring_list m (if phase s (Suc v) = FirstBarrier then r else z) = []
      \<and> ns \<le> ring_budget (if phase s (Suc v) = FirstBarrier then r else z)" if "v < n" for v
    using assms(1,2) that by (simp add: ready_queues_def)
  have w: "w = mpi_start q (\<lambda>v. if phase s (Suc v) = FirstBarrier then r else z)"
    using assms(2,3) by simp
  show "mpi_inv m ns n w" "(\<Sum>v<n. remaining m ns w v) = n * (3 * ns + 1)"
    unfolding w by (rule mpi_start_inv [OF q r], assumption)+
qed

text \<open>A step of process \<open>p\<close> alone.\<close>

lemma process_inv_cong:
  assumes "phase s' v = phase s v" "starttimestamp s' v = starttimestamp s v" "endtimestamp s' v = endtimestamp s v"
    "last_line s' v = last_line s v" "part_done ns n v (world s) \<Longrightarrow> part_done ns n v (world s')"
  shows "process_inv qs bd ns n i s v \<Longrightarrow> process_inv qs bd ns n i s' v"
  using assms by (auto simp: process_inv_def split: mpi_phase.splits)

lemma part_done_active:
  assumes "active n s w" and "p \<le> n" and "phase s p \<noteq> Serving"
  shows "part_done ns n p w = part_done ns n p (world s)"
proof (cases p)
  case 0
  then show ?thesis
    using assms by (auto simp: active_def part_done_def)
next
  case (Suc v)
  then have "v < n"
    using assms(2) by simp
  then have "workers w v = workers (world s) v"
    using assms(1,3) Suc unfolding active_def by blast
  with Suc show ?thesis
    by (simp add: part_done_def)
qed

lemma program_work:
  assumes inv: "program_inv q r qs bd m ns n i s" and "sized m ns n i"
    and st: "mpi_step m ns n (world s) w" "active n s w" and "\<not> launching n s"
  shows "program_inv q r qs bd m ns n i (s\<lparr>world := w\<rparr>)" "Suc (program_left m ns n (s\<lparr>world := w\<rparr>)) = program_left m ns n s"
proof -
  have b: "ns \<le> m" "ns < 2147483648"
    using assms(2) by (auto simp: sized_def)
  have launch: "\<not> launching n (s\<lparr>world := w\<rparr>)"
    using assms(5) by (simp add: launching_def)
  have "mpi_inv m ns n (world s)"
    using inv assms(5) by (simp add: program_inv_def)
  note next_world = mpi_step_inv [OF st(1) this b]
  have "process_inv qs bd ns n i (s\<lparr>world := w\<rparr>) p" if "p \<le> n" for p
  proof -
    have "process_inv qs bd ns n i s p"
      using inv that by (simp add: program_inv_def)
    then show ?thesis
      using part_done_active [OF st(2) that, of ns] by (cases "phase s p") (auto simp: process_inv_def)
  qed
  then show "program_inv q r qs bd m ns n i (s\<lparr>world := w\<rparr>)"
    using inv next_world launch by (simp add: program_inv_def)
  show "Suc (program_left m ns n (s\<lparr>world := w\<rparr>)) = program_left m ns n s"
    using next_world launch assms(5) by (simp add: program_left_def)
qed

text \<open>While a process has not come to the first barrier, nobody communicates.\<close>

lemma no_work_launching:
  assumes "program_inv q r qs bd m ns n i s" and "launching n s" and "mpi_step m ns n (world s) w" and "active n s w"
  shows "False"
proof -
  have "phase s p \<noteq> Serving" if "p \<le> n" for p
    using assms(1,2) that by (auto simp: program_inv_def)
  then have same: "handled w = handled (world s)" "\<forall>v<n. workers w v = workers (world s) v"
    using assms(4) by (auto simp: active_def)
  have "requests (world s) v = None" "replies (world s) v = None" "\<exists>c. workers (world s) v = Ready c" for v
    using assms(1,2) by (auto simp: program_inv_def mpi_start_def)
  note quiet = this
  show False
    using assms(3) by cases (use same quiet in \<open>auto simp: fun_upd_def\<close>)
qed

lemma program_launch:
  assumes inv: "program_inv q r qs bd m ns n i s" and ready: "ready_queues m ns n i q r" and p: "p \<le> n" "phase s p = Launched"
    and s': "s' = s\<lparr>phase := (phase s)(p := FirstBarrier), world := own_queue p (q, r) (world s),
      starttimestamp := (starttimestamp s)(p := start_mem i p), endtimestamp := (endtimestamp s)(p := end_mem i p)\<rparr>"
  shows "program_inv q r qs bd m ns n i s' \<and> Suc (program_left m ns n s') = program_left m ns n s"
proof -
  have l: "launching n s"
    using p by (auto simp: launching_def)
  then have old: "\<forall>v\<le>n. phase s v = Launched \<or> phase s v = FirstBarrier"
      "world s = mpi_start (if phase s 0 = FirstBarrier then q else zero_queue) (\<lambda>w. if phase s (Suc w) = FirstBarrier then r else zero_queue)"
    using inv by (simp_all add: program_inv_def)
  have ph: "\<forall>v\<le>n. phase s' v = Launched \<or> phase s' v = FirstBarrier"
    using old(1) by (simp add: s')
  have world: "world s' = mpi_start (if phase s' 0 = FirstBarrier then q else zero_queue)
      (\<lambda>w. if phase s' (Suc w) = FirstBarrier then r else zero_queue)"
    using own_queue_start [of p q r s zero_queue] old(2) by (simp add: s')
  have all: "\<forall>v\<le>n. phase s' v = FirstBarrier" if "\<not> launching n s'"
    using that ph by (auto simp: launching_def)
  have "process_inv qs bd ns n i s' v" if "v \<le> n" for v
  proof -
    have "process_inv qs bd ns n i s v"
      using inv that by (simp add: program_inv_def)
    then show ?thesis
      using old(1) that by (cases "v = p") (auto simp: process_inv_def s')
  qed
  moreover have "\<not> aborted s'"
    using inv by (simp add: program_inv_def s')
  ultimately have "program_inv q r qs bd m ns n i s'"
    using ph world ready_world(1) [OF ready all world] by (simp add: program_inv_def)
  moreover have "Suc (\<Sum>v\<le>n. phases_left (phase s' v)) = (\<Sum>v\<le>n. phases_left (phase s v))"
    using phases_left_move [OF p(1), of FirstBarrier s] p(2) by (simp add: s')
  ultimately show ?thesis
    using l ready_world(2) [OF ready all world] by (simp add: program_left_def)
qed

text \<open>The other three moves leave the communication alone.\<close>

lemma program_move:
  assumes inv: "program_inv q r qs bd m ns n i s" and "\<not> launching n s" and p: "p \<le> n" "Suc (phases_left f) = phases_left (phase s p)"
    and f: "phase s' = (phase s)(p := f)" "f \<noteq> Launched" and same: "world s' = world s" "\<not> aborted s'"
      "\<And>v. v \<noteq> p \<Longrightarrow> starttimestamp s' v = starttimestamp s v" "\<And>v. v \<noteq> p \<Longrightarrow> endtimestamp s' v = endtimestamp s v"
      "\<And>v. v \<noteq> p \<Longrightarrow> last_line s' v = last_line s v"
    and own: "process_inv qs bd ns n i s p \<Longrightarrow> process_inv qs bd ns n i s' p"
  shows "program_inv q r qs bd m ns n i s' \<and> Suc (program_left m ns n s') = program_left m ns n s"
proof -
  have launch: "\<not> launching n s'"
    using assms(2) f by (simp add: launching_def)
  have "process_inv qs bd ns n i s' v" if "v \<le> n" for v
  proof (cases "v = p")
    case True
    then show ?thesis
      using own inv that by (simp add: program_inv_def)
  next
    case False
    then show ?thesis
      using process_inv_cong [of s' v s] same(3-5) f(1) same(1) inv that by (simp add: program_inv_def)
  qed
  then have "program_inv q r qs bd m ns n i s'"
    using inv launch same(1,2) assms(2) by (simp add: program_inv_def)
  then show ?thesis
    using phases_left_move [OF p] launch assms(2) same(1) by (simp add: program_left_def f(1))
qed

lemma program_step_inv:
  assumes st: "mpi_main qs bd m ns n i s s'" and inv: "program_inv q r qs bd m ns n i s"
    and sized: "sized m ns n i" and ready: "ready_queues m ns n i q r"
  shows "program_inv q r qs bd m ns n i s' \<and> Suc (program_left m ns n s') = program_left m ns n s"
proof -
  have own: "process_inv qs bd ns n i s p" "start_mem i p \<noteq> []" "end_mem i p \<noteq> []" if "p \<le> n" for p
    using inv sized that by (auto simp: program_inv_def sized_def)
  have nl: "\<not> launching n s" if "p \<le> n" "phase s p \<notin> {Launched, FirstBarrier}" for p
    using inv that by (auto simp: program_inv_def)
  have nab: "\<not> aborted s"
    using inv by (simp add: program_inv_def)
  show ?thesis
    using st
  proof cases
    case (launch p pair)
    then have "pair = (q, r)"
      using ready by (simp add: ready_queues_def)
    then show ?thesis
      using launch program_launch [OF inv ready launch(2,3)] by simp
  next
    case (launch_fails p)
    then show ?thesis
      using ready by (auto simp: ready_queues_def)
  next
    case (begin_work p ts)
    then have ts: "ts = starts bd i p"
      using own [OF begin_work(2)] by (simp add: process_inv_def take_stamp_ok starts_def)
    have "\<not> launching n s"
      using begin_work(4) by (simp add: launching_def)
    then show ?thesis
      using program_move [OF inv _ begin_work(2), of Serving s'] begin_work(1,3) ts nab by (simp add: process_inv_def)
  next
    case (begin_fails p)
    then show ?thesis
      using own [OF begin_fails(2)] by (simp add: process_inv_def take_stamp_ok)
  next
    case (work w)
    have "\<not> launching n s"
      using no_work_launching [OF inv _ work(2,3)] by blast
    then show ?thesis
      using program_work [OF inv sized work(2,3)] work(1) by simp
  next
    case (end_work p ts)
    then have ts: "ts = ends bd i p"
      using own [OF end_work(2)] by (simp add: process_inv_def take_stamp_ok ends_def)
    then show ?thesis
      using program_move [OF inv nl end_work(2), of p SecondBarrier s'] end_work nab by (simp add: process_inv_def)
  next
    case (end_fails p)
    then show ?thesis
      using own [OF end_fails(2)] by (simp add: process_inv_def take_stamp_ok)
  next
    case (report p)
    then show ?thesis
      using program_move [OF inv nl report(2), of p Exited s'] nab by (simp add: process_inv_def)
  qed
qed

section \<open>No step is missing\<close>

lemma mpi_step_active:
  assumes "mpi_step m ns n w w'" and "\<forall>p\<le>n. phase s p \<noteq> Serving \<longrightarrow> part_done ns n p (world s)" and "world s = w"
  shows "active n s w'"
proof -
  have "handled w < ns * n" if "handled w' \<noteq> handled w"
    using assms(1) that by cases auto
  moreover have "workers w v \<noteq> Finished" if "workers w' v \<noteq> workers w v" for v
    using assms(1) that by cases (auto split: if_splits)
  moreover have "\<not> handled w < ns * n" if "phase s 0 \<noteq> Serving"
    using assms(2) that by (auto simp: part_done_def assms(3))
  moreover have "workers w v = Finished" if "phase s (Suc v) \<noteq> Serving" "v < n" for v
    using assms(2) [rule_format, of "Suc v"] that by (simp add: part_done_def assms(3))
  ultimately show ?thesis
    unfolding active_def assms(3) by blast
qed

lemma program_progress:
  assumes inv: "program_inv q r qs bd m ns n i s" and sized: "sized m ns n i" and ready: "ready_queues m ns n i q r"
    and p: "p \<le> n" "phase s p \<noteq> Exited"
  shows "\<exists>s'. mpi_main qs bd m ns n i s s'"
proof -
  have own: "process_inv qs bd ns n i s v" if "v \<le> n" for v
    using inv that by (simp add: program_inv_def)
  have b: "ns \<le> m" "ns < 2147483648"
    using sized by (auto simp: sized_def)
  consider (launch) v where "v \<le> n" "phase s v = Launched"
    | (starting) v where "v \<le> n" "phase s v = FirstBarrier" "\<forall>u\<le>n. phase s u \<noteq> Launched"
    | (serve) "\<forall>v\<le>n. phase s v \<noteq> Launched \<and> phase s v \<noteq> FirstBarrier" "\<exists>v\<le>n. phase s v = Serving"
    | (finishing) "\<forall>v\<le>n. phase s v = SecondBarrier \<or> phase s v = Exited"
    by (metis mpi_phase.exhaust)
  then show ?thesis
  proof cases
    case (launch v)
    then show ?thesis
      using mpi_main.launch [OF launch, of m ns i] mpi_main.launch_fails [OF launch] by blast
  next
    case (starting v)
    then show ?thesis
      using mpi_main.begin_work [OF starting, of bd i] mpi_main.begin_fails [OF starting, of bd i] by metis
  next
    case finishing
    then have "phase s p = SecondBarrier"
      using p by blast
    then show ?thesis
      using mpi_main.report [OF p(1) _ finishing] by blast
  next
    case serve
    then obtain v where v: "v \<le> n" "phase s v = Serving"
      by blast
    have w: "mpi_inv m ns n (world s)"
      using inv serve(1) by (auto simp: program_inv_def launching_def)
    show ?thesis
    proof (cases "\<exists>u<n. workers (world s) u \<noteq> Finished")
      case True
      then obtain w' where w': "mpi_step m ns n (world s) w'"
        using mpi_progress [OF w b] by blast
      have "part_done ns n u (world s)" if "u \<le> n" "phase s u \<noteq> Serving" for u
        using own [OF that(1)] serve(1) that by (cases "phase s u") (auto simp: process_inv_def)
      then show ?thesis
        using mpi_main.work [OF w'] mpi_step_active [OF w', of s] by blast
    next
      case False
      then have fin: "\<forall>u<n. received m (world s) u = ns \<and> replies (world s) u = None"
        using w by (auto simp: mpi_inv_def worker_inv_def)
      then have "handled (world s) = ns * n"
        using w by (simp add: mpi_inv_def server_inv_def answered_def mult.commute)
      then have "part_done ns n v (world s)"
        using False v(1) by (auto simp: part_done_def split: nat.split)
      then show ?thesis
        using mpi_main.end_work [OF v] mpi_main.end_fails [OF v] by blast
    qed
  qed
qed

section \<open>Whole runs\<close>

lemma program_start:
  assumes "sized m ns n i"
  shows "program_inv q r qs bd m ns n i mpi_launched"
    "program_left m ns n mpi_launched = 4 * (n + 1) + n * (3 * ns + 1)"
proof -
  have l: "launching n mpi_launched"
    by (auto simp: launching_def mpi_launched_def)
  then show "program_inv q r qs bd m ns n i mpi_launched"
    by (simp add: program_inv_def process_inv_def mpi_launched_def)
  show "program_left m ns n mpi_launched = 4 * (n + 1) + n * (3 * ns + 1)"
    using l by (simp add: program_left_def) (simp add: mpi_launched_def)
qed

lemma program_run_inv:
  assumes "sized m ns n i" and "ready_queues m ns n i q r"
  shows "(mpi_main qs bd m ns n i ^^ k) mpi_launched s \<Longrightarrow>
    program_inv q r qs bd m ns n i s \<and> k + program_left m ns n s = 4 * (n + 1) + n * (3 * ns + 1)"
proof (induction k arbitrary: s)
  case 0
  then show ?case
    using program_start [OF assms(1)] by simp
next
  case (Suc k)
  then obtain t where "(mpi_main qs bd m ns n i ^^ k) mpi_launched t" "mpi_main qs bd m ns n i t s"
    by auto
  with Suc.IH [of t] program_step_inv [OF _ _ assms, of qs bd t s] show ?case
    by fastforce
qed

lemma program_finished:
  assumes "program_inv q r qs bd m ns n i s" and "program_left m ns n s = 0"
  shows "p \<le> n \<Longrightarrow> phase s p = Exited" "p \<le> n \<Longrightarrow> last_line s p = Some (print_line qs bd ns i p (starts bd i p) (ends bd i p))"
    "printed (server_side (world s)) = map sample [0..<ns * n]"
    "w < n \<Longrightarrow> ring_list m (results (world s) w) = map sample [0..<ns]"
proof -
  have "(\<Sum>v\<le>n. phases_left (phase s v)) = 0"
    using assms(2) unfolding program_left_def by linarith
  then have "phases_left (phase s v) = 0" if "v \<le> n" for v
    using that by simp
  then have ex: "phase s v = Exited" if "v \<le> n" for v
    using that by (cases "phase s v") fastforce+
  then show "phase s p = Exited" if "p \<le> n"
    using that .
  have own: "process_inv qs bd ns n i s v" if "v \<le> n" for v
    using assms(1) that by (simp add: program_inv_def)
  then show "last_line s p = Some (print_line qs bd ns i p (starts bd i p) (ends bd i p))" if "p \<le> n"
    using ex that by (fastforce simp: process_inv_def)
  have w: "mpi_inv m ns n (world s)"
    using assms(1) ex by (auto simp: program_inv_def launching_def)
  have fin: "workers (world s) v = Finished" if "v < n" for v
    using own [of "Suc v"] ex [of "Suc v"] that by (simp add: process_inv_def part_done_def)
  then have full: "received m (world s) v = ns \<and> replies (world s) v = None" if "v < n" for v
    using w that by (fastforce simp: mpi_inv_def worker_inv_def)
  then have "handled (world s) = ns * n"
    using w by (simp add: mpi_inv_def server_inv_def answered_def mult.commute)
  then show "printed (server_side (world s)) = map sample [0..<ns * n]"
    using w by (simp add: mpi_inv_def server_inv_def)
  show "ring_list m (results (world s) w) = map sample [0..<ns]" if "w < n"
  proof -
    have "worker_inv m ns (world s) w"
      using w that by (simp add: mpi_inv_def)
    then show ?thesis
      using full [OF that] by (simp add: worker_inv_def)
  qed
qed

lemma program_exited_left:
  assumes "program_inv q r qs bd m ns n i s" and "\<forall>p\<le>n. phase s p = Exited"
  shows "program_left m ns n s = 0"
proof -
  have l: "\<not> launching n s"
    using assms(2) by (auto simp: launching_def)
  have "workers (world s) v = Finished" if "v < n" for v
  proof -
    have "process_inv qs bd ns n i s (Suc v)" "phase s (Suc v) = Exited"
      using assms that by (simp_all add: program_inv_def)
    then show ?thesis
      by (simp add: process_inv_def part_done_def)
  qed
  then show ?thesis
    using l assms(2) by (simp add: program_left_def remaining_def)
qed

text \<open>The difference of two time stamp arrays of a process, of which only element 0 has been written.\<close>

lemma average_line:
  assumes "0 < ns" "length (start_mem i p) = ns" "length (end_mem i p) = ns"
    and ds: "ds = map (\<lambda>j. end_mem i p ! j - start_mem i p ! j) [0..<ns]"
    and own: "own = (if p = 0 then ds else ds[0 := rdtscp i p 1 - rdtscp i p 0])"
    and qs: "qs cmpfunc own = Ret ys" "length ys = ns"
  shows "print_line qs LATENCY ns i p (starts LATENCY i p) (ends LATENCY i p) = Ret (AverageLatency (sum_list own div of_nat ns))"
proof -
  have len: "length (starts LATENCY i p) = ns" "length (ends LATENCY i p) = ns"
    using assms(2,3) by (simp_all add: starts_def ends_def)
  have "map (\<lambda>j. ends LATENCY i p ! j - starts LATENCY i p ! j) [0..<ns] = own"
  proof (rule nth_equalityI)
    show "length (map (\<lambda>j. ends LATENCY i p ! j - starts LATENCY i p ! j) [0..<ns]) = length own"
      by (simp add: own ds)
    fix j assume "j < length (map (\<lambda>j. ends LATENCY i p ! j - starts LATENCY i p ! j) [0..<ns])"
    then have "j < ns"
      by simp
    then show "map (\<lambda>j. ends LATENCY i p ! j - starts LATENCY i p ! j) [0..<ns] ! j = own ! j"
      unfolding own ds starts_def ends_def stamped_def by (cases "j = 0"; cases "p = 0") (simp_all add: assms(2,3))
  qed
  moreover have "arr_read ys 0 = Ret (ys ! 0)" "arr_read ys (int ns - 1) = Ret (ys ! (ns - 1))"
    using qs(2) assms(1) by (simp_all add: arr_read_def nat_diff_distrib)
  ultimately show ?thesis
    using qs(1) len assms(1) by (simp add: print_line_def ComputeSummary_mpi_def SortTicks_mpi_def)
qed

section \<open>Property\<close>

text \<open>C40: The MPI program, all its processes from the launch to the last line, in any interleaving: with a server and \<open>n\<close>
  workers whose requests are no more than the slots of the ring, every run makes exactly \<open>4 * (n + 1) + n * (3 * NUM_SAMPLES + 1)\<close> steps, none of them is undefined and
  none is missing before. Then the server has printed \<open>1, 2, \<dots>\<close>, each worker's results are \<open>1, \<dots>\<close>, \<^verbatim>\<open>NUM_SAMPLES\<close>, and
  every process has printed its line. In the \<open>LATENCY\<close> build the average is that of \<^verbatim>\<open>NUM_SAMPLES\<close> numbers of which a
  worker has measured the first only and the server none: the others are what the allocated memory held.\<close>

theorem mpi_program_completes:
  assumes "sized m ns n i" and "(mpi_main qs bd m ns n i ^^ k) mpi_launched s" and "K = 4 * (n + 1) + n * (3 * ns + 1)"
    and "\<forall>p. ds p = map (\<lambda>j. end_mem i p ! j - start_mem i p ! j) [0..<ns]"
    and "\<forall>p. own p = (if p = 0 then ds p else (ds p)[0 := rdtscp i p 1 - rdtscp i p 0])"
    and "\<forall>p\<le>n. \<exists>ys. qs cmpfunc (own p) = Ret ys \<and> length ys = ns"
  shows "\<not> aborted s \<and> k \<le> K \<and> (k < K \<longleftrightarrow> (\<exists>s'. mpi_main qs bd m ns n i s s'))
    \<and> (k = K \<longrightarrow> printed (server_side (world s)) = map sample [0..<ns * n]
        \<and> (\<forall>w<n. ring_list m (results (world s) w) = map sample [0..<ns])
        \<and> (\<forall>p\<le>n. last_line s p = Some (if bd = LATENCY then Ret (AverageLatency (sum_list (own p) div of_nat ns))
            else Ret (ProcessRate p (real ns / elapsed (mono i p 0) (mono i p 1))))))"
proof -
  obtain q r where ready: "ready_queues m ns n i q r"
    using ready_queues_exist [OF assms(1)] by blast
  have inv: "program_inv q r qs bd m ns n i s" and left: "k + program_left m ns n s = K"
    using program_run_inv [OF assms(1) ready assms(2)] assms(3) by simp_all
  have go: "(k < K) = (\<exists>s'. mpi_main qs bd m ns n i s s')"
  proof
    assume "k < K"
    then have "\<not> (\<forall>p\<le>n. phase s p = Exited)"
      using left program_exited_left [OF inv] by force
    then show "\<exists>s'. mpi_main qs bd m ns n i s s'"
      using program_progress [OF inv assms(1) ready] by blast
  next
    assume "\<exists>s'. mpi_main qs bd m ns n i s s'"
    then show "k < K"
      using program_step_inv [OF _ inv assms(1) ready] left by fastforce
  qed
  have line: "print_line qs bd ns i p (starts bd i p) (ends bd i p)
      = (if bd = LATENCY then Ret (AverageLatency (sum_list (own p) div of_nat ns))
         else Ret (ProcessRate p (real ns / elapsed (mono i p 0) (mono i p 1))))" if p: "p \<le> n" for p
  proof (cases "bd = LATENCY")
    case True
    obtain ys where ys: "qs cmpfunc (own p) = Ret ys" "length ys = ns"
      using assms(6) p by blast
    have size: "0 < ns" "length (start_mem i p) = ns" "length (end_mem i p) = ns"
      using assms(1) p by (simp_all add: sized_def)
    show ?thesis
      using average_line [where qs = qs and i = i and p = p and ns = ns and ds = "ds p" and own = "own p", OF size spec [OF assms(4), of p] spec [OF assms(5), of p] ys] True by simp
  qed (simp add: print_line_def)
  have "\<not> aborted s" "k \<le> K"
    using inv left by (simp_all add: program_inv_def)
  moreover have "program_left m ns n s = 0" if "k = K"
    using left that by simp
  ultimately show ?thesis
    using go line program_finished [OF inv] by simp
qed

definition demo_mpi :: mpi_inputs where
  "demo_mpi = \<lparr>incoming_mem = \<lambda>_. [8, 8, 8, 8], results_mem = \<lambda>_. [8, 8, 8, 8], start_mem = \<lambda>_. [5, 7], end_mem = \<lambda>_. [9, 12],
     rdtscp = \<lambda>p k. 10 + 7 * of_nat k, mono = \<lambda>_ _. (0, 0)\<rparr>"

theorem mpi_program_completes_witness:
  "\<exists>s. (mpi_main sort_by LATENCY 4 2 2 demo_mpi ^^ 26) mpi_launched s \<and> printed (server_side (world s)) = [1, 2, 3, 4]
    \<and> ring_list 4 (results (world s) 1) = [1, 2] \<and> last_line s 0 = Some (Ret (AverageLatency 4))
    \<and> last_line s 2 = Some (Ret (AverageLatency 6))"
proof -
  let ?own = "\<lambda>p::nat. if p = 0 then [4, 5] else [4, 5][0 := 7] :: ticks list"
  have sized: "sized 4 2 2 demo_mpi"
    by (simp add: sized_def demo_mpi_def)
  have ds: "\<forall>p. (\<lambda>_::nat. [4, 5]) p = map (\<lambda>j. end_mem demo_mpi p ! j - start_mem demo_mpi p ! j) [0..<2]"
    by (simp add: demo_mpi_def eval_nat_numeral)
  have own: "\<forall>p. ?own p = (if p = 0 then [4, 5] else [4, 5][0 := rdtscp demo_mpi p 1 - rdtscp demo_mpi p 0])"
    by (simp add: demo_mpi_def)
  have "sort_by cmpfunc [4, 5] = Ret [4, 5]" "sort_by cmpfunc [7, 5] = Ret [5, 7]"
    by code_simp+
  then have qs: "\<forall>p\<le>2. \<exists>ys. sort_by cmpfunc (?own p) = Ret ys \<and> length ys = 2"
    by simp
  note completes = mpi_program_completes [where qs = sort_by and i = demo_mpi and n = 2 and ns = 2 and m = 4 and bd = LATENCY and ds = "\<lambda>_. [4, 5]" and own = ?own, OF sized _ refl ds own qs]
  have "k \<le> 26 \<Longrightarrow> \<exists>s. (mpi_main sort_by LATENCY 4 2 2 demo_mpi ^^ k) mpi_launched s" for k
  proof (induction k)
    case (Suc k)
    then obtain s where s: "(mpi_main sort_by LATENCY 4 2 2 demo_mpi ^^ k) mpi_launched s"
      by auto
    then obtain s' where "mpi_main sort_by LATENCY 4 2 2 demo_mpi s s'"
      using completes [OF s] Suc.prems by auto
    with s show ?case
      by (meson relpowp_Suc_I)
  qed simp
  then obtain s where s: "(mpi_main sort_by LATENCY 4 2 2 demo_mpi ^^ 26) mpi_launched s"
    by blast
  have four: "map sample [0..<2 * 2] = [1, 2, 3, 4]" "map sample [0..<2] = [1, 2]"
    by (simp_all add: sample_def eval_nat_numeral)
  show ?thesis
    using completes [OF s] four by (intro exI [of _ s]) (simp add: s)
qed

end
