(* ===== verification/Bmm_Handlers.thy ===== *)
theory Bmm_Handlers
  imports Turn_Rounds
begin

text \<open>
  Queue type 2 of \<^verbatim>\<open>QueueBenchmarks/sqmain.c\<close>: the handlers around liblfds's bounded queue and their round, whose threads take
  turns in a given order. The library is not part of the repository: \<open>bmm_enq\<close> (its result is dropped), \<open>bmm_deq\<close> and the two index fields
  of its state are parameters, and each of its calls is atomic. An element is a pointer, here an address. The dequeue is told to store its pointer at
  \<^verbatim>\<open>(void**)&ret\<close>, where \<^verbatim>\<open>ret\<close> is an \<^verbatim>\<open>int\<close>: whether the pointer fits there depends on the size \<open>ps\<close> of a pointer, which is
  8 on x86-64 and 4 on the 32-bit ARM boards for which the file has its own \<^verbatim>\<open>getticks\<close>.
\<close>

section \<open>The handlers\<close>

definition SIZEOF_INT :: nat where
  "SIZEOF_INT = 4"

text \<open>What a store of a pointer through \<^verbatim>\<open>(void**)&ret\<close> leaves in \<^verbatim>\<open>ret\<close>.\<close>

definition store_pointer :: "nat \<Rightarrow> nat \<Rightarrow> c_int outcome" where
  "store_pointer ps p = (if ps \<le> SIZEOF_INT then Ret (of_nat p) else Fault BadIndex)"

text \<open>One pass of \<^verbatim>\<open>while (ret == -1)\<close>, and whether it was the last one.\<close>

definition bmm_poll :: "nat \<Rightarrow> ('s \<Rightarrow> (nat option \<times> 's) outcome) \<Rightarrow> c_int \<Rightarrow> 's \<Rightarrow> (c_int \<times> 's) outcome" where
  "bmm_poll ps bmm_deq ret s =
     bindO (bmm_deq s) (\<lambda>(p, s').
       case p of None \<Rightarrow> Ret (ret, s') | Some a \<Rightarrow> bindO (store_pointer ps a) (\<lambda>ret'. Ret (ret', s')))"

definition bmm_try :: "nat \<Rightarrow> ('s \<Rightarrow> (nat option \<times> 's) outcome) \<Rightarrow> 's \<Rightarrow> ('s \<times> bool) outcome" where
  "bmm_try ps bmm_deq s = bindO (bmm_poll ps bmm_deq (- 1) s) (\<lambda>(ret, s'). Ret (s', ret \<noteq> - 1))"

text \<open>With \<open>LATENCY\<close>: every element is the address \<open>addr i\<close> of the loop variable \<^verbatim>\<open>i\<close> of producer \<open>i\<close>.\<close>

definition bmm_latency_thread :: "nat \<Rightarrow> (nat \<Rightarrow> 's \<Rightarrow> (bool \<times> 's) outcome) \<Rightarrow> ('s \<Rightarrow> (nat option \<times> 's) outcome) \<Rightarrow> (nat \<Rightarrow> nat)
    \<Rightarrow> nat \<Rightarrow> nat \<Rightarrow> (nat \<Rightarrow> env) \<Rightarrow> nat \<Rightarrow> nat \<Rightarrow> 's \<times> bench \<Rightarrow> (nat option \<times> 's \<times> bench) outcome" where
  "bmm_latency_thread ps bmm_enq bmm_deq addr N c =
     counted_thread LATENCY N c (\<lambda>i k s. once (run_state (bmm_enq (addr i) s))) (bmm_try ps bmm_deq)"

text \<open>With \<open>THROUGHPUT\<close>: where a thread stands in its loop. A producer has its \<^verbatim>\<open>i\<close>, a worker \<^verbatim>\<open>count\<close> and \<^verbatim>\<open>isempty\<close> and is
  about to look at the indices or to dequeue; then come \<^verbatim>\<open>NUM_SAMPLES_PER_THREAD\<close>, \<^verbatim>\<open>diff\<close> and the readings of the clock so far.\<close>

datatype bmm_rate =
    Filling nat nat int nat
  | Looking nat bool nat int nat
  | Polling nat nat int nat

definition bmm_fill_turn :: "(nat \<Rightarrow> 's \<Rightarrow> (bool \<times> 's) outcome) \<Rightarrow> nat \<Rightarrow> env \<Rightarrow> nat \<Rightarrow> nat \<Rightarrow> int \<Rightarrow> nat \<Rightarrow> 's \<times> bench
    \<Rightarrow> (bmm_rate option \<times> 's \<times> bench) outcome" where
  "bmm_fill_turn bmm_enq a e i num diff r sb =
     (if diff \<le> 3 then
        bindO (run_state (bmm_enq a (fst sb))) (\<lambda>s.
          Ret (Some (if Suc i mod 10000 = 0 then Filling 1 (num + Suc i) (fst (monotonic e r) - fst (monotonic e 0)) (Suc r)
                     else Filling (Suc i) num diff r), s, snd sb))
      else Ret (None, fst sb, add_enqueue_samples num (elapsed (monotonic e 1) (monotonic e r)) (snd sb)))"

text \<open>What follows the inner loop: the worker counts, and reads the clock after 10000 elements or when it found the queue empty.\<close>

definition bmm_count :: "env \<Rightarrow> nat \<Rightarrow> bool \<Rightarrow> nat \<Rightarrow> int \<Rightarrow> nat \<Rightarrow> bmm_rate" where
  "bmm_count e cnt isempty num diff r =
     (if Suc cnt mod 10000 = 0 \<or> isempty
      then Looking 1 isempty (num + Suc cnt) (fst (monotonic e r) - fst (monotonic e 0)) (Suc r)
      else Looking (Suc cnt) isempty num diff r)"

text \<open>\<open>indices\<close> gives \<^verbatim>\<open>write_index\<close> and \<^verbatim>\<open>read_index\<close>.\<close>

definition bmm_look_turn :: "('s \<Rightarrow> nat \<times> nat) \<Rightarrow> nat \<Rightarrow> env \<Rightarrow> nat \<Rightarrow> bool \<Rightarrow> nat \<Rightarrow> int \<Rightarrow> nat \<Rightarrow> 's \<times> bench
    \<Rightarrow> (bmm_rate option \<times> 's \<times> bench) outcome" where
  "bmm_look_turn indices N e cnt isempty num diff r sb =
     (let (write_index, read_index) = indices (fst sb) in
      if diff \<le> 3 \<and> \<not> isempty then
        (if N < write_index \<and> read_index = write_index then Ret (Some (bmm_count e cnt True num diff r), sb)
         else Ret (Some (Polling cnt num diff r), sb))
      else Ret (None, fst sb, add_dequeue_samples num (elapsed (monotonic e 1) (monotonic e r)) (snd sb)))"

text \<open>A dequeue that leaves \<^verbatim>\<open>ret\<close> at -1 is followed by another look at the indices.\<close>

definition bmm_poll_turn :: "nat \<Rightarrow> ('s \<Rightarrow> (nat option \<times> 's) outcome) \<Rightarrow> env \<Rightarrow> nat \<Rightarrow> nat \<Rightarrow> int \<Rightarrow> nat \<Rightarrow> 's \<times> bench
    \<Rightarrow> (bmm_rate option \<times> 's \<times> bench) outcome" where
  "bmm_poll_turn ps bmm_deq e cnt num diff r sb =
     bindO (bmm_try ps bmm_deq (fst sb)) (\<lambda>(s, over).
       Ret (Some (if over then bmm_count e cnt False num diff r else Looking cnt False num diff r), s, snd sb))"

definition bmm_rate_thread :: "nat \<Rightarrow> (nat \<Rightarrow> 's \<Rightarrow> (bool \<times> 's) outcome) \<Rightarrow> ('s \<Rightarrow> (nat option \<times> 's) outcome) \<Rightarrow> ('s \<Rightarrow> nat \<times> nat) \<Rightarrow> (nat \<Rightarrow> nat)
    \<Rightarrow> nat \<Rightarrow> (nat \<Rightarrow> env) \<Rightarrow> nat \<Rightarrow> bmm_rate \<Rightarrow> 's \<times> bench \<Rightarrow> (bmm_rate option \<times> 's \<times> bench) outcome" where
  "bmm_rate_thread ps bmm_enq bmm_deq indices addr N es j l =
     (case l of
        Filling i num diff r \<Rightarrow> bmm_fill_turn bmm_enq (addr j) (es j) i num diff r
      | Looking cnt isempty num diff r \<Rightarrow> bmm_look_turn indices N (es j) cnt isempty num diff r
      | Polling cnt num diff r \<Rightarrow> bmm_poll_turn ps bmm_deq (es j) cnt num diff r)"

definition bmm_rate_start :: "nat \<Rightarrow> nat \<Rightarrow> bmm_rate" where
  "bmm_rate_start c j = (if j < c then Filling 1 0 0 2 else Looking 1 False 0 0 2)"

section \<open>The round\<close>

definition bmm_round :: "nat \<Rightarrow> (nat \<Rightarrow> 's) \<Rightarrow> (nat \<Rightarrow> 's \<Rightarrow> (bool \<times> 's) outcome) \<Rightarrow> ('s \<Rightarrow> (nat option \<times> 's) outcome)
    \<Rightarrow> ('s \<Rightarrow> nat \<times> nat) \<Rightarrow> ('s \<Rightarrow> 's) \<Rightarrow> sorter \<Rightarrow> build \<Rightarrow> nat \<Rightarrow> real \<Rightarrow> int \<Rightarrow> (nat \<Rightarrow> nat) \<Rightarrow> (nat \<Rightarrow> env) \<Rightarrow> nat list \<Rightarrow> nat
    \<Rightarrow> 's \<times> bench \<Rightarrow> (report \<times> 's \<times> bench) outcome" where
  "bmm_round ps bmm_init bmm_enq bmm_deq indices bmm_cleanup qs bd N clockFreq ov addr es sch t sb =
     (let c = cur_num_threads t; start = (bmm_init N, alloc_samples N (snd sb)) in
      bindO (case bd of
               LATENCY \<Rightarrow> run_turns t (bmm_latency_thread ps bmm_enq bmm_deq addr N c es) (\<lambda>_. 0) sch start
             | THROUGHPUT \<Rightarrow> run_turns t (bmm_rate_thread ps bmm_enq bmm_deq indices addr N es) (bmm_rate_start c) sch start) (\<lambda>sb1.
      bindO (with_summary qs bd 2 c clockFreq ov sb1) (\<lambda>(r, s2, b2). Ret (r, bmm_cleanup s2, b2))))"

section \<open>The contract of the library's queue\<close>

text \<open>A queue of at most \<open>N\<close> elements, a power of 2, whose enqueue says whether there was room and whose
  dequeue, when there is nothing, stores nothing.\<close>

definition bmm_contract :: "('s \<Rightarrow> bool) \<Rightarrow> ('s \<Rightarrow> nat list) \<Rightarrow> nat \<Rightarrow> (nat \<Rightarrow> 's) \<Rightarrow> (nat \<Rightarrow> 's \<Rightarrow> (bool \<times> 's) outcome)
    \<Rightarrow> ('s \<Rightarrow> (nat option \<times> 's) outcome) \<Rightarrow> bool" where
  "bmm_contract ok_q contents N bmm_init bmm_enq bmm_deq \<longleftrightarrow>
     ((\<exists>k. N = 2 ^ k) \<longrightarrow> ok_q (bmm_init N) \<and> contents (bmm_init N) = [])
     \<and> (\<forall>s a. ok_q s \<longrightarrow> length (contents s) < N \<longrightarrow>
          (\<exists>s'. bmm_enq a s = Ret (True, s') \<and> ok_q s' \<and> contents s' = contents s @ [a]))
     \<and> (\<forall>s a. ok_q s \<longrightarrow> length (contents s) = N \<longrightarrow> bmm_enq a s = Ret (False, s))
     \<and> (\<forall>s a as. ok_q s \<longrightarrow> contents s = a # as \<longrightarrow>
          (\<exists>s'. bmm_deq s = Ret (Some a, s') \<and> ok_q s' \<and> contents s' = as))
     \<and> (\<forall>s. ok_q s \<longrightarrow> contents s = [] \<longrightarrow> bmm_deq s = Ret (None, s))"

lemma bmm_contractD:
  assumes "bmm_contract ok_q contents N bmm_init bmm_enq bmm_deq"
  shows "N = 2 ^ k \<Longrightarrow> ok_q (bmm_init N) \<and> contents (bmm_init N) = []"
    and "ok_q s \<Longrightarrow> length (contents s) < N \<Longrightarrow> \<exists>s'. bmm_enq a s = Ret (True, s') \<and> ok_q s' \<and> contents s' = contents s @ [a]"
    and "ok_q s \<Longrightarrow> contents s = a # as \<Longrightarrow> \<exists>s'. bmm_deq s = Ret (Some a, s') \<and> ok_q s' \<and> contents s' = as"
    and "ok_q s \<Longrightarrow> contents s = [] \<Longrightarrow> bmm_deq s = Ret (None, s)"
  using assms unfolding bmm_contract_def by blast+

section \<open>A latency round\<close>

text \<open>The address of an \<^verbatim>\<open>int\<close> is a multiple of four, so it is not read as -1.\<close>

lemma aligned_address:
  assumes "4 dvd a"
  shows "(of_nat a :: c_int) \<noteq> - 1"
proof
  assume "(of_nat a :: c_int) = - 1"
  then have "unat (of_nat a :: c_int) = unat (- 1 :: c_int)"
    by simp
  then have "a mod 2 ^ 32 = 2 ^ 32 - 1"
    by (simp add: unsigned_of_nat take_bit_eq_mod unsigned_minus_1_eq_mask mask_eq_exp_minus_1)
  moreover have "4 dvd a mod 2 ^ 32"
    using assms by (simp add: dvd_mod)
  ultimately show False
    by simp
qed

lemma bmm_turns:
  assumes c: "bmm_contract ok_q contents N bmm_init bmm_enq bmm_deq" and addr: "\<forall>i. 4 dvd addr i"
  shows "turn_queue (\<lambda>i k s. once (run_state (bmm_enq (addr i) s))) (bmm_try ps bmm_deq)
    (\<lambda>s. ok_q s \<and> list_all (\<lambda>a. 4 dvd a) (contents s)) (\<lambda>s. length (contents s)) N Retries
    (if ps \<le> 4 then None else Some BadIndex)"
proof
  fix s and i k :: nat
  assume a: "ok_q s \<and> list_all (\<lambda>a. 4 dvd a) (contents s)" "length (contents s) < N"
  then obtain s' where "bmm_enq (addr i) s = Ret (True, s')" "ok_q s'" "contents s' = contents s @ [addr i]"
    using bmm_contractD(2) [OF c] by blast
  then show "\<exists>s'. once (run_state (bmm_enq (addr i) s)) = Ret (s', True) \<and> (ok_q s' \<and> list_all (\<lambda>a. 4 dvd a) (contents s'))
      \<and> length (contents s') = Suc (length (contents s))"
    using a(1) addr by (simp add: once_def)
next
  fix s assume a: "ok_q s \<and> list_all (\<lambda>a. 4 dvd a) (contents s)" "0 < length (contents s)"
  then obtain p as where p: "contents s = p # as" "4 dvd p" "list_all (\<lambda>a. 4 dvd a) as"
    by (cases "contents s") auto
  then obtain s' where s': "bmm_deq s = Ret (Some p, s')" "ok_q s'" "contents s' = as"
    using a(1) bmm_contractD(3) [OF c] by blast
  show "case if ps \<le> 4 then None else Some BadIndex of
      None \<Rightarrow> \<exists>s'. bmm_try ps bmm_deq s = Ret (s', True) \<and> (ok_q s' \<and> list_all (\<lambda>a. 4 dvd a) (contents s')) \<and> length (contents s') = length (contents s) - 1
    | Some e \<Rightarrow> bmm_try ps bmm_deq s = Fault e"
    using p s' aligned_address [OF p(2)] by (auto simp: bmm_try_def bmm_poll_def store_pointer_def SIZEOF_INT_def)
next
  fix s assume "ok_q s \<and> list_all (\<lambda>a. 4 dvd a) (contents s)" "length (contents s) = 0"
  then have "bmm_deq s = Ret (None, s)"
    using bmm_contractD(4) [OF c] by simp
  then show "case Retries of Faults e \<Rightarrow> bmm_try ps bmm_deq s = Fault e
      | Skips \<Rightarrow> \<exists>s'. bmm_try ps bmm_deq s = Ret (s', True) \<and> (ok_q s' \<and> list_all (\<lambda>a. 4 dvd a) (contents s')) \<and> length (contents s') = 0
      | Retries \<Rightarrow> \<exists>s'. bmm_try ps bmm_deq s = Ret (s', False) \<and> (ok_q s' \<and> list_all (\<lambda>a. 4 dvd a) (contents s')) \<and> length (contents s') = 0"
    using \<open>ok_q s \<and> _\<close> \<open>length (contents s) = 0\<close> by (simp add: bmm_try_def bmm_poll_def)
qed

text \<open>What a schedule brings: a report, the write outside \<^verbatim>\<open>ret\<close>, or threads that still wait.\<close>

definition bmm_reports :: "nat \<Rightarrow> real \<Rightarrow> int \<Rightarrow> (nat \<Rightarrow> env) \<Rightarrow> nat \<Rightarrow> (report \<times> 's \<times> bench) outcome \<Rightarrow> bool" where
  "bmm_reports N f ov es t x \<longleftrightarrow> (\<exists>r s b. x = Ret (r, s, b) \<and> round_report 2 N f ov es t r)"

lemma bmm_round_tally:
  assumes c: "bmm_contract ok_q contents N bmm_init bmm_enq bmm_deq" and "\<forall>i. 4 dvd addr i" and "N = 2 ^ p" and "qsort_contract qs"
    and "N \<le> 2147483647" and "valid_count N t" and "measurable_round ov es (cur_num_threads t) (N div cur_num_threads t)"
    and x: "x = bmm_round ps bmm_init bmm_enq bmm_deq indices bmm_cleanup qs LATENCY N f ov addr es sch t (s0, b)"
  shows "case tally_turns Retries (if ps \<le> 4 then None else Some BadIndex) (cur_num_threads t) (N div cur_num_threads t) sch tally_start of
      Fault e \<Rightarrow> x = Fault e | Hang \<Rightarrow> False
    | Ret s \<Rightarrow> if tally_over (cur_num_threads t) (N div cur_num_threads t) s then bmm_reports N f ov es t x else x = Hang"
proof -
  let ?c = "cur_num_threads t" and ?n = "N div cur_num_threads t" and ?s = "bmm_init N"
  let ?r = "tally_turns Retries (if ps \<le> 4 then None else Some BadIndex) ?c ?n sch tally_start"
  let ?y = "run_turns t (bmm_latency_thread ps bmm_enq bmm_deq addr N ?c es) (\<lambda>_. 0) sch (?s, alloc_samples N b)"
  note L = bmm_turns [OF assms(1,2), of ps]
  have t: "even t" "0 < t" "?c \<le> N"
    using assms(6) by (simp_all add: valid_count_def)
  have new: "ok_q ?s \<and> list_all (\<lambda>a. 4 dvd a) (contents ?s)" "length (contents ?s) = 0"
    using bmm_contractD(1) [OF c assms(3)] by simp_all
  from turn_queue.turn_round [where sch = sch and b = b and type = 2 and f = f, OF L assms(4) t assms(5,7) new thread_share(5) [OF t]]
  have F: "turn_queue.round_follows (\<lambda>s. ok_q s \<and> list_all (\<lambda>a. 4 dvd a) (contents s)) (\<lambda>s. length (contents s)) qs 2 N f ov es ?c ?r ?y"
    by (simp add: bmm_latency_thread_def)
  have x: "x = bindO ?y (\<lambda>sb1. bindO (with_summary qs LATENCY 2 ?c f ov sb1) (\<lambda>(r, s2, b2). Ret (r, bmm_cleanup s2, b2)))"
    by (simp add: x bmm_round_def Let_def)
  show ?thesis
  proof (cases ?r)
    case (Ret s)
    then show ?thesis
      using F unfolding x turn_queue.round_follows_def [OF L]
      by (auto simp: bmm_reports_def round_report_def split: if_splits)
  next
    case (Fault e)
    then show ?thesis
      using F unfolding x turn_queue.round_follows_def [OF L] by simp
  next
    case Hang
    then show ?thesis
      using F unfolding turn_queue.round_follows_def [OF L] by simp
  qed
qed

section \<open>Property\<close>

text \<open>C38: The latency round of type 2 over any queue that keeps the library's promise, with an even thread count and a sample for each
  thread, after any sequence of turns of its threads. With pointers of four bytes, it has either reported, and then the report describes the samples
  that the threads have measured, or some threads have not returned; then there are further turns after which it reports. With
  larger pointers no order of the turns ever gives a report: the round has run into the write outside \<^verbatim>\<open>ret\<close>, or some threads have
  not returned and two further turns lead to that write.\<close>

theorem bmm_round_outcome:
  assumes "bmm_contract ok_q contents N bmm_init bmm_enq bmm_deq" and "\<forall>i. 4 dvd addr i" and "N = 2 ^ p" and "qsort_contract qs"
    and "N \<le> 2147483647" and "valid_count N t" and "measurable_round ov es (cur_num_threads t) (N div cur_num_threads t)"
    and "rnd = (\<lambda>sch. bmm_round ps bmm_init bmm_enq bmm_deq indices bmm_cleanup qs LATENCY N f ov addr es sch t (s0, b))"
  shows "if ps \<le> 4
    then (bmm_reports N f ov es t (rnd sch) \<or> rnd sch = Hang) \<and> (\<exists>more. bmm_reports N f ov es t (rnd (sch @ more)))
    else (rnd sch = Fault BadIndex \<or> rnd sch = Hang) \<and> (\<exists>i j. rnd (sch @ [i, j]) = Fault BadIndex)"
proof -
  let ?c = "cur_num_threads t" and ?n = "N div cur_num_threads t" and ?ot = "if ps \<le> 4 then None else Some BadIndex"
  let ?r = "\<lambda>sch. tally_turns Retries ?ot ?c ?n sch tally_start"
  have pos: "0 < ?c" "0 < ?n"
    using assms(6) by (auto simp: valid_count_def intro!: thread_share(1,3))
  have T: "case ?r sch of Fault e \<Rightarrow> rnd sch = Fault e | Hang \<Rightarrow> False
      | Ret s \<Rightarrow> if tally_over ?c ?n s then bmm_reports N f ov es t (rnd sch) else rnd sch = Hang" for sch
    by (rule bmm_round_tally [OF assms(1-7)]) (simp add: assms(8))
  obtain s where s: "missed s = 0" "?r sch = Ret s \<or> (\<exists>e. ?ot = Some e \<and> ?r sch = Fault e)"
    using retries_outcomes [of tally_start ?ot ?c ?n sch] by (auto simp: tally_start_def)
  show ?thesis
  proof (cases "ps \<le> 4")
    case True
    then have run: "?r sch = Ret s"
      using s(2) by simp
    then obtain more s' where "tally_turns Retries ?ot ?c ?n more s = Ret s'" "tally_over ?c ?n s'"
      using polls_finish [OF tally_turns_inv [OF tally_start_inv run] s(1)] True by auto
    then have "?r (sch @ more) = Ret s'" "tally_over ?c ?n s'"
      by (simp_all add: tally_turns_append run)
    then have "bmm_reports N f ov es t (rnd (sch @ more))"
      using T [of "sch @ more"] by simp
    moreover have "bmm_reports N f ov es t (rnd sch) \<or> rnd sch = Hang"
      using T [of sch] run by (simp split: if_splits)
    ultimately show ?thesis
      using True by auto
  next
    case False
    have next_fault: "?r (sch @ [0, ?c]) = Fault BadIndex" "?r sch = Ret s \<Longrightarrow> \<not> tally_over ?c ?n s"
    proof -
      have "?r (sch @ [0, ?c]) = Fault BadIndex \<and> (?r sch = Ret s \<longrightarrow> \<not> tally_over ?c ?n s)"
      proof (cases "?r sch = Ret s")
        case True
        have "\<forall>i. ?c \<le> i \<longrightarrow> made s i = 0"
          using consumers_stuck [of ?c tally_start ?n BadIndex sch s] True False pos(2) by (simp add: tally_start_def)
        from takes_fault [OF tally_turns_inv [OF tally_start_inv True] s(1) this pos] show ?thesis
          using True False by (simp add: tally_turns_append)
      next
        case no: False
        then show ?thesis
          using s(2) False by (simp add: tally_turns_append)
      qed
      then show "?r (sch @ [0, ?c]) = Fault BadIndex" "?r sch = Ret s \<Longrightarrow> \<not> tally_over ?c ?n s"
        by simp_all
    qed
    then have "rnd (sch @ [0, ?c]) = Fault BadIndex"
      using T [of "sch @ [0, ?c]"] by simp
    moreover have "rnd sch = Fault BadIndex \<or> rnd sch = Hang"
      using T [of sch] s(2) next_fault(2) False by (auto split: if_splits)
    ultimately show ?thesis
      using False by auto
  qed
qed

text \<open>A list as the queue; its indices count the calls that succeeded.\<close>

record list_bmm =
  cells :: "nat list"
  writes :: nat
  reads :: nat

definition list_bmm_init :: "nat \<Rightarrow> list_bmm" where
  "list_bmm_init N = \<lparr>cells = [], writes = 0, reads = 0\<rparr>"

definition list_bmm_enq :: "nat \<Rightarrow> nat \<Rightarrow> list_bmm \<Rightarrow> (bool \<times> list_bmm) outcome" where
  "list_bmm_enq N a s =
     Ret (if length (cells s) < N then (True, s\<lparr>cells := cells s @ [a], writes := Suc (writes s)\<rparr>) else (False, s))"

definition list_bmm_deq :: "list_bmm \<Rightarrow> (nat option \<times> list_bmm) outcome" where
  "list_bmm_deq s = Ret (case cells s of [] \<Rightarrow> (None, s) | a # as \<Rightarrow> (Some a, s\<lparr>cells := as, reads := Suc (reads s)\<rparr>))"

lemma list_bmm: "bmm_contract (\<lambda>_. True) cells N list_bmm_init (list_bmm_enq N) list_bmm_deq"
  by (simp add: bmm_contract_def list_bmm_init_def list_bmm_enq_def list_bmm_deq_def)

definition demo_bmm_round :: "nat \<Rightarrow> nat list \<Rightarrow> (report \<times> list_bmm \<times> bench) outcome" where
  "demo_bmm_round ps sch = bmm_round ps list_bmm_init (list_bmm_enq 2) list_bmm_deq (\<lambda>s. (writes s, reads s)) (\<lambda>s. s) sort_by LATENCY 2 2 1
     (\<lambda>i. 80 + 8 * i) (\<lambda>_. demo_env) sch 2 (list_bmm_init 2, demo_bench)"

theorem bmm_round_outcome_witness:
  "(\<exists>more. bmm_reports 2 2 1 (\<lambda>_. demo_env) 2 (demo_bmm_round 4 ([1, 1, 0] @ more)))
    \<and> (\<exists>i j. demo_bmm_round 8 ([1, 1, 0] @ [i, j]) = Fault BadIndex)"
proof -
  have c: "cur_num_threads 2 = 1" "2 div 1 = (2::nat)"
    by (simp_all add: cur_num_threads_def)
  have "enq_samples (\<lambda>_. demo_env) 1 2 = [3, 3]" "deq_samples (\<lambda>_. demo_env) 1 2 = [3, 3]"
    by (simp_all add: enq_samples_def deq_samples_def all_deltas_def deltas_def demo_env_def eval_nat_numeral)
  then have m: "measurable_round 1 (\<lambda>_. demo_env) (cur_num_threads 2) (2 div cur_num_threads 2)"
    by (simp add: measurable_round_def c measurable_def list_all_iff)
  have v: "valid_count 2 2" "(2::nat) = 2 ^ 1" "\<forall>i. 4 dvd 80 + 8 * (i::nat)"
    by (simp_all add: valid_count_def c)
  note R = bmm_round_outcome [OF list_bmm v(3,2) sort_by_contract _ v(1) m, where sch = "[1, 1, 0]" and f = 2 and b = demo_bench
      and indices = "\<lambda>s. (writes s, reads s)" and bmm_cleanup = "\<lambda>s. s" and ?s0.0 = "list_bmm_init 2"]
  show ?thesis
    using R [where ps = 4, OF _ refl] R [where ps = 8, OF _ refl] by (simp add: demo_bmm_round_def del: append.simps)
qed

end
