(* ===== verification/Basic_Conc.thy ===== *)
theory Basic_Conc
  imports Basic_Queue
begin

text \<open>
  The linked queue of \<^verbatim>\<open>basicqueue.c\<close> under concurrency: any number of threads in \<^verbatim>\<open>BasicEnqueue\<close> and
  \<^verbatim>\<open>BasicDequeue\<close>, the allocation, the lock, the list operation and the unlock a step each, built from the
  micro-operations of \<open>Basic_Queue\<close>. Waiting for the mutex is having no step. The two copies of the file
  differ in the type name and in the \<^verbatim>\<open>printf\<close>s only, so one relation stands for both.
\<close>

section \<open>Threads and steps\<close>

text \<open>A thread has the elements it still has to enqueue, or the number of dequeues it still has to make.\<close>

datatype bc_pc =
    Putting "c_int list"
  | PutLock c_int "c_int list"
  | PutInside c_int "c_int list"
  | PutUnlock "c_int list"
  | Getting nat
  | GetInside nat
  | GetUnlock c_int nat
  | Crashed nat

datatype bc_event = Silent | Insert c_int | Remove c_int | Return c_int

fun bc_act :: "bc_pc \<Rightarrow> basicq \<Rightarrow> (bc_pc \<times> basicq \<times> bc_event) option" where
  "bc_act (Putting []) q = None"
| "bc_act (Putting (x # xs)) q = Some (PutLock x xs, q\<lparr>allocs := Suc (allocs q)\<rparr>, Silent)"
| "bc_act (PutLock x xs) q = (case mutex_lock q of Ret q1 \<Rightarrow> Some (PutInside x xs, q1, Silent) | _ \<Rightarrow> None)"
| "bc_act (PutInside x xs) q = Some (PutUnlock xs, circleq_insert_tail x q, Insert x)"
| "bc_act (PutUnlock xs) q = Some (Putting xs, mutex_unlock q, Silent)"
| "bc_act (Getting 0) q = None"
| "bc_act (Getting (Suc k)) q = (case mutex_lock q of Ret q1 \<Rightarrow> Some (GetInside k, q1, Silent) | _ \<Rightarrow> None)"
| "bc_act (GetInside k) q =
     (case circleq_remove_first q of Ret (x, q1) \<Rightarrow> Some (GetUnlock x k, q1, Remove x) | _ \<Rightarrow> Some (Crashed k, q, Silent))"
| "bc_act (GetUnlock x k) q = Some (Getting k, mutex_unlock q, Return x)"
| "bc_act (Crashed k) q = None"

text \<open>The logs: what went into the queue and out of it, in order, and what each thread got back.\<close>

record bc_system =
  bc_q :: basicq
  bc_pcs :: "nat \<Rightarrow> bc_pc"
  ins :: "c_int list"
  outs :: "c_int list"
  returned :: "nat \<Rightarrow> c_int list"

fun bc_log :: "nat \<Rightarrow> bc_event \<Rightarrow> bc_system \<Rightarrow> bc_system" where
  "bc_log i Silent s = s"
| "bc_log i (Insert x) s = s\<lparr>ins := ins s @ [x]\<rparr>"
| "bc_log i (Remove x) s = s\<lparr>outs := outs s @ [x]\<rparr>"
| "bc_log i (Return x) s = s\<lparr>returned := (returned s)(i := returned s i @ [x])\<rparr>"

inductive bc_step :: "nat \<Rightarrow> bc_system \<Rightarrow> bc_system \<Rightarrow> bool" for n where
  bc_stepI: "i < n \<Longrightarrow> bc_act (bc_pcs s i) (bc_q s) = Some (pc, q, ev) \<Longrightarrow>
    bc_step n s (bc_log i ev (s\<lparr>bc_q := q, bc_pcs := (bc_pcs s)(i := pc)\<rparr>))"

definition bc_start :: "basicq \<Rightarrow> (nat \<Rightarrow> bc_pc) \<Rightarrow> bc_system" where
  "bc_start q p = \<lparr>bc_q = q, bc_pcs = p, ins = [], outs = [], returned = (\<lambda>_. [])\<rparr>"

text \<open>
  The round of \<^verbatim>\<open>SimpleQueueImpl/main.c\<close>: the main thread has enqueued the \<open>n\<close> elements before it creates the
  \<open>nt\<close> workers, of which each makes \<open>n div nt\<close> dequeues.
\<close>

definition basic_workers_start :: "nat \<Rightarrow> nat \<Rightarrow> basicq \<Rightarrow> bc_system outcome" where
  "basic_workers_start n nt q =
     bindO (enq_all BasicEnqueue_si (map (\<lambda>i. of_nat (i + 1)) [0..<n]) (InitBasicQueue_si q)) (\<lambda>q1.
       if nt = 0 then Fault DivByZero else Ret (bc_start q1 (\<lambda>_. Getting (n div nt))))"

lemma bc_log_simps [simp]:
  "bc_q (bc_log i ev s) = bc_q s" "bc_pcs (bc_log i ev s) = bc_pcs s"
  by (cases ev; simp)+

section \<open>The invariant\<close>

fun inside :: "bc_pc \<Rightarrow> nat" where
  "inside (PutInside x xs) = 1"
| "inside (PutUnlock xs) = 1"
| "inside (GetInside k) = 1"
| "inside (GetUnlock x k) = 1"
| "inside (Crashed k) = 1"
| "inside _ = 0"

fun to_put :: "bc_pc \<Rightarrow> c_int multiset" where
  "to_put (Putting xs) = mset xs"
| "to_put (PutLock x xs) = add_mset x (mset xs)"
| "to_put (PutInside x xs) = add_mset x (mset xs)"
| "to_put (PutUnlock xs) = mset xs"
| "to_put _ = {#}"

fun to_get :: "bc_pc \<Rightarrow> nat" where
  "to_get (Getting k) = k"
| "to_get (GetInside k) = Suc k"
| "to_get (GetUnlock x k) = k"
| "to_get (Crashed k) = Suc k"
| "to_get _ = 0"

fun in_hand :: "bc_pc \<Rightarrow> c_int multiset" where
  "in_hand (GetUnlock x k) = {#x#}"
| "in_hand _ = {#}"

text \<open>The steps a thread still has to make.\<close>

fun effort_bc :: "bc_pc \<Rightarrow> nat" where
  "effort_bc (Putting xs) = 4 * length xs"
| "effort_bc (PutLock x xs) = 4 * length xs + 3"
| "effort_bc (PutInside x xs) = 4 * length xs + 2"
| "effort_bc (PutUnlock xs) = 4 * length xs + 1"
| "effort_bc (Getting k) = 3 * k"
| "effort_bc (GetInside k) = 3 * k + 2"
| "effort_bc (GetUnlock x k) = 3 * k + 1"
| "effort_bc (Crashed k) = 3 * k + 1"

definition all_bc :: "nat \<Rightarrow> (bc_pc \<Rightarrow> 'a :: comm_monoid_add) \<Rightarrow> (nat \<Rightarrow> bc_pc) \<Rightarrow> 'a" where
  "all_bc n f p = (\<Sum>j<n. f (p j))"

definition bc_inv :: "nat \<Rightarrow> c_int list \<Rightarrow> c_int multiset \<Rightarrow> nat \<Rightarrow> bc_system \<Rightarrow> bool" where
  "bc_inv n xs V D s \<longleftrightarrow>
     all_bc n inside (bc_pcs s) = (if lock_held (bc_q s) then 1 else 0)
     \<and> xs @ ins s = outs s @ entries (bc_q s)
     \<and> mset (ins s) + all_bc n to_put (bc_pcs s) = V
     \<and> mset (outs s) = (\<Sum>j<n. mset (returned s j)) + all_bc n in_hand (bc_pcs s)
     \<and> length (outs s) + all_bc n to_get (bc_pcs s) = D
     \<and> ((\<exists>i<n. \<exists>k. bc_pcs s i = Crashed k) \<longrightarrow> entries (bc_q s) = [])"

lemma all_bc_upd: "i < n \<Longrightarrow> all_bc n f (p(i := y)) + f (p i) = all_bc n f p + f y"
  using sum_upd [of i n f y p] by (simp add: all_bc_def fun_upd_def)

lemma all_bc_ge: "i < n \<Longrightarrow> f (p i) \<le> (all_bc n f p :: nat)"
  unfolding all_bc_def by (rule member_le_sum) simp_all

text \<open>A thread inside is the only one.\<close>

lemma inside_alone:
  assumes "all_bc n inside p \<le> 1" and "i < n" and "j < n" and "inside (p i) = 1" and "inside (p j) = 1"
  shows "i = j"
proof (rule ccontr)
  assume ne: "i \<noteq> j"
  have "inside (p i) + inside (p j) = (\<Sum>k\<in>{i, j}. inside (p k))"
    using ne by simp
  also have "\<dots> \<le> all_bc n inside p"
    unfolding all_bc_def using assms(2,3) by (intro sum_mono2) auto
  finally show False
    using assms(1,4,5) by simp
qed

section \<open>Every step keeps the invariant and costs one\<close>

text \<open>The sums after a step of thread \<open>i\<close>.\<close>

lemma bc_sums:
  assumes "i < n" and "p = bc_pcs s i"
  shows "all_bc n inside ((bc_pcs s)(i := pc)) + inside p = all_bc n inside (bc_pcs s) + inside pc"
    and "all_bc n to_put ((bc_pcs s)(i := pc)) + to_put p = all_bc n to_put (bc_pcs s) + to_put pc"
    and "all_bc n to_get ((bc_pcs s)(i := pc)) + to_get p = all_bc n to_get (bc_pcs s) + to_get pc"
    and "all_bc n in_hand ((bc_pcs s)(i := pc)) + in_hand p = all_bc n in_hand (bc_pcs s) + in_hand pc"
    and "all_bc n effort_bc ((bc_pcs s)(i := pc)) + effort_bc p = all_bc n effort_bc (bc_pcs s) + effort_bc pc"
  using all_bc_upd [OF assms(1), of _ "bc_pcs s" pc] assms(2) by simp_all

lemma returned_upd:
  fixes i :: nat
  assumes "i < n"
  shows "(\<Sum>j<n. mset ((r(i := r i @ [x])) j)) = (\<Sum>j<n. mset (r j)) + {#x#}"
  using sum_upd [OF assms, of mset "r i @ [x]" r] by (simp add: fun_upd_def)

text \<open>Who is inside, and what that excludes.\<close>

lemma crash_excludes:
  assumes inv: "bc_inv n xs V D s" and "i < n" and "\<And>k. bc_pcs s i \<noteq> Crashed k"
    and "inside (bc_pcs s i) = 1 \<or> \<not> lock_held (bc_q s)"
  shows "\<not> (\<exists>j<n. \<exists>k. bc_pcs s j = Crashed k)"
proof
  assume "\<exists>j<n. \<exists>k. bc_pcs s j = Crashed k"
  then obtain j k where j: "j < n" "bc_pcs s j = Crashed k"
    by blast
  have one: "all_bc n inside (bc_pcs s) = (if lock_held (bc_q s) then 1 else 0)"
    using inv by (simp add: bc_inv_def)
  have "inside (bc_pcs s j) \<le> all_bc n inside (bc_pcs s)"
    by (rule all_bc_ge [OF j(1)])
  then have "lock_held (bc_q s)"
    using j(2) one by (auto split: if_splits)
  then have "inside (bc_pcs s i) = 1" "all_bc n inside (bc_pcs s) \<le> 1"
    using assms(4) one by simp_all
  then have "i = j"
    using inside_alone [of n "bc_pcs s" i j] assms(2) j by simp
  then show False
    using assms(3) j(2) by blast
qed

lemma bc_step_inv:
  assumes st: "bc_step n s s'" and inv: "bc_inv n xs V D s"
  shows "bc_inv n xs V D s' \<and> Suc (all_bc n effort_bc (bc_pcs s')) = all_bc n effort_bc (bc_pcs s)"
  using st
proof cases
  case (bc_stepI i pc q ev)
  note i = bc_stepI(2) and act = bc_stepI(3)
  note S = bc_sums [OF i refl, of s pc]
  note R = returned_upd [OF i, of "returned s"]
  have I: "all_bc n inside (bc_pcs s) = (if lock_held (bc_q s) then 1 else 0)" "xs @ ins s = outs s @ entries (bc_q s)"
      "mset (ins s) + all_bc n to_put (bc_pcs s) = V"
      "mset (outs s) = (\<Sum>j<n. mset (returned s j)) + all_bc n in_hand (bc_pcs s)"
      "length (outs s) + all_bc n to_get (bc_pcs s) = D"
    using inv by (simp_all add: bc_inv_def)
  have ge: "inside (bc_pcs s i) \<le> all_bc n inside (bc_pcs s)"
    by (rule all_bc_ge [OF i])
  show ?thesis
  proof (cases "bc_pcs s i")
    case (Putting ys)
    then show ?thesis
      using act S I inv unfolding bc_stepI(1) by (cases ys) (auto simp: bc_inv_def)
  next
    case (PutLock x ys)
    then have u: "\<not> lock_held (bc_q s)" "q = (bc_q s)\<lparr>lock_held := True\<rparr>" "pc = PutInside x ys" "ev = Silent"
      using act by (auto simp: mutex_lock_def split: outcome.splits if_splits)
    then show ?thesis
      using PutLock S I inv unfolding bc_stepI(1) by (auto simp: bc_inv_def)
  next
    case (PutInside x ys)
    then have u: "q = circleq_insert_tail x (bc_q s)" "pc = PutUnlock ys" "ev = Insert x"
      using act by simp_all
    have "\<not> (\<exists>j<n. \<exists>k. ((bc_pcs s)(i := pc)) j = Crashed k)"
      using crash_excludes [OF inv i] PutInside u by auto
    then show ?thesis
      using PutInside S I u unfolding bc_stepI(1) by (auto simp: bc_inv_def circleq_insert_tail_def)
  next
    case (PutUnlock ys)
    then have u: "q = mutex_unlock (bc_q s)" "pc = Putting ys" "ev = Silent"
      using act by simp_all
    then show ?thesis
      using PutUnlock S I inv ge unfolding bc_stepI(1) by (auto simp: bc_inv_def mutex_unlock_def split: if_splits)
  next
    case (Getting k)
    then show ?thesis
      using act S I inv unfolding bc_stepI(1)
      by (cases k) (auto simp: bc_inv_def mutex_lock_def split: outcome.splits if_splits)
  next
    case (GetInside k)
    show ?thesis
    proof (cases "entries (bc_q s)")
      case Nil
      then have u: "q = bc_q s" "pc = Crashed k" "ev = Silent"
        using act GetInside by (simp_all add: circleq_remove_first_def)
      then show ?thesis
        using GetInside Nil S I unfolding bc_stepI(1) by (auto simp: bc_inv_def)
    next
      case (Cons x ys)
      then have u: "q = (bc_q s)\<lparr>entries := ys\<rparr>" "pc = GetUnlock x k" "ev = Remove x"
        using act GetInside by (simp_all add: circleq_remove_first_def)
      have "\<not> (\<exists>j<n. \<exists>k. ((bc_pcs s)(i := pc)) j = Crashed k)"
        using crash_excludes [OF inv i] GetInside u by auto
      then show ?thesis
        using GetInside Cons S I u unfolding bc_stepI(1) by (auto simp: bc_inv_def)
    qed
  next
    case (GetUnlock x k)
    then have u: "q = mutex_unlock (bc_q s)" "pc = Getting k" "ev = Return x"
      using act by simp_all
    then show ?thesis
      using GetUnlock S I inv ge R [of x] unfolding bc_stepI(1)
      by (auto simp: bc_inv_def mutex_unlock_def split: if_splits)
  qed (use act in simp)
qed

section \<open>Runs\<close>

lemma bc_progress:
  assumes inv: "bc_inv n xs V D s" and nc: "\<not> (\<exists>i<n. \<exists>k. bc_pcs s i = Crashed k)" and e: "0 < all_bc n effort_bc (bc_pcs s)"
  shows "\<exists>s'. bc_step n s s'"
proof -
  have one: "all_bc n inside (bc_pcs s) = (if lock_held (bc_q s) then 1 else 0)"
    using inv by (simp add: bc_inv_def)
  obtain i where i: "i < n" "bc_act (bc_pcs s i) (bc_q s) \<noteq> None"
  proof (cases "lock_held (bc_q s)")
    case True
    then have "all_bc n inside (bc_pcs s) \<noteq> 0"
      using one by simp
    then obtain i where i: "i < n" "inside (bc_pcs s i) \<noteq> 0"
      unfolding all_bc_def by (meson lessThan_iff sum.neutral)
    moreover have "bc_act (bc_pcs s i) (bc_q s) \<noteq> None"
      using i nc by (cases "bc_pcs s i") (auto split: outcome.splits)
    ultimately show thesis
      using that by blast
  next
    case False
    have "all_bc n effort_bc (bc_pcs s) \<noteq> 0"
      using e by simp
    then obtain i where i: "i < n" "effort_bc (bc_pcs s i) \<noteq> 0"
      unfolding all_bc_def by (meson lessThan_iff sum.neutral)
    have "inside (bc_pcs s i) = 0"
      using all_bc_ge [OF i(1), of inside "bc_pcs s"] one False by simp
    then have "bc_act (bc_pcs s i) (bc_q s) \<noteq> None"
      using i(2) False
      by (cases "(bc_pcs s i, bc_q s)" rule: bc_act.cases) (auto simp: mutex_lock_def)
    then show thesis
      using that i(1) by blast
  qed
  then show ?thesis
    using bc_stepI [OF i(1)] by fastforce
qed

lemma bc_runs:
  assumes "bc_inv n xs V D s"
  shows "(bc_step n ^^ k) s s' \<Longrightarrow> bc_inv n xs V D s' \<and> k + all_bc n effort_bc (bc_pcs s') = all_bc n effort_bc (bc_pcs s)"
proof (induction k arbitrary: s')
  case 0
  then show ?case
    using assms by simp
next
  case (Suc k)
  then obtain t where "(bc_step n ^^ k) s t" "bc_step n t s'"
    by auto
  with Suc.IH [of t] bc_step_inv [of n t s'] show ?case
    by fastforce
qed

text \<open>Threads between two calls.\<close>

fun outside :: "bc_pc \<Rightarrow> bool" where
  "outside (Putting xs) = True"
| "outside (Getting k) = True"
| "outside _ = False"

lemma bc_start_inv:
  assumes "\<not> lock_held q" and "\<And>i. i < n \<Longrightarrow> outside (p i)"
  shows "bc_inv n (entries q) (all_bc n to_put p) (all_bc n to_get p) (bc_start q p)"
proof -
  have "inside (p i) = 0 \<and> in_hand (p i) = {#} \<and> (\<forall>k. p i \<noteq> Crashed k)" if "i < n" for i
    using assms(2) [OF that] by (cases "p i") auto
  then show ?thesis
    using assms(1) by (auto simp: bc_inv_def bc_start_def all_bc_def)
qed

lemma bc_no_crash:
  assumes inv: "bc_inv n xs V D s" and "D \<le> length xs"
  shows "\<not> (\<exists>i<n. \<exists>k. bc_pcs s i = Crashed k)"
proof
  assume "\<exists>i<n. \<exists>k. bc_pcs s i = Crashed k"
  then obtain i k where i: "i < n" "bc_pcs s i = Crashed k" "xs @ ins s = outs s"
    using inv by (auto simp: bc_inv_def)
  have "length xs \<le> length (outs s)"
    using arg_cong [OF i(3), of length] by simp
  moreover have "to_get (bc_pcs s i) \<le> all_bc n to_get (bc_pcs s)"
    by (rule all_bc_ge [OF i(1)])
  moreover have "length (outs s) + all_bc n to_get (bc_pcs s) = D"
    using inv by (simp add: bc_inv_def)
  ultimately show False
    using i(2) assms(2) by simp
qed

lemma effort_outside: "outside pc \<Longrightarrow> effort_bc pc = 4 * size (to_put pc) + 3 * to_get pc"
  by (cases pc) auto

lemma start_effort:
  "(\<And>i. i < n \<Longrightarrow> outside (p i)) \<Longrightarrow> all_bc n effort_bc p = 4 * size (all_bc n to_put p) + 3 * all_bc n to_get p"
  by (induction n) (simp_all add: all_bc_def effort_outside)

lemma effort_bc_zero: "effort_bc pc = 0 \<Longrightarrow> pc = Putting [] \<or> pc = Getting 0"
  by (cases pc) auto

lemma prefix_of_longer: "xs @ ys = zs @ ws \<Longrightarrow> length zs \<le> length xs \<Longrightarrow> zs = take (length zs) xs \<and> ws = drop (length zs) xs @ ys"
  by (metis append_eq_append_conv_if append_take_drop_id)

text \<open>A thread that has crashed keeps the mutex for ever.\<close>

lemma crashed_stays:
  assumes "bc_inv n xs V D s" and "i < n" and "bc_pcs s i = Crashed k" and "bc_step n s s'"
  shows "bc_pcs s' i = Crashed k"
  using assms(4)
proof cases
  case (bc_stepI j pc q ev)
  then have "j \<noteq> i"
    using assms(3) by auto
  then show ?thesis
    using assms(3) bc_stepI(1) by simp
qed

text \<open>While it does, the queue does not change.\<close>

lemma crashed_freezes:
  assumes inv: "bc_inv n xs V D s" and i: "i < n" "bc_pcs s i = Crashed k" and "bc_step n s s'"
  shows "ins s' = ins s \<and> outs s' = outs s"
  using assms(4)
proof cases
  case (bc_stepI j pc q ev)
  have "inside (bc_pcs s i) \<le> all_bc n inside (bc_pcs s)"
    by (rule all_bc_ge [OF i(1)])
  then have held: "lock_held (bc_q s)" "all_bc n inside (bc_pcs s) \<le> 1"
    using inv i(2) by (auto simp: bc_inv_def split: if_splits)
  have "j \<noteq> i"
    using bc_stepI(3) i(2) by auto
  then have "inside (bc_pcs s j) \<noteq> 1"
    using inside_alone [OF held(2) i(1) bc_stepI(2)] i(2) by auto
  then have "ev = Silent"
    using bc_stepI(3) held(1)
    by (cases "(bc_pcs s j, bc_q s)" rule: bc_act.cases) (auto simp: mutex_lock_def)
  then show ?thesis
    using bc_stepI(1) by simp
qed

lemma bc_completes:
  assumes "\<not> lock_held q" and "\<forall>i<n. outside (p i)" and "all_bc n to_get p \<le> length (entries q)"
    and "(bc_step n ^^ k) (bc_start q p) s" and "E = 4 * size (all_bc n to_put p) + 3 * all_bc n to_get p"
  shows "k \<le> E \<and> (k < E \<longleftrightarrow> (\<exists>s'. bc_step n s s'))
    \<and> (k = E \<longrightarrow> (\<forall>i<n. bc_pcs s i = Putting [] \<or> bc_pcs s i = Getting 0) \<and> \<not> lock_held (bc_q s)
        \<and> mset (ins s) = all_bc n to_put p
        \<and> outs s = take (all_bc n to_get p) (entries q) \<and> entries (bc_q s) = drop (all_bc n to_get p) (entries q) @ ins s
        \<and> (\<Sum>i<n. mset (returned s i)) = mset (outs s))"
proof -
  let ?D = "all_bc n to_get p" and ?V = "all_bc n to_put p"
  have start: "all_bc n effort_bc p = E"
    using assms(2,5) start_effort by blast
  have run: "bc_inv n (entries q) ?V ?D s" "k + all_bc n effort_bc (bc_pcs s) = E"
    using bc_runs [OF bc_start_inv [OF assms(1)] assms(4)] assms(2) start by (auto simp: bc_start_def)
  note nc = bc_no_crash [OF run(1) assms(3)]
  show ?thesis
  proof (intro conjI impI)
    show "k \<le> E"
      using run(2) by simp
    show "k < E \<longleftrightarrow> (\<exists>s'. bc_step n s s')"
      using bc_progress [OF run(1) nc] bc_step_inv [OF _ run(1)] run(2) by fastforce
    assume "k = E"
    then have "all_bc n effort_bc (bc_pcs s) = 0"
      using run(2) by simp
    then have zero: "effort_bc (bc_pcs s i) = 0" if "i < n" for i
      using that all_bc_ge [OF that, of effort_bc "bc_pcs s"] by simp
    show fin: "\<forall>i<n. bc_pcs s i = Putting [] \<or> bc_pcs s i = Getting 0"
      using zero by (metis effort_bc_zero)
    have none: "all_bc n inside (bc_pcs s) = 0" "all_bc n to_put (bc_pcs s) = {#}" "all_bc n to_get (bc_pcs s) = 0"
        "all_bc n in_hand (bc_pcs s) = {#}"
      using fin by (auto simp: all_bc_def intro!: sum.neutral)
    then show "\<not> lock_held (bc_q s)" "mset (ins s) = ?V" "(\<Sum>i<n. mset (returned s i)) = mset (outs s)"
      using run(1) by (simp_all add: bc_inv_def split: if_splits)
    have len: "length (outs s) = ?D" "entries q @ ins s = outs s @ entries (bc_q s)"
      using run(1) none by (simp_all add: bc_inv_def)
    then show "outs s = take ?D (entries q)" "entries (bc_q s) = drop ?D (entries q) @ ins s"
      using prefix_of_longer [OF len(2)] assms(3) by simp_all
  qed
qed

section \<open>Properties\<close>

text \<open>C12: Whatever any number of threads do with the linked queue, at most one is between lock and unlock, and the
  elements leave the queue in the order in which they were inserted: what was in it first and what went in is what
  came out followed by what it holds. Only elements the threads were to enqueue go in, each at most as often, what
  came out is what the threads got plus what one of them is about to return, and a thread crashes only on the empty
  queue.\<close>

theorem basic_conc_fifo:
  assumes "\<not> lock_held q" and "\<forall>i<n. outside (p i)" and "(bc_step n)\<^sup>*\<^sup>* (bc_start q p) s"
  shows "(\<forall>i<n. \<forall>j<n. inside (bc_pcs s i) = 1 \<and> inside (bc_pcs s j) = 1 \<longrightarrow> i = j)
    \<and> entries q @ ins s = outs s @ entries (bc_q s)
    \<and> mset (ins s) \<subseteq># all_bc n to_put p
    \<and> (\<Sum>i<n. mset (returned s i)) + all_bc n in_hand (bc_pcs s) = mset (outs s)
    \<and> ((\<exists>i<n. \<exists>k. bc_pcs s i = Crashed k) \<longrightarrow> entries (bc_q s) = [])"
proof -
  obtain k where "(bc_step n ^^ k) (bc_start q p) s"
    using assms(3) by (auto simp: rtranclp_power)
  then have inv: "bc_inv n (entries q) (all_bc n to_put p) (all_bc n to_get p) s"
    using bc_runs [OF bc_start_inv [OF assms(1)]] assms(2) by blast
  then have "all_bc n inside (bc_pcs s) \<le> 1" "mset (ins s) + all_bc n to_put (bc_pcs s) = all_bc n to_put p"
    by (simp_all add: bc_inv_def)
  then have "\<forall>i<n. \<forall>j<n. inside (bc_pcs s i) = 1 \<and> inside (bc_pcs s j) = 1 \<longrightarrow> i = j"
      "mset (ins s) \<subseteq># all_bc n to_put p"
    using inside_alone by (blast, metis mset_subset_eq_add_left)
  then show ?thesis
    using inv by (simp add: bc_inv_def)
qed

text \<open>C13: When the queue holds an element for every dequeue before the threads start, nobody crashes: every run goes
  on until it has made exactly four steps for each enqueue and three for each dequeue, and then every thread is done,
  exactly the elements to be enqueued went in, and the dequeues have returned the oldest elements, each one once.\<close>

theorem basic_conc_completes:
  assumes "\<not> lock_held q" and "\<forall>i<n. outside (p i)" and "all_bc n to_get p \<le> length (entries q)"
    and "(bc_step n ^^ k) (bc_start q p) s" and "E = 4 * size (all_bc n to_put p) + 3 * all_bc n to_get p"
  shows "k \<le> E \<and> (k < E \<longleftrightarrow> (\<exists>s'. bc_step n s s'))
    \<and> (k = E \<longrightarrow> (\<forall>i<n. bc_pcs s i = Putting [] \<or> bc_pcs s i = Getting 0) \<and> \<not> lock_held (bc_q s)
        \<and> mset (ins s) = all_bc n to_put p
        \<and> outs s = take (all_bc n to_get p) (entries q) \<and> entries (bc_q s) = drop (all_bc n to_get p) (entries q) @ ins s
        \<and> (\<Sum>i<n. mset (returned s i)) = mset (outs s))"
  by (rule bc_completes [OF assms])

text \<open>C20: A round of the linked queue in \<^verbatim>\<open>SimpleQueueImpl/main.c\<close> with any number \<open>nt\<close> of workers: the filling
  succeeds, and whatever the scheduling nobody crashes, every run makes \<open>3 * nt * (n div nt)\<close> steps, and at its end
  the workers have got the elements \<open>1, 2, \<dots>\<close> in the order of the removals, each one once; the \<open>n mod nt\<close> elements
  left over are still in the queue.\<close>

theorem basic_workers_round:
  assumes "0 < nt" and "t = nt * (n div nt)"
  shows "\<exists>s0. basic_workers_start n nt q = Ret s0
    \<and> (\<forall>k s. (bc_step nt ^^ k) s0 s \<longrightarrow> (k < 3 * t \<longleftrightarrow> (\<exists>s'. bc_step nt s s'))
        \<and> (k = 3 * t \<longrightarrow> (\<forall>i<nt. bc_pcs s i = Getting 0 \<or> bc_pcs s i = Putting [])
            \<and> outs s = map (\<lambda>i. of_nat (i + 1)) [0..<t]
            \<and> (\<Sum>i<nt. mset (returned s i)) = mset (outs s) \<and> entries (bc_q s) = map (\<lambda>i. of_nat (i + 1)) [t..<n]))"
proof -
  let ?xs = "map (\<lambda>i. of_nat (i + 1) :: c_int) [0..<n]" and ?p = "\<lambda>_. Getting (n div nt)"
  have "\<not> lock_held (InitBasicQueue_si q)" "entries (InitBasicQueue_si q) = []"
    by (simp_all add: InitBasicQueue_si_def)
  then obtain q1 where q1: "enq_all BasicEnqueue_si ?xs (InitBasicQueue_si q) = Ret q1" "\<not> lock_held q1" "entries q1 = ?xs"
    using bs.enq_all_ok [of "InitBasicQueue_si q" ?xs n n] by (auto simp: list_all_iff)
  have p: "all_bc nt to_get ?p = t" "all_bc nt to_put ?p = {#}" "\<forall>i<nt. outside (?p i)"
    by (simp_all add: all_bc_def assms(2))
  have le: "t \<le> length (entries q1)"
    using assms(2) q1(3) by simp
  have cut: "take t ?xs = map (\<lambda>i. of_nat (i + 1)) [0..<t]" "drop t ?xs = map (\<lambda>i. of_nat (i + 1)) [t..<n]"
    using le q1(3) by (simp_all add: take_map drop_map del: of_nat_add)
  have "(k < 3 * t \<longleftrightarrow> (\<exists>s'. bc_step nt s s')) \<and> (k = 3 * t \<longrightarrow> (\<forall>i<nt. bc_pcs s i = Getting 0 \<or> bc_pcs s i = Putting [])
            \<and> outs s = map (\<lambda>i. of_nat (i + 1)) [0..<t]
            \<and> (\<Sum>i<nt. mset (returned s i)) = mset (outs s) \<and> entries (bc_q s) = map (\<lambda>i. of_nat (i + 1)) [t..<n])"
    if "(bc_step nt ^^ k) (bc_start q1 ?p) s" for k s
    using bc_completes [OF q1(2) p(3) _ that, of "3 * t"] le cut unfolding p q1(3) by auto
  moreover have "basic_workers_start n nt q = Ret (bc_start q1 ?p)"
    using q1(1) assms(1) by (simp add: basic_workers_start_def)
  ultimately show ?thesis
    by blast
qed

text \<open>The crash is not a remote possibility: from any state in which the queue is empty, the mutex free and a
  thread about to dequeue, that thread can crash with its next two steps; it then holds the mutex for ever, so that
  no element is inserted or removed any more.\<close>

theorem basic_dequeue_crashes:
  assumes "\<not> lock_held q" and "\<forall>i<n. outside (p i)" and "(bc_step n)\<^sup>*\<^sup>* (bc_start q p) s"
    and "i < n" and "bc_pcs s i = Getting (Suc k)" and "entries (bc_q s) = []" and "\<not> lock_held (bc_q s)"
  shows "\<exists>s'. (bc_step n ^^ 2) s s' \<and> bc_pcs s' i = Crashed k
    \<and> (\<forall>t. (bc_step n)\<^sup>*\<^sup>* s' t \<longrightarrow> bc_pcs t i = Crashed k \<and> lock_held (bc_q t) \<and> entries (bc_q t) = [] \<and> ins t = ins s' \<and> outs t = outs s')"
proof -
  define q1 where "q1 = (bc_q s)\<lparr>lock_held := True\<rparr>"
  define s1 where "s1 = s\<lparr>bc_q := q1, bc_pcs := (bc_pcs s)(i := GetInside k)\<rparr>"
  define s2 where "s2 = s1\<lparr>bc_pcs := (bc_pcs s1)(i := Crashed k)\<rparr>"
  have "bc_step n s s1"
    using bc_stepI [OF assms(4), of s "GetInside k" q1 Silent] assms(5,7) by (simp add: s1_def q1_def mutex_lock_def)
  moreover have "bc_step n s1 s2"
    using bc_stepI [OF assms(4), of s1 "Crashed k" q1 Silent] assms(6)
    by (simp add: s1_def s2_def q1_def circleq_remove_first_def)
  ultimately have two: "(bc_step n ^^ 2) s s2"
    by (auto simp: numeral_2_eq_2)
  obtain m where "(bc_step n ^^ m) (bc_start q p) s"
    using assms(3) by (auto simp: rtranclp_power)
  then have "(bc_step n ^^ (m + 2)) (bc_start q p) s2"
    using two unfolding relpowp_add by (rule relcomppI)
  then obtain xs V D where inv: "bc_inv n xs V D s2"
    using bc_runs [OF bc_start_inv [OF assms(1)]] assms(2) by blast
  have "bc_inv n xs V D t \<and> bc_pcs t i = Crashed k \<and> ins t = ins s2 \<and> outs t = outs s2" if "(bc_step n)\<^sup>*\<^sup>* s2 t" for t
    using that
  proof induction
    case base
    then show ?case
      using inv by (simp add: s2_def)
  next
    case (step t u)
    then show ?case
      using crashed_stays [of n xs V D t i k u] bc_step_inv [of n t u xs V D] assms(4) crashed_freezes [of n xs V D t i k u] by simp
  qed
  moreover have "lock_held (bc_q t) \<and> entries (bc_q t) = []" if "bc_inv n xs V D t" "bc_pcs t i = Crashed k" for t
    using that assms(4) all_bc_ge [OF assms(4), of inside "bc_pcs t"] by (auto simp: bc_inv_def split: if_splits)
  ultimately show ?thesis
    using two by (intro exI [of _ s2]) (auto simp: s2_def)
qed

definition demo_bc :: "nat \<Rightarrow> bc_pc" where
  "demo_bc i = (if i = 0 then Putting [7] else Getting 1)"

abbreviation demo_bq :: basicq where
  "demo_bq \<equiv> \<lparr>entries = [3, 4], lock_held = False, allocs = 2, frees = 0\<rparr>"

lemma demo_bc_facts: "\<forall>i<2. outside (demo_bc i)" "all_bc 2 to_put demo_bc = {#7#}" "all_bc 2 to_get demo_bc = 1"
  by (auto simp: demo_bc_def all_bc_def numeral_2_eq_2)

theorem basic_conc_fifo_witness:
  "\<exists>s. bc_step 2 (bc_start demo_bq demo_bc) s \<and> ins s = [] \<and> [3, 4] = outs s @ entries (bc_q s)"
proof -
  let ?s = "bc_start demo_bq demo_bc"
  have "bc_step 2 ?s (bc_log 0 Silent (?s\<lparr>bc_q := demo_bq\<lparr>allocs := 3\<rparr>, bc_pcs := (bc_pcs ?s)(0 := PutLock 7 [])\<rparr>))"
    by (rule bc_stepI) (simp_all add: bc_start_def demo_bc_def)
  then obtain s where s: "bc_step 2 ?s s" "ins s = []"
    by (auto simp: bc_start_def)
  moreover have "(bc_step 2)\<^sup>*\<^sup>* (bc_start demo_bq demo_bc) s"
    using s(1) by (rule r_into_rtranclp)
  ultimately show ?thesis
    using basic_conc_fifo [of demo_bq 2 demo_bc s] demo_bc_facts by auto
qed

theorem basic_conc_completes_witness:
  "\<exists>s. bc_step 2 (bc_start demo_bq demo_bc) s"
  using basic_conc_completes [of demo_bq 2 demo_bc 0 "bc_start demo_bq demo_bc" 7] demo_bc_facts by simp

theorem basic_workers_round_witness:
  "\<exists>s0. basic_workers_start 8 3 demo_bq = Ret s0
    \<and> (\<forall>s. (bc_step 3 ^^ 18) s0 s \<longrightarrow> entries (bc_q s) = [7, 8])"
proof -
  have "map (\<lambda>i. of_nat (i + 1) :: c_int) [6..<8] = [7, 8]"
    by (simp add: upt_conv_Cons)
  then show ?thesis
    using basic_workers_round [of 3 6 8 demo_bq] by auto
qed

theorem basic_dequeue_crashes_witness:
  "\<exists>s. (bc_step 2 ^^ 2) (bc_start (demo_bq\<lparr>entries := []\<rparr>) demo_bc) s \<and> bc_pcs s 1 = Crashed 0"
  using basic_dequeue_crashes [of "demo_bq\<lparr>entries := []\<rparr>" 2 demo_bc "bc_start (demo_bq\<lparr>entries := []\<rparr>) demo_bc" 1 0] demo_bc_facts
  by (auto simp: bc_start_def demo_bc_def)

end
