(* ===== verification/Lock_Free_Test.thy ===== *)
theory Lock_Free_Test
  imports Lock_Free_Conc
begin

text \<open>
  \<^verbatim>\<open>testlockfreequeue_multiplethreads\<close> and its \<^verbatim>\<open>consumer\<close> of \<^verbatim>\<open>SimpleQueueImpl/main.c\<close>, on the steps of
  \<open>Lock_Free_Conc\<close>. Thread 0 is the main thread, which pushes the addresses of its tasks; a consumer pops in a loop
  without end, as \<^verbatim>\<open>cond\<close> is never set: the model gives it \<open>k\<close> rounds, for any \<open>k\<close>. The time stamps and
  \<^verbatim>\<open>sched_yield\<close> are left out.
\<close>

definition consumer :: "nat \<Rightarrow> lf_pc" where
  "consumer k = Pops k"

definition testlockfreequeue_multiplethreads :: "(nat \<Rightarrow> nat) \<Rightarrow> nat \<Rightarrow> nat \<Rightarrow> nat \<Rightarrow> lf_system" where
  "testlockfreequeue_multiplethreads addr n nt k =
     lf_start q_initialize (Pushing (map (\<lambda>i. Some (addr i)) [0..<n]) # replicate nt (consumer k))"

lemma test_pcs:
  assumes "0 < nt"
  shows "lf_pcs (testlockfreequeue_multiplethreads addr n nt k) 0 = Pushing (map (\<lambda>i. Some (addr i)) [0..<n])"
    and "lf_pcs (testlockfreequeue_multiplethreads addr n nt k) 1 = Pops k"
    and "lf_q (testlockfreequeue_multiplethreads addr n nt k) = q_initialize"
  using assms by (simp_all add: testlockfreequeue_multiplethreads_def lf_start_def consumer_def)

section \<open>One thread after the other\<close>

lemma push_all_alone:
  assumes "i < n"
  shows "lf_inv (lf_q s) \<Longrightarrow> lf_pcs s i = Pushing vs \<Longrightarrow>
    \<exists>s'. (lf_step n)\<^sup>*\<^sup>* s s' \<and> lf_pcs s' = (lf_pcs s)(i := Pushing []) \<and> lf_results s' = lf_results s
      \<and> lf_inv (lf_q s') \<and> lf_list (lf_q s') = lf_list (lf_q s) @ vs"
proof (induction vs arbitrary: s)
  case Nil
  then show ?case
    by (intro exI [of _ s]) (auto simp: fun_upd_idem)
next
  case (Cons v vs)
  obtain s1 where s1: "(lf_step n)\<^sup>*\<^sup>* s s1" "lf_pcs s1 = (lf_pcs s)(i := Pushing vs)" "lf_results s1 = lf_results s"
      "lf_inv (lf_q s1)" "lf_list (lf_q s1) = lf_list (lf_q s) @ [v]"
    using pushes_alone [OF Cons.prems(1) assms Cons.prems(2)] by blast
  then obtain s2 where "(lf_step n)\<^sup>*\<^sup>* s1 s2" "lf_pcs s2 = (lf_pcs s1)(i := Pushing [])" "lf_results s2 = lf_results s1"
      "lf_inv (lf_q s2)" "lf_list (lf_q s2) = lf_list (lf_q s1) @ vs"
    using Cons.IH [OF s1(4)] fun_upd_same [of "lf_pcs s" i "Pushing vs"] s1(2) by metis
  then show ?case
    using s1 by (intro exI [of _ s2]) auto
qed

lemma pop_all_alone:
  assumes "i < n"
  shows "lf_inv (lf_q s) \<Longrightarrow> lf_pcs s i = Pops (length vs + k) \<Longrightarrow> lf_list (lf_q s) = vs \<Longrightarrow>
    \<exists>s'. (lf_step n)\<^sup>*\<^sup>* s s' \<and> lf_pcs s' = (lf_pcs s)(i := Pops k) \<and> lf_results s' i = lf_results s i @ vs
      \<and> lf_inv (lf_q s') \<and> lf_list (lf_q s') = []"
proof (induction vs arbitrary: s)
  case Nil
  then show ?case
    by (intro exI [of _ s]) (auto simp: fun_upd_idem)
next
  case (Cons v vs)
  obtain s1 where s1: "(lf_step n)\<^sup>*\<^sup>* s s1" "lf_pcs s1 = (lf_pcs s)(i := Pops (length vs + k))"
      "lf_results s1 i = lf_results s i @ [v]" "lf_inv (lf_q s1)" "lf_list (lf_q s1) = vs"
    using pops_alone [OF Cons.prems(1) assms, of "length vs + k"] Cons.prems(2,3) by auto
  then obtain s2 where "(lf_step n)\<^sup>*\<^sup>* s1 s2" "lf_pcs s2 = (lf_pcs s1)(i := Pops k)" "lf_results s2 i = lf_results s1 i @ vs"
      "lf_inv (lf_q s2)" "lf_list (lf_q s2) = []"
    using Cons.IH [OF s1(4) _ s1(5)] fun_upd_same [of "lf_pcs s" i "Pops (length vs + k)"] s1(2) by metis
  then show ?case
    using s1 by (intro exI [of _ s2]) auto
qed

section \<open>A pop between the steps of a push\<close>

definition q_half_pushed :: "nat option \<Rightarrow> nat option \<Rightarrow> lf_queue" where
  "q_half_pushed v w = \<lparr>qhead = 1, qtail = 3,
     nodes = [2 \<mapsto> \<lparr>val = v, next_ptr = None\<rparr>, 0 \<mapsto> \<lparr>val = None, next_ptr = Some 3\<rparr>, 4 \<mapsto> \<lparr>val = w, next_ptr = None\<rparr>],
     pointers = [1 \<mapsto> \<lparr>pcount = 1, nptr = Some 0\<rparr>, 3 \<mapsto> \<lparr>pcount = 2, nptr = Some 2\<rparr>, 5 \<mapsto> \<lparr>pcount = 2, nptr = Some 4\<rparr>],
     brk = 6\<rparr>"

text \<open>The main thread has pushed \<open>v\<close> and is about to link \<open>w\<close>; a consumer then pops \<open>v\<close>.\<close>

lemma iter_push:
  "\<exists>f. lf_iter 24 (Pushing (v # w # vs)) q_initialize = Some (InPush (LoadNptr 3 f) vs, q_half_pushed v w, [])"
  by (simp add: lf_eval lf_bodies q_initialize_def eval_nat_numeral q_half_pushed_def)

lemma iter_pop:
  "\<exists>q. lf_iter 33 (Pops (Suc k)) (q_half_pushed v w) = Some (Pops k, q, [v]) \<and> pointers q 3 = None \<and> nodes q 3 = None"
  by (simp add: lf_eval lf_bodies q_half_pushed_def eval_nat_numeral)

section \<open>Property\<close>

text \<open>C16: The multi-threaded test of the lock-free queue, for any number of consumers that pop often enough: if the main
  thread pushes all its tasks before a consumer starts, that consumer gets them all in order and leaves the queue
  empty; but as soon as there are two tasks there is an interleaving of the main thread with one consumer in which
  the main thread, about to link its second task, reads memory that the consumer has freed.\<close>

theorem lockfree_threads_test:
  assumes "0 < nt" and "n \<le> k" and "s = testlockfreequeue_multiplethreads addr n nt k"
  shows "(\<exists>s'. (lf_step (Suc nt))\<^sup>*\<^sup>* s s' \<and> lf_pcs s' 0 = Pushing [] \<and> lf_results s' 1 = map (\<lambda>i. Some (addr i)) [0..<n]
      \<and> lf_inv (lf_q s') \<and> lf_list (lf_q s') = [])
    \<and> (2 \<le> n \<longrightarrow> (\<exists>s'. (lf_step (Suc nt))\<^sup>*\<^sup>* s s' \<and> lf_pcs s' 0 = Broken UseAfterFree))"
proof (intro conjI impI)
  let ?vs = "map (\<lambda>i. Some (addr i)) [0..<n]"
  note pcs = test_pcs [OF assms(1), of addr n k, folded assms(3)]
  have res: "lf_results s 1 = []"
    by (simp add: assms(3) testlockfreequeue_multiplethreads_def lf_start_def)
  have q: "lf_inv (lf_q s)" "lf_list (lf_q s) = []"
    using q_initialize_ok pcs(3) by simp_all
  obtain s1 where s1: "(lf_step (Suc nt))\<^sup>*\<^sup>* s s1" "lf_pcs s1 = (lf_pcs s)(0 := Pushing [])" "lf_results s1 = lf_results s"
      "lf_inv (lf_q s1)" "lf_list (lf_q s1) = ?vs"
    using push_all_alone [OF _ q(1) pcs(1), of "Suc nt"] q(2) by auto
  have one: "1 < Suc nt"
    using assms(1) by simp
  have "lf_pcs s1 1 = Pops (length ?vs + (k - n))"
    using s1(2) pcs(2) assms(2) by simp
  from pop_all_alone [OF one s1(4) this s1(5)] obtain s2 where "(lf_step (Suc nt))\<^sup>*\<^sup>* s1 s2"
      "lf_pcs s2 = (lf_pcs s1)(1 := Pops (k - n))" "lf_results s2 1 = ?vs" "lf_inv (lf_q s2)" "lf_list (lf_q s2) = []"
    using s1(3) res by auto
  then show "\<exists>s'. (lf_step (Suc nt))\<^sup>*\<^sup>* s s' \<and> lf_pcs s' 0 = Pushing [] \<and> lf_results s' 1 = ?vs
      \<and> lf_inv (lf_q s') \<and> lf_list (lf_q s') = []"
    using s1(1,2) by (intro exI [of _ s2]) auto
next
  assume n: "2 \<le> n"
  note pcs = test_pcs [OF assms(1), of addr n k, folded assms(3)]
  obtain v w vs where vs: "map (\<lambda>i. Some (addr i)) [0..<n] = v # w # vs"
    using n by (cases "map (\<lambda>i. Some (addr i)) [0..<n]"; cases "tl (map (\<lambda>i. Some (addr i)) [0..<n])") (auto dest: arg_cong [of _ _ length])
  obtain k' where k': "k = Suc k'"
    using n assms(2) by (cases k) auto
  obtain q where q: "lf_iter 33 (Pops (Suc k')) (q_half_pushed v w) = Some (Pops k', q, [v])" "pointers q 3 = None" "nodes q 3 = None"
    using iter_pop by blast
  obtain f where f: "lf_iter 24 (Pushing (v # w # vs)) q_initialize = Some (InPush (LoadNptr 3 f) vs, q_half_pushed v w, [])"
    using iter_push by blast
  define s1 where "s1 = lf_apply 0 (InPush (LoadNptr 3 f) vs, q_half_pushed v w, []) s"
  define s2 where "s2 = lf_apply 1 (Pops k', q, [v]) s1"
  have "(lf_step (Suc nt))\<^sup>*\<^sup>* s s1"
    using iter_runs [of 0 "Suc nt" 24 s "InPush (LoadNptr 3 f) vs" "q_half_pushed v w" "[]"] f pcs vs by (simp add: s1_def)
  moreover have "(lf_step (Suc nt))\<^sup>*\<^sup>* s1 s2"
    using iter_runs [of 1 "Suc nt" 33 s1 "Pops k'" q "[v]"] q(1) pcs(2) k' assms(1) by (simp add: s1_def s2_def)
  moreover have "lf_act (lf_pcs s2 0) (lf_q s2) = Some (Broken UseAfterFree, q, [])"
    using q(2,3) by (simp add: s1_def s2_def after_access_def load_nptr_def)
  then have "lf_step (Suc nt) s2 (lf_apply 0 (Broken UseAfterFree, q, []) s2)"
    by (intro lf_stepI) simp_all
  moreover have "lf_pcs (lf_apply 0 (Broken UseAfterFree, q, []) s2) 0 = Broken UseAfterFree"
    by simp
  ultimately show "\<exists>s'. (lf_step (Suc nt))\<^sup>*\<^sup>* s s' \<and> lf_pcs s' 0 = Broken UseAfterFree"
    by (meson rtranclp.rtrancl_into_rtrancl rtranclp_trans)
qed

theorem lockfree_threads_test_witness:
  "\<exists>s'. (lf_step 4)\<^sup>*\<^sup>* (testlockfreequeue_multiplethreads (\<lambda>i. 40 + 24 * i) 8 3 20) s' \<and> lf_pcs s' 0 = Broken UseAfterFree"
  using lockfree_threads_test [of 3 8 20 _ "\<lambda>i. 40 + 24 * i"] by simp

end
