(* ===== verification/SQueue_Program.thy ===== *)
theory SQueue_Program
  imports SQueue_Main
begin

text \<open>
  \<^verbatim>\<open>main\<close> of \<^verbatim>\<open>SQueue/sqmain.c\<close> as a whole: \<^verbatim>\<open>InitQueue\<close>, then two loops over the thread counts 1, 2, 4, 8; in the
  rounds of the first the main thread enqueues, in those of the second \<open>k\<close> threads do, which are joined before the
  \<open>k\<close> workers start. The threads of one kind run one after the other. The globals with the sums of the ticks are
  not reset between the rounds.
\<close>

section \<open>The rounds\<close>

text \<open>What \<^verbatim>\<open>printf\<close> is given: the number of samples, the ticks for each, the number of threads.\<close>

datatype line = Enqueued nat ticks nat | Dequeued nat ticks nat

definition per_sample :: "nat \<Rightarrow> ticks \<Rightarrow> ticks outcome" where
  "per_sample N t = (if of_nat N = (0 :: ticks) then Fault DivByZero else Ret (t div of_nat N))"

definition single_enqueue_round :: "nat \<Rightarrow> nat \<Rightarrow> (nat \<Rightarrow> ticks) \<Rightarrow> (nat \<Rightarrow> nat \<Rightarrow> ticks) \<Rightarrow> nat \<Rightarrow> sq_main \<Rightarrow> (line list \<times> sq_main) outcome" where
  "single_enqueue_round m N clk clks k s =
     (let start_tick = clk 0 in
      bindO (repeat_op (\<lambda>i q. run_state (Enqueue_sq m (sample i) q)) N (ring s)) (\<lambda>q.
      let end_tick = clk 1; diff_tick = end_tick - start_tick in
      bindO (repeat_op (\<lambda>i. worker_handler_sq m N k (clks i)) k (s\<lparr>ring := q\<rparr>)) (\<lambda>s1.
      bindO (per_sample N diff_tick) (\<lambda>e.
      bindO (per_sample N (dequeue_ticks_sq s1)) (\<lambda>d. Ret ([Enqueued N e k, Dequeued N d k], s1))))))"

definition concurrent_enqueue_round :: "nat \<Rightarrow> nat \<Rightarrow> (nat \<Rightarrow> nat \<Rightarrow> ticks) \<Rightarrow> (nat \<Rightarrow> nat \<Rightarrow> ticks) \<Rightarrow> nat \<Rightarrow> sq_main \<Rightarrow> (line list \<times> sq_main) outcome" where
  "concurrent_enqueue_round m N eclks clks k s =
     bindO (repeat_op (\<lambda>i. enqueue_handler_sq m N k (eclks i)) k s) (\<lambda>s1.
     bindO (repeat_op (\<lambda>i. worker_handler_sq m N k (clks i)) k s1) (\<lambda>s2.
     bindO (per_sample N (enqueue_ticks_sq s2)) (\<lambda>e.
     bindO (per_sample N (dequeue_ticks_sq s2)) (\<lambda>d. Ret ([Enqueued N e k, Dequeued N d k], s2)))))"

text \<open>\<^verbatim>\<open>for (int k = 1; k <= NUM_THREADS; k = k * 2)\<close>\<close>

function thread_counts :: "nat \<Rightarrow> nat \<Rightarrow> nat list" where
  "thread_counts num_threads k = (if 0 < k \<and> k \<le> num_threads then k # thread_counts num_threads (k * 2) else [])"
  by pat_completeness auto
termination
  by (relation "measure (\<lambda>(num_threads, k). Suc num_threads - k)") auto

declare thread_counts.simps [simp del]

fun for_counts :: "(nat \<Rightarrow> sq_main \<Rightarrow> (line list \<times> sq_main) outcome) \<Rightarrow> nat list \<Rightarrow> sq_main \<Rightarrow> (line list \<times> sq_main) outcome" where
  "for_counts one_round [] s = Ret ([], s)"
| "for_counts one_round (k # ks) s =
     bindO (one_round k s) (\<lambda>(ls, s1). bindO (for_counts one_round ks s1) (\<lambda>(ls', s2). Ret (ls @ ls', s2)))"

definition NUM_THREADS_sq :: nat where
  "NUM_THREADS_sq = 8"

text \<open>The clocks: of the main thread and of the workers in the rounds of the first loop, of the enqueuing threads and of the workers in
  those of the second, each for the round with \<open>k\<close> threads.\<close>

record sq_clocks =
  main_clk :: "nat \<Rightarrow> nat \<Rightarrow> ticks"
  worker_clk :: "nat \<Rightarrow> nat \<Rightarrow> nat \<Rightarrow> ticks"
  enqueue_clk2 :: "nat \<Rightarrow> nat \<Rightarrow> nat \<Rightarrow> ticks"
  worker_clk2 :: "nat \<Rightarrow> nat \<Rightarrow> nat \<Rightarrow> ticks"

definition main_sq :: "nat \<Rightarrow> nat \<Rightarrow> nat \<Rightarrow> sq_clocks \<Rightarrow> ringbuf \<Rightarrow> (line list \<times> sq_main) outcome" where
  "main_sq m N num_threads c q0 =
     bindO (InitQueue_sq m q0) (\<lambda>q.
     bindO (for_counts (\<lambda>k. single_enqueue_round m N (main_clk c k) (worker_clk c k) k) (thread_counts num_threads 1)
              \<lparr>ring = q, dequeue_ticks_sq = 0, enqueue_ticks_sq = 0\<rparr>) (\<lambda>(ls1, s1).
     bindO (for_counts (\<lambda>k. concurrent_enqueue_round m N (enqueue_clk2 c k) (worker_clk2 c k) k) (thread_counts num_threads 1) s1)
       (\<lambda>(ls2, s2). Ret (ls1 @ ls2, s2))))"

section \<open>The threads of a round\<close>

text \<open>The ticks \<open>k\<close> threads have measured.\<close>

definition spent :: "(nat \<Rightarrow> nat \<Rightarrow> ticks) \<Rightarrow> nat \<Rightarrow> ticks" where
  "spent clks k = (\<Sum>i<k. clks i 1 - clks i 0)"

lemma spent_Suc: "spent clks (Suc k) = spent clks k + (clks k 1 - clks k 0)"
  by (simp add: spent_def)

context bounded_fifo begin

lemma deq_n_budget: "inv s \<Longrightarrow> n \<le> length (abs s) \<Longrightarrow> deq_n deq n s = Ret (xs, s') \<Longrightarrow> budget s \<le> budget s'"
proof (induction n arbitrary: s xs)
  case 0
  then show ?case by simp
next
  case (Suc n)
  then obtain y ys where y: "abs s = y # ys"
    by (cases "abs s") auto
  obtain s1 where s1: "deq s = Ret (y, s1)" "inv s1" "abs s1 = ys"
    using deq_law [OF Suc.prems(1) y] by blast
  then obtain zs where "deq_n deq n s1 = Ret (zs, s')"
    using Suc.prems(3) by (auto simp: bindO_Ret_iff)
  moreover have "n \<le> length (abs s1)"
    using Suc.prems(2) y s1(3) by simp
  ultimately have "budget s1 \<le> budget s'"
    using Suc.IH [OF s1(2)] by blast
  moreover have "budget s \<le> budget s1"
    using budget_deq [OF Suc.prems(1) y s1(1)] .
  ultimately show ?case
    by simp
qed

end

lemma workers_ok:
  assumes "0 < k"
  shows "ring_inv m (ring s) \<Longrightarrow> j * (N div k) \<le> length (ring_list m (ring s)) \<Longrightarrow>
    \<exists>s'. repeat_op (\<lambda>i. worker_handler_sq m N k (clks i)) j s = Ret s' \<and> ring_inv m (ring s')
      \<and> ring_list m (ring s') = drop (j * (N div k)) (ring_list m (ring s)) \<and> ring_budget (ring s) \<le> ring_budget (ring s')
      \<and> dequeue_ticks_sq s' = dequeue_ticks_sq s + spent clks j \<and> enqueue_ticks_sq s' = enqueue_ticks_sq s"
proof (induction j)
  case 0
  then show ?case
    by (simp add: spent_def)
next
  case (Suc j)
  let ?n = "N div k"
  obtain s1 where s1: "repeat_op (\<lambda>i. worker_handler_sq m N k (clks i)) j s = Ret s1" "ring_inv m (ring s1)"
      "ring_list m (ring s1) = drop (j * ?n) (ring_list m (ring s))" "ring_budget (ring s) \<le> ring_budget (ring s1)"
      "dequeue_ticks_sq s1 = dequeue_ticks_sq s + spent clks j" "enqueue_ticks_sq s1 = enqueue_ticks_sq s"
    using Suc by auto
  have len: "?n \<le> length (ring_list m (ring s1))"
    using Suc.prems(2) s1(3) by simp
  obtain q where q: "deq_n (Dequeue_sq m) ?n (ring s1) = Ret (take ?n (ring_list m (ring s1)), q)" "ring_inv m q"
      "ring_list m q = drop ?n (ring_list m (ring s1))"
    using sq.deq_some [OF s1(2) len] by blast
  have "ring_budget (ring s1) \<le> ring_budget q"
    using sq.deq_n_budget [OF s1(2) len q(1)] .
  moreover have "worker_handler_sq m N k (clks j) s1
      = Ret (s1\<lparr>ring := q, dequeue_ticks_sq := dequeue_ticks_sq s1 + (clks j 1 - clks j 0)\<rparr>)"
    using q(1) assms by (simp add: worker_handler_sq_def per_thread_def repeat_deq)
  ultimately show ?case
    using s1 q by (auto simp: spent_Suc algebra_simps)
qed

lemma enqueuers_ok:
  assumes "0 < k" and "N \<le> 2147483648"
  shows "ring_inv m (ring s) \<Longrightarrow> length (ring_list m (ring s)) + j * (N div k) \<le> m \<Longrightarrow> j * (N div k) \<le> ring_budget (ring s) \<Longrightarrow>
    \<exists>s'. repeat_op (\<lambda>i. enqueue_handler_sq m N k (clks i)) j s = Ret s' \<and> ring_inv m (ring s')
      \<and> length (ring_list m (ring s')) = length (ring_list m (ring s)) + j * (N div k)
      \<and> ring_budget (ring s) \<le> j * (N div k) + ring_budget (ring s')
      \<and> enqueue_ticks_sq s' = enqueue_ticks_sq s + spent clks j \<and> dequeue_ticks_sq s' = dequeue_ticks_sq s"
proof (induction j)
  case 0
  then show ?case
    by (simp add: spent_def)
next
  case (Suc j)
  let ?n = "N div k"
  obtain s1 where s1: "repeat_op (\<lambda>i. enqueue_handler_sq m N k (clks i)) j s = Ret s1" "ring_inv m (ring s1)"
      "length (ring_list m (ring s1)) = length (ring_list m (ring s)) + j * ?n"
      "ring_budget (ring s) \<le> j * ?n + ring_budget (ring s1)"
      "enqueue_ticks_sq s1 = enqueue_ticks_sq s + spent clks j" "dequeue_ticks_sq s1 = dequeue_ticks_sq s"
    using Suc by auto
  have "?n \<le> 2147483648"
    using assms(2) div_le_dividend [of N k] by linarith
  then have "list_all (\<lambda>x. x \<noteq> 0) (map sample [0..<?n])"
    by (rule samples_nonzero)
  then obtain q where q: "enq_all (\<lambda>x q. run_state (Enqueue_sq m x q)) (map sample [0..<?n]) (ring s1) = Ret q" "ring_inv m q"
      "ring_list m q = ring_list m (ring s1) @ map sample [0..<?n]" "ring_budget (ring s1) \<le> ?n + ring_budget q"
    using sq.enq_all_budget [OF s1(2), of "map sample [0..<?n]"] Suc.prems(2,3) s1(3,4) by auto
  have "enqueue_handler_sq m N k (clks j) s1
      = Ret (s1\<lparr>ring := q, enqueue_ticks_sq := enqueue_ticks_sq s1 + (clks j 1 - clks j 0)\<rparr>)"
    using q(1) assms by (simp add: enqueue_handler_sq_def per_thread_def enqueue_samples)
  then show ?case
    using s1 q by (auto simp: spent_Suc algebra_simps)
qed

section \<open>The loops\<close>

text \<open>Between two rounds the ring is empty; \<open>B\<close> tickets are left at least.\<close>

definition between :: "nat \<Rightarrow> nat \<Rightarrow> sq_main \<Rightarrow> bool" where
  "between m B s \<longleftrightarrow> ring_inv m (ring s) \<and> ring_list m (ring s) = [] \<and> B \<le> ring_budget (ring s)"

lemma budget_small: "ring_inv m q \<Longrightarrow> ring_budget q \<le> 2147483648"
  using ring_invD(4) [of m q] by (simp add: ring_budget_def)

lemma single_enqueue_ok:
  assumes "between m (N + B) s" and "N \<le> m" and "0 < k" and "k dvd N" and "of_nat N \<noteq> (0 :: ticks)"
  shows "\<exists>s'. single_enqueue_round m N clk clks k s
      = Ret ([Enqueued N ((clk 1 - clk 0) div of_nat N) k, Dequeued N ((dequeue_ticks_sq s + spent clks k) div of_nat N) k], s')
    \<and> between m B s' \<and> dequeue_ticks_sq s' = dequeue_ticks_sq s + spent clks k \<and> enqueue_ticks_sq s' = enqueue_ticks_sq s"
proof -
  have s: "ring_inv m (ring s)" "ring_list m (ring s) = []" "N + B \<le> ring_budget (ring s)"
    using assms(1) by (simp_all add: between_def)
  have "list_all (\<lambda>x. x \<noteq> 0) (map sample [0..<N])"
    using budget_small [OF s(1)] s(3) by (intro samples_nonzero) simp
  then obtain q where q: "enq_all (\<lambda>x q. run_state (Enqueue_sq m x q)) (map sample [0..<N]) (ring s) = Ret q" "ring_inv m q"
      "ring_list m q = map sample [0..<N]" "ring_budget (ring s) \<le> N + ring_budget q"
    using sq.enq_all_budget [OF s(1), of "map sample [0..<N]"] s(2,3) assms(2) by auto
  have k: "k * (N div k) = N"
    using assms(4) by simp
  obtain s1 where "repeat_op (\<lambda>i. worker_handler_sq m N k (clks i)) k (s\<lparr>ring := q\<rparr>) = Ret s1" "ring_inv m (ring s1)"
      "ring_list m (ring s1) = []" "ring_budget q \<le> ring_budget (ring s1)"
      "dequeue_ticks_sq s1 = dequeue_ticks_sq s + spent clks k" "enqueue_ticks_sq s1 = enqueue_ticks_sq s"
    using workers_ok [OF assms(3), of m "s\<lparr>ring := q\<rparr>" k N clks] q(2,3) k by auto
  then show ?thesis
    using q(1,4) s(3) assms(5) by (simp add: single_enqueue_round_def enqueue_samples per_sample_def between_def)
qed

lemma concurrent_enqueue_ok:
  assumes "between m (N + B) s" and "N \<le> m" and "0 < k" and "k dvd N" and "of_nat N \<noteq> (0 :: ticks)"
  shows "\<exists>s'. concurrent_enqueue_round m N eclks clks k s
      = Ret ([Enqueued N ((enqueue_ticks_sq s + spent eclks k) div of_nat N) k,
              Dequeued N ((dequeue_ticks_sq s + spent clks k) div of_nat N) k], s')
    \<and> between m B s' \<and> dequeue_ticks_sq s' = dequeue_ticks_sq s + spent clks k
    \<and> enqueue_ticks_sq s' = enqueue_ticks_sq s + spent eclks k"
proof -
  have s: "ring_inv m (ring s)" "ring_list m (ring s) = []" "N + B \<le> ring_budget (ring s)"
    using assms(1) by (simp_all add: between_def)
  have k: "k * (N div k) = N" and small: "N \<le> 2147483648"
    using assms(4) budget_small [OF s(1)] s(3) by simp_all
  obtain s1 where s1: "repeat_op (\<lambda>i. enqueue_handler_sq m N k (eclks i)) k s = Ret s1" "ring_inv m (ring s1)"
      "length (ring_list m (ring s1)) = N" "ring_budget (ring s) \<le> N + ring_budget (ring s1)"
      "enqueue_ticks_sq s1 = enqueue_ticks_sq s + spent eclks k" "dequeue_ticks_sq s1 = dequeue_ticks_sq s"
    using enqueuers_ok [OF assms(3) small s(1), of k eclks] s(2,3) assms(2) k by auto
  obtain s2 where "repeat_op (\<lambda>i. worker_handler_sq m N k (clks i)) k s1 = Ret s2" "ring_inv m (ring s2)"
      "ring_list m (ring s2) = []" "ring_budget (ring s1) \<le> ring_budget (ring s2)"
      "dequeue_ticks_sq s2 = dequeue_ticks_sq s1 + spent clks k" "enqueue_ticks_sq s2 = enqueue_ticks_sq s1"
    using workers_ok [OF assms(3) s1(2), of k N clks] s1(3) k by auto
  then show ?thesis
    using s1 s(3) assms(5) by (simp add: concurrent_enqueue_round_def per_sample_def between_def)
qed

text \<open>The lines of a loop whose sums of ticks start from \<open>E\<close> and \<open>D\<close>: \<open>fresh\<close> says whether the first line of a
  round has a sum of its own, as in the first loop.\<close>

fun sum_lines :: "bool \<Rightarrow> nat \<Rightarrow> (nat \<Rightarrow> ticks) \<Rightarrow> (nat \<Rightarrow> ticks) \<Rightarrow> nat list \<Rightarrow> ticks \<Rightarrow> ticks \<Rightarrow> line list" where
  "sum_lines fresh N e d [] E D = []"
| "sum_lines fresh N e d (k # ks) E D =
     Enqueued N ((if fresh then e k else E + e k) div of_nat N) k # Dequeued N ((D + d k) div of_nat N) k
       # sum_lines fresh N e d ks (if fresh then E else E + e k) (D + d k)"

lemma for_counts_ok:
  assumes "\<And>B k s. k \<in> set ks \<Longrightarrow> between m (N + B) s \<Longrightarrow> \<exists>s'. one_round k s
      = Ret ([Enqueued N ((if fresh then e k else enqueue_ticks_sq s + e k) div of_nat N) k,
              Dequeued N ((dequeue_ticks_sq s + d k) div of_nat N) k], s')
    \<and> between m B s' \<and> dequeue_ticks_sq s' = dequeue_ticks_sq s + d k
    \<and> enqueue_ticks_sq s' = (if fresh then enqueue_ticks_sq s else enqueue_ticks_sq s + e k)"
    and "between m (length ks * N + B) s"
  shows "\<exists>s'. for_counts one_round ks s = Ret (sum_lines fresh N e d ks (enqueue_ticks_sq s) (dequeue_ticks_sq s), s')
    \<and> between m B s' \<and> dequeue_ticks_sq s' = dequeue_ticks_sq s + sum_list (map d ks)
    \<and> enqueue_ticks_sq s' = (if fresh then enqueue_ticks_sq s else enqueue_ticks_sq s + sum_list (map e ks))"
  using assms
proof (induction ks arbitrary: s)
  case Nil
  then show ?case by simp
next
  case (Cons k ks)
  have "between m (N + (length ks * N + B)) s"
    using Cons.prems(2) by (simp add: add.assoc)
  then obtain s1 where s1: "one_round k s
      = Ret ([Enqueued N ((if fresh then e k else enqueue_ticks_sq s + e k) div of_nat N) k,
              Dequeued N ((dequeue_ticks_sq s + d k) div of_nat N) k], s1)"
      "between m (length ks * N + B) s1" "dequeue_ticks_sq s1 = dequeue_ticks_sq s + d k"
      "enqueue_ticks_sq s1 = (if fresh then enqueue_ticks_sq s else enqueue_ticks_sq s + e k)"
    using Cons.prems(1) [of k "length ks * N + B" s] by auto
  have "\<exists>s'. for_counts one_round ks s1 = Ret (sum_lines fresh N e d ks (enqueue_ticks_sq s1) (dequeue_ticks_sq s1), s')
    \<and> between m B s' \<and> dequeue_ticks_sq s' = dequeue_ticks_sq s1 + sum_list (map d ks)
    \<and> enqueue_ticks_sq s' = (if fresh then enqueue_ticks_sq s1 else enqueue_ticks_sq s1 + sum_list (map e ks))"
    by (rule Cons.IH [OF Cons.prems(1) s1(2)]) simp
  then show ?case
    using s1 by (auto simp: add.assoc)
qed

lemma sum_lines_nth:
  "length (sum_lines fresh N e d ks E D) = 2 * length ks"
  "j < length ks \<Longrightarrow> sum_lines fresh N e d ks E D ! Suc (2 * j) = Dequeued N ((D + (\<Sum>i\<le>j. d (ks ! i))) div of_nat N) (ks ! j)"
proof (induction ks arbitrary: j E D)
  case (Cons k ks)
  { case 1 show ?case using Cons.IH(1) by simp }
  { case 2
    show ?case
    proof (cases j)
      case (Suc i)
      have "(\<Sum>l\<le>Suc i. d ((k # ks) ! l)) = d k + (\<Sum>l\<le>i. d (ks ! l))"
        by (simp only: sum.atMost_Suc_shift nth_Cons_0 nth_Cons_Suc)
      then show ?thesis
        using Cons.IH(2) [of i "if fresh then E else E + e k" "D + d k"] 2 Suc by (simp add: add.assoc)
    qed simp }
qed simp_all

lemma thread_counts_pos: "k \<in> set (thread_counts n j) \<Longrightarrow> 0 < k"
  by (induction n j rule: thread_counts.induct) (subst (asm) (2) thread_counts.simps, auto split: if_splits)

lemma for_counts_first:
  assumes "\<And>r. one_round k s \<noteq> Ret r"
  shows "for_counts one_round (k # ks) s \<noteq> Ret r"
  using assms by (auto simp: bindO_Ret_iff)

lemma thread_counts_start: "0 < n \<Longrightarrow> \<exists>ks. thread_counts n 1 = 1 # ks"
  by (subst thread_counts.simps) auto

section \<open>The program\<close>

lemma main_sq_lines:
  assumes "length (data q0) = m" and "0 < m" and "0 < num_threads" and ks: "ks = thread_counts num_threads 1"
    and N: "0 < N" "N \<le> m" "\<forall>k\<in>set ks. k dvd N" "2 * length ks * N \<le> 2147483648"
    and d: "d1 = (\<lambda>k. spent (worker_clk c k) k)" "d2 = (\<lambda>k. spent (worker_clk2 c k) k)"
  shows "\<exists>s'. main_sq m N num_threads c q0
      = Ret (sum_lines True N (\<lambda>k. main_clk c k 1 - main_clk c k 0) d1 ks 0 0
          @ sum_lines False N (\<lambda>k. spent (enqueue_clk2 c k) k) d2 ks 0 (sum_list (map d1 ks)), s') \<and> between m 0 s'"
proof -
  obtain q where q: "InitQueue_sq m q0 = Ret q" "ring_inv m q" "ring_list m q = []" "ring_budget q = 2147483648"
    using InitQueue_sq_eq [OF assms(1)] init_ring [OF assms(2,1)] by blast
  let ?s0 = "\<lparr>ring = q, dequeue_ticks_sq = 0, enqueue_ticks_sq = 0\<rparr>" and ?L = "length ks"
    and ?e1 = "\<lambda>k. main_clk c k 1 - main_clk c k 0" and ?e2 = "\<lambda>k. spent (enqueue_clk2 c k) k"
    and ?r1 = "\<lambda>k. single_enqueue_round m N (main_clk c k) (worker_clk c k) k"
    and ?r2 = "\<lambda>k. concurrent_enqueue_round m N (enqueue_clk2 c k) (worker_clk2 c k) k"
  have "ks \<noteq> []"
    using thread_counts_start [OF assms(3)] ks by auto
  then have "N \<le> 2147483648"
    using N(4) by (cases ks) auto
  then have "unat (of_nat N :: ticks) = N"
    by (simp add: unat_of_nat)
  then have nz: "of_nat N \<noteq> (0 :: ticks)"
    using N(1) by (metis less_irrefl unat_0)
  have k: "0 < k" "k dvd N" if "k \<in> set ks" for k
    using that N(3) thread_counts_pos ks by blast+
  have b: "between m (?L * N + (?L * N + 0)) ?s0"
    using q N(4) by (simp add: between_def mult.commute)
  obtain s1 where s1: "for_counts ?r1 ks ?s0 = Ret (sum_lines True N ?e1 d1 ks 0 0, s1)"
      "between m (?L * N + 0) s1" "dequeue_ticks_sq s1 = sum_list (map d1 ks)" "enqueue_ticks_sq s1 = 0"
    using for_counts_ok [of ks m N ?r1 True ?e1 d1, OF _ b] single_enqueue_ok [OF _ _ _ _ nz] k N(2) by (auto simp: d(1))
  obtain s2 where "for_counts ?r2 ks s1 = Ret (sum_lines False N ?e2 d2 ks 0 (sum_list (map d1 ks)), s2)" "between m 0 s2"
    using for_counts_ok [of ks m N ?r2 False ?e2 d2, OF _ s1(2)] concurrent_enqueue_ok [OF _ _ _ _ nz] k N(2) s1(3,4)
    by (auto simp: d(2))
  then show ?thesis
    using q(1) s1(1) by (simp add: main_sq_def del: One_nat_def flip: ks)
qed

lemma main_sq_stuck:
  assumes "length (data q0) = m" and "0 < m" and "0 < num_threads" and "m < N"
  shows "main_sq m N num_threads c q0 \<noteq> Ret r"
proof -
  obtain q where q: "InitQueue_sq m q0 = Ret q" "ring_inv m q"
    using InitQueue_sq_eq [OF assms(1)] init_ring [OF assms(2,1)] by blast
  let ?s0 = "\<lparr>ring = q, dequeue_ticks_sq = 0, enqueue_ticks_sq = 0\<rparr>"
  have stuck: "single_enqueue_round m N clk clks 1 ?s0 \<noteq> Ret r1" for clk clks r1
  proof
    assume "single_enqueue_round m N clk clks 1 ?s0 = Ret r1"
    then obtain s1 where "single_round m N (clks 0) ?s0 = Ret s1"
      by (auto simp: single_enqueue_round_def single_round_def bindO_Ret_iff Let_def)
    then show False
      using single_round_stuck [of ?s0 m N "clks 0"] ring_invD [OF q(2)] assms(4) by auto
  qed
  obtain ks where ks: "thread_counts num_threads 1 = 1 # ks"
    using thread_counts_start [OF assms(3)] by blast
  have "for_counts (\<lambda>k. single_enqueue_round m N (main_clk c k) (worker_clk c k) k) (1 # ks) ?s0 \<noteq> Ret r1" for r1
    using for_counts_first [of "\<lambda>k. single_enqueue_round m N (main_clk c k) (worker_clk c k) k" 1 ?s0] stuck by blast
  then show ?thesis
    using q(1) by (auto simp: main_sq_def bindO_Ret_iff ks simp del: One_nat_def for_counts.simps)
qed

section \<open>Property\<close>

text \<open>C35: The whole program of \<^verbatim>\<open>SQueue\<close>. When the samples fit the ring, every thread count divides their number and
  all tickets of the program stay below \<open>2 ^ 31\<close>, it comes to an end with the ring empty and prints two lines for each
  round; but the ticks of the dequeues, never reset, are those of all rounds so far, in both loops. With more samples
  than slots, as in the source, it never gets past its first round.\<close>

theorem sq_main_outcome:
  assumes "length (data q0) = m" and "0 < m" and "0 < num_threads" and "ks = thread_counts num_threads 1"
    and "d1 = (\<lambda>k. spent (worker_clk c k) k)" and "d2 = (\<lambda>k. spent (worker_clk2 c k) k)"
  shows "(0 < N \<and> N \<le> m \<and> (\<forall>k\<in>set ks. k dvd N) \<and> 2 * length ks * N \<le> 2147483648 \<longrightarrow>
      (\<exists>ls s'. main_sq m N num_threads c q0 = Ret (ls, s') \<and> ring_list m (ring s') = [] \<and> length ls = 4 * length ks
        \<and> (\<forall>j<length ks. ls ! (2 * j + 1) = Dequeued N ((\<Sum>i\<le>j. d1 (ks ! i)) div of_nat N) (ks ! j))
        \<and> (\<forall>j<length ks. ls ! (2 * length ks + 2 * j + 1)
             = Dequeued N ((sum_list (map d1 ks) + (\<Sum>i\<le>j. d2 (ks ! i))) div of_nat N) (ks ! j))))
    \<and> (m < N \<longrightarrow> (\<forall>r. main_sq m N num_threads c q0 \<noteq> Ret r))"
proof (intro conjI impI allI)
  assume "0 < N \<and> N \<le> m \<and> (\<forall>k\<in>set ks. k dvd N) \<and> 2 * length ks * N \<le> 2147483648"
  then obtain s' where s': "main_sq m N num_threads c q0
      = Ret (sum_lines True N (\<lambda>k. main_clk c k 1 - main_clk c k 0) d1 ks 0 0
          @ sum_lines False N (\<lambda>k. spent (enqueue_clk2 c k) k) d2 ks 0 (sum_list (map d1 ks)), s')" "ring_list m (ring s') = []"
    using main_sq_lines [OF assms(1-4) _ _ _ _ assms(5,6)] by (auto simp: between_def)
  show "\<exists>ls s'. main_sq m N num_threads c q0 = Ret (ls, s') \<and> ring_list m (ring s') = [] \<and> length ls = 4 * length ks
      \<and> (\<forall>j<length ks. ls ! (2 * j + 1) = Dequeued N ((\<Sum>i\<le>j. d1 (ks ! i)) div of_nat N) (ks ! j))
      \<and> (\<forall>j<length ks. ls ! (2 * length ks + 2 * j + 1)
           = Dequeued N ((sum_list (map d1 ks) + (\<Sum>i\<le>j. d2 (ks ! i))) div of_nat N) (ks ! j))"
    unfolding s'(1) using s'(2) by (intro exI conjI) (rule refl | simp add: sum_lines_nth nth_append)+
next
  fix r assume "m < N"
  then show "main_sq m N num_threads c q0 \<noteq> Ret r"
    using main_sq_stuck [OF assms(1-3)] by blast
qed

theorem sq_main_outcome_witness:
  "(\<exists>ls s'. main_sq 8 8 2 \<lparr>main_clk = \<lambda>k j. of_nat j, worker_clk = \<lambda>k i j. of_nat (16 * j),
        enqueue_clk2 = \<lambda>k i j. of_nat j, worker_clk2 = \<lambda>k i j. of_nat (24 * j)\<rparr> \<lparr>head = 0, tail = 0, data = replicate 8 5\<rparr> = Ret (ls, s')
      \<and> ls ! 1 = Dequeued 8 2 1 \<and> ls ! 3 = Dequeued 8 6 2 \<and> ls ! 7 = Dequeued 8 15 2)
    \<and> (\<forall>r. main_sq 8 9 2 \<lparr>main_clk = \<lambda>k j. 0, worker_clk = \<lambda>k i j. 0, enqueue_clk2 = \<lambda>k i j. 0, worker_clk2 = \<lambda>k i j. 0\<rparr>
        \<lparr>head = 0, tail = 0, data = replicate 8 5\<rparr> \<noteq> Ret r)"
proof
  have ks: "thread_counts 2 1 = [1, 2]"
    by (simp add: thread_counts.simps)
  let ?c = "\<lparr>main_clk = \<lambda>k j. of_nat j, worker_clk = \<lambda>k i j. of_nat (16 * j),
        enqueue_clk2 = \<lambda>k i j. of_nat j, worker_clk2 = \<lambda>k i j. of_nat (24 * j)\<rparr> :: sq_clocks"
  let ?q = "\<lparr>head = 0, tail = 0, data = replicate 8 5\<rparr> :: ringbuf"
  obtain ls s' where r: "main_sq 8 8 2 ?c ?q = Ret (ls, s')"
      "\<forall>j<2. ls ! (2 * j + 1) = Dequeued 8 ((\<Sum>i\<le>j. spent (worker_clk ?c ([1, 2] ! i)) ([1, 2] ! i)) div of_nat 8) ([1, 2] ! j)"
      "\<forall>j<2. ls ! (4 + 2 * j + 1) = Dequeued 8 ((sum_list (map (\<lambda>k. spent (worker_clk ?c k) k) [1, 2])
          + (\<Sum>i\<le>j. spent (worker_clk2 ?c ([1, 2] ! i)) ([1, 2] ! i))) div of_nat 8) ([1, 2] ! j)"
    using sq_main_outcome [of ?q 8 2 "[1, 2]" _ ?c _ 8, OF _ _ _ ks [symmetric] refl refl] by auto
  have sp: "spent (\<lambda>i j. of_nat (16 * j)) 1 = 16" "spent (\<lambda>i j. of_nat (16 * j)) 2 = 32"
      "spent (\<lambda>i j. of_nat (24 * j)) 1 = 24" "spent (\<lambda>i j. of_nat (24 * j)) 2 = 48"
    by (simp_all add: spent_def numeral_2_eq_2)
  have "ls ! 1 = Dequeued 8 2 1" "ls ! 3 = Dequeued 8 6 2" "ls ! 7 = Dequeued 8 15 2"
    using spec [OF r(2), of 0] spec [OF r(2), of 1] spec [OF r(3), of 1] sp by (simp_all add: sp)
  then show "\<exists>ls s'. main_sq 8 8 2 ?c ?q = Ret (ls, s') \<and> ls ! 1 = Dequeued 8 2 1 \<and> ls ! 3 = Dequeued 8 6 2 \<and> ls ! 7 = Dequeued 8 15 2"
    using r(1) by blast
next
  let ?c = "\<lparr>main_clk = \<lambda>k j. 0, worker_clk = \<lambda>k i j. 0, enqueue_clk2 = \<lambda>k i j. 0, worker_clk2 = \<lambda>k i j. 0\<rparr> :: sq_clocks"
  show "\<forall>r. main_sq 8 9 2 ?c \<lparr>head = 0, tail = 0, data = replicate 8 5\<rparr> \<noteq> Ret r"
    using sq_main_outcome [of "\<lparr>head = 0, tail = 0, data = replicate 8 5\<rparr>" 8 2 _ _ ?c _ 9, OF _ _ _ refl refl refl] by simp
qed

end
