(* ===== verification/Bench_Program.thy ===== *)
theory Bench_Program
  imports Bench_Args Multi_Main Bmm_Handlers Rcu_Main Openmp_Rounds
begin

text \<open>
  \<^verbatim>\<open>main\<close> of \<^verbatim>\<open>QueueBenchmarks/sqmain.c\<close> from end to end: the command line, the clock frequency, the overhead of reading
  the time stamp counter, the rounds of the queue type that was asked for, the exit status. What comes from outside
  (clocks, memory, scheduling) is an argument, as are the two libraries. A negative thread count, for which
  the code starts no threads either, is read as 0. The lines of queue types 6 and 7 are printed in the \<open>THROUGHPUT\<close>
  build only; their rounds are the ones of that build.
\<close>

section \<open>What the program is given\<close>

text \<open>For the round with number \<open>k\<close>: the clocks of thread \<open>i\<close>, that of the one producer of type 8, the memory of ring \<open>i\<close>,
  the order in which the threads of types 2, 3 and 5 take their turns, the address of the loop variable of producer \<open>i\<close>, the order of
  the OpenMP iterations, the time stamps of the main thread, and the memory of the two queue objects of type 6. The size of a
  pointer is that of the machine.\<close>

record bench_inputs =
  threads_mem :: "int list"
  tvstart :: "int \<times> int"
  tvstop :: "int \<times> int"
  cycles :: "ticks \<times> ticks"
  calibrate :: "(nat \<Rightarrow> ticks) option"
  thread_env :: "nat \<Rightarrow> nat \<Rightarrow> env"
  producer_env :: "nat \<Rightarrow> env"
  ring_mem :: "nat \<Rightarrow> nat \<Rightarrow> atom list"
  turn_order :: "nat \<Rightarrow> nat list"
  pointer_size :: nat
  var_addr :: "nat \<Rightarrow> nat \<Rightarrow> nat"
  omp_order :: "nat \<Rightarrow> nat list"
  main_tsc :: "nat \<Rightarrow> nat \<Rightarrow> ticks"
  objects_mem :: "nat \<Rightarrow> atom list \<times> atom list"

record 's bmm_library =
  bmm_init :: "nat \<Rightarrow> 's"
  bmm_enq :: "nat \<Rightarrow> 's \<Rightarrow> (bool \<times> 's) outcome"
  bmm_deq :: "'s \<Rightarrow> (nat option \<times> 's) outcome"
  bmm_indices :: "'s \<Rightarrow> nat \<times> nat"
  bmm_cleanup :: "'s \<Rightarrow> 's"

record ('s, 'n) rcu_library =
  lfq_init :: "'s \<Rightarrow> 's"
  lfq_enq :: "c_int \<Rightarrow> 's \<Rightarrow> 's outcome"
  lfq_deq :: "'s \<Rightarrow> ('n option \<times> 's) outcome"
  lfq_retire :: "'n \<Rightarrow> 's \<Rightarrow> 's outcome"
  lfq_destroy :: "'s \<Rightarrow> int \<times> 's"

text \<open>The globals, and the queue objects the rounds declare.\<close>

record ('b, 'r) bench_state =
  g_ring :: ringbuf
  g_basic :: basicq
  g_multi :: multi
  g_objects :: "ringbuf \<times> ringbuf"
  g_bmm :: 'b
  g_rcu :: 'r
  g_bench :: bench

text \<open>\<^verbatim>\<open>clockFreq = ((cycles[1] - cycles[0]) * 1.0) / (microseconds * 1000)\<close>, in GHz\<close>

definition microseconds :: "bench_inputs \<Rightarrow> ticks" where
  "microseconds i = of_int ((fst (tvstop i) - fst (tvstart i)) * 1000000 + (snd (tvstop i) - snd (tvstart i)))"

definition clock_frequency :: "bench_inputs \<Rightarrow> real" where
  "clock_frequency i = real (unat (snd (cycles i) - fst (cycles i))) / real (unat (microseconds i * 1000))"

definition overhead :: "nat \<Rightarrow> bench_inputs \<Rightarrow> int" where
  "overhead N i = (case calibrate i of None \<Rightarrow> 0 | Some clk \<Rightarrow> rdtsc_overhead_ticks clk N)"

section \<open>The rounds of a queue type\<close>

datatype out_line = Summary_line report | Rate_line nat nat real real | Sleep_line nat nat real

definition on_ring :: "(ringbuf \<times> bench \<Rightarrow> (report \<times> ringbuf \<times> bench) outcome) \<Rightarrow> ('b, 'r) bench_state \<Rightarrow> (out_line \<times> ('b, 'r) bench_state) outcome" where
  "on_ring rnd g = bindO (rnd (g_ring g, g_bench g)) (\<lambda>(r, q, b). Ret (Summary_line r, g\<lparr>g_ring := q, g_bench := b\<rparr>))"

definition on_basic :: "(basicq \<times> bench \<Rightarrow> (report \<times> basicq \<times> bench) outcome) \<Rightarrow> ('b, 'r) bench_state \<Rightarrow> (out_line \<times> ('b, 'r) bench_state) outcome" where
  "on_basic rnd g = bindO (rnd (g_basic g, g_bench g)) (\<lambda>(r, q, b). Ret (Summary_line r, g\<lparr>g_basic := q, g_bench := b\<rparr>))"

definition on_multi :: "(multi \<times> bench \<Rightarrow> (report \<times> multi \<times> bench) outcome) \<Rightarrow> ('b, 'r) bench_state \<Rightarrow> (out_line \<times> ('b, 'r) bench_state) outcome" where
  "on_multi rnd g = bindO (rnd (g_multi g, g_bench g)) (\<lambda>(r, q, b). Ret (Summary_line r, g\<lparr>g_multi := q, g_bench := b\<rparr>))"

definition on_bmm :: "('b \<times> bench \<Rightarrow> (report \<times> 'b \<times> bench) outcome) \<Rightarrow> ('b, 'r) bench_state \<Rightarrow> (out_line \<times> ('b, 'r) bench_state) outcome" where
  "on_bmm rnd g = bindO (rnd (g_bmm g, g_bench g)) (\<lambda>(r, q, b). Ret (Summary_line r, g\<lparr>g_bmm := q, g_bench := b\<rparr>))"

definition on_rcu :: "('r \<times> bench \<Rightarrow> ((report \<times> int) \<times> 'r \<times> bench) outcome) \<Rightarrow> ('b, 'r) bench_state \<Rightarrow> ((report \<times> int) \<times> ('b, 'r) bench_state) outcome" where
  "on_rcu rnd g = bindO (rnd (g_rcu g, g_bench g)) (\<lambda>(r, q, b). Ret (r, g\<lparr>g_rcu := q, g_bench := b\<rparr>))"

definition omp_line :: "nat \<Rightarrow> nat \<Rightarrow> real \<Rightarrow> bench_inputs \<Rightarrow> nat \<Rightarrow> nat \<Rightarrow> ('b, 'r) bench_state \<Rightarrow> (out_line \<times> ('b, 'r) bench_state) outcome" where
  "omp_line m N f i k t g =
     bindO (omp_round m N (fst (objects_mem i k)) (snd (objects_mem i k)) (omp_order i k) (main_tsc i k) f
              (g_ring g, fst (g_objects g), snd (g_objects g)) (g_bench g)) (\<lambda>((q, o1, o2), b).
       Ret (Rate_line N t (enqueuethroughput b) (dequeuethroughput b), g\<lparr>g_ring := q, g_objects := (o1, o2), g_bench := b\<rparr>))"

definition sleep_line :: "nat \<Rightarrow> nat \<Rightarrow> real \<Rightarrow> bench_inputs \<Rightarrow> nat \<Rightarrow> nat \<Rightarrow> ('b, 'r) bench_state \<Rightarrow> (out_line \<times> ('b, 'r) bench_state) outcome" where
  "sleep_line m N f i k t g =
     bindO (sleep_round m N (main_tsc i k) f (g_ring g) (g_bench g)) (\<lambda>(q, b).
       Ret (Sleep_line N t (dequeuethroughput b), g\<lparr>g_ring := q, g_bench := b\<rparr>))"

text \<open>The lines printed and the exit status.\<close>

definition all_rounds :: "(nat \<Rightarrow> nat \<Rightarrow> ('b, 'r) bench_state \<Rightarrow> (out_line \<times> ('b, 'r) bench_state) outcome) \<Rightarrow> nat list \<Rightarrow> ('b, 'r) bench_state
    \<Rightarrow> ((out_line list \<times> int) \<times> ('b, 'r) bench_state) outcome" where
  "all_rounds one_round ts g = bindO (main_loop one_round 0 ts g) (\<lambda>(os, g'). Ret ((os, 0), g'))"

definition only_throughput :: "build \<Rightarrow> ((out_line list \<times> int) \<times> 'g) outcome \<Rightarrow> ((out_line list \<times> int) \<times> 'g) outcome" where
  "only_throughput bd r = bindO r (\<lambda>((os, status), g). Ret ((if bd = THROUGHPUT then os else [], status), g))"

definition bench_rounds :: "'b bmm_library \<Rightarrow> ('r, 'n) rcu_library \<Rightarrow> sorter \<Rightarrow> build \<Rightarrow> nat \<Rightarrow> nat \<Rightarrow> bench_inputs \<Rightarrow> int \<Rightarrow> nat list
    \<Rightarrow> ('b, 'r) bench_state \<Rightarrow> ((out_line list \<times> int) \<times> ('b, 'r) bench_state) outcome" where
  "bench_rounds bl rl qs bd m N i queueType ts g =
     (let f = clock_frequency i; ov = overhead N i; es = thread_env i in
      if queueType = 1 then all_rounds (\<lambda>k t. on_ring (squeue_round qs bd m N f ov (es k) t)) ts g
      else if queueType = 2 then all_rounds (\<lambda>k t. on_bmm (bmm_round (pointer_size i) (bmm_init bl) (bmm_enq bl) (bmm_deq bl) (bmm_indices bl) (bmm_cleanup bl)
             qs bd N f ov (var_addr i k) (es k) (turn_order i k) t)) ts g
      else if queueType = 3 then all_rounds (\<lambda>k t. on_basic (basic_round qs bd N f ov (es k) (turn_order i k) t)) ts g
      else if queueType = 4 then all_rounds (\<lambda>k t. on_multi (multi_round qs bd m (ring_mem i k) N f ov (es k) t)) ts g
      else if queueType = 5 then
        bindO (rcu_main (\<lambda>t. on_rcu (rcu_round (lfq_init rl) (lfq_enq rl) (lfq_deq rl) (lfq_retire rl) (lfq_destroy rl) qs bd N f ov (es 0) (turn_order i 0) t)) ts g)
          (\<lambda>((rs, status), g'). Ret ((map Summary_line rs, status), g'))
      else if queueType = 6 then only_throughput bd (all_rounds (omp_line m N f i) ts g)
      else if queueType = 7 then only_throughput bd (all_rounds (sleep_line m N f i) ts g)
      else if queueType = 8 then all_rounds (\<lambda>k t. on_multi (spmc_round qs bd m (ring_mem i k) N f ov (producer_env i k) (es k) t)) ts g
      else Ret (([], 0), g))"

definition main_qb :: "'b bmm_library \<Rightarrow> ('r, 'n) rcu_library \<Rightarrow> sorter \<Rightarrow> build \<Rightarrow> nat \<Rightarrow> nat \<Rightarrow> bench_inputs \<Rightarrow> string list
    \<Rightarrow> ('b, 'r) bench_state \<Rightarrow> ((out_line list \<times> int) \<times> ('b, 'r) bench_state) outcome" where
  "main_qb bl rl qs bd m N i argv g =
     bindO (parse_args_qb (threads_mem i) argv) (\<lambda>st.
       case st of
         Exit \<Rightarrow> Ret (([], - 1), g)
       | Start queueType counts threadCount fileName1 fileName2 \<Rightarrow>
           bench_rounds bl rl qs bd m N i queueType (map nat (take threadCount counts)) g)"

section \<open>The loop over the thread counts\<close>

lemma all_rounds_ok:
  assumes "\<And>k g. k < length ts \<Longrightarrow> ok g \<Longrightarrow>
      \<exists>r g'. one_round k (ts ! k) g = Ret (Summary_line r, g') \<and> good k (ts ! k) r \<and> ok g'"
    and "ok g"
  shows "\<exists>rs g'. all_rounds one_round ts g = Ret ((map Summary_line rs, 0), g') \<and> length rs = length ts
    \<and> (\<forall>k<length ts. good k (ts ! k) (rs ! k))"
proof -
  let ?good = "\<lambda>k t os. \<exists>r. os = Summary_line r \<and> good k t r"
  have "\<exists>os g'. main_loop one_round 0 ts g = Ret (os, g') \<and> ok g' \<and> length os = length ts
      \<and> (\<forall>k<length ts. ?good (0 + k) (ts ! k) (os ! k))"
    using assms(1) by (intro main_loop_ok [where ok = ok and good = ?good and ts = ts and ?k0.0 = 0 and s = g, OF _ assms(2)]) force
  then obtain os g' where os: "main_loop one_round 0 ts g = Ret (os, g')" "length os = length ts"
      "\<forall>k<length ts. \<exists>r. os ! k = Summary_line r \<and> good k (ts ! k) r"
    by auto
  then obtain f where f: "\<forall>k<length ts. os ! k = Summary_line (f k) \<and> good k (ts ! k) (f k)"
    by metis
  let ?rs = "map f [0..<length ts]"
  have "os = map Summary_line ?rs"
    using os(2) f by (auto intro!: nth_equalityI)
  then show ?thesis
    using os(1) f by (intro exI [of _ ?rs] exI [of _ g']) (simp add: all_rounds_def)
qed

lemma all_rounds_outcome:
  fixes one_round :: "nat \<Rightarrow> nat \<Rightarrow> ('b, 'r) bench_state \<Rightarrow> (out_line \<times> ('b, 'r) bench_state) outcome"
  assumes "\<And>k g. k < length ts \<Longrightarrow> if bad k (ts ! k) then one_round k (ts ! k) g = Fault e
      else \<exists>r g'. one_round k (ts ! k) g = Ret (Summary_line r, g') \<and> good k (ts ! k) r"
  shows "if \<exists>k<length ts. bad k (ts ! k) then all_rounds one_round ts g = Fault e
    else \<exists>rs g'. all_rounds one_round ts g = Ret ((map Summary_line rs, 0), g') \<and> length rs = length ts
      \<and> (\<forall>k<length ts. good k (ts ! k) (rs ! k))"
proof (cases "\<exists>k<length ts. bad k (ts ! k)")
  case True
  have "if \<exists>k<length ts. bad (0 + k) (ts ! (0 + k)) then main_loop one_round 0 ts g = Fault e
      else \<exists>rs s'. main_loop one_round 0 ts g = Ret (rs, s') \<and> length rs = length ts \<and> (\<forall>k<length ts. True)"
  proof (rule main_loop_outcome [where bad = "\<lambda>k. bad k (ts ! k)" and good = "\<lambda>_ _ _. True"])
    fix k t and s :: "('b, 'r) bench_state" assume "k < length ts + 0" "t = ts ! (k - 0)"
    then show "if bad k (ts ! k) then one_round k t s = Fault e else \<exists>r s'. one_round k t s = Ret (r, s') \<and> True"
      using assms [of k s] by (cases "bad k (ts ! k)") auto
  qed
  then show ?thesis
    using True by (simp add: all_rounds_def)
next
  case False
  then show ?thesis
    using all_rounds_ok [where ok = "\<lambda>_. True" and good = good and ts = ts and one_round = one_round and g = g] assms by auto
qed

text \<open>When a thread count is in order for a queue type, and what its report is to be.\<close>

definition count_ok :: "nat \<Rightarrow> nat \<Rightarrow> bench_inputs \<Rightarrow> nat \<Rightarrow> nat \<Rightarrow> nat \<Rightarrow> bool" where
  "count_ok m N i queueType k t \<longleftrightarrow>
     (let c = (if queueType = 8 then t else cur_num_threads t) in
      (queueType \<in> {4, 8} \<longrightarrow> (\<forall>j<c. length (ring_mem i k j) = m div c))
      \<and> (if queueType = 8
         then 0 < t \<and> t \<le> N \<and> N \<le> t * (m div t) \<and> spmc_measurable N (overhead N i) (producer_env i k) (thread_env i k) t
         else valid_count N t \<and> measurable_round (overhead N i) (thread_env i k) c (N div c))
      \<and> (queueType = 3 \<longrightarrow> complete_schedule c (N div c) (turn_order i k)))"

text \<open>In a round of the linked queue a dequeue may find it empty.\<close>

definition count_starves :: "nat \<Rightarrow> bench_inputs \<Rightarrow> nat \<Rightarrow> nat \<Rightarrow> nat \<Rightarrow> bool" where
  "count_starves N i queueType k t \<longleftrightarrow>
     queueType = 3 \<and> misses (cur_num_threads t) (N div cur_num_threads t) (turn_order i k) \<noteq> 0"

definition count_report :: "nat \<Rightarrow> bench_inputs \<Rightarrow> nat \<Rightarrow> nat \<Rightarrow> nat \<Rightarrow> report \<Rightarrow> bool" where
  "count_report N i queueType k t r \<longleftrightarrow>
     (if queueType = 8 then spmc_report N (clock_frequency i) (overhead N i) (producer_env i k) (thread_env i k) t r
      else round_report (int queueType) N (clock_frequency i) (overhead N i) (thread_env i k) t r)"

lemma bench_rounds_report:
  fixes g :: "('b, 'r) bench_state"
  assumes "qsort_contract qs" and m: "0 < m" "N \<le> m" "m \<le> 2147483647" and "length (data (g_ring g)) = m"
    and type: "type \<in> {1, 3, 4, 8}" and counts: "\<forall>k<length ts. count_ok m N i type k (ts ! k)"
  shows "if \<exists>k<length ts. count_starves N i type k (ts ! k) then bench_rounds bl rl qs LATENCY m N i (int type) ts g = Fault BadPointer
    else \<exists>rs g'. bench_rounds bl rl qs LATENCY m N i (int type) ts g = Ret ((map Summary_line rs, 0), g') \<and> length rs = length ts
      \<and> (\<forall>k<length ts. count_report N i type k (ts ! k) (rs ! k))"
proof -
  let ?f = "clock_frequency i" and ?ov = "overhead N i" and ?ok = "\<lambda>g. length (data (g_ring g)) = m"
  have N: "N \<le> 2147483647"
    using m by linarith
  consider "type = 1" | "type = 3" | "type = 4" | "type = 8"
    using type by blast
  then show ?thesis
  proof cases
    case 1
    then have fed: "\<not> (\<exists>k<length ts. count_starves N i type k (ts ! k))"
      by (simp add: count_starves_def)
    have step: "\<exists>r g'. on_ring (squeue_round qs LATENCY m N ?f ?ov (thread_env i k) (ts ! k)) g = Ret (Summary_line r, g')
        \<and> count_report N i type k (ts ! k) r \<and> ?ok g'" if "k < length ts" "?ok g" for k and g :: "('b, 'r) bench_state"
      using squeue_round_ok [OF assms(1) m that(2), of "ts ! k" ?ov "thread_env i k" ?f "g_bench g"] counts that(1)
      by (fastforce simp: 1 on_ring_def count_ok_def count_report_def round_report_def valid_count_def Let_def)
    have eq: "bench_rounds bl rl qs LATENCY m N i (int type) ts g = all_rounds (\<lambda>k t. on_ring (squeue_round qs LATENCY m N ?f ?ov (thread_env i k) t)) ts g"
      by (simp add: 1 bench_rounds_def Let_def)
    show ?thesis
      unfolding eq if_not_P [OF fed] by (rule all_rounds_ok [where ok = ?ok and good = "count_report N i type", OF _ assms(5)]) (rule step)
  next
    case 2
    have step: "if count_starves N i type k (ts ! k)
        then on_basic (basic_round qs LATENCY N ?f ?ov (thread_env i k) (turn_order i k) (ts ! k)) g = Fault BadPointer
        else \<exists>r g'. on_basic (basic_round qs LATENCY N ?f ?ov (thread_env i k) (turn_order i k) (ts ! k)) g = Ret (Summary_line r, g')
          \<and> count_report N i type k (ts ! k) r" if "k < length ts" for k and g :: "('b, 'r) bench_state"
      using basic_round_outcome [OF assms(1) _ _ _ N, of "ts ! k" ?ov "thread_env i k" "turn_order i k" ?f "g_basic g" "g_bench g"] counts that
      by (fastforce simp: 2 on_basic_def count_ok_def count_starves_def count_report_def round_report_def valid_count_def Let_def split: if_splits)
    have eq: "bench_rounds bl rl qs LATENCY m N i (int type) ts g
        = all_rounds (\<lambda>k t. on_basic (basic_round qs LATENCY N ?f ?ov (thread_env i k) (turn_order i k) t)) ts g"
      by (simp add: 2 bench_rounds_def Let_def)
    show ?thesis
      unfolding eq by (rule all_rounds_outcome) (rule step)
  next
    case 3
    then have fed: "\<not> (\<exists>k<length ts. count_starves N i type k (ts ! k))"
      by (simp add: count_starves_def)
    have step: "\<exists>r g'. on_multi (multi_round qs LATENCY m (ring_mem i k) N ?f ?ov (thread_env i k) (ts ! k)) g = Ret (Summary_line r, g')
        \<and> count_report N i type k (ts ! k) r \<and> ?ok g'" if "k < length ts" "?ok g" for k and g :: "('b, 'r) bench_state"
      using multi_round_ok [OF assms(1) m(2,3), of "ts ! k" "ring_mem i k" ?ov "thread_env i k" ?f "g_multi g" "g_bench g"] counts that
      by (fastforce simp: 3 on_multi_def count_ok_def count_report_def valid_count_def Let_def)
    have eq: "bench_rounds bl rl qs LATENCY m N i (int type) ts g = all_rounds (\<lambda>k t. on_multi (multi_round qs LATENCY m (ring_mem i k) N ?f ?ov (thread_env i k) t)) ts g"
      by (simp add: 3 bench_rounds_def Let_def)
    show ?thesis
      unfolding eq if_not_P [OF fed] by (rule all_rounds_ok [where ok = ?ok and good = "count_report N i type", OF _ assms(5)]) (rule step)
  next
    case 4
    then have fed: "\<not> (\<exists>k<length ts. count_starves N i type k (ts ! k))"
      by (simp add: count_starves_def)
    have step: "\<exists>r g'. on_multi (spmc_round qs LATENCY m (ring_mem i k) N ?f ?ov (producer_env i k) (thread_env i k) (ts ! k)) g
          = Ret (Summary_line r, g')
        \<and> count_report N i type k (ts ! k) r \<and> ?ok g'" if "k < length ts" "?ok g" for k and g :: "('b, 'r) bench_state"
      using spmc_round_ok [OF assms(1) _ m(3), of N "ts ! k" "ring_mem i k" ?ov "producer_env i k" "thread_env i k" ?f "g_multi g" "g_bench g"] counts that
      by (fastforce simp: 4 on_multi_def count_ok_def count_report_def Let_def)
    have eq: "bench_rounds bl rl qs LATENCY m N i (int type) ts g = all_rounds (\<lambda>k t. on_multi (spmc_round qs LATENCY m (ring_mem i k) N ?f ?ov (producer_env i k) (thread_env i k) t)) ts g"
      by (simp add: 4 bench_rounds_def Let_def)
    show ?thesis
      unfolding eq if_not_P [OF fed] by (rule all_rounds_ok [where ok = ?ok and good = "count_report N i type", OF _ assms(5)]) (rule step)
  qed
qed

section \<open>Properties\<close>

text \<open>C17: The benchmark from its command line to its exit status, for the queue types 1, 3, 4 and 8 in the
  \<open>LATENCY\<close> build. Given a type and at most two thread counts that are in order for it, the program
  prints one report for each count, in the order of the command line, and ends with status 0; each report describes the samples
  that the threads of its round have measured, with the clock frequency and the overhead found at the start. The linked
  queue (type 3) is the exception: when the order in which the threads of some round take their turns lets a dequeue find it
  empty, the program ends in the access through the empty queue's head.
  A third count is written outside the array of counts; with a wrong number of arguments the program
  ends with status -1 and no queue has been touched.\<close>

theorem main_qb_reports:
  assumes "qsort_contract qs" and "0 < m" and "N \<le> m" and "m \<le> 2147483647" and "length (data (g_ring g)) = m"
    and "type \<in> {1, 3, 4, 8}" and "2 \<le> length (threads_mem i)" and "\<forall>t\<in>set ts. t \<le> 2147483647"
    and "\<forall>k<length ts. count_ok m N i type k (ts ! k)" and "length argv \<noteq> 5"
  shows "(if 2 < length ts then main_qb bl rl qs LATENCY m N i [p, decimal type, comma_list ts, f1, f2] g = Fault BadIndex
      else if \<exists>k<length ts. count_starves N i type k (ts ! k)
      then main_qb bl rl qs LATENCY m N i [p, decimal type, comma_list ts, f1, f2] g = Fault BadPointer
      else \<exists>rs g'. main_qb bl rl qs LATENCY m N i [p, decimal type, comma_list ts, f1, f2] g = Ret ((map Summary_line rs, 0), g')
        \<and> length rs = length ts \<and> (\<forall>k<length ts. count_report N i type k (ts ! k) (rs ! k)))
    \<and> main_qb bl rl qs bd m N i argv g = Ret (([], - 1), g)"
proof -
  have type: "type \<le> 2147483647" "1 \<le> int type \<and> int type \<le> 8"
    using assms(6) by auto
  have args: "parse_args_qb (threads_mem i) [p, decimal type, comma_list ts, f1, f2] =
      (if length ts \<le> 2 then Ret (Start (int type) (map int ts @ drop (length ts) (take 2 (threads_mem i))) (length ts) f1 f2)
       else Fault BadIndex)"
    using parse_args_list [OF type(1) _ assms(8), of "\<lambda>queueType. 1 \<le> queueType \<and> queueType \<le> 8" "take 2 (threads_mem i)" p f1 f2]
      type(2) assms(7) by (simp add: parse_args_qb_def min_absorb2)
  have "main_qb bl rl qs bd m N i argv g = Ret (([], - 1), g)"
    using assms(10) by (simp add: main_qb_def parse_args_qb_def parse_args_def)
  moreover have "main_qb bl rl qs LATENCY m N i [p, decimal type, comma_list ts, f1, f2] g
      = (if 2 < length ts then Fault BadIndex else bench_rounds bl rl qs LATENCY m N i (int type) ts g)"
    by (simp add: main_qb_def args o_def)
  ultimately show ?thesis
    using bench_rounds_report [OF assms(1-6,9), of bl rl] by (cases "2 < length ts") (simp_all only: if_True if_False simp_thms)
qed

definition demo_inputs :: bench_inputs where
  "demo_inputs = \<lparr>threads_mem = [7, 7, 7], tvstart = (0, 0), tvstop = (0, 250000), cycles = (0, 500000000), calibrate = None,
     thread_env = (\<lambda>_ _. demo_env), producer_env = (\<lambda>_. demo_env), ring_mem = (\<lambda>_ _. [7, 7]),
     turn_order = (\<lambda>_. [0, 1, 1, 0, 1, 0]), pointer_size = 8, var_addr = (\<lambda>_ _. 1),
     omp_order = (\<lambda>_. []), main_tsc = (\<lambda>_ _. 0), objects_mem = (\<lambda>_. ([], []))\<rparr>"

definition demo_state :: "(unit, unit) bench_state" where
  "demo_state = \<lparr>g_ring = \<lparr>head = 5, tail = 7, data = [1, 2, 3, 4, 5, 6]\<rparr>, g_basic = demo_basicq, g_multi = \<lparr>QUEUE_SIZE = 0, queues = []\<rparr>,
     g_objects = (\<lparr>head = 0, tail = 0, data = []\<rparr>, \<lparr>head = 0, tail = 0, data = []\<rparr>), g_bmm = (), g_rcu = (), g_bench = demo_bench\<rparr>"

definition demo_bmm :: "unit bmm_library" where
  "demo_bmm = \<lparr>bmm_init = (\<lambda>_. ()), bmm_enq = (\<lambda>_ _. Ret (True, ())), bmm_deq = (\<lambda>_. Ret (None, ())),
     bmm_indices = (\<lambda>_. (0, 0)), bmm_cleanup = (\<lambda>_. ())\<rparr>"

definition demo_rcu :: "(unit, nat) rcu_library" where
  "demo_rcu = \<lparr>lfq_init = (\<lambda>_. ()), lfq_enq = (\<lambda>_ _. Ret ()), lfq_deq = (\<lambda>_. Ret (None, ())), lfq_retire = (\<lambda>_ _. Ret ()),
     lfq_destroy = (\<lambda>_. (0, ()))\<rparr>"

theorem main_qb_reports_witness:
  "(\<exists>r1 r2 g'. main_qb demo_bmm demo_rcu sort_by LATENCY 6 6 demo_inputs [''prog'', ''1'', ''2,6'', ''raw'', ''summary''] demo_state
      = Ret (([Summary_line r1, Summary_line r2], 0), g') \<and> good_report 1 3 2 0 (replicate 6 3) (replicate 6 3) r2)
    \<and> main_qb demo_bmm demo_rcu sort_by LATENCY 6 6 demo_inputs [''prog'', ''1''] demo_state = Ret (([], - 1), demo_state)"
proof -
  have ds: "enq_samples (\<lambda>_. demo_env) 1 6 = replicate 6 3" "deq_samples (\<lambda>_. demo_env) 1 6 = replicate 6 3"
    "enq_samples (\<lambda>_. demo_env) 3 2 = replicate 6 3" "deq_samples (\<lambda>_. demo_env) 3 2 = replicate 6 3"
    by (simp_all add: enq_samples_def deq_samples_def all_deltas_def deltas_def demo_env_def eval_nat_numeral)
  have c: "cur_num_threads 2 = 1" "cur_num_threads 6 = 3"
    by (simp_all add: cur_num_threads_def)
  have i: "overhead 6 demo_inputs = 0" "clock_frequency demo_inputs = 2" "thread_env demo_inputs k = (\<lambda>_. demo_env)" for k
    by (simp_all add: overhead_def clock_frequency_def microseconds_def demo_inputs_def)
  have m: "measurable 0 3"
    by (simp add: measurable_def)
  have ok: "\<forall>k<length [2, 6::nat]. count_ok 6 6 demo_inputs 1 k ([2, 6] ! k)"
    using m ds by (auto simp: less_Suc_eq c count_ok_def valid_count_def i measurable_round_def list_all_iff)
  have args: "decimal 1 = ''1''" "comma_list [2, 6] = ''2,6''"
    by code_simp+
  have g: "length (data (g_ring demo_state)) = 6" "2 \<le> length (threads_mem demo_inputs)"
    by (simp_all add: demo_state_def demo_inputs_def)
  have few: "\<not> 2 < length [2, 6::nat]" "length [2, 6::nat] = 2" "count_starves 6 demo_inputs 1 k t \<longleftrightarrow> False" for k t
    by (simp_all add: count_starves_def)
  have "\<exists>rs g'. main_qb demo_bmm demo_rcu sort_by LATENCY 6 6 demo_inputs [''prog'', ''1'', ''2,6'', ''raw'', ''summary''] demo_state
        = Ret ((map Summary_line rs, 0), g') \<and> length rs = 2 \<and> (\<forall>k<2. count_report 6 demo_inputs 1 k ([2, 6] ! k) (rs ! k))"
    and "main_qb demo_bmm demo_rcu sort_by LATENCY 6 6 demo_inputs [''prog'', ''1''] demo_state = Ret (([], - 1), demo_state)"
    using main_qb_reports [OF sort_by_contract _ _ _ g(1) _ g(2) _ ok, of "[''prog'', ''1'']" demo_bmm demo_rcu "''prog''" "''raw''" "''summary''" LATENCY]
    unfolding args if_not_P [OF few(1)] few(2,3) by (simp_all del: One_nat_def)
  moreover have "count_report 6 demo_inputs 1 k 6 r \<longleftrightarrow> good_report 1 3 2 0 (replicate 6 3) (replicate 6 3) r" for k r
    by (simp add: count_report_def round_report_def i c ds)
  moreover have "length rs = 2 \<longleftrightarrow> (\<exists>r1 r2. rs = [r1, r2])" for rs :: "report list"
    by (auto simp: numeral_2_eq_2 length_Suc_conv)
  ultimately show ?thesis
    by (fastforce simp: less_2_cases_iff)
qed

end
