(* ===== verification/Stl_Conc.thy ===== *)
theory Stl_Conc
  imports Stl_Queue
begin

text \<open>
  \<^verbatim>\<open>producer\<close> and \<^verbatim>\<open>consumer\<close> of \<^verbatim>\<open>stlqueue/src/stlqueue.cpp\<close> in the \<open>LATENCY\<close> build, \<open>c\<close> threads of each after the
  barrier, interleaved: a call of \<^verbatim>\<open>push\<close> or \<^verbatim>\<open>pop\<close>, the reading of the index of the sample, the store and the atomic
  increment of the index are a step each. Boost's queue is a parameter whose operations take effect at once;
  \<open>per\<close> is \<^verbatim>\<open>NUM_SAMPLES_PER_THREAD\<close>, \<open>N\<close> the length of the arrays.
\<close>

section \<open>Threads\<close>

text \<open>A thread is in its call with number \<open>k\<close>, or has made it and reads the index, stores the sample at
  the index it has read, or increments the index.\<close>

datatype stl_pc = Calling nat | Indexing nat | Placing nat nat | Counting nat

text \<open>What the threads of one kind share: the array, the index, where each of them is.\<close>

record side =
  stamps :: "ticks list"
  next_index :: nat
  pcs :: "nat \<Rightarrow> stl_pc"

text \<open>\<open>clk i\<close> is the clock of thread \<open>i\<close>, read before and after each call.\<close>

definition after_call :: "(nat \<Rightarrow> nat \<Rightarrow> ticks) \<Rightarrow> nat \<Rightarrow> side \<Rightarrow> side outcome option" where
  "after_call clk i d =
     (case pcs d i of
        Calling k \<Rightarrow> None
      | Indexing k \<Rightarrow> Some (Ret (d\<lparr>pcs := (pcs d)(i := Placing k (next_index d))\<rparr>))
      | Placing k j \<Rightarrow> Some (bindO (arr_write (stamps d) (int j) (clk i (2 * k + 1) - clk i (2 * k)))
          (\<lambda>a. Ret (d\<lparr>stamps := a, pcs := (pcs d)(i := Counting k)\<rparr>)))
      | Counting k \<Rightarrow> Some (Ret (d\<lparr>next_index := Suc (next_index d), pcs := (pcs d)(i := Calling (Suc k))\<rparr>)))"

definition call_made :: "nat \<Rightarrow> nat \<Rightarrow> side \<Rightarrow> side" where
  "call_made i k d = d\<lparr>pcs := (pcs d)(i := Indexing k)\<rparr>"

text \<open>\<open>pushed\<close> and \<open>popped\<close> record the values, in the order of the calls.\<close>

record 'q stl_system =
  shared_queue :: 'q
  pro :: side
  con :: side
  pushed :: "c_int list"
  popped :: "c_int list"
  overrun :: bool

inductive stl_step :: "(c_int \<Rightarrow> 'q \<Rightarrow> bool \<times> 'q) \<Rightarrow> ('q \<Rightarrow> c_int option \<times> 'q) \<Rightarrow> (nat \<Rightarrow> nat \<Rightarrow> ticks) \<Rightarrow> (nat \<Rightarrow> nat \<Rightarrow> ticks)
    \<Rightarrow> nat \<Rightarrow> nat \<Rightarrow> 'q stl_system \<Rightarrow> 'q stl_system \<Rightarrow> bool" for push pop pclk cclk c per where
  push_done: "i < c \<Longrightarrow> pcs (pro s) i = Calling k \<Longrightarrow> k < per \<Longrightarrow> push (of_nat k) (shared_queue s) = (True, q) \<Longrightarrow>
    stl_step push pop pclk cclk c per s (s\<lparr>shared_queue := q, pro := call_made i k (pro s), pushed := pushed s @ [of_nat k]\<rparr>)"
| push_again: "i < c \<Longrightarrow> pcs (pro s) i = Calling k \<Longrightarrow> k < per \<Longrightarrow> push (of_nat k) (shared_queue s) = (False, q) \<Longrightarrow>
    stl_step push pop pclk cclk c per s (s\<lparr>shared_queue := q\<rparr>)"
| pop_done: "i < c \<Longrightarrow> pcs (con s) i = Calling k \<Longrightarrow> k < per \<Longrightarrow> pop (shared_queue s) = (Some v, q) \<Longrightarrow>
    stl_step push pop pclk cclk c per s (s\<lparr>shared_queue := q, con := call_made i k (con s), popped := popped s @ [v]\<rparr>)"
| pop_again: "i < c \<Longrightarrow> pcs (con s) i = Calling k \<Longrightarrow> k < per \<Longrightarrow> pop (shared_queue s) = (None, q) \<Longrightarrow>
    stl_step push pop pclk cclk c per s (s\<lparr>shared_queue := q\<rparr>)"
| pro_step: "i < c \<Longrightarrow> after_call pclk i (pro s) = Some (Ret d) \<Longrightarrow>
    stl_step push pop pclk cclk c per s (s\<lparr>pro := d\<rparr>)"
| con_step: "i < c \<Longrightarrow> after_call cclk i (con s) = Some (Ret d) \<Longrightarrow>
    stl_step push pop pclk cclk c per s (s\<lparr>con := d\<rparr>)"
| pro_overrun: "i < c \<Longrightarrow> after_call pclk i (pro s) = Some (Fault e) \<Longrightarrow>
    stl_step push pop pclk cclk c per s (s\<lparr>overrun := True\<rparr>)"
| con_overrun: "i < c \<Longrightarrow> after_call cclk i (con s) = Some (Fault e) \<Longrightarrow>
    stl_step push pop pclk cclk c per s (s\<lparr>overrun := True\<rparr>)"

definition new_side :: "nat \<Rightarrow> side" where
  "new_side N = \<lparr>stamps = replicate N 0, next_index = 0, pcs = \<lambda>_. Calling 0\<rparr>"

definition stl_start :: "nat \<Rightarrow> 'q \<Rightarrow> 'q stl_system" where
  "stl_start N q = \<lparr>shared_queue = q, pro = new_side N, con = new_side N, pushed = [], popped = [], overrun = False\<rparr>"

definition returned :: "nat \<Rightarrow> nat \<Rightarrow> side \<Rightarrow> bool" where
  "returned c per d \<longleftrightarrow> (\<forall>i<c. pcs d i = Calling per)"

text \<open>What the documentation promises of the queue under concurrent callers: a push appends or fails, and fails only when
  \<open>cap\<close> elements are in it; a pop takes the oldest element and fails only when there is none.\<close>

definition boost_shared :: "nat \<Rightarrow> ('q \<Rightarrow> c_int list) \<Rightarrow> (c_int \<Rightarrow> 'q \<Rightarrow> bool \<times> 'q) \<Rightarrow> ('q \<Rightarrow> c_int option \<times> 'q) \<Rightarrow> bool" where
  "boost_shared cap contents push pop \<longleftrightarrow>
     (\<forall>v q q'. push v q = (True, q') \<longrightarrow> contents q' = contents q @ [v])
     \<and> (\<forall>v q q'. push v q = (False, q') \<longrightarrow> contents q' = contents q \<and> cap \<le> length (contents q))
     \<and> (\<forall>q v q'. pop q = (Some v, q') \<longrightarrow> contents q = v # contents q')
     \<and> (\<forall>q q'. pop q = (None, q') \<longrightarrow> contents q = [] \<and> contents q' = [])"

section \<open>Progress of a thread\<close>

definition calls :: "stl_pc \<Rightarrow> nat" where
  "calls p = (case p of Calling k \<Rightarrow> k | Indexing k \<Rightarrow> Suc k | Placing k _ \<Rightarrow> Suc k | Counting k \<Rightarrow> Suc k)"

definition counted :: "stl_pc \<Rightarrow> nat" where
  "counted p = (case p of Calling k \<Rightarrow> k | Indexing k \<Rightarrow> k | Placing k _ \<Rightarrow> k | Counting k \<Rightarrow> k)"

definition holding :: "stl_pc \<Rightarrow> nat" where
  "holding p = (case p of Placing _ _ \<Rightarrow> 1 | Counting _ \<Rightarrow> 1 | _ \<Rightarrow> 0)"

definition moves_left :: "nat \<Rightarrow> stl_pc \<Rightarrow> nat" where
  "moves_left per p = (case p of Calling k \<Rightarrow> 4 * (per - k) | Indexing k \<Rightarrow> 4 * (per - k) - 1 | Placing k _ \<Rightarrow> 4 * (per - k) - 2
     | Counting k \<Rightarrow> 4 * (per - k) - 3)"

text \<open>The samples of a thread that are in the array.\<close>

definition placed :: "stl_pc \<Rightarrow> nat" where
  "placed p = (case p of Calling k \<Rightarrow> k | Indexing k \<Rightarrow> k | Placing k _ \<Rightarrow> k | Counting k \<Rightarrow> Suc k)"

lemmas pc_defs = calls_def counted_def holding_def moves_left_def placed_def

lemma pc_simps [simp]:
  "calls (Calling k) = k" "calls (Indexing k) = Suc k" "calls (Placing k j) = Suc k" "calls (Counting k) = Suc k"
  "counted (Calling k) = k" "counted (Indexing k) = k" "counted (Placing k j) = k" "counted (Counting k) = k"
  "holding (Calling k) = 0" "holding (Indexing k) = 0" "holding (Placing k j) = 1" "holding (Counting k) = 1"
  "placed (Calling k) = k" "placed (Indexing k) = k" "placed (Placing k j) = k" "placed (Counting k) = Suc k"
  by (simp_all add: pc_defs)

section \<open>The threads of one kind\<close>

definition sum_pcs :: "(stl_pc \<Rightarrow> nat) \<Rightarrow> nat \<Rightarrow> side \<Rightarrow> nat" where
  "sum_pcs f c d = (\<Sum>i<c. f (pcs d i))"

lemma sum_pcs_move:
  assumes "i < c" and "pcs d' = (pcs d)(i := p)"
  shows "sum_pcs f c d' + f (pcs d i) = sum_pcs f c d + f p"
  using sum_upd [OF assms(1), of f p "pcs d"] by (simp add: sum_pcs_def assms(2))

text \<open>The highest index that has been read: a thread holds it, or it has been stored to and so lies inside the array.
  At most one increment for each thread is still to come behind it.\<close>

definition index_inv :: "nat \<Rightarrow> nat \<Rightarrow> nat \<Rightarrow> side \<Rightarrow> bool" where
  "index_inv c per N d \<longleftrightarrow> length (stamps d) = N \<and> next_index d = sum_pcs counted c d
     \<and> (\<forall>i<c. calls (pcs d i) \<le> per \<and> (\<forall>k j. pcs d i = Placing k j \<longrightarrow> j < c * per))
     \<and> (\<exists>M. next_index d + sum_pcs holding c d \<le> M + c \<and> (M < N \<or> (\<exists>i<c. \<exists>k. pcs d i = Placing k M)))"

text \<open>With one thread the samples are in the array in the order of the calls.\<close>

definition order_inv :: "nat \<Rightarrow> nat \<Rightarrow> (nat \<Rightarrow> nat \<Rightarrow> ticks) \<Rightarrow> side \<Rightarrow> bool" where
  "order_inv per N clk d \<longleftrightarrow> next_index d = counted (pcs d 0) \<and> calls (pcs d 0) \<le> per \<and> placed (pcs d 0) \<le> N
     \<and> stamps d = take (placed (pcs d 0)) (deltas (clk 0) per) @ replicate (N - placed (pcs d 0)) 0
     \<and> (\<forall>k j. pcs d 0 = Placing k j \<longrightarrow> j = k)"

lemma counted_bound: "i < c \<Longrightarrow> index_inv c per N d \<Longrightarrow> counted (pcs d i) < per \<Longrightarrow> next_index d < c * per"
proof -
  assume i: "i < c" and inv: "index_inv c per N d" and less: "counted (pcs d i) < per"
  have "counted (pcs d j) \<le> per" if "j < c" for j
    using inv that by (cases "pcs d j") (force simp: index_inv_def)+
  then have "(\<Sum>j<c. counted (pcs d j)) < (\<Sum>j<c. per)"
    using i less by (intro sum_strict_mono_ex1) auto
  then show ?thesis
    using inv by (simp add: index_inv_def sum_pcs_def)
qed

lemma sum_pcs_holding: "sum_pcs holding c d \<le> c"
proof -
  have "sum_pcs holding c d \<le> (\<Sum>i<c. 1)"
    unfolding sum_pcs_def by (rule sum_mono) (simp add: holding_def split: stl_pc.split)
  then show ?thesis
    by simp
qed

lemma holder_kept:
  assumes "M < N \<or> (\<exists>v<c. \<exists>l. pcs d v = Placing l M)" and "pcs d' = (pcs d)(i := p)"
    and "\<And>l. pcs d i = Placing l M \<Longrightarrow> M < N"
  shows "M < N \<or> (\<exists>v<c. \<exists>l. pcs d' v = Placing l M)"
  using assms by (metis fun_upd_other)

lemma call_made_index:
  assumes inv: "index_inv c per N d" and i: "i < c" "pcs d i = Calling k" "k < per"
  shows "index_inv c per N (call_made i k d)"
proof -
  note move = sum_pcs_move [OF i(1), of "call_made i k d" d "Indexing k"]
  have t: "sum_pcs counted c (call_made i k d) = sum_pcs counted c d" "sum_pcs holding c (call_made i k d) = sum_pcs holding c d"
    using move [of counted] move [of holding] i(2) by (simp_all add: call_made_def)
  obtain M where M: "next_index d + sum_pcs holding c d \<le> M + c" "M < N \<or> (\<exists>v<c. \<exists>l. pcs d v = Placing l M)"
    using inv unfolding index_inv_def by blast
  have "M < N \<or> (\<exists>v<c. \<exists>l. pcs (call_made i k d) v = Placing l M)"
    by (rule holder_kept [OF M(2), of _ i "Indexing k"]) (simp_all add: call_made_def i(2))
  then have "\<exists>M. next_index d + sum_pcs holding c d \<le> M + c \<and> (M < N \<or> (\<exists>v<c. \<exists>l. pcs (call_made i k d) v = Placing l M))"
    using M(1) by blast
  then show ?thesis
    using inv i(3) unfolding index_inv_def t by (simp add: call_made_def)
qed

lemma after_call_index:
  assumes inv: "index_inv c per N d" and i: "i < c" and st: "after_call clk i d = Some (Ret d')"
  shows "index_inv c per N d' \<and> sum_pcs calls c d' = sum_pcs calls c d"
proof -
  obtain M where M: "next_index d + sum_pcs holding c d \<le> M + c" "M < N \<or> (\<exists>v<c. \<exists>l. pcs d v = Placing l M)"
    using inv unfolding index_inv_def by blast
  have own: "calls (pcs d i) \<le> per" "length (stamps d) = N" "next_index d = sum_pcs counted c d"
    using inv i by (simp_all add: index_inv_def)
  show ?thesis
  proof (cases "pcs d i")
    case (Calling k)
    then show ?thesis
      using st by (simp add: after_call_def)
  next
    case (Indexing k)
    then have d': "d' = d\<lparr>pcs := (pcs d)(i := Placing k (next_index d))\<rparr>"
      using st by (simp add: after_call_def)
    note move = sum_pcs_move [OF i, of d' d "Placing k (next_index d)"]
    have t: "sum_pcs counted c d' = sum_pcs counted c d" "sum_pcs calls c d' = sum_pcs calls c d"
      using move [of counted] move [of calls] Indexing by (simp_all add: d')
    have less: "next_index d < c * per"
      using counted_bound [OF i inv] own(1) Indexing by simp
    have "next_index d' + sum_pcs holding c d' \<le> next_index d + c" "pcs d' i = Placing k (next_index d)"
      using sum_pcs_holding [of c d'] by (simp_all add: d')
    then have "\<exists>M. next_index d' + sum_pcs holding c d' \<le> M + c \<and> (M < N \<or> (\<exists>v<c. \<exists>l. pcs d' v = Placing l M))"
      using i by blast
    moreover have "calls (pcs d' v) \<le> per \<and> (\<forall>l j. pcs d' v = Placing l j \<longrightarrow> j < c * per)" if "v < c" for v
      using inv that less own(1) Indexing unfolding index_inv_def by (auto simp: d')
    ultimately show ?thesis
      using own t unfolding index_inv_def by (simp add: d')
  next
    case (Placing k j)
    then obtain a where a: "arr_write (stamps d) (int j) (clk i (2 * k + 1) - clk i (2 * k)) = Ret a"
        and d': "d' = d\<lparr>stamps := a, pcs := (pcs d)(i := Counting k)\<rparr>"
      using st by (auto simp: after_call_def bindO_Ret_iff)
    then have j: "j < N" "length a = N"
      using own(2) by (auto simp: arr_write_def split: if_splits)
    note move = sum_pcs_move [OF i, of d' d "Counting k"]
    have t: "sum_pcs counted c d' = sum_pcs counted c d" "sum_pcs calls c d' = sum_pcs calls c d" "sum_pcs holding c d' = sum_pcs holding c d"
      using move [of counted] move [of calls] move [of holding] Placing by (simp_all add: d')
    have same: "next_index d' = next_index d"
      by (simp add: d')
    have "M < N \<or> (\<exists>v<c. \<exists>l. pcs d' v = Placing l M)"
      by (rule holder_kept [OF M(2), of _ i "Counting k"]) (use j(1) Placing in \<open>simp_all add: d'\<close>)
    then have "\<exists>M. next_index d' + sum_pcs holding c d' \<le> M + c \<and> (M < N \<or> (\<exists>v<c. \<exists>l. pcs d' v = Placing l M))"
      using M(1) t(3) same by (intro exI [of _ M]) simp
    then show ?thesis
      using inv j(2) t Placing unfolding index_inv_def by (auto simp: d')
  next
    case (Counting k)
    then have d': "d' = d\<lparr>next_index := Suc (next_index d), pcs := (pcs d)(i := Calling (Suc k))\<rparr>"
      using st by (simp add: after_call_def)
    note move = sum_pcs_move [OF i, of d' d "Calling (Suc k)"]
    have t: "sum_pcs counted c d' = Suc (sum_pcs counted c d)" "sum_pcs calls c d' = sum_pcs calls c d"
        "Suc (sum_pcs holding c d') = sum_pcs holding c d"
      using move [of counted] move [of calls] move [of holding] Counting by (simp_all add: d')
    have "M < N \<or> (\<exists>v<c. \<exists>l. pcs d' v = Placing l M)"
      by (rule holder_kept [OF M(2), of _ i "Calling (Suc k)"]) (use Counting in \<open>simp_all add: d'\<close>)
    then have "\<exists>M. next_index d' + sum_pcs holding c d' \<le> M + c \<and> (M < N \<or> (\<exists>v<c. \<exists>l. pcs d' v = Placing l M))"
      using M(1) t(3) by (intro exI [of _ M]) (simp add: d')
    then show ?thesis
      using inv t Counting i unfolding index_inv_def by (auto simp: d')
  qed
qed

text \<open>Each step of a thread but a failed call brings it nearer to its end.\<close>

lemma call_made_moves:
  assumes "i < c" and "pcs d i = Calling k" and "k < per"
  shows "Suc (sum_pcs (moves_left per) c (call_made i k d)) = sum_pcs (moves_left per) c d"
    "sum_pcs calls c (call_made i k d) = Suc (sum_pcs calls c d)"
proof -
  note move = sum_pcs_move [OF assms(1), of "call_made i k d" d "Indexing k"]
  have "Suc (moves_left per (Indexing k)) = moves_left per (Calling k)"
    using assms(3) by (simp add: moves_left_def)
  then show "Suc (sum_pcs (moves_left per) c (call_made i k d)) = sum_pcs (moves_left per) c d"
    using move [of "moves_left per"] assms(2) by (simp add: call_made_def)
  show "sum_pcs calls c (call_made i k d) = Suc (sum_pcs calls c d)"
    using move [of calls] assms(2) by (simp add: call_made_def)
qed

lemma after_call_moves:
  assumes "i < c" and "calls (pcs d i) \<le> per" and st: "after_call clk i d = Some (Ret d')"
  shows "Suc (sum_pcs (moves_left per) c d') = sum_pcs (moves_left per) c d"
proof -
  obtain p where p: "pcs d' = (pcs d)(i := p)" "Suc (moves_left per p) = moves_left per (pcs d i)"
    using st assms(2) by (auto simp: after_call_def moves_left_def bindO_Ret_iff split: stl_pc.splits)
  show ?thesis
    using sum_pcs_move [OF assms(1) p(1), of "moves_left per"] p(2) by simp
qed

lemma after_call_room:
  assumes "index_inv c per N d" and "i < c" and "c * per \<le> N" and "after_call clk i d = Some r"
  shows "\<exists>d'. r = Ret d'"
proof -
  have "j < length (stamps d)" if "pcs d i = Placing k j" for k j
    using assms(1-3) that unfolding index_inv_def by fastforce
  then show ?thesis
    using assms(4) by (auto simp: after_call_def arr_write_def split: stl_pc.splits)
qed

lemma call_made_order:
  "order_inv per N clk d \<Longrightarrow> pcs d 0 = Calling k \<Longrightarrow> k < per \<Longrightarrow> order_inv per N clk (call_made 0 k d)"
  by (simp add: order_inv_def call_made_def)

lemma deltas_nth: "k < n \<Longrightarrow> deltas clk n ! k = clk (2 * k + 1) - clk (2 * k)"
  by (simp add: deltas_def)

lemma after_call_order:
  assumes inv: "order_inv per N clk d" and st: "after_call clk 0 d = Some (Ret d')"
  shows "order_inv per N clk d'"
proof (cases "pcs d 0")
  case (Placing k j)
  then have j: "j = k" "k < per" "k \<le> N"
      and arr: "stamps d = take k (deltas (clk 0) per) @ replicate (N - k) 0"
    using inv by (auto simp: order_inv_def)
  have len: "length (stamps d) = N"
    using j(2,3) by (simp add: arr)
  obtain a where a: "arr_write (stamps d) (int k) (clk 0 (2 * k + 1) - clk 0 (2 * k)) = Ret a"
      and d': "d' = d\<lparr>stamps := a, pcs := (pcs d)(0 := Counting k)\<rparr>"
    using st Placing j(1) by (auto simp: after_call_def bindO_Ret_iff)
  then have k: "k < N" "a = (stamps d)[k := deltas (clk 0) per ! k]"
    using j(2) len by (auto simp: arr_write_def deltas_nth split: if_splits)
  have "N - k = Suc (N - Suc k)"
    using k(1) by simp
  then have "a = take (Suc k) (deltas (clk 0) per) @ replicate (N - Suc k) 0"
    using j(2) unfolding k(2) arr by (simp add: list_update_append take_Suc_conv_app_nth)
  then show ?thesis
    using inv j k Placing by (simp add: order_inv_def d')
next
  case (Counting k)
  then show ?thesis
    using inv st by (auto simp: order_inv_def after_call_def)
qed (use inv st in \<open>auto simp: order_inv_def after_call_def\<close>)

section \<open>All threads\<close>

definition values_called :: "nat \<Rightarrow> side \<Rightarrow> c_int multiset" where
  "values_called c d = (\<Sum>i<c. mset (map of_nat [0..<calls (pcs d i)]))"

definition stl_inv :: "('q \<Rightarrow> c_int list) \<Rightarrow> nat \<Rightarrow> nat \<Rightarrow> nat \<Rightarrow> (nat \<Rightarrow> nat \<Rightarrow> ticks) \<Rightarrow> (nat \<Rightarrow> nat \<Rightarrow> ticks) \<Rightarrow> 'q stl_system \<Rightarrow> bool" where
  "stl_inv contents c per N pclk cclk s \<longleftrightarrow> index_inv c per N (pro s) \<and> index_inv c per N (con s)
     \<and> popped s @ contents (shared_queue s) = pushed s \<and> mset (pushed s) = values_called c (pro s)
     \<and> length (popped s) = sum_pcs calls c (con s)
     \<and> (c = 1 \<longrightarrow> order_inv per N pclk (pro s) \<and> order_inv per N cclk (con s) \<and> pushed s = map of_nat [0..<calls (pcs (pro s) 0)])
     \<and> (c * per \<le> N \<longrightarrow> \<not> overrun s)"

lemma values_called_made:
  assumes "i < c" and "pcs d i = Calling k"
  shows "values_called c (call_made i k d) = add_mset (of_nat k) (values_called c d)"
proof -
  have "values_called c (call_made i k d) + mset (map of_nat [0..<k]) = values_called c d + mset (map of_nat [0..<Suc k])"
    using sum_upd [OF assms(1), of "\<lambda>p. mset (map of_nat [0..<calls p])" "Indexing k" "pcs d"] assms(2)
    by (simp add: values_called_def call_made_def)
  then show ?thesis
    by simp
qed

lemma values_called_after:
  assumes "after_call clk i d = Some (Ret d')"
  shows "values_called c d' = values_called c d"
proof -
  have "calls (pcs d' j) = calls (pcs d j)" for j
    using assms by (auto simp: after_call_def bindO_Ret_iff split: stl_pc.splits)
  then show ?thesis
    by (simp add: values_called_def)
qed

lemma size_values_called: "size (values_called c d) = sum_pcs calls c d"
  by (simp add: values_called_def sum_pcs_def size_multiset_sum)

lemma new_side_inv:
  assumes "0 < c" and "0 < N"
  shows "index_inv c per N (new_side N)" "order_inv per N clk (new_side N)" "values_called c (new_side N) = {#}"
    "sum_pcs calls c (new_side N) = 0"
  using assms by (auto simp: index_inv_def order_inv_def new_side_def sum_pcs_def values_called_def intro: exI [of _ 0])

lemma stl_start_inv:
  assumes "0 < c" and "0 < N" and "contents q = []"
  shows "stl_inv contents c per N pclk cclk (stl_start N q)"
  using new_side_inv [OF assms(1,2)] assms(3)
  by (simp add: stl_inv_def stl_start_def) (simp add: new_side_def)

lemma stl_inv_queue:
  assumes "stl_inv contents c per N pclk cclk s" and "contents q = contents (shared_queue s)"
  shows "stl_inv contents c per N pclk cclk (s\<lparr>shared_queue := q\<rparr>)"
  using assms by (simp add: stl_inv_def)

lemma stl_step_inv:
  assumes "stl_step push pop pclk cclk c per s s'" and inv: "stl_inv contents c per N pclk cclk s"
    and queue: "boost_shared N contents push pop"
  shows "stl_inv contents c per N pclk cclk s'"
  using assms(1)
proof cases
  case (push_done i k q)
  have "contents q = contents (shared_queue s) @ [of_nat k]"
    using queue push_done(5) unfolding boost_shared_def by blast
  then have "popped s @ contents q = pushed s @ [of_nat k]"
    using inv by (simp add: stl_inv_def flip: append_assoc)
  moreover have "order_inv per N pclk (call_made i k (pro s)) \<and> pushed s @ [of_nat k] = map of_nat [0..<calls (pcs (call_made i k (pro s)) 0)]"
    if "c = 1"
    using inv push_done(2-4) that call_made_order [of per N pclk "pro s" k] by (auto simp: stl_inv_def call_made_def)
  ultimately show ?thesis
    using inv call_made_index [OF _ push_done(2-4)] values_called_made [OF push_done(2,3)] by (simp add: stl_inv_def push_done(1))
next
  case (push_again i k q)
  then show ?thesis
    using queue stl_inv_queue [OF inv] unfolding boost_shared_def by blast
next
  case (pop_done i k v q)
  have "contents (shared_queue s) = v # contents q"
    using queue pop_done(5) unfolding boost_shared_def by blast
  moreover have "order_inv per N cclk (call_made i k (con s))" if "c = 1"
    using inv pop_done(2-4) that call_made_order [of per N cclk "con s" k] by (simp add: stl_inv_def)
  ultimately show ?thesis
    using inv call_made_index [OF _ pop_done(2-4)] call_made_moves(2) [OF pop_done(2-4)] by (simp add: stl_inv_def pop_done(1))
next
  case (pop_again i k q)
  then show ?thesis
    using queue stl_inv_queue [OF inv, of q] unfolding boost_shared_def by metis
next
  case (pro_step i d)
  then have "order_inv per N pclk d \<and> calls (pcs d 0) = calls (pcs (pro s) 0)" if "c = 1"
    using inv that after_call_order [of per N pclk "pro s" d]
    by (auto simp: stl_inv_def after_call_def bindO_Ret_iff split: stl_pc.splits)
  then show ?thesis
    using inv after_call_index [OF _ pro_step(2,3), of per N] values_called_after [OF pro_step(3)] by (simp add: stl_inv_def pro_step(1))
next
  case (con_step i d)
  then have "order_inv per N cclk d" if "c = 1"
    using inv that after_call_order [of per N cclk "con s" d] by (simp add: stl_inv_def)
  then show ?thesis
    using inv after_call_index [OF _ con_step(2,3), of per N] by (simp add: stl_inv_def con_step(1))
next
  case (pro_overrun i e)
  then show ?thesis
    using inv after_call_room [OF _ pro_overrun(2) _ pro_overrun(3)] by (auto simp: stl_inv_def)
next
  case (con_overrun i e)
  then show ?thesis
    using inv after_call_room [OF _ con_overrun(2) _ con_overrun(3)] by (auto simp: stl_inv_def)
qed

lemma stl_inv_lengths:
  assumes "stl_inv contents c per N pclk cclk s"
  shows "length (pushed s) = length (popped s) + length (contents (shared_queue s))"
    "length (pushed s) = sum_pcs calls c (pro s)" "length (popped s) = sum_pcs calls c (con s)"
proof -
  have "popped s @ contents (shared_queue s) = pushed s" "mset (pushed s) = values_called c (pro s)"
    using assms by (simp_all add: stl_inv_def)
  then show "length (pushed s) = length (popped s) + length (contents (shared_queue s))"
    "length (pushed s) = sum_pcs calls c (pro s)"
    by (metis length_append) (metis \<open>mset (pushed s) = values_called c (pro s)\<close> size_mset size_values_called)
  show "length (popped s) = sum_pcs calls c (con s)"
    using assms by (simp add: stl_inv_def)
qed

lemma stl_run_inv:
  assumes "(stl_step push pop pclk cclk c per)\<^sup>*\<^sup>* (stl_start N q) s" and "boost_shared N contents push pop"
    and "0 < c" and "0 < N" and "contents q = []"
  shows "stl_inv contents c per N pclk cclk s"
  using assms(1)
  by (induction rule: rtranclp_induct) (use assms stl_start_inv [of c N contents] stl_step_inv in blast)+

section \<open>The end of a run\<close>

text \<open>When all threads of a kind have returned, the arrays had room for almost all of their samples.\<close>

lemma returned_bound:
  assumes "index_inv c per N d" and "returned c per d"
  shows "next_index d = c * per" "c * per < N + c" "sum_pcs calls c d = c * per"
proof -
  have p: "pcs d i = Calling per" if "i < c" for i
    using assms(2) that by (simp add: returned_def)
  then have s: "sum_pcs counted c d = c * per" "sum_pcs holding c d = 0" and calls: "sum_pcs calls c d = c * per"
    by (simp_all add: sum_pcs_def)
  obtain M where M: "next_index d + sum_pcs holding c d \<le> M + c" "M < N \<or> (\<exists>v<c. \<exists>l. pcs d v = Placing l M)"
    using assms(1) unfolding index_inv_def by blast
  then have "M < N"
    using p by auto
  then show "next_index d = c * per" "c * per < N + c" "sum_pcs calls c d = c * per"
    using assms(1) M(1) s calls by (simp_all add: index_inv_def)
qed

definition stl_left :: "nat \<Rightarrow> nat \<Rightarrow> 'q stl_system \<Rightarrow> nat" where
  "stl_left c per s = sum_pcs (moves_left per) c (pro s) + sum_pcs (moves_left per) c (con s)"

lemma sum_calls_less:
  assumes "index_inv c per N d" and "i < c" and "calls (pcs d i) < per"
  shows "sum_pcs calls c d < c * per"
proof -
  have "(\<Sum>j<c. calls (pcs d j)) < (\<Sum>j<c. per)"
    using assms by (intro sum_strict_mono_ex1) (auto simp: index_inv_def)
  then show ?thesis
    by (simp add: sum_pcs_def)
qed

text \<open>A thread of one kind that has not returned is in a call, or has a step of its own.\<close>

lemma next_move:
  assumes inv: "index_inv c per N d" and room: "c * per \<le> N" and more: "\<not> returned c per d"
  obtains (call) i k where "i < c" "pcs d i = Calling k" "k < per"
    | (own) i d' where "i < c" "after_call clk i d = Some (Ret d')" "Suc (sum_pcs (moves_left per) c d') = sum_pcs (moves_left per) c d"
proof -
  obtain i where i: "i < c" "pcs d i \<noteq> Calling per"
    using more by (auto simp: returned_def)
  have le: "calls (pcs d i) \<le> per"
    using inv i(1) by (simp add: index_inv_def)
  show thesis
  proof (cases "after_call clk i d")
    case None
    then obtain k where "pcs d i = Calling k"
      by (auto simp: after_call_def split: stl_pc.splits)
    then show thesis
      using call [OF i(1)] i(2) le by force
  next
    case (Some r)
    then obtain d' where "after_call clk i d = Some (Ret d')"
      using after_call_room [OF inv i(1) room Some] by auto
    then show thesis
      using own [OF i(1)] after_call_moves [OF i(1) le] by blast
  qed
qed

lemma stl_progress:
  assumes inv: "stl_inv contents c per N pclk cclk s" and queue: "boost_shared N contents push pop" and room: "c * per \<le> N"
    and more: "\<not> (returned c per (pro s) \<and> returned c per (con s))"
  shows "\<exists>s'. stl_step push pop pclk cclk c per s s' \<and> stl_left c per s' < stl_left c per s"
proof (cases "returned c per (pro s)")
  case False
  have i: "index_inv c per N (pro s)"
    using inv by (simp add: stl_inv_def)
  show ?thesis
  proof (rule next_move [where clk = pclk, OF i room False])
    fix i k assume k: "i < c" "pcs (pro s) i = Calling k" "k < per"
    then have "length (contents (shared_queue s)) < N"
      using stl_inv_lengths [OF inv] sum_calls_less [OF i k(1)] room by simp
    then obtain q where "push (of_nat k) (shared_queue s) = (True, q)"
      using queue unfolding boost_shared_def by (metis (full_types) leD surj_pair)
    then have "stl_step push pop pclk cclk c per s (s\<lparr>shared_queue := q, pro := call_made i k (pro s), pushed := pushed s @ [of_nat k]\<rparr>)"
      using k by (intro stl_step.push_done)
    moreover have "stl_left c per (s\<lparr>shared_queue := q, pro := call_made i k (pro s), pushed := pushed s @ [of_nat k]\<rparr>) < stl_left c per s"
      using call_made_moves(1) [OF k] by (simp add: stl_left_def)
    ultimately show ?thesis
      by blast
  next
    fix i d assume "i < c" "after_call pclk i (pro s) = Some (Ret d)" "Suc (sum_pcs (moves_left per) c d) = sum_pcs (moves_left per) c (pro s)"
    then show ?thesis
      by (intro exI [of _ "s\<lparr>pro := d\<rparr>"] conjI stl_step.pro_step) (simp_all add: stl_left_def)
  qed
next
  case True
  have i: "index_inv c per N (pro s)" "index_inv c per N (con s)"
    using inv by (simp_all add: stl_inv_def)
  have "\<not> returned c per (con s)"
    using more True by blast
  then show ?thesis
  proof (rule next_move [where clk = cclk, OF i(2) room])
    fix i k assume k: "i < c" "pcs (con s) i = Calling k" "k < per"
    then have "contents (shared_queue s) \<noteq> []"
      using stl_inv_lengths [OF inv] sum_calls_less [OF i(2) k(1)] returned_bound(3) [OF i(1) True] by auto
    then obtain v q where "pop (shared_queue s) = (Some v, q)"
      using queue unfolding boost_shared_def by (metis not_None_eq surj_pair)
    then have "stl_step push pop pclk cclk c per s (s\<lparr>shared_queue := q, con := call_made i k (con s), popped := popped s @ [v]\<rparr>)"
      using k by (intro stl_step.pop_done)
    moreover have "stl_left c per (s\<lparr>shared_queue := q, con := call_made i k (con s), popped := popped s @ [v]\<rparr>) < stl_left c per s"
      using call_made_moves(1) [OF k] by (simp add: stl_left_def)
    ultimately show ?thesis
      by blast
  next
    fix i d assume "i < c" "after_call cclk i (con s) = Some (Ret d)" "Suc (sum_pcs (moves_left per) c d) = sum_pcs (moves_left per) c (con s)"
    then show ?thesis
      by (intro exI [of _ "s\<lparr>con := d\<rparr>"] conjI stl_step.con_step) (simp_all add: stl_left_def)
  qed
qed

text \<open>From every state a run can be completed, if the arrays have room.\<close>

lemma stl_completes:
  assumes "boost_shared N contents push pop" and "c * per \<le> N" and "stl_inv contents c per N pclk cclk s"
  shows "\<exists>s'. (stl_step push pop pclk cclk c per)\<^sup>*\<^sup>* s s' \<and> returned c per (pro s') \<and> returned c per (con s')"
  using assms(3)
proof (induction "stl_left c per s" arbitrary: s rule: less_induct)
  case less
  show ?case
  proof (cases "returned c per (pro s) \<and> returned c per (con s)")
    case False
    then obtain t where t: "stl_step push pop pclk cclk c per s t" "stl_left c per t < stl_left c per s"
      using stl_progress [OF less.prems assms(1,2)] by blast
    then show ?thesis
      using less.hyps [OF t(2) stl_step_inv [OF t(1) less.prems assms(1)]] by (meson converse_rtranclp_into_rtranclp)
  qed blast
qed

section \<open>A lost sample\<close>

definition side_step :: "(nat \<Rightarrow> nat \<Rightarrow> ticks) \<Rightarrow> nat \<Rightarrow> side \<Rightarrow> side \<Rightarrow> bool" where
  "side_step clk c d d' \<longleftrightarrow> (\<exists>i<c. after_call clk i d = Some (Ret d'))"

lemma side_steps_pro:
  assumes "(side_step pclk c)\<^sup>*\<^sup>* (pro s) d"
  shows "(stl_step push pop pclk cclk c per)\<^sup>*\<^sup>* s (s\<lparr>pro := d\<rparr>)"
  using assms
proof induction
  case (step d d')
  then obtain i where "i < c" "after_call pclk i (pro (s\<lparr>pro := d\<rparr>)) = Some (Ret d')"
    by (auto simp: side_step_def)
  from stl_step.pro_step [OF this] have "stl_step push pop pclk cclk c per (s\<lparr>pro := d\<rparr>) (s\<lparr>pro := d'\<rparr>)"
    by simp
  with step.IH show ?case
    by (rule rtranclp.rtrancl_into_rtrancl)
qed simp

lemma side_steps_con:
  assumes "(side_step cclk c)\<^sup>*\<^sup>* (con s) d"
  shows "(stl_step push pop pclk cclk c per)\<^sup>*\<^sup>* s (s\<lparr>con := d\<rparr>)"
  using assms
proof induction
  case (step d d')
  then obtain i where "i < c" "after_call cclk i (con (s\<lparr>con := d\<rparr>)) = Some (Ret d')"
    by (auto simp: side_step_def)
  from stl_step.con_step [OF this] have "stl_step push pop pclk cclk c per (s\<lparr>con := d\<rparr>) (s\<lparr>con := d'\<rparr>)"
    by simp
  with step.IH show ?case
    by (rule rtranclp.rtrancl_into_rtrancl)
qed simp

text \<open>Two threads have made their first calls; both read the index before either of them increments it.\<close>

lemma two_samples_one_slot:
  assumes "2 \<le> c" and "2 \<le> N"
  shows "\<exists>d. (side_step clk c)\<^sup>*\<^sup>* (call_made 1 0 (call_made 0 0 (new_side N))) d
    \<and> stamps d = (clk 1 1 - clk 1 0) # replicate (N - 1) 0 \<and> next_index d = 2"
proof -
  let ?d = "\<lambda>a x p q. \<lparr>stamps = a, next_index = x, pcs = (\<lambda>_. Calling 0)(0 := p, 1 := q)\<rparr>"
  have c: "0 < c" "1 < c" and N: "replicate N 0 = 0 # replicate (N - 1) (0 :: ticks)"
    using assms by (simp_all add: Suc_le_eq numeral_2_eq_2 flip: replicate_Suc)
  have go: "side_step clk c d d'" if "i < c" "after_call clk i d = Some (Ret d')" for i d d'
    using that by (auto simp: side_step_def)
  let ?x = "clk 0 1 - clk 0 0" and ?y = "clk 1 1 - clk 1 0" and ?r = "replicate (N - 1) 0"
  have "side_step clk c (?d (0 # ?r) 0 (Indexing 0) (Indexing 0)) (?d (0 # ?r) 0 (Placing 0 0) (Indexing 0))"
    "side_step clk c (?d (0 # ?r) 0 (Placing 0 0) (Indexing 0)) (?d (0 # ?r) 0 (Placing 0 0) (Placing 0 0))"
    "side_step clk c (?d (0 # ?r) 0 (Placing 0 0) (Placing 0 0)) (?d (?x # ?r) 0 (Counting 0) (Placing 0 0))"
    "side_step clk c (?d (?x # ?r) 0 (Counting 0) (Placing 0 0)) (?d (?y # ?r) 0 (Counting 0) (Counting 0))"
    "side_step clk c (?d (?y # ?r) 0 (Counting 0) (Counting 0)) (?d (?y # ?r) 1 (Calling 1) (Counting 0))"
    "side_step clk c (?d (?y # ?r) 1 (Calling 1) (Counting 0)) (?d (?y # ?r) 2 (Calling 1) (Calling 1))"
    by (rule go [OF c(1)] go [OF c(2)], simp add: after_call_def arr_write_def fun_eq_iff; fail)+
  then have "(side_step clk c)\<^sup>*\<^sup>* (?d (0 # ?r) 0 (Indexing 0) (Indexing 0)) (?d (?y # ?r) 2 (Calling 1) (Calling 1))"
    by (meson converse_rtranclp_into_rtranclp rtranclp.rtrancl_refl)
  moreover have "call_made 1 0 (call_made 0 0 (new_side N)) = ?d (0 # ?r) 0 (Indexing 0) (Indexing 0)"
    by (simp add: call_made_def new_side_def N)
  ultimately show ?thesis
    by (intro exI conjI, simp only:) simp_all
qed

section \<open>Properties\<close>

lemma all_rounds_too_many: "2 \<le> c \<Longrightarrow> 2 \<le> N \<Longrightarrow> N + c \<le> c * (N :: nat)"
proof -
  assume a: "2 \<le> c" "2 \<le> N"
  then obtain x y where "c = x + 2" "N = y + 2"
    by (metis add.commute le_Suc_ex)
  then show "N + c \<le> c * N"
    by (simp add: algebra_simps)
qed

lemma stl_ended:
  assumes inv: "stl_inv contents c per N pclk cclk s" and fin: "returned c per (pro s)" "returned c per (con s)" and "0 < c"
  shows "contents (shared_queue s) = []" "mset (popped s) = (\<Sum>i<c. mset (map of_nat [0..<per]))"
    "c = 1 \<Longrightarrow> popped s = map of_nat [0..<per] \<and> stamps (pro s) = deltas (pclk 0) per @ replicate (N - per) 0
            \<and> stamps (con s) = deltas (cclk 0) per @ replicate (N - per) 0"
proof -
  have i: "index_inv c per N (pro s)" "index_inv c per N (con s)"
    using inv by (simp_all add: stl_inv_def)
  show e: "contents (shared_queue s) = []"
    using stl_inv_lengths [OF inv] returned_bound(3) [OF i(1) fin(1)] returned_bound(3) [OF i(2) fin(2)] by simp
  then have p: "popped s = pushed s" "mset (pushed s) = values_called c (pro s)"
    using inv by (simp_all add: stl_inv_def)
  then show "mset (popped s) = (\<Sum>i<c. mset (map of_nat [0..<per]))"
    using fin(1) by (simp add: values_called_def returned_def)
  show "popped s = map of_nat [0..<per] \<and> stamps (pro s) = deltas (pclk 0) per @ replicate (N - per) 0
            \<and> stamps (con s) = deltas (cclk 0) per @ replicate (N - per) 0" if "c = 1"
    using inv fin p(1) that by (simp add: stl_inv_def order_inv_def returned_def)
qed

text \<open>C29: The threads of the Boost benchmark in the \<open>LATENCY\<close> build, \<open>c\<close> producers and \<open>c\<close> consumers in any interleaving over
  a queue that keeps its promise. The values popped and then those in the queue are the values pushed, in order. If the arrays
  have room for all samples, no thread stores outside them and from every state all can still return. Once they have, the queue is
  empty, every value has been popped as often as pushed, and the arrays had room but for at most \<open>c - 1\<close>
  samples; with one thread on a side the arrays hold the samples in order. With the divisor of the source, by which every thread takes
  \<^verbatim>\<open>NUM_SAMPLES\<close> samples, and two or more threads on a side, no run is ever completed.\<close>

theorem stl_conc_runs:
  assumes "boost_shared N contents push pop" and "contents q = []" and "0 < c" and "0 < N"
    and "(stl_step push pop pclk cclk c per)\<^sup>*\<^sup>* (stl_start N q) s"
  shows "popped s @ contents (shared_queue s) = pushed s
    \<and> (c * per \<le> N \<longrightarrow> \<not> overrun s
        \<and> (\<exists>s'. (stl_step push pop pclk cclk c per)\<^sup>*\<^sup>* s s' \<and> returned c per (pro s') \<and> returned c per (con s')))
    \<and> (returned c per (pro s) \<and> returned c per (con s) \<longrightarrow> c * per < N + c \<and> contents (shared_queue s) = []
        \<and> mset (popped s) = (\<Sum>i<c. mset (map of_nat [0..<per]))
        \<and> next_index (pro s) = c * per \<and> next_index (con s) = c * per
        \<and> (c = 1 \<longrightarrow> popped s = map of_nat [0..<per] \<and> stamps (pro s) = deltas (pclk 0) per @ replicate (N - per) 0
            \<and> stamps (con s) = deltas (cclk 0) per @ replicate (N - per) 0)
        \<and> \<not> (2 \<le> c \<and> 2 \<le> N \<and> per = N))"
proof -
  have inv: "stl_inv contents c per N pclk cclk s"
    by (rule stl_run_inv [where contents = contents and q = q, OF assms(5,1,3,4,2)])
  then have i: "index_inv c per N (pro s)" "index_inv c per N (con s)"
    and now: "popped s @ contents (shared_queue s) = pushed s" "c * per \<le> N \<Longrightarrow> \<not> overrun s"
    by (simp_all add: stl_inv_def)
  have ended: "c * per < N + c \<and> contents (shared_queue s) = [] \<and> mset (popped s) = (\<Sum>i<c. mset (map of_nat [0..<per]))
        \<and> next_index (pro s) = c * per \<and> next_index (con s) = c * per
        \<and> (c = 1 \<longrightarrow> popped s = map of_nat [0..<per] \<and> stamps (pro s) = deltas (pclk 0) per @ replicate (N - per) 0
            \<and> stamps (con s) = deltas (cclk 0) per @ replicate (N - per) 0)
        \<and> \<not> (2 \<le> c \<and> 2 \<le> N \<and> per = N)" if fin: "returned c per (pro s)" "returned c per (con s)"
    using returned_bound [OF i(1) fin(1)] returned_bound(1) [OF i(2) fin(2)] stl_ended [OF inv fin assms(3)]
      all_rounds_too_many [of c N] leD by blast
  show ?thesis
    using now ended stl_completes [OF assms(1) _ inv] by blast
qed

lemma list_queue_shared: "boost_shared N (\<lambda>q. q) list_push list_pop"
  by (auto simp: boost_shared_def list_push_def split: prod.splits elim: list_pop.elims)

theorem stl_conc_runs_witness:
  "(\<exists>s. (stl_step list_push list_pop (\<lambda>i k. of_nat (7 * k)) (\<lambda>i k. of_nat (9 * k)) 1 3)\<^sup>*\<^sup>* (stl_start 3 []) s
      \<and> popped s = [0, 1, 2] \<and> stamps (pro s) = [7, 7, 7] \<and> stamps (con s) = [9, 9, 9])
    \<and> (\<nexists>s. (stl_step list_push list_pop (\<lambda>i k. 0) (\<lambda>i k. 0) 2 3)\<^sup>*\<^sup>* (stl_start 3 []) s
        \<and> returned 2 3 (pro s) \<and> returned 2 3 (con s))"
proof
  let ?run = "(stl_step list_push list_pop (\<lambda>i k. of_nat (7 * k)) (\<lambda>i k. of_nat (9 * k)) 1 3)\<^sup>*\<^sup>*"
  note runs = stl_conc_runs [OF list_queue_shared, where N = 3 and q = "[]"]
  obtain s where s: "?run (stl_start 3 []) s" "returned 1 3 (pro s)" "returned 1 3 (con s)"
    using runs [where c = 1 and per = 3 and pclk = "\<lambda>i k. of_nat (7 * k)" and cclk = "\<lambda>i k. of_nat (9 * k)", of "stl_start 3 []"] by auto
  have "deltas (\<lambda>k. of_nat (7 * k)) 3 = [7, 7, 7]" "deltas (\<lambda>k. of_nat (9 * k)) 3 = [9, 9, 9]"
      "map of_nat [0..<3] = [0, 1, 2 :: c_int]"
    by (simp_all add: deltas_def eval_nat_numeral)
  with runs [OF refl _ _ s(1)] s show "\<exists>s. ?run (stl_start 3 []) s \<and> popped s = [0, 1, 2] \<and> stamps (pro s) = [7, 7, 7]
      \<and> stamps (con s) = [9, 9, 9]"
    by (intro exI [of _ s]) simp
  show "\<nexists>s. (stl_step list_push list_pop (\<lambda>i k. 0) (\<lambda>i k. 0) 2 3)\<^sup>*\<^sup>* (stl_start 3 []) s
        \<and> returned 2 3 (pro s) \<and> returned 2 3 (con s)"
    using runs [where c = 2 and per = 3 and pclk = "\<lambda>i k. 0" and cclk = "\<lambda>i k. 0"] by auto
qed

text \<open>C30: Reading the index of the samples and incrementing it are two steps: with two or more threads on a side there is a run
  in which the first two producers, and the first two consumers, store into the same element. Its first sample is lost, the
  index is 2, and the element with index 1 has not been written.\<close>

theorem stl_sample_lost:
  assumes "boost_shared N contents push pop" and "contents q = []" and "2 \<le> c" and "2 \<le> N" and "0 < per"
  shows "\<exists>s. (stl_step push pop pclk cclk c per)\<^sup>*\<^sup>* (stl_start N q) s
    \<and> next_index (pro s) = 2 \<and> stamps (pro s) = (pclk 1 1 - pclk 1 0) # replicate (N - 1) 0
    \<and> next_index (con s) = 2 \<and> stamps (con s) = (cclk 1 1 - cclk 1 0) # replicate (N - 1) 0
    \<and> pushed s = [0, 0] \<and> popped s = [0, 0]"
proof -
  let ?step = "stl_step push pop pclk cclk c per" and ?both = "call_made 1 0 (call_made 0 0 (new_side N))"
  have push: "\<exists>q'. push 0 u = (True, q') \<and> contents q' = contents u @ [0]" if "length (contents u) < N" for u
    using assms(1) that unfolding boost_shared_def by (metis (full_types) leD surj_pair)
  have pop: "\<exists>q'. pop u = (Some v, q') \<and> contents q' = vs" if "contents u = v # vs" for u v vs
    using assms(1) that unfolding boost_shared_def by (metis list.distinct(1) list.inject not_None_eq surj_pair)
  obtain q1 where q1: "push 0 q = (True, q1)" "contents q1 = [0]"
    using push [of q] assms(2,4) by auto
  obtain q2 where q2: "push 0 q1 = (True, q2)" "contents q2 = [0, 0]"
    using push [of q1] q1(2) assms(4) by auto
  obtain q3 where q3: "pop q2 = (Some 0, q3)" "contents q3 = [0]"
    using pop [OF q2(2)] by blast
  obtain q4 where q4: "pop q3 = (Some 0, q4)"
    using pop [OF q3(2)] by blast
  obtain dp where dp: "(side_step pclk c)\<^sup>*\<^sup>* ?both dp" "stamps dp = (pclk 1 1 - pclk 1 0) # replicate (N - 1) 0" "next_index dp = 2"
    using two_samples_one_slot [OF assms(3,4)] by blast
  obtain dc where dc: "(side_step cclk c)\<^sup>*\<^sup>* ?both dc" "stamps dc = (cclk 1 1 - cclk 1 0) # replicate (N - 1) 0" "next_index dc = 2"
    using two_samples_one_slot [OF assms(3,4)] by blast
  let ?s = "\<lambda>u p d xs ys. \<lparr>shared_queue = u, pro = p, con = d, pushed = xs, popped = ys, overrun = False\<rparr>"
  have c: "0 < c" "1 < c"
    using assms(3) by simp_all
  have pc: "pcs (new_side N) 0 = Calling 0" "pcs (call_made 0 0 (new_side N)) 1 = Calling 0"
    by (simp_all add: new_side_def call_made_def)
  have "?step (?s q (new_side N) (new_side N) [] []) (?s q1 (call_made 0 0 (new_side N)) (new_side N) [0] [])"
    using stl_step.push_done [where s = "?s q (new_side N) (new_side N) [] []", OF c(1) _ assms(5)] pc(1) q1(1) by simp
  moreover have "?step (?s q1 (call_made 0 0 (new_side N)) (new_side N) [0] []) (?s q2 ?both (new_side N) [0, 0] [])"
    using stl_step.push_done [where s = "?s q1 (call_made 0 0 (new_side N)) (new_side N) [0] []", OF c(2) _ assms(5)] pc(2) q2(1) by simp
  moreover have "?step (?s q2 ?both (new_side N) [0, 0] []) (?s q3 ?both (call_made 0 0 (new_side N)) [0, 0] [0])"
    using stl_step.pop_done [where s = "?s q2 ?both (new_side N) [0, 0] []", OF c(1) _ assms(5)] pc(1) q3(1) by simp
  moreover have "?step (?s q3 ?both (call_made 0 0 (new_side N)) [0, 0] [0]) (?s q4 ?both ?both [0, 0] [0, 0])"
    using stl_step.pop_done [where s = "?s q3 ?both (call_made 0 0 (new_side N)) [0, 0] [0]", OF c(2) _ assms(5)] pc(2) q4 by simp
  moreover have "?step\<^sup>*\<^sup>* (?s q4 ?both ?both [0, 0] [0, 0]) (?s q4 dp ?both [0, 0] [0, 0])"
    using side_steps_pro [of pclk c "?s q4 ?both ?both [0, 0] [0, 0]"] dp(1) by simp
  moreover have "?step\<^sup>*\<^sup>* (?s q4 dp ?both [0, 0] [0, 0]) (?s q4 dp dc [0, 0] [0, 0])"
    using side_steps_con [of cclk c "?s q4 dp ?both [0, 0] [0, 0]"] dc(1) by simp
  ultimately have "?step\<^sup>*\<^sup>* (stl_start N q) (?s q4 dp dc [0, 0] [0, 0])"
    unfolding stl_start_def by (meson converse_rtranclp_into_rtranclp rtranclp_trans)
  then show ?thesis
    using dp dc by (intro exI [of _ "?s q4 dp dc [0, 0] [0, 0]"]) simp
qed

theorem stl_sample_lost_witness:
  "\<exists>s. (stl_step list_push list_pop (\<lambda>i k. of_nat (i + 7 * k)) (\<lambda>i k. of_nat ((i + 1) * 5 * k)) 2 4)\<^sup>*\<^sup>* (stl_start 4 []) s
    \<and> next_index (con s) = 2 \<and> stamps (con s) = [10, 0, 0, 0]"
  using stl_sample_lost [OF list_queue_shared, of "[]" 2 4 4 "\<lambda>i k. of_nat (i + 7 * k)" "\<lambda>i k. of_nat ((i + 1) * 5 * k)"]
  by (auto simp: eval_nat_numeral)

end
