(* ===== verification/Ring_Rounds.thy ===== *)
theory Ring_Rounds
  imports Round_Conc
begin

text \<open>
  The interleaved latency rounds of the queue types 1 and 4 of \<^verbatim>\<open>QueueBenchmarks/sqmain.c\<close>: the ring of \<open>Ring_Conc\<close>
  with all threads of the round, and the array of rings of \<^verbatim>\<open>squeuemultiple.c\<close> with one producer and one
  consumer on each, keep the contract of \<open>Round_Conc\<close>.
\<close>

section \<open>One ring\<close>



section \<open>A ring for each pair of threads\<close>







section \<open>The report does not depend on the interleaving\<close>




section \<open>The two rounds\<close>











section \<open>A round of six samples\<close>




end
