(* ===== verification/Spec2Isabelle.thy ===== *)
theory Spec2Isabelle
  imports XTask_Ring SQueue_Main Ring_Conc Basic_Queue Bench_Main Bench_Args Openmp_Rounds Rcu_Main Simple_Threads Semi_Conc Atomic_Conc Lock_Free_Conc Stl_Queue Lock_Stats Mpi_Program Bmm_Handlers Basic_Conc Lock_Free_Test Turn_Rounds SQueue_Program Bench_Program Stl_Conc Ring_Rounds
begin

text \<open>
  A verification development for the concurrent queue collection: six programs that implement and
  measure FIFO queues between producer and consumer threads.

  \<^bold>\<open>The programs and how they interact.\<close>
  \<^verbatim>\<open>SQueue\<close> is the array queue: two ever growing tickets, \<^verbatim>\<open>head\<close> and \<^verbatim>\<open>tail\<close>, incremented atomically, and an
  array in which 0 marks an empty slot; \<^verbatim>\<open>sqmain.c\<close> runs enqueue and dequeue threads over it.
  \<^verbatim>\<open>QueueBenchmarks\<close> has the same queue again (polling \<^verbatim>\<open>isEmpty\<close>), as an object (\<^verbatim>\<open>xtaskqueue.c\<close>), as an
  array of rings (\<^verbatim>\<open>squeuemultiple.c\<close>), a linked queue under a mutex (\<^verbatim>\<open>basicqueue.c\<close>), and one
  program, \<^verbatim>\<open>sqmain.c\<close>, that times them against queues of other libraries. \<^verbatim>\<open>SimpleQueueImpl\<close> has six
  queues of tasks and integers with single-threaded tests. \<^verbatim>\<open>mpi_queue\<close> hands the elements of an array
  queue of process 0 to requests of other processes. \<^verbatim>\<open>locks\<close> times a shared counter under locks, and
  \<^verbatim>\<open>stlqueue\<close> times Boost's lock-free queue.

  \<^bold>\<open>Conventions.\<close>
  An operation of the code is a function into \<open>outcome\<close> (theory \<open>Prelude\<close>): \<open>Ret\<close> a value,
  \<open>Fault\<close> where C leaves the behaviour undefined (index outside an array, signed overflow, division
  by zero, dangling pointer), \<open>Hang\<close> where the caller waits for something nobody does. An \<^verbatim>\<open>int\<close>
  counter that is incremented atomically is a \<open>32 word\<close> read as signed, a tick count a \<open>64 word\<close>,
  an array a list of its length with checked accesses, a \<^verbatim>\<open>float\<close> or \<^verbatim>\<open>double\<close> a real, rounded only where an integer sum
  is converted: divisions (by \<^verbatim>\<open>clockFreq\<close> in the summaries) and square roots are exact. Loops with a bound recur on it; a retry or clock-driven loop is a
  \<open>partial_function (option)\<close>, so that running for ever is \<open>None\<close>, and the theorems about it state that
  the result is \<open>Some\<close>. Concurrency is a step relation with one shared memory access in each
  step, over sequentially consistent memory; where the calls of a queue are critical sections of one mutex or atomic operations of a
  library, a whole call is one turn of a thread, and the order of the turns is a parameter (theory \<open>Turns\<close>).

  \<^bold>\<open>Theories.\<close>
  \<open>Queue_Contract\<close> states the interfaces: \<open>fifo_queue\<close> (one enqueue and one dequeue over an
  abstraction to a list), \<open>bounded_fifo\<close> (capacity and the tickets left), \<open>polled_queue\<close> (a dequeue
  that reports emptiness), and proves the clients once: fill, drain, arbitrary sequences of calls. Every
  queue below interprets them, and its refinement property is the instance.
  \<^item> \<open>Ring_Ops\<close>, \<open>SQueue_Ring\<close>, \<open>Bench_Ring\<close>, \<open>XTask_Ring\<close>, \<open>Multi_Ring\<close>: the ring record and its
    micro-operations, and the array queues of \<^verbatim>\<open>SQueue/squeue.c\<close>, \<^verbatim>\<open>QueueBenchmarks/squeue.c\<close>, the two
    \<^verbatim>\<open>xtaskqueue.c\<close> and \<^verbatim>\<open>squeuemultiple.c\<close>: refinement of a bounded list as long as the tickets stay below
    \<open>2 ^ 31\<close>, what full, empty and wrapped rings do.
  \<^item> \<open>Ring_Conc\<close>: any number of producers and consumers of the ring, for both versions of
    \<^verbatim>\<open>Dequeue\<close>: the invariant over tickets, slots and history; safety, completion, absence of deadlock and
    of livelock other than polling; the round of \<^verbatim>\<open>sqmain.c\<close>.
  \<^item> \<open>SQueue_Main\<close>: the handlers and the rounds with one thread of \<^verbatim>\<open>SQueue/sqmain.c\<close>. \<open>SQueue_Program\<close>: its whole
    \<^verbatim>\<open>main\<close>, all thread counts of both loops, with the lines it prints. \<open>Basic_Queue\<close>: the two linked queues.
    \<open>Basic_Conc\<close>: the linked queue under any number of threads, and the round of \<^verbatim>\<open>SimpleQueueImpl/main.c\<close> on it.
  \<^item> \<open>Bench_Loops\<close>, \<open>Bench_Handlers\<close>, \<open>Summary\<close>: \<^verbatim>\<open>QueueBenchmarks/sqmain.c\<close>: the timing loops and the
    globals of the samples, the thread handlers in both builds, the merge of the samples into the global
    arrays, the statistics, the calibration and the random intervals. \<open>Turns\<close>: threads that take turns in a given
    order, and the threads of queue types 3 and 5. \<open>Bench_Main\<close>: the rounds of its
    \<^verbatim>\<open>main\<close> for queue types 1, 3, 4 and 8, from the thread list to the printed report. \<open>Multi_Main\<close>: what
    the rounds of types 4 and 8 report and leave behind. \<open>Turn_Rounds\<close>: what a round of threads that take turns comes to, for every order of the
    turns and every queue that keeps the contract \<open>turn_queue\<close>; the reports of types 1 and 3.
    \<open>Bmm_Handlers\<close>: the threads and the round of type 2. \<open>Rcu_Main\<close>, \<open>Openmp_Rounds\<close>: the rounds of type 5 and of types 6 and 7. \<open>Bench_Args\<close>: its command line and that of
    \<^verbatim>\<open>stlqueue.cpp\<close>. \<open>Bench_Program\<close>: the program from end to end, from the arguments over the clock frequency and
    the rounds of the type that was asked for to the exit status. \<open>Round_Conc\<close>: a latency round with its threads
    interleaved (barrier, timed calls, merge of the samples under the mutex) over any queue that keeps the contract
    \<open>concurrent_queue\<close>; \<open>Ring_Rounds\<close>: the rounds of types 1 and 4 keep it, never break, can always be completed, and
    print the report of the round that runs its threads one after the other.
  \<^item> \<open>Task_Queue\<close>, \<open>Semi_Blocking\<close>, \<open>Lock_Free\<close>, \<open>Simple_Main\<close>: \<^verbatim>\<open>SimpleQueueImpl\<close>: the three task queues, the
    two linked queues over explicit stores, and the tests of \<^verbatim>\<open>main.c\<close>. \<open>Blocking_Conc\<close>: the blocking queue
    under any number of threads: mutual exclusion, order, bounds, completion. \<open>Simple_Threads\<close>: the
    multi-threaded test on it. \<open>Semi_Conc\<close>: the semi-blocking queue under any number of threads is
    linearizable and every run ends. \<open>Atomic_Conc\<close>: the atomic queue under any number of threads loses and
    duplicates no task as long as the tasks fit, and what becomes of a consumer alone; its multi-threaded test.
    \<open>Lock_Free_Conc\<close>: the lock-free queue as code with one memory access in each step, run by any number of
    threads: a thread alone finishes its call with the sequential result; from any well-formed queue two pushes can follow \<^verbatim>\<open>NULL\<close>, and two
    pops of the only value can free the same node. An access reads the bytes at its offset, whatever the block was allocated for;
    the model's \<^verbatim>\<open>malloc\<close> never reuses an address, and of interleavings only the existence of some is claimed. \<open>Lock_Free_Test\<close>: the multi-threaded test on it.
  \<^item> \<open>Spin_Locks\<close>, \<open>Lock_Stats\<close>: the lock and the counting threads of \<^verbatim>\<open>locks/locks.c\<close>, its statistics, what it prints of
    them, and its \<^verbatim>\<open>main\<close>.
  \<^item> \<open>Stl_Queue\<close>: \<^verbatim>\<open>stlqueue.cpp\<close>: exchange sort, producer, consumer, summary and round.
    \<open>Stl_Conc\<close>: its producers and consumers interleaved: order, completion, the bound on the arrays, a lost sample.
  \<^item> \<open>Mpi_Main\<close>, \<open>Mpi_System\<close>: \<^verbatim>\<open>mpi_queue/main.c\<close>: server and worker, and all processes together.
    \<open>Mpi_Program\<close>: the processes from their launch over the two barriers to the lines they print.

  \<^bold>\<open>Parameters.\<close>
  What the program calls but the repository does not hold is an argument: \<^verbatim>\<open>qsort\<close> (with the contract
  \<open>qsort_contract\<close>, kept by \<open>sort_by\<close>), \<^verbatim>\<open>rand\<close>, the time stamp counter and the clock (streams of
  readings), the memory returned by \<^verbatim>\<open>malloc\<close> (any contents), Concurrency Kit's ring and
  userspace-RCU's queue (their operations), Boost's and liblfds's queues (with the contracts
  \<open>boost_queue\<close> for one caller, \<open>boost_shared\<close>, \<open>bmm_contract\<close> and \<open>rcu_contract\<close> for concurrent ones, whose calls are atomic), the size of a
  pointer, and the order in which threads take their turns.

  \<^bold>\<open>Not modelled.\<close>
  File output, pinning of threads and the inline assembly of \<^verbatim>\<open>getticks\<close>. The threads of a round in
  \<open>SQueue_Program\<close>, \<open>Stl_Queue\<close>, \<open>Lock_Stats\<close> and, for queue types 1, 4 and 8, \<open>Bench_Main\<close> run one after the other: a dequeue of
  theirs waits for its element, and \<open>Ring_Rounds\<close> shows for types 1 and 4 that interleaved rounds end with the same report.
  \<open>Turn_Rounds\<close>, \<open>Rcu_Main\<close> and \<open>Bmm_Handlers\<close> (types 3, 5 and 2) hold for every order of the turns;
  \<open>Ring_Conc\<close>, \<open>Round_Conc\<close>, \<open>Ring_Rounds\<close>, \<open>Basic_Conc\<close>, \<open>Stl_Conc\<close> and \<open>Spin_Locks\<close> interleave single accesses. A step of
  \<open>Semi_Conc\<close> reads the two list heads together when the first is empty; no other thread can tell, as its invariant shows.
\<close>

end
